(* ===== verification/Prelude.thy ===== *)
theory Prelude
  imports Main "HOL-Library.Word"
begin

text \<open>
  Shared vocabulary of the development: the C integer types as words of fixed width, the ways
  a routine of the repository stops (a failed \<open>assert\<close>, \<open>demand\<close> or \<open>panic\<close>, an out-of-bounds
  access, a stub that calls \<open>unimplemented()\<close>), the result type that carries them, and the
  lemmas on lists, results and words that several components use.
\<close>

unbundle bit_operations_syntax

text \<open>
  Collections the components fill and their proofs use: the numbers of messages and registers, the
  definitions that evaluate a packed layout, and the inversion rules of the result type.
\<close>

named_theorems opcodes \<open>numbers of opcodes and device registers\<close>
named_theorems layouts \<open>rules that evaluate the layout of a packed struct\<close>
named_theorems inversions \<open>what a result \<open>Inr\<close> says about the steps that led to it\<close>

section \<open>C types\<close>

type_synonym u8 = "8 word"
type_synonym u16 = "16 word"
type_synonym u32 = "32 word"
type_synonym bytes = "u8 list"

text \<open>A string literal of the source as bytes, and a character constant.\<close>

definition bstr :: "string \<Rightarrow> bytes" where
  "bstr = map of_char"

definition ch :: "char \<Rightarrow> u8" where
  "ch c = of_char c"

section \<open>Ways to stop, and results\<close>

text \<open>
  \<open>panic\<close>, \<open>assert\<close> and \<open>demand\<close> of \<^verbatim>\<open>libpi/libc/assert.h\<close> print a message and reboot (on the
  Unix side they exit): they never return. \<open>Bounds\<close> marks an access outside an object, which
  C leaves undefined; \<open>Unimplemented\<close> is the \<open>unimplemented()\<close> stub; \<open>OutOfInput\<close> is a
  blocking read on a stream that will never deliver; \<open>Uninit\<close> is a branch on a variable that
  was never assigned; \<open>UndefShift\<close> is a shift by a negative amount; \<open>Diverges\<close> is a loop that
  used up the fuel of its model.
\<close>

datatype fault =
    Panic string
  | AssertFail string
  | DemandFail string
  | Bounds
  | Unimplemented
  | OutOfInput
  | Uninit
  | UndefShift
  | Diverges

type_synonym 'a result = "fault + 'a"

definition rbind :: "'a result \<Rightarrow> ('a \<Rightarrow> 'b result) \<Rightarrow> 'b result" where
  "rbind m f = (case m of Inl e \<Rightarrow> Inl e | Inr x \<Rightarrow> f x)"

definition c_assert :: "bool \<Rightarrow> string \<Rightarrow> unit result" where
  "c_assert b msg = (if b then Inr () else Inl (AssertFail msg))"

definition c_demand :: "bool \<Rightarrow> string \<Rightarrow> unit result" where
  "c_demand b msg = (if b then Inr () else Inl (DemandFail msg))"

text \<open>An array read that faults outside the object.\<close>

definition arr_get :: "'a list \<Rightarrow> nat \<Rightarrow> 'a result" where
  "arr_get xs i = (if i < length xs then Inr (xs ! i) else Inl Bounds)"

text \<open>An array write that faults outside the object.\<close>

definition arr_set :: "'a list \<Rightarrow> nat \<Rightarrow> 'a \<Rightarrow> 'a list result" where
  "arr_set xs i v = (if i < length xs then Inr (xs[i := v]) else Inl Bounds)"

text \<open>
  \<open>while(cond) body\<close> with fuel: the condition may have effects. A loop that needs more rounds
  than its fuel ends in \<open>Diverges\<close>, so a proof that it returns shows that the fuel is enough.
\<close>

fun c_while :: "nat \<Rightarrow> ('s \<Rightarrow> (bool \<times> 's) result) \<Rightarrow> ('s \<Rightarrow> 's result) \<Rightarrow> 's \<Rightarrow> 's result" where
  "c_while 0 cond body s = Inl Diverges"
| "c_while (Suc k) cond body s =
     rbind (cond s) (\<lambda>(b, s1). if b then rbind (body s1) (c_while k cond body) else Inr s1)"

lemma rbind_Inl [simp]: "rbind (Inl e) f = Inl e"
  by (simp add: rbind_def)

lemma rbind_Inr [simp]: "rbind (Inr x) f = f x"
  by (simp add: rbind_def)

lemma rbind_eq_Inr: "rbind m f = Inr y \<longleftrightarrow> (\<exists>x. m = Inr x \<and> f x = Inr y)"
  by (cases m) simp_all

lemma rbind_eq_Inl: "rbind m f = Inl e \<longleftrightarrow> m = Inl e \<or> (\<exists>x. m = Inr x \<and> f x = Inl e)"
  by (cases m) simp_all

lemma rbind_assoc: "rbind (rbind m f) g = rbind m (\<lambda>x. rbind (f x) g)"
  by (cases m) simp_all

lemma rbind_split: "P (rbind m f) \<longleftrightarrow> (\<forall>e. m = Inl e \<longrightarrow> P (Inl e)) \<and> (\<forall>x. m = Inr x \<longrightarrow> P (f x))"
  by (cases m) simp_all

lemma rbind_cong [fundef_cong]:
  "m = m' \<Longrightarrow> (\<And>x. m' = Inr x \<Longrightarrow> f x = f' x) \<Longrightarrow> rbind m f = rbind m' f'"
  by (cases m') simp_all

lemma c_assert_True [simp]: "c_assert True msg = Inr ()"
  by (simp add: c_assert_def)

lemma c_assert_False [simp]: "c_assert False msg = Inl (AssertFail msg)"
  by (simp add: c_assert_def)

lemma c_assert_eq_Inr: "c_assert b msg = Inr u \<longleftrightarrow> b"
  by (simp add: c_assert_def)

lemma c_demand_True [simp]: "c_demand True msg = Inr ()"
  by (simp add: c_demand_def)

lemma c_demand_False [simp]: "c_demand False msg = Inl (DemandFail msg)"
  by (simp add: c_demand_def)

lemma c_demand_eq_Inr: "c_demand b msg = Inr u \<longleftrightarrow> b"
  by (simp add: c_demand_def)

lemma arr_get_in [simp]: "i < length xs \<Longrightarrow> arr_get xs i = Inr (xs ! i)"
  by (simp add: arr_get_def)

lemma arr_get_out [simp]: "length xs \<le> i \<Longrightarrow> arr_get xs i = Inl Bounds"
  by (simp add: arr_get_def)

lemma arr_get_eq_Inr: "arr_get xs i = Inr x \<longleftrightarrow> i < length xs \<and> x = xs ! i"
  by (auto simp: arr_get_def)

lemma arr_set_in [simp]: "i < length xs \<Longrightarrow> arr_set xs i v = Inr (xs[i := v])"
  by (simp add: arr_set_def)

lemma arr_set_out [simp]: "length xs \<le> i \<Longrightarrow> arr_set xs i v = Inl Bounds"
  by (simp add: arr_set_def)

lemmas result_inversions [inversions] =
  rbind_eq_Inr c_assert_eq_Inr c_demand_eq_Inr arr_get_eq_Inr

text \<open>Where the first separator is, a text is cut in one way only.\<close>

lemma first_sep:
  "x @ c # y = x' @ c # y' \<Longrightarrow> c \<notin> set x \<Longrightarrow> c \<notin> set x' \<Longrightarrow> x = x' \<and> y = y'"
proof (induction x arbitrary: x')
  case Nil
  then show ?case by (cases x') auto
next
  case (Cons a x)
  then show ?case by (cases x') auto
qed

section \<open>Words\<close>

lemma all_less_16: "(\<forall>k < 16. P k) \<longleftrightarrow>
    P 0 \<and> P 1 \<and> P 2 \<and> P 3 \<and> P 4 \<and> P 5 \<and> P 6 \<and> P 7 \<and> P 8 \<and> P 9 \<and> P 10 \<and> P 11 \<and> P 12
    \<and> P 13 \<and> P 14 \<and> P (15 :: nat)"
  by (simp add: eval_nat_numeral All_less_Suc) blast

lemma unat_Suc_lt: "unat (x :: u32) + 1 < 2 ^ 32 \<Longrightarrow> unat (x + 1) = unat x + 1"
  by (simp add: unat_word_ariths)

lemma unat_add_u32: "unat (x :: u32) + unat y < 2 ^ 32 \<Longrightarrow> unat (x + y) = unat x + unat y"
  by (simp add: unat_word_ariths)

lemma unat_plus_1: "(x :: 'a::len word) + 1 \<noteq> 0 \<Longrightarrow> unat (x + 1) = Suc (unat x)"
  using unatSuc [of x] by (simp add: add.commute)

lemma word_Suc_ne_0: "(x :: 'a::len word) < y \<Longrightarrow> x + 1 \<noteq> 0"
  by (auto simp: add_eq_0_iff2 word_order.extremum_strict)

lemma unat_sub_u32: "y \<le> (x :: u32) \<Longrightarrow> unat (x - y) = unat x - unat y"
  by (simp add: unat_sub_if' word_le_nat_alt)

lemma unat_lt_2p32: "unat (x :: u32) < 2 ^ 32"
  using unsigned_less [of x] by simp

lemma unat_lt_256: "unat (x :: u8) < 256"
  using unsigned_less [of x] by simp

lemma mask_8: "(mask 8 :: 'a::len word) = 0xFF"
  by (simp add: mask_eq_exp_minus_1)

lemma unat_drop_bit: "unat (drop_bit n (x :: u32)) = unat x div 2 ^ n"
  using unat_lt_2p32 [of x]
  by (simp only: unsigned_drop_bit_eq) (simp add: drop_bit_eq_div take_bit_eq_mod)

lemma unat_of_nat_u32: "k < 2 ^ 32 \<Longrightarrow> unat (word_of_nat k :: u32) = k"
  by (simp add: unat_of_nat)

lemma unat_of_nat_u8: "k < 256 \<Longrightarrow> unat (word_of_nat k :: u8) = k"
  by (simp add: unat_of_nat)

lemma and_0xFF: "x AND 0xFF = take_bit 8 (x :: 'a::len word)"
  by (simp add: take_bit_eq_mask mask_8)

lemma unat_and_0xFF: "unat ((x :: u32) AND 0xFF) = unat x mod 256"
  by (simp only: and_0xFF unsigned_take_bit_eq) (simp add: take_bit_eq_mod)

lemma uint_pos: "(x :: 'a::len word) \<noteq> 0 \<Longrightarrow> 0 < uint x"
  using uint_0_iff [of x] unsigned_greater_eq [of x] by (simp add: order_less_le)

lemma unat_and_3: "unat ((x :: u32) AND 3) = unat x mod 4"
proof -
  have "(3 :: u32) = mask 2" by (simp add: mask_eq_exp_minus_1)
  then have "unat (x AND 3) = unat (take_bit 2 x)" by (simp only: take_bit_eq_mask)
  also have "\<dots> = unat x mod 4"
    by (simp only: unsigned_take_bit_eq) (simp add: take_bit_eq_mod)
  finally show ?thesis .
qed

lemma sint_bounds: "- (2 ^ 31) \<le> sint (v :: u32)" "sint (v :: u32) < 2 ^ 31"
  using sint_greater_eq [of v] sint_less [of v] by simp_all

lemma unat_sint_nonneg:
  assumes "0 \<le> sint (v :: u32)"
  shows "int (unat v) = sint v"
proof -
  have "uint v = sint v mod 2 ^ 32" using uint_sint [of v] by (simp add: take_bit_eq_mod)
  then show ?thesis using assms sint_bounds [of v] by simp
qed

lemma unat_sint_neg:
  assumes "sint (v :: u32) < 0"
  shows "int (unat (- v)) = - sint v"
proof -
  have "- v = word_of_int (- sint v)" by simp
  then have "uint (- v) = (- sint v) mod 2 ^ 32"
    by (simp only: unsigned_of_int) (simp add: take_bit_eq_mod)
  then show ?thesis using assms sint_bounds [of v] by simp
qed

section \<open>Little-endian words in bytes, and flat memory\<close>

definition le32 :: "u8 \<Rightarrow> u8 \<Rightarrow> u8 \<Rightarrow> u8 \<Rightarrow> u32" where
  "le32 b0 b1 b2 b3 =
     ucast b0 OR push_bit 8 (ucast b1) OR push_bit 16 (ucast b2) OR push_bit 24 (ucast b3)"

definition byte_of :: "nat \<Rightarrow> u32 \<Rightarrow> u8" where
  "byte_of k w = ucast (drop_bit (8 * k) w)"

definition bytes_of_u32 :: "u32 \<Rightarrow> bytes" where
  "bytes_of_u32 w = [byte_of 0 w, byte_of 1 w, byte_of 2 w, byte_of 3 w]"

lemma byte_of_le32 [simp]:
  "byte_of 0 (le32 b0 b1 b2 b3) = b0"
  "byte_of (Suc 0) (le32 b0 b1 b2 b3) = b1"
  "byte_of 2 (le32 b0 b1 b2 b3) = b2"
  "byte_of 3 (le32 b0 b1 b2 b3) = b3"
  by (rule bit_word_eqI, auto simp: byte_of_def le32_def bit_simps dest: bit_imp_le_length)+

lemma le32_byte_of [simp]: "le32 (byte_of 0 w) (byte_of (Suc 0) w) (byte_of 2 w) (byte_of 3 w) = w"
proof (rule bit_word_eqI)
  fix n
  assume "n < LENGTH(32)"
  then consider "n < 8" | "8 \<le> n" "n < 16" | "16 \<le> n" "n < 24" | "24 \<le> n" "n < 32"
    by force
  then show "bit (le32 (byte_of 0 w) (byte_of (Suc 0) w) (byte_of 2 w) (byte_of 3 w)) n \<longleftrightarrow> bit w n"
    by cases (auto simp: byte_of_def le32_def bit_simps)
qed

lemma bytes_of_u32_inj: "bytes_of_u32 v = bytes_of_u32 w \<longleftrightarrow> v = w"
proof
  assume "bytes_of_u32 v = bytes_of_u32 w"
  then have b: "byte_of 0 v = byte_of 0 w" "byte_of (Suc 0) v = byte_of (Suc 0) w"
    "byte_of 2 v = byte_of 2 w" "byte_of 3 v = byte_of 3 w"
    by (simp_all add: bytes_of_u32_def)
  have "v = le32 (byte_of 0 v) (byte_of (Suc 0) v) (byte_of 2 v) (byte_of 3 v)"
    by (rule le32_byte_of [symmetric])
  also have "\<dots> = w" by (simp only: b le32_byte_of)
  finally show "v = w" .
qed simp

type_synonym ram = "u32 \<Rightarrow> u8"

definition ld32 :: "ram \<Rightarrow> u32 \<Rightarrow> u32" where
  "ld32 m a = le32 (m a) (m (a + 1)) (m (a + 2)) (m (a + 3))"

definition st32 :: "ram \<Rightarrow> u32 \<Rightarrow> u32 \<Rightarrow> ram" where
  "st32 m a w = m(a := byte_of 0 w, a + 1 := byte_of 1 w, a + 2 := byte_of 2 w, a + 3 := byte_of 3 w)"

lemma ld32_st32 [simp]: "ld32 (st32 m a w) a = w"
  by (simp add: ld32_def st32_def)

lemma st32_ld32:
  "st32 m d (ld32 m s) = m(d := m s, d + 1 := m (s + 1), d + 2 := m (s + 2), d + 3 := m (s + 3))"
  by (simp add: ld32_def st32_def)

end
