(* ===== verification/Circular.thy ===== *)
theory Circular
  imports Prelude
begin

text \<open>
  The lock-free circular FIFO of \<^verbatim>\<open>libpi/libc/circular.h\<close>, used by the uart interrupt code and
  by the esp lexer. The ring size \<open>CQ_N\<close> is a macro each client may redefine, so it is the
  first argument \<open>N\<close> of the operations. The state is the struct \<open>cq_t\<close>; one slot is kept
  empty to tell a full ring from an empty one.
\<close>

section \<open>State and operations\<close>

record cq_t =
  c_buf :: bytes
  fence :: u32
  head :: u32
  tail :: u32
  overflow :: u32
  errors_fatal_p :: "1 word"

definition CQ_N :: u32 where
  "CQ_N = 8192"

definition cq_empty :: "cq_t \<Rightarrow> bool" where
  "cq_empty q = (head q = tail q)"

definition cq_full :: "u32 \<Rightarrow> cq_t \<Rightarrow> bool" where
  "cq_full N q = ((head q + 1) mod N = tail q)"

definition cq_nelem :: "u32 \<Rightarrow> cq_t \<Rightarrow> u32" where
  "cq_nelem N q = (head q - tail q) mod N"

definition cq_nspace :: "u32 \<Rightarrow> cq_t \<Rightarrow> u32" where
  "cq_nspace N q = N - cq_nelem N q"

text \<open>The C routine returns 0 or 1 and writes \<open>*e\<close> on success: the result is an option.\<close>

definition cq_pop_nonblock :: "u32 \<Rightarrow> cq_t \<Rightarrow> (u8 option \<times> cq_t) result" where
  "cq_pop_nonblock N c =
     (if cq_empty c then Inr (None, c)
      else rbind (arr_get (c_buf c) (unat (tail c))) (\<lambda>e.
        Inr (Some e, c\<lparr>tail := (tail c + 1) mod N\<rparr>)))"

definition cq_pop :: "u32 \<Rightarrow> cq_t \<Rightarrow> (u8 \<times> cq_t) result" where
  "cq_pop N c =
     rbind (cq_pop_nonblock N c) (\<lambda>(r, c').
       case r of
         None \<Rightarrow> Inl (Panic ''will deadlock: interrupts not enabled'')
       | Some e \<Rightarrow> Inr (e, c'))"

definition cq_push :: "u32 \<Rightarrow> cq_t \<Rightarrow> u8 \<Rightarrow> (bool \<times> cq_t) result" where
  "cq_push N c x =
     (if cq_full N c then Inr (False, c)
      else rbind (arr_set (c_buf c) (unat (head c)) x) (\<lambda>b.
        Inr (True, c\<lparr>c_buf := b, head := (head c + 1) mod N\<rparr>)))"

definition cq_peek :: "cq_t \<Rightarrow> u8 option result" where
  "cq_peek c =
     (if cq_empty c then Inr None
      else rbind (arr_get (c_buf c) (unat (tail c))) (\<lambda>e. Inr (Some e)))"

text \<open>The \<open>for\<close> loop of \<open>cq_pop_n\<close>, counting down the bytes still to pop.\<close>

fun cq_pop_loop :: "u32 \<Rightarrow> cq_t \<Rightarrow> nat \<Rightarrow> (bytes \<times> cq_t) result" where
  "cq_pop_loop N c 0 = Inr ([], c)"
| "cq_pop_loop N c (Suc k) =
     rbind (cq_pop N c) (\<lambda>(e, c').
       rbind (cq_pop_loop N c' k) (\<lambda>(es, c''). Inr (e # es, c'')))"

definition cq_pop_n :: "u32 \<Rightarrow> cq_t \<Rightarrow> u32 \<Rightarrow> (bytes \<times> cq_t) result" where
  "cq_pop_n N c n = cq_pop_loop N c (unat n)"

definition cq_pop_n_noblk :: "u32 \<Rightarrow> cq_t \<Rightarrow> u32 \<Rightarrow> (bytes option \<times> cq_t) result" where
  "cq_pop_n_noblk N q n =
     (if cq_nelem N q < n then Inr (None, q)
      else rbind (cq_pop_n N q n) (\<lambda>(es, q'). Inr (Some es, q')))"

definition cq_peek_n :: "u32 \<Rightarrow> cq_t \<Rightarrow> u32 \<Rightarrow> (bytes option \<times> cq_t) result" where
  "cq_peek_n N c n =
     (let sz = cq_nelem N c in
      if sz < n then Inr (None, c)
      else rbind (cq_pop_n_noblk N c n) (\<lambda>(r, c').
        case r of
          None \<Rightarrow> Inr (None, c')
        | Some es \<Rightarrow>
            (let c'' = c'\<lparr>tail := tail c\<rparr> in
             rbind (c_assert (sz = cq_nelem N c'') ''sz == cq_nelem(c)'') (\<lambda>_.
               Inr (Some es, c'')))))"

text \<open>The \<open>for\<close> loop of \<open>cq_push_n\<close> over the bytes still to push.\<close>

fun cq_push_loop :: "u32 \<Rightarrow> cq_t \<Rightarrow> bytes \<Rightarrow> cq_t result" where
  "cq_push_loop N c [] = Inr c"
| "cq_push_loop N c (x # xs) =
     rbind (cq_push N c x) (\<lambda>(ok, c').
       if ok then cq_push_loop N c' xs else Inl (Panic ''not handling this''))"

text \<open>\<open>data\<close> is the caller's buffer of \<open>n\<close> bytes.\<close>

definition cq_push_n :: "u32 \<Rightarrow> cq_t \<Rightarrow> bytes \<Rightarrow> u32 \<Rightarrow> (bool \<times> cq_t) result" where
  "cq_push_n N c data n =
     (if cq_nspace N c < n then Inr (False, c)
      else if length data < unat n then Inl Bounds
      else rbind (cq_push_loop N c (take (unat n) data)) (\<lambda>c'.
        rbind (c_assert (n = 0 \<or> \<not> cq_empty c') ''!cq_empty(c)'') (\<lambda>_.
          Inr (True, c'))))"

definition cq_ok :: "cq_t \<Rightarrow> unit result" where
  "cq_ok c = (if fence c \<noteq> 0x12345678 then Inl (Panic ''fence is corrupted'') else Inr ())"

text \<open>\<open>cq_init\<close> overwrites the whole struct, then checks the empty queue with asserts.\<close>

definition cq_init :: "u32 \<Rightarrow> u32 \<Rightarrow> cq_t result" where
  "cq_init N errors_fatal =
     (let c = \<lparr>c_buf = replicate (unat N) 0, fence = 0x12345678, head = 0, tail = 0,
               overflow = 0, errors_fatal_p = ucast errors_fatal\<rparr> in
      rbind (c_assert (cq_empty c) ''cq_empty(c)'') (\<lambda>_.
      rbind (c_assert (\<not> cq_full N c) ''!cq_full(c)'') (\<lambda>_.
      rbind (c_assert (cq_nelem N c = 0) ''cq_nelem(c) == 0'') (\<lambda>_.
      rbind (cq_pop_nonblock N c) (\<lambda>(r, c').
      rbind (c_assert (r = None) ''cq_pop_nonblock(c,&e) == 0'') (\<lambda>_.
        Inr c'))))))"

section \<open>Invariant and abstraction\<close>

text \<open>
  The ring size must divide \<open>2 ^ 32\<close>: only then is \<open>(head - tail) % N\<close>, computed with unsigned
  wrap-around, the number of elements. Every size the repository uses is a power of two.
\<close>

definition cq_size_ok :: "u32 \<Rightarrow> bool" where
  "cq_size_ok N \<longleftrightarrow> 2 \<le> unat N \<and> unat N dvd 2 ^ 32"

definition cq_inv :: "u32 \<Rightarrow> cq_t \<Rightarrow> bool" where
  "cq_inv N q \<longleftrightarrow> cq_size_ok N \<and> length (c_buf q) = unat N \<and> head q < N \<and> tail q < N
     \<and> fence q = 0x12345678"

text \<open>The slots in use, from \<open>tail\<close> on, and the queue as a list, oldest element first.\<close>

definition ring_count :: "nat \<Rightarrow> nat \<Rightarrow> nat \<Rightarrow> nat" where
  "ring_count n h t = (h + n - t) mod n"

definition ring_slice :: "'a list \<Rightarrow> nat \<Rightarrow> nat \<Rightarrow> 'a list" where
  "ring_slice b t k = map (\<lambda>i. b ! ((t + i) mod length b)) [0..<k]"

definition cq_list :: "u32 \<Rightarrow> cq_t \<Rightarrow> bytes" where
  "cq_list N q = ring_slice (c_buf q) (unat (tail q))
     (ring_count (unat N) (unat (head q)) (unat (tail q)))"

section \<open>Ring arithmetic\<close>

lemma ring_count_0_iff: "h < n \<Longrightarrow> t < n \<Longrightarrow> ring_count n h t = 0 \<longleftrightarrow> h = t"
  by (auto simp: ring_count_def mod_if)

lemma ring_count_less: "0 < n \<Longrightarrow> ring_count n h t < n"
  by (simp add: ring_count_def)

lemma ring_count_head:
  "h < n \<Longrightarrow> t < n \<Longrightarrow> (h + 1) mod n \<noteq> t \<Longrightarrow> ring_count n ((h + 1) mod n) t = Suc (ring_count n h t)"
  by (auto simp: ring_count_def mod_if split: if_splits)

lemma ring_count_tail:
  "h < n \<Longrightarrow> t < n \<Longrightarrow> h \<noteq> t \<Longrightarrow> ring_count n h t = Suc (ring_count n h ((t + 1) mod n))"
  by (auto simp: ring_count_def mod_if split: if_splits)

lemma ring_count_full_iff:
  "h < n \<Longrightarrow> t < n \<Longrightarrow> (h + 1) mod n = t \<longleftrightarrow> ring_count n h t = n - 1"
  by (auto simp: ring_count_def mod_if split: if_splits)

lemma ring_add_count: "h < n \<Longrightarrow> t < n \<Longrightarrow> (t + ring_count n h t) mod n = h"
  by (auto simp: ring_count_def mod_if)

lemma ring_index_distinct:
  "t < n \<Longrightarrow> i < k \<Longrightarrow> k < n \<Longrightarrow> (t + i) mod n \<noteq> (t + k) mod (n :: nat)"
  by (auto simp: mod_if split: if_splits)

lemma length_ring_slice [simp]: "length (ring_slice b t k) = k"
  by (simp add: ring_slice_def)

lemma ring_slice_Suc: "ring_slice b t (Suc k) = ring_slice b t k @ [b ! ((t + k) mod length b)]"
  by (simp add: ring_slice_def)

lemma ring_slice_Cons:
  "t < length b \<Longrightarrow> ring_slice b t (Suc k) = b ! t # ring_slice b ((t + 1) mod length b) k"
  by (rule nth_equalityI)
    (auto simp: ring_slice_def nth_Cons mod_simps ac_simps simp del: upt_Suc split: nat.splits)

lemma ring_slice_update:
  assumes "t < length b" "k < length b"
  shows "ring_slice (b[(t + k) mod length b := x]) t k = ring_slice b t k"
  using ring_index_distinct [OF assms(1) _ assms(2)]
  by (auto simp: ring_slice_def) (metis nth_list_update_neq)

section \<open>The operations on the abstract queue\<close>

lemma cq_size_ok_CQ_N: "cq_size_ok CQ_N"
  by (simp add: cq_size_ok_def CQ_N_def)

lemma cq_inv_nat:
  assumes "cq_inv N q"
  shows "length (c_buf q) = unat N" "unat (head q) < unat N" "unat (tail q) < unat N" "2 \<le> unat N"
  using assms by (simp_all add: cq_inv_def cq_size_ok_def word_less_nat_alt)

lemma unat_succ_mod:
  assumes "unat (x :: u32) < unat N"
  shows "unat ((x + 1) mod N) = (unat x + 1) mod unat N"
proof -
  have "unat x + 1 < 2 ^ 32 \<or> unat x + 1 = 2 ^ 32"
    using unat_lt_2p32 [of x] by linarith
  then show ?thesis
  proof
    assume "unat x + 1 < 2 ^ 32"
    then show ?thesis by (simp add: unat_mod_distrib unat_Suc_lt)
  next
    assume "unat x + 1 = 2 ^ 32"
    with assms unat_lt_2p32 [of N] show ?thesis by linarith
  qed
qed

lemma unat_sub_mod:
  assumes "unat N dvd 2 ^ 32" "unat (h :: u32) < unat N" "unat t < unat N"
  shows "unat ((h - t) mod N) = ring_count (unat N) (unat h) (unat t)"
proof (cases "t \<le> h")
  case True
  then have le: "unat t \<le> unat h" by (simp add: word_le_nat_alt)
  then have "unat h + unat N - unat t = (unat h - unat t) + unat N" by simp
  with True show ?thesis
    by (simp add: ring_count_def unat_mod_distrib unat_sub_u32)
next
  case False
  then have lt: "unat h < unat t" by (simp add: word_le_nat_alt)
  obtain k where k: "2 ^ 32 = unat N * k" using assms(1) by (elim dvdE)
  then have "0 < k" by (cases k) simp_all
  then obtain j where j: "k = Suc j" by (cases k) simp_all
  have "unat (h - t) = unat h + 2 ^ 32 - unat t"
    using False by (simp add: unat_sub_if' word_le_nat_alt)
  also have "\<dots> = (unat h + unat N - unat t) + unat N * j"
    using assms(3) lt k j by simp
  finally show ?thesis by (simp add: ring_count_def unat_mod_distrib)
qed

lemma unat_cq_nelem:
  assumes "cq_inv N q"
  shows "unat (cq_nelem N q) = length (cq_list N q)"
  using assms cq_inv_nat [OF assms] unat_sub_mod [of N "head q" "tail q"]
  by (simp add: cq_nelem_def cq_list_def cq_inv_def cq_size_ok_def)

lemma cq_list_bound: "cq_inv N q \<Longrightarrow> length (cq_list N q) < unat N"
  using cq_inv_nat [of N q] by (simp add: cq_list_def ring_count_less)

lemma cq_empty_iff: "cq_inv N q \<Longrightarrow> cq_empty q \<longleftrightarrow> cq_list N q = []"
  using cq_inv_nat [of N q] ring_count_0_iff [of "unat (head q)" "unat N" "unat (tail q)"]
  by (auto simp: cq_empty_def cq_list_def ring_slice_def word_unat_eq_iff)

lemma cq_full_iff: "cq_inv N q \<Longrightarrow> cq_full N q \<longleftrightarrow> length (cq_list N q) = unat N - 1"
  using cq_inv_nat [of N q] ring_count_full_iff [of "unat (head q)" "unat N" "unat (tail q)"]
    unat_succ_mod [of "head q" N]
  by (auto simp: cq_full_def cq_list_def word_unat_eq_iff)

lemma mod_N_less: "2 \<le> unat N \<Longrightarrow> (x :: u32) mod N < N"
  by (rule word_mod_less_divisor) (simp add: word_less_nat_alt)

lemma cq_push_full: "cq_full N c \<Longrightarrow> cq_push N c x = Inr (False, c)"
  by (simp add: cq_push_def)

lemma cq_push_ok:
  assumes inv: "cq_inv N c" and nf: "\<not> cq_full N c"
  obtains c' where "cq_push N c x = Inr (True, c')" "cq_inv N c'"
    "cq_list N c' = cq_list N c @ [x]" "tail c' = tail c"
proof -
  note n = cq_inv_nat [OF inv]
  let ?n = "unat N" and ?h = "unat (head c)" and ?t = "unat (tail c)"
  let ?k = "ring_count ?n ?h ?t"
  let ?c = "c\<lparr>c_buf := (c_buf c)[?h := x], head := (head c + 1) mod N\<rparr>"
  have nt: "(?h + 1) mod ?n \<noteq> ?t"
    using nf unat_succ_mod [OF n(2)] by (metis cq_full_def word_unat_eq_iff)
  have h: "(?t + ?k) mod ?n = ?h" using n by (simp add: ring_add_count)
  have k: "?k < ?n" using n by (simp add: ring_count_less)
  have "cq_list N ?c = ring_slice ((c_buf c)[?h := x]) ?t (Suc ?k)"
    using ring_count_head [OF n(2,3) nt] unat_succ_mod [OF n(2)] by (simp add: cq_list_def)
  also have "\<dots> = cq_list N c @ [x]"
    using ring_slice_update [of ?t "c_buf c" ?k x] h k n by (simp add: ring_slice_Suc cq_list_def)
  finally have l: "cq_list N ?c = cq_list N c @ [x]" .
  have "cq_inv N ?c" using inv mod_N_less [OF n(4)] by (simp add: cq_inv_def)
  moreover have "cq_push N c x = Inr (True, ?c)" using nf n by (simp add: cq_push_def)
  ultimately show thesis using l that [of ?c] by simp
qed

lemma cq_pop_nonblock_Nil:
  "cq_inv N c \<Longrightarrow> cq_list N c = [] \<Longrightarrow> cq_pop_nonblock N c = Inr (None, c)"
  by (simp add: cq_pop_nonblock_def cq_empty_iff)

lemma cq_pop_nonblock_Cons:
  assumes inv: "cq_inv N c" and l: "cq_list N c = x # xs"
  obtains c' where "cq_pop_nonblock N c = Inr (Some x, c')" "cq_inv N c'" "cq_list N c' = xs"
    "c' = c\<lparr>tail := (tail c + 1) mod N\<rparr>"
proof -
  note n = cq_inv_nat [OF inv]
  let ?c = "c\<lparr>tail := (tail c + 1) mod N\<rparr>"
  have ne: "\<not> cq_empty c" using l cq_empty_iff [OF inv] by simp
  then have "unat (head c) \<noteq> unat (tail c)" by (simp add: cq_empty_def word_unat_eq_iff)
  then have "cq_list N c = c_buf c ! unat (tail c) # cq_list N ?c"
    using ring_count_tail [OF n(2,3)] ring_slice_Cons [of "unat (tail c)" "c_buf c"] n
      unat_succ_mod [OF n(3)]
    by (simp add: cq_list_def)
  moreover have "cq_inv N ?c" using inv mod_N_less [OF n(4)] by (simp add: cq_inv_def)
  ultimately show thesis using that [of ?c] ne n l by (simp add: cq_pop_nonblock_def)
qed

lemma cq_peek_list:
  assumes "cq_inv N c"
  shows "cq_peek c = Inr (case cq_list N c of [] \<Rightarrow> None | x # _ \<Rightarrow> Some x)"
proof (cases "cq_list N c")
  case Nil
  with assms show ?thesis by (simp add: cq_peek_def cq_empty_iff)
next
  case (Cons x xs)
  then have "\<not> cq_empty c" using assms by (simp add: cq_empty_iff)
  moreover from this have "c_buf c ! unat (tail c) = x"
    using cq_inv_nat [OF assms] cq_pop_nonblock_Cons [OF assms Cons] 
    by (auto simp: cq_pop_nonblock_def)
  ultimately show ?thesis
    using Cons cq_inv_nat [OF assms] by (simp add: cq_peek_def)
qed


section \<open>Bulk operations\<close>

lemma cq_pop_Nil:
  "cq_inv N c \<Longrightarrow> cq_list N c = [] \<Longrightarrow>
     cq_pop N c = Inl (Panic ''will deadlock: interrupts not enabled'')"
  by (simp add: cq_pop_def cq_pop_nonblock_Nil)

lemma cq_pop_Cons:
  assumes inv: "cq_inv N c" and l: "cq_list N c = x # xs"
  shows "\<exists>c'. cq_pop N c = Inr (x, c') \<and> cq_inv N c' \<and> cq_list N c' = xs
           \<and> c' = c\<lparr>tail := (tail c + 1) mod N\<rparr>"
  by (rule cq_pop_nonblock_Cons [OF inv l]) (auto simp: cq_pop_def)

lemma cq_pop_loop_ok:
  "cq_inv N c \<Longrightarrow> k \<le> length (cq_list N c) \<Longrightarrow>
     \<exists>t. cq_pop_loop N c k = Inr (take k (cq_list N c), c\<lparr>tail := t\<rparr>)
        \<and> cq_inv N (c\<lparr>tail := t\<rparr>) \<and> cq_list N (c\<lparr>tail := t\<rparr>) = drop k (cq_list N c)"
proof (induction k arbitrary: c)
  case 0
  have "c\<lparr>tail := tail c\<rparr> = c" by simp
  with 0 show ?case by (metis cq_pop_loop.simps(1) drop0 take0)
next
  case (Suc k)
  then obtain x xs where l: "cq_list N c = x # xs" by (cases "cq_list N c") auto
  obtain t1 where c1: "cq_pop N c = Inr (x, c\<lparr>tail := t1\<rparr>)" "cq_inv N (c\<lparr>tail := t1\<rparr>)"
      "cq_list N (c\<lparr>tail := t1\<rparr>) = xs"
    using cq_pop_Cons [OF Suc.prems(1) l] by blast
  have "k \<le> length (cq_list N (c\<lparr>tail := t1\<rparr>))" using Suc.prems(2) l c1(3) by simp
  from Suc.IH [OF c1(2) this] show ?case using c1 l by auto
qed

lemma cq_push_loop_ok:
  "cq_inv N c \<Longrightarrow> length (cq_list N c) + length xs < unat N \<Longrightarrow>
     \<exists>c'. cq_push_loop N c xs = Inr c' \<and> cq_inv N c' \<and> cq_list N c' = cq_list N c @ xs
        \<and> tail c' = tail c"
proof (induction xs arbitrary: c)
  case Nil
  then show ?case by simp
next
  case (Cons x xs)
  have "\<not> cq_full N c" using Cons.prems by (simp add: cq_full_iff)
  then obtain c' where c': "cq_push N c x = Inr (True, c')" "cq_inv N c'"
      "cq_list N c' = cq_list N c @ [x]" "tail c' = tail c"
    using cq_push_ok [OF Cons.prems(1)] by blast
  with Cons.prems(2) Cons.IH [OF c'(2)] show ?case by auto
qed

lemma cq_push_loop_overflow:
  "cq_inv N c \<Longrightarrow> unat N \<le> length (cq_list N c) + length xs \<Longrightarrow>
     cq_push_loop N c xs = Inl (Panic ''not handling this'')"
proof (induction xs arbitrary: c)
  case Nil
  with cq_list_bound [of N c] show ?case by simp
next
  case (Cons x xs)
  show ?case
  proof (cases "cq_full N c")
    case True
    then show ?thesis by (simp add: cq_push_full)
  next
    case False
    then obtain c' where c': "cq_push N c x = Inr (True, c')" "cq_inv N c'"
        "cq_list N c' = cq_list N c @ [x]"
      using cq_push_ok [OF Cons.prems(1)] by blast
    have "cq_push_loop N c' xs = Inl (Panic ''not handling this'')"
      using Cons.IH [OF c'(2)] Cons.prems(2) c'(3) by simp
    with c'(1) show ?thesis by simp
  qed
qed

lemma unat_cq_nspace:
  assumes "cq_inv N c"
  shows "unat (cq_nspace N c) = unat N - length (cq_list N c)"
  using unat_cq_nelem [OF assms] cq_list_bound [OF assms]
  by (simp add: cq_nspace_def unat_sub_u32 word_le_nat_alt)

lemma cq_pop_n_noblk_ok:
  assumes "cq_inv N c" "unat n \<le> length (cq_list N c)"
  shows "\<exists>t. cq_pop_n_noblk N c n = Inr (Some (take (unat n) (cq_list N c)), c\<lparr>tail := t\<rparr>)
     \<and> cq_inv N (c\<lparr>tail := t\<rparr>) \<and> cq_list N (c\<lparr>tail := t\<rparr>) = drop (unat n) (cq_list N c)"
proof -
  have "\<not> cq_nelem N c < n" using assms by (simp add: word_less_nat_alt unat_cq_nelem)
  with cq_pop_loop_ok [OF assms] show ?thesis by (auto simp: cq_pop_n_noblk_def cq_pop_n_def)
qed

lemma cq_init_ok:
  assumes "cq_size_ok N"
  shows "\<exists>c. cq_init N e = Inr c \<and> cq_inv N c \<and> cq_list N c = []"
proof -
  let ?c = "\<lparr>c_buf = replicate (unat N) 0, fence = 0x12345678, head = 0, tail = 0,
               overflow = 0, errors_fatal_p = ucast e\<rparr>"
  have inv: "cq_inv N ?c" using assms by (simp add: cq_inv_def cq_size_ok_def word_less_nat_alt)
  then have l: "cq_list N ?c = []" by (simp add: cq_empty_iff [symmetric] cq_empty_def)
  have "\<not> cq_full N ?c"
    using cq_full_iff [OF inv] l assms by (simp add: cq_size_ok_def)
  moreover have "cq_nelem N ?c = 0" using unat_cq_nelem [OF inv] l by (simp add: unat_eq_0)
  ultimately show ?thesis using inv l cq_empty_iff [OF inv] cq_pop_nonblock_Nil [OF inv l]
    by (simp add: cq_init_def)
qed

section \<open>Bounded FIFO: the contract of the queue\<close>

text \<open>The observable behaviour of a bounded FIFO under a sequence of operations.\<close>

datatype 'a fifo_op = Push 'a | Pop

datatype 'a fifo_obs = Pushed bool | Popped "'a option"

fun fifo_run :: "nat \<Rightarrow> 'a list \<Rightarrow> 'a fifo_op list \<Rightarrow> 'a fifo_obs list \<times> 'a list" where
  "fifo_run cap xs [] = ([], xs)"
| "fifo_run cap xs (Push x # os) =
     (let room = length xs < cap; (obs, ys) = fifo_run cap (if room then xs @ [x] else xs) os
      in (Pushed room # obs, ys))"
| "fifo_run cap xs (Pop # os) =
     (let (obs, ys) = fifo_run cap (tl xs) os
      in (Popped (case xs of [] \<Rightarrow> None | x # _ \<Rightarrow> Some x) # obs, ys))"

text \<open>A sequence of calls on an implementation given by its \<open>push\<close> and non-blocking \<open>pop\<close>.\<close>

fun calls_run :: "('q \<Rightarrow> 'a \<Rightarrow> (bool \<times> 'q) result) \<Rightarrow> ('q \<Rightarrow> ('a option \<times> 'q) result) \<Rightarrow>
    'q \<Rightarrow> 'a fifo_op list \<Rightarrow> ('a fifo_obs list \<times> 'q) result" where
  "calls_run push pop q [] = Inr ([], q)"
| "calls_run push pop q (Push x # os) =
     rbind (push q x) (\<lambda>(ok, q').
       rbind (calls_run push pop q' os) (\<lambda>(obs, q''). Inr (Pushed ok # obs, q'')))"
| "calls_run push pop q (Pop # os) =
     rbind (pop q) (\<lambda>(r, q').
       rbind (calls_run push pop q' os) (\<lambda>(obs, q''). Inr (Popped r # obs, q'')))"

locale bounded_fifo =
  fixes push :: "'q \<Rightarrow> 'a \<Rightarrow> (bool \<times> 'q) result"
    and pop :: "'q \<Rightarrow> ('a option \<times> 'q) result"
    and abs :: "'q \<Rightarrow> 'a list"
    and inv :: "'q \<Rightarrow> bool"
    and cap :: nat
  assumes push_law: "inv q \<Longrightarrow> \<exists>q'. push q x = Inr (length (abs q) < cap, q') \<and> inv q'
      \<and> abs q' = (if length (abs q) < cap then abs q @ [x] else abs q)"
    and pop_law: "inv q \<Longrightarrow> \<exists>q'. pop q = Inr (case abs q of [] \<Rightarrow> None | x # _ \<Rightarrow> Some x, q')
      \<and> inv q' \<and> abs q' = tl (abs q)"
    and abs_bound: "inv q \<Longrightarrow> length (abs q) \<le> cap"
begin

lemma run_refines:
  "inv q \<Longrightarrow> \<exists>q'. calls_run push pop q os = Inr (fst (fifo_run cap (abs q) os), q')
     \<and> inv q' \<and> abs q' = snd (fifo_run cap (abs q) os)"
proof (induction os arbitrary: q)
  case Nil
  then show ?case by simp
next
  case (Cons oper os)
  show ?case
  proof (cases oper)
    case (Push x)
    obtain q1 where q1: "push q x = Inr (length (abs q) < cap, q1)" "inv q1"
        "abs q1 = (if length (abs q) < cap then abs q @ [x] else abs q)"
      using push_law [OF Cons.prems] by blast
    with Cons.IH [OF q1(2)] Push show ?thesis by (auto simp: Let_def split: prod.splits)
  next
    case Pop
    obtain q1 where q1: "pop q = Inr (case abs q of [] \<Rightarrow> None | x # _ \<Rightarrow> Some x, q1)" "inv q1"
        "abs q1 = tl (abs q)"
      using pop_law [OF Cons.prems] by blast
    with Cons.IH [OF q1(2)] Pop show ?thesis by (auto simp: Let_def split: prod.splits)
  qed
qed

end

interpretation cq: bounded_fifo "cq_push N" "cq_pop_nonblock N" "cq_list N" "cq_inv N" "unat N - 1"
  for N
proof
  fix q x
  assume inv: "cq_inv N q"
  show "length (cq_list N q) \<le> unat N - 1"
    using cq_list_bound [OF inv] by simp
  then have full: "cq_full N q \<longleftrightarrow> \<not> length (cq_list N q) < unat N - 1"
    using cq_full_iff [OF inv] by auto
  show "\<exists>q'. cq_push N q x = Inr (length (cq_list N q) < unat N - 1, q') \<and> cq_inv N q'
      \<and> cq_list N q' = (if length (cq_list N q) < unat N - 1 then cq_list N q @ [x] else cq_list N q)"
  proof (cases "cq_full N q")
    case True
    with full inv show ?thesis by (simp add: cq_push_full)
  next
    case False
    with full show ?thesis by (auto intro: cq_push_ok [OF inv False, of x])
  qed
  show "\<exists>q'. cq_pop_nonblock N q = Inr (case cq_list N q of [] \<Rightarrow> None | x # _ \<Rightarrow> Some x, q')
      \<and> cq_inv N q' \<and> cq_list N q' = tl (cq_list N q)"
  proof (cases "cq_list N q")
    case Nil
    with inv show ?thesis by (simp add: cq_pop_nonblock_Nil)
  next
    case (Cons y ys)
    then show ?thesis by (auto intro: cq_pop_nonblock_Cons [OF inv Cons])
  qed
qed


section \<open>Properties\<close>

text \<open>
  (C1) From the queue \<open>cq_init\<close> returns, every sequence of \<open>cq_push\<close> and \<open>cq_pop_nonblock\<close> calls
  runs without a fault and returns exactly what a FIFO of capacity \<open>CQ_N - 1\<close> returns: the
  pushes that are refused are those of a full queue, the pops that fail are those of an empty
  one, and bytes come out in the order they went in.
\<close>
theorem cq_refines_fifo:
  assumes "cq_size_ok N"
  shows "\<exists>c0 c. cq_init N e = Inr c0
    \<and> calls_run (cq_push N) (cq_pop_nonblock N) c0 os = Inr (fst (fifo_run (unat N - 1) [] os), c)
    \<and> cq_list N c = snd (fifo_run (unat N - 1) [] os)"
proof -
  obtain c0 where c0: "cq_init N e = Inr c0" "cq_inv N c0" "cq_list N c0 = []"
    using cq_init_ok [OF assms] by blast
  from cq.run_refines [OF c0(2), of os] c0 show ?thesis by auto
qed

theorem cq_refines_fifo_witness:
  "cq_size_ok CQ_N \<and> (\<exists>c0 c. cq_init CQ_N 1 = Inr c0
    \<and> calls_run (cq_push CQ_N) (cq_pop_nonblock CQ_N) c0 [Push 7, Push 9, Pop, Pop, Pop]
        = Inr ([Pushed True, Pushed True, Popped (Some 7), Popped (Some 9), Popped None], c))"
  using cq_refines_fifo [OF cq_size_ok_CQ_N, of 1 "[Push 7, Push 9, Pop, Pop, Pop]"]
  by (auto simp: cq_size_ok_def CQ_N_def)

text \<open>
  The bulk operations: \<open>cq_push_n\<close> of \<open>n\<close> bytes that leave the ring short of full appends
  them all, \<open>cq_peek_n\<close> of up to that many bytes returns a prefix of the queue and leaves the
  struct exactly as it was, and \<open>cq_pop_n_noblk\<close> returns the same prefix and removes it.
\<close>
theorem cq_bulk_roundtrip:
  assumes "cq_inv N c" "length data = unat n" "length (cq_list N c) + unat n < unat N"
    and "unat m \<le> length (cq_list N c) + unat n"
  shows "\<exists>c1 c2. cq_push_n N c data n = Inr (True, c1)
    \<and> cq_peek_n N c1 m = Inr (Some (take (unat m) (cq_list N c @ data)), c1)
    \<and> cq_pop_n_noblk N c1 m = Inr (Some (take (unat m) (cq_list N c @ data)), c2)
    \<and> cq_inv N c2 \<and> cq_list N c2 = drop (unat m) (cq_list N c @ data)"
proof -
  obtain c1 where c1: "cq_push_loop N c data = Inr c1" "cq_inv N c1"
      "cq_list N c1 = cq_list N c @ data"
    using cq_push_loop_ok [OF assms(1), of data] assms by auto
  have ne: "n = 0 \<or> \<not> cq_empty c1"
    using c1 assms(2) by (auto simp: cq_empty_iff unat_eq_0)
  have sp: "\<not> cq_nspace N c < n"
    using assms by (simp add: word_less_nat_alt unat_cq_nspace)
  have push: "cq_push_n N c data n = Inr (True, c1)"
    using sp c1(1) ne assms(2) by (simp add: cq_push_n_def c_assert_def)
  have m: "unat m \<le> length (cq_list N c1)" using assms c1 by simp
  then have nm: "\<not> cq_nelem N c1 < m" using c1 by (simp add: word_less_nat_alt unat_cq_nelem)
  obtain t where t: "cq_pop_n_noblk N c1 m = Inr (Some (take (unat m) (cq_list N c1)), c1\<lparr>tail := t\<rparr>)"
      "cq_inv N (c1\<lparr>tail := t\<rparr>)" "cq_list N (c1\<lparr>tail := t\<rparr>) = drop (unat m) (cq_list N c1)"
    using cq_pop_n_noblk_ok [OF c1(2) m] by blast
  have "cq_peek_n N c1 m = Inr (Some (take (unat m) (cq_list N c1)), c1)"
    using nm t(1) by (simp add: cq_peek_n_def Let_def)
  with push t c1(3) show ?thesis by auto
qed

text \<open>The queue \<open>cq_init\<close> makes, with a ring of eight slots, for the witnesses.\<close>

definition cq_eight :: cq_t where
  "cq_eight = \<lparr>c_buf = replicate 8 0, fence = 0x12345678, head = 0, tail = 0, overflow = 0,
     errors_fatal_p = 1\<rparr>"

lemma cq_eight_inv: "cq_inv 8 cq_eight" "cq_list 8 cq_eight = []"
  by (simp_all add: cq_inv_def cq_size_ok_def cq_eight_def cq_list_def ring_count_def ring_slice_def)

theorem cq_bulk_roundtrip_witness:
  "\<exists>c1 c2. cq_push_n 8 cq_eight [1, 2, 3] 3 = Inr (True, c1)
    \<and> cq_peek_n 8 c1 2 = Inr (Some [1, 2], c1)
    \<and> cq_pop_n_noblk 8 c1 2 = Inr (Some [1, 2], c2) \<and> cq_list 8 c2 = [3]"
  using cq_bulk_roundtrip [OF cq_eight_inv(1), of "[1, 2, 3]" 3 2] cq_eight_inv(2)
  by auto

text \<open>
  (C37) \<open>cq_nspace\<close> counts the slot that must stay empty as free space: \<open>cq_push_n\<close> accepts a
  request of exactly \<open>cq_nspace\<close> bytes and then stops in its own \<open>panic\<close>, whatever the state of
  the queue.
\<close>
theorem cq_push_n_nspace_panics:
  assumes "cq_inv N c" "length data = unat (cq_nspace N c)"
  shows "cq_push_n N c data (cq_nspace N c) = Inl (Panic ''not handling this'')"
proof -
  have "cq_push_loop N c data = Inl (Panic ''not handling this'')"
    using cq_push_loop_overflow [OF assms(1), of data] assms(2)
      unat_cq_nspace [OF assms(1)] cq_list_bound [OF assms(1)] by simp
  with assms(2) show ?thesis by (simp add: cq_push_n_def)
qed

theorem cq_push_n_nspace_panics_witness:
  "unat (cq_nspace 8 cq_eight) = 8 \<and>
   cq_push_n 8 cq_eight (replicate 8 1) (cq_nspace 8 cq_eight) = Inl (Panic ''not handling this'')"
proof -
  have n: "unat (cq_nspace 8 cq_eight) = 8"
    using unat_cq_nspace [OF cq_eight_inv(1)] cq_eight_inv(2) by simp
  then show ?thesis
    using cq_push_n_nspace_panics [OF cq_eight_inv(1), of "replicate 8 1"] by simp
qed

end
