(* ===== verification/Circular_Conc.thy ===== *)
theory Circular_Conc
  imports Circular
begin

text \<open>
  The queue of \<^verbatim>\<open>libpi/libc/circular.h\<close> as it is meant to be used: one producer (the interrupt
  handler) and one consumer that interleave at every access to a \<open>volatile\<close> field. The header
  claims that a single mutator of \<open>head\<close> and a single mutator of \<open>tail\<close> make it lock free. Here
  each load and store of \<open>cq_push\<close> and \<open>cq_pop_nonblock\<close> is a step of its own, the schedule is
  arbitrary, and the calls are shown to take effect atomically.
\<close>

section \<open>Program counters and steps\<close>

text \<open>
  The producer is between calls, or has loaded \<open>head\<close> into its local, or has loaded the \<open>head\<close>
  that \<open>cq_full\<close> compares, or is about to store the element, or about to store \<open>head\<close>.
\<close>

datatype producer_pc =
    PIdle
  | PLoaded u8 u32
  | PFull u8 u32 u32
  | PStore u8 u32
  | PBump u8 u32

text \<open>
  The consumer is between calls, or has loaded the \<open>head\<close> that \<open>cq_empty\<close> compares, or is about
  to load \<open>tail\<close> into its local, to read the slot, or to store \<open>tail\<close>.
\<close>

datatype consumer_pc =
    CIdle
  | CEmpty u32
  | CTail
  | CRead u32
  | CBump u32 u8

text \<open>The shared ring, both program counters, and the values the calls have returned so far.\<close>

record conc =
  ring :: cq_t
  producer :: producer_pc
  consumer :: consumer_pc
  push_ret :: "bool list"
  pop_ret :: "u8 option list"

type_synonym events = "(u8 fifo_op \<times> u8 fifo_obs) list"

text \<open>
  One step of \<open>cq_push\<close>; \<open>x\<close> is the argument of the next call. The events name the step at which
  a call takes effect, and what it answers.
\<close>

definition push_step :: "u32 \<Rightarrow> u8 \<Rightarrow> conc \<Rightarrow> (events \<times> conc) result" where
  "push_step N x s =
     (case producer s of
        PIdle \<Rightarrow> Inr ([], s\<lparr>producer := PLoaded x (head (ring s))\<rparr>)
      | PLoaded x h \<Rightarrow> Inr ([], s\<lparr>producer := PFull x h (head (ring s))\<rparr>)
      | PFull x h h' \<Rightarrow>
          (if (h' + 1) mod N = tail (ring s)
           then Inr ([(Push x, Pushed False)], s\<lparr>producer := PIdle, push_ret := push_ret s @ [False]\<rparr>)
           else Inr ([], s\<lparr>producer := PStore x h\<rparr>))
      | PStore x h \<Rightarrow>
          rbind (arr_set (c_buf (ring s)) (unat h) x) (\<lambda>b.
            Inr ([], s\<lparr>ring := (ring s)\<lparr>c_buf := b\<rparr>, producer := PBump x h\<rparr>))
      | PBump x h \<Rightarrow>
          Inr ([(Push x, Pushed True)],
               s\<lparr>ring := (ring s)\<lparr>head := (h + 1) mod N\<rparr>, producer := PIdle,
                 push_ret := push_ret s @ [True]\<rparr>))"

text \<open>
  One step of \<open>cq_pop_nonblock\<close>. A pop that finds the queue empty takes effect when it loads
  \<open>head\<close>, one that succeeds when it stores \<open>tail\<close>. Of the two loads that \<open>cq_empty\<close> compares C fixes
  no order; here \<open>head\<close> is loaded first.
\<close>

definition pop_step :: "u32 \<Rightarrow> conc \<Rightarrow> (events \<times> conc) result" where
  "pop_step N s =
     (case consumer s of
        CIdle \<Rightarrow>
          Inr (if head (ring s) = tail (ring s) then [(Pop, Popped None)] else [],
               s\<lparr>consumer := CEmpty (head (ring s))\<rparr>)
      | CEmpty h \<Rightarrow>
          (if h = tail (ring s) then Inr ([], s\<lparr>consumer := CIdle, pop_ret := pop_ret s @ [None]\<rparr>)
           else Inr ([], s\<lparr>consumer := CTail\<rparr>))
      | CTail \<Rightarrow> Inr ([], s\<lparr>consumer := CRead (tail (ring s))\<rparr>)
      | CRead t \<Rightarrow>
          rbind (arr_get (c_buf (ring s)) (unat t)) (\<lambda>e. Inr ([], s\<lparr>consumer := CBump t e\<rparr>))
      | CBump t e \<Rightarrow>
          Inr ([(Pop, Popped (Some e))],
               s\<lparr>ring := (ring s)\<lparr>tail := (t + 1) mod N\<rparr>, consumer := CIdle,
                 pop_ret := pop_ret s @ [Some e]\<rparr>))"

definition conc_start :: "cq_t \<Rightarrow> conc" where
  "conc_start c = \<lparr>ring = c, producer = PIdle, consumer = CIdle, push_ret = [], pop_ret = []\<rparr>"

text \<open>An interleaving: the scheduler picks the producer or the consumer, one step at a time.\<close>

inductive interleave :: "u32 \<Rightarrow> conc \<Rightarrow> events \<Rightarrow> conc \<Rightarrow> bool" for N where
  none: "interleave N s [] s"
| push: "interleave N s es s' \<Longrightarrow> push_step N x s' = Inr (e, s'') \<Longrightarrow> interleave N s (es @ e) s''"
| pop: "interleave N s es s' \<Longrightarrow> pop_step N s' = Inr (e, s'') \<Longrightarrow> interleave N s (es @ e) s''"

section \<open>The invariant\<close>

fun producer_ok :: "u32 \<Rightarrow> cq_t \<Rightarrow> producer_pc \<Rightarrow> bool" where
  "producer_ok N c PIdle \<longleftrightarrow> True"
| "producer_ok N c (PLoaded x h) \<longleftrightarrow> h = head c"
| "producer_ok N c (PFull x h h') \<longleftrightarrow> h = head c \<and> h' = head c"
| "producer_ok N c (PStore x h) \<longleftrightarrow> h = head c \<and> \<not> cq_full N c"
| "producer_ok N c (PBump x h) \<longleftrightarrow> h = head c \<and> \<not> cq_full N c \<and> c_buf c ! unat h = x"

fun consumer_ok :: "cq_t \<Rightarrow> consumer_pc \<Rightarrow> bool" where
  "consumer_ok c CIdle \<longleftrightarrow> True"
| "consumer_ok c (CEmpty h) \<longleftrightarrow> h = tail c \<or> \<not> cq_empty c"
| "consumer_ok c CTail \<longleftrightarrow> \<not> cq_empty c"
| "consumer_ok c (CRead t) \<longleftrightarrow> t = tail c \<and> \<not> cq_empty c"
| "consumer_ok c (CBump t e) \<longleftrightarrow> t = tail c \<and> \<not> cq_empty c \<and> c_buf c ! unat t = e"

definition conc_inv :: "u32 \<Rightarrow> conc \<Rightarrow> bool" where
  "conc_inv N s \<longleftrightarrow> cq_inv N (ring s) \<and> producer_ok N (ring s) (producer s)
     \<and> consumer_ok (ring s) (consumer s)"

text \<open>A pop that has taken effect on the empty queue and has not returned yet.\<close>

definition pending :: "conc \<Rightarrow> u8 option list" where
  "pending s = (case consumer s of CEmpty h \<Rightarrow> if h = tail (ring s) then [None] else [] | _ \<Rightarrow> [])"

fun pushes_of :: "events \<Rightarrow> bool list" where
  "pushes_of [] = []"
| "pushes_of ((_, Pushed b) # es) = b # pushes_of es"
| "pushes_of ((_, Popped _) # es) = pushes_of es"

fun pops_of :: "events \<Rightarrow> u8 option list" where
  "pops_of [] = []"
| "pops_of ((_, Pushed _) # es) = pops_of es"
| "pops_of ((_, Popped r) # es) = r # pops_of es"

lemma pushes_of_append [simp]: "pushes_of (es @ fs) = pushes_of es @ pushes_of fs"
  by (induction es rule: pushes_of.induct) simp_all

lemma pops_of_append [simp]: "pops_of (es @ fs) = pops_of es @ pops_of fs"
  by (induction es rule: pops_of.induct) simp_all

lemma fifo_run_append:
  "fifo_run cap xs (os @ ps) =
     (let (o1, ys) = fifo_run cap xs os; (o2, zs) = fifo_run cap ys ps in (o1 @ o2, zs))"
  by (induction cap xs os rule: fifo_run.induct) (auto simp: Let_def split: prod.splits)

text \<open>What a step does to the queue as a list: the events, replayed on a FIFO.\<close>

definition replays :: "u32 \<Rightarrow> cq_t \<Rightarrow> events \<Rightarrow> cq_t \<Rightarrow> bool" where
  "replays N c es c' \<longleftrightarrow>
     fifo_run (unat N - 1) (cq_list N c) (map fst es) = (map snd es, cq_list N c')"

lemma replays_append: "replays N c es c' \<Longrightarrow> replays N c' fs c'' \<Longrightarrow> replays N c (es @ fs) c''"
  by (simp add: replays_def fifo_run_append)

lemma replays_Nil: "cq_list N c' = cq_list N c \<Longrightarrow> replays N c [] c'"
  by (simp add: replays_def)

section \<open>Every step keeps the invariant and takes effect atomically\<close>

text \<open>Storing into the free slot at \<open>head\<close> does not touch the elements of the queue.\<close>

lemma store_at_head:
  assumes "cq_inv N c"
  shows "cq_list N (c\<lparr>c_buf := (c_buf c)[unat (head c) := x]\<rparr>) = cq_list N c"
proof -
  note n = cq_inv_nat [OF assms]
  let ?t = "unat (tail c)" and ?k = "ring_count (unat N) (unat (head c)) (unat (tail c))"
  have "(?t + ?k) mod length (c_buf c) = unat (head c)" using n by (simp add: ring_add_count)
  then show ?thesis
    using ring_slice_update [of ?t "c_buf c" ?k x] n ring_count_less [of "unat N"]
    by (simp add: cq_list_def)
qed

lemma bump_head:
  assumes "cq_inv N c" "\<not> cq_full N c" "c_buf c ! unat (head c) = x"
  shows "cq_inv N (c\<lparr>head := (head c + 1) mod N\<rparr>)"
    and "cq_list N (c\<lparr>head := (head c + 1) mod N\<rparr>) = cq_list N c @ [x]"
proof -
  obtain c' where c': "cq_push N c x = Inr (True, c')" "cq_inv N c'"
      "cq_list N c' = cq_list N c @ [x]"
    by (rule cq_push_ok [OF assms(1,2), of x])
  have "(c_buf c)[unat (head c) := x] = c_buf c" using assms(3) by auto
  then have "c' = c\<lparr>head := (head c + 1) mod N\<rparr>"
    using c'(1) assms(2) cq_inv_nat [OF assms(1)] by (simp add: cq_push_def)
  with c' show "cq_inv N (c\<lparr>head := (head c + 1) mod N\<rparr>)"
    and "cq_list N (c\<lparr>head := (head c + 1) mod N\<rparr>) = cq_list N c @ [x]"
    by simp_all
qed

lemma bump_tail:
  assumes "cq_inv N c" "\<not> cq_empty c"
  shows "cq_inv N (c\<lparr>tail := (tail c + 1) mod N\<rparr>)"
    and "cq_list N c = c_buf c ! unat (tail c) # cq_list N (c\<lparr>tail := (tail c + 1) mod N\<rparr>)"
proof -
  obtain x xs where l: "cq_list N c = x # xs"
    using assms cq_empty_iff [OF assms(1)] by (cases "cq_list N c") simp_all
  obtain c' where c': "cq_pop_nonblock N c = Inr (Some x, c')" "cq_inv N c'" "cq_list N c' = xs"
      "c' = c\<lparr>tail := (tail c + 1) mod N\<rparr>"
    by (rule cq_pop_nonblock_Cons [OF assms(1) l])
  have "x = c_buf c ! unat (tail c)"
    using c'(1) assms cq_inv_nat [OF assms(1)] by (simp add: cq_pop_nonblock_def)
  with c' l show "cq_inv N (c\<lparr>tail := (tail c + 1) mod N\<rparr>)"
    and "cq_list N c = c_buf c ! unat (tail c) # cq_list N (c\<lparr>tail := (tail c + 1) mod N\<rparr>)"
    by simp_all
qed

text \<open>The producer never empties the queue, the consumer never fills it.\<close>

lemma consumer_ok_bump_head:
  assumes "\<not> cq_full N c" "consumer_ok c p"
  shows "consumer_ok (c\<lparr>head := (head c + 1) mod N\<rparr>) p"
  using assms by (cases p) (auto simp: cq_full_def cq_empty_def)

lemma consumer_ok_store:
  assumes "cq_inv N c" "consumer_ok c p"
  shows "consumer_ok (c\<lparr>c_buf := (c_buf c)[unat (head c) := x]\<rparr>) p"
  using assms by (cases p) (auto simp: cq_empty_def nth_list_update word_unat_eq_iff)

lemma not_full_bump_tail:
  assumes "cq_inv N c" "\<not> cq_empty c"
  shows "\<not> cq_full N (c\<lparr>tail := (tail c + 1) mod N\<rparr>)"
  using bump_tail [OF assms] cq_list_bound [OF assms(1)] cq_full_iff [of N] by fastforce

lemma producer_ok_bump_tail:
  assumes "cq_inv N c" "\<not> cq_empty c" "producer_ok N c p"
  shows "producer_ok N (c\<lparr>tail := (tail c + 1) mod N\<rparr>) p"
  using assms not_full_bump_tail [OF assms(1,2)] by (cases p) auto

lemma replays_refused:
  assumes "cq_inv N c" "cq_full N c"
  shows "replays N c [(Push x, Pushed False)] c"
  using assms by (simp add: replays_def cq_full_iff)

lemma replays_pushed:
  assumes "cq_inv N c" "\<not> cq_full N c" "c_buf c ! unat (head c) = x"
  shows "replays N c [(Push x, Pushed True)] (c\<lparr>head := (head c + 1) mod N\<rparr>)"
  using cq_list_bound [OF bump_head(1) [OF assms]] bump_head(2) [OF assms]
  by (simp add: replays_def Let_def)

lemma replays_popped:
  assumes "cq_inv N c" "\<not> cq_empty c"
  shows "replays N c [(Pop, Popped (Some (c_buf c ! unat (tail c))))] (c\<lparr>tail := (tail c + 1) mod N\<rparr>)"
  using bump_tail(2) [OF assms] by (simp add: replays_def)

lemma replays_empty:
  assumes "cq_inv N c" "cq_empty c"
  shows "replays N c [(Pop, Popped None)] c"
  using assms by (simp add: replays_def cq_empty_iff)

text \<open>The state after a step: the invariant, the events, and the values returned.\<close>

definition step_ok :: "u32 \<Rightarrow> conc \<Rightarrow> events \<times> conc \<Rightarrow> bool" where
  "step_ok N s = (\<lambda>(es, s').
     conc_inv N s' \<and> replays N (ring s) es (ring s')
     \<and> push_ret s' = push_ret s @ pushes_of es
     \<and> pop_ret s' @ pending s' = pop_ret s @ pending s @ pops_of es)"

lemma pending_update [simp]:
  "pending (s\<lparr>producer := p\<rparr>) = pending s"
  "pending (s\<lparr>push_ret := r\<rparr>) = pending s"
  "tail c = tail (ring s) \<Longrightarrow> pending (s\<lparr>ring := c\<rparr>) = pending s"
  by (simp_all add: pending_def split: consumer_pc.split)

lemma push_step_ok:
  assumes "conc_inv N s"
  shows "\<exists>r. push_step N x s = Inr r \<and> step_ok N s r"
proof -
  have inv: "cq_inv N (ring s)" and p: "producer_ok N (ring s) (producer s)"
    and c: "consumer_ok (ring s) (consumer s)"
    using assms by (simp_all add: conc_inv_def)
  note n = cq_inv_nat [OF inv]
  show ?thesis
  proof (cases "producer s")
    case PIdle
    then show ?thesis using inv c
      by (simp add: push_step_def step_ok_def conc_inv_def replays_Nil)
  next
    case (PLoaded y h)
    then show ?thesis using inv c p
      by (simp add: push_step_def step_ok_def conc_inv_def replays_Nil)
  next
    case (PFull y h h')
    then show ?thesis using inv c p
      by (simp add: push_step_def step_ok_def conc_inv_def replays_Nil
          cq_full_def [symmetric] replays_refused)
  next
    case (PStore y h)
    have "\<not> cq_full N (ring s\<lparr>c_buf := b\<rparr>)" for b
      using p PStore by (simp add: cq_full_def)
    moreover have "cq_inv N (ring s\<lparr>c_buf := (c_buf (ring s))[unat h := y]\<rparr>)"
      using inv by (simp add: cq_inv_def)
    ultimately show ?thesis using inv c p PStore n consumer_ok_store [OF inv c, of y]
      by (simp add: push_step_def step_ok_def conc_inv_def replays_Nil store_at_head)
  next
    case (PBump y h)
    then have nf: "\<not> cq_full N (ring s)" "c_buf (ring s) ! unat (head (ring s)) = y"
      and h: "h = head (ring s)"
      using p by auto
    show ?thesis
      using PBump h bump_head(1) [OF inv nf] replays_pushed [OF inv nf]
        consumer_ok_bump_head [OF nf(1) c]
      by (simp add: push_step_def step_ok_def conc_inv_def)
  qed
qed

lemma pop_step_ok:
  assumes "conc_inv N s"
  shows "\<exists>r. pop_step N s = Inr r \<and> step_ok N s r"
proof -
  have inv: "cq_inv N (ring s)" and p: "producer_ok N (ring s) (producer s)"
    and c: "consumer_ok (ring s) (consumer s)"
    using assms by (simp_all add: conc_inv_def)
  note n = cq_inv_nat [OF inv]
  show ?thesis
  proof (cases "consumer s")
    case CIdle
    then show ?thesis using inv p
      by (simp add: pop_step_def step_ok_def conc_inv_def replays_Nil pending_def
          cq_empty_def [symmetric] replays_empty)
  next
    case (CEmpty h)
    then show ?thesis using inv c p
      by (auto simp add: pop_step_def step_ok_def conc_inv_def replays_Nil pending_def)
  next
    case CTail
    then show ?thesis using inv c p
      by (simp add: pop_step_def step_ok_def conc_inv_def replays_Nil pending_def)
  next
    case (CRead t)
    then show ?thesis using inv c p n
      by (simp add: pop_step_def step_ok_def conc_inv_def replays_Nil pending_def)
  next
    case (CBump t e)
    then have ne: "\<not> cq_empty (ring s)" and t: "t = tail (ring s)" "e = c_buf (ring s) ! unat (tail (ring s))"
      using c by auto
    show ?thesis
      using CBump t bump_tail(1) [OF inv ne] replays_popped [OF inv ne] producer_ok_bump_tail [OF inv ne p]
      by (simp add: pop_step_def step_ok_def conc_inv_def pending_def)
  qed
qed

section \<open>Every interleaving\<close>

inductive_cases interleaveE: "interleave N s es s'"

definition run_ok :: "u32 \<Rightarrow> conc \<Rightarrow> events \<Rightarrow> conc \<Rightarrow> bool" where
  "run_ok N s es s' \<longleftrightarrow> conc_inv N s' \<and> replays N (ring s) es (ring s')
     \<and> push_ret s' = push_ret s @ pushes_of es
     \<and> pop_ret s' @ pending s' = pop_ret s @ pending s @ pops_of es"

lemma run_ok_step:
  assumes "run_ok N s es s1" "step_ok N s1 (e, s2)"
  shows "run_ok N s (es @ e) s2"
  using assms by (auto simp: run_ok_def step_ok_def intro: replays_append)

lemma interleave_ok:
  assumes "interleave N s es s'" "conc_inv N s"
  shows "run_ok N s es s'"
  using assms
proof (induction rule: interleave.induct)
  case (none s)
  then show ?case by (simp add: run_ok_def replays_Nil)
next
  case (push s es s1 x e s2)
  then have ok: "run_ok N s es s1" by simp
  then have "conc_inv N s1" by (simp add: run_ok_def)
  then have "step_ok N s1 (e, s2)" using push_step_ok [of N s1 x] push.hyps by auto
  with ok show ?case by (rule run_ok_step)
next
  case (pop s es s1 e s2)
  then have ok: "run_ok N s es s1" by simp
  then have "conc_inv N s1" by (simp add: run_ok_def)
  then have "step_ok N s1 (e, s2)" using pop_step_ok [of N s1] pop.hyps by auto
  with ok show ?case by (rule run_ok_step)
qed

lemma conc_start_inv: "cq_inv N c \<Longrightarrow> conc_inv N (conc_start c)"
  by (simp add: conc_inv_def conc_start_def)

text \<open>
  (C2) Lock freedom is real: in every interleaving of the accesses of \<open>cq_push\<close> (one producer) and
  \<open>cq_pop_nonblock\<close> (one consumer) from the queue \<open>cq_init\<close> makes, the calls behave as if each
  took effect at one instant. Replaying them in that order on a FIFO of capacity \<open>CQ_N - 1\<close> gives
  the very values the calls returned (whenever no pop is under way) and the contents of the
  ring. No access is ever out of bounds: both sides can always take their next step.
\<close>
theorem cq_linearizable:
  assumes "cq_size_ok N" "cq_init N f = Inr c0" "interleave N (conc_start c0) es s"
  shows "fifo_run (unat N - 1) [] (map fst es) = (map snd es, cq_list N (ring s))
    \<and> push_ret s = pushes_of es
    \<and> (consumer s = CIdle \<longrightarrow> pop_ret s = pops_of es)
    \<and> (\<exists>r. push_step N x s = Inr r) \<and> (\<exists>r. pop_step N s = Inr r)"
proof -
  have c0: "cq_inv N c0" "cq_list N c0 = []" using cq_init_ok [OF assms(1), of f] assms(2) by auto
  have ok: "run_ok N (conc_start c0) es s"
    using interleave_ok [OF assms(3)] conc_start_inv [OF c0(1)] by simp
  then have inv: "conc_inv N s" by (simp add: run_ok_def)
  have "pop_ret s @ pending s = pops_of es" "push_ret s = pushes_of es"
    using ok by (simp_all add: run_ok_def conc_start_def pending_def)
  moreover have "consumer s = CIdle \<Longrightarrow> pending s = []" by (simp add: pending_def)
  moreover have "fifo_run (unat N - 1) [] (map fst es) = (map snd es, cq_list N (ring s))"
    using ok c0(2) by (simp add: run_ok_def replays_def conc_start_def)
  ultimately show ?thesis using push_step_ok [OF inv, of x] pop_step_ok [OF inv] by auto
qed

text \<open>A schedule: in a ring of two slots, a pop starts on the empty queue while a push completes.\<close>

definition conc_two :: cq_t where
  "conc_two = \<lparr>c_buf = [0, 0], fence = 0x12345678, head = 0, tail = 0, overflow = 0,
     errors_fatal_p = 0\<rparr>"

fun run_schedule :: "u32 \<Rightarrow> u8 option list \<Rightarrow> conc \<Rightarrow> (events \<times> conc) result" where
  "run_schedule N [] s = Inr ([], s)"
| "run_schedule N (m # ms) s =
     rbind (case m of None \<Rightarrow> pop_step N s | Some x \<Rightarrow> push_step N x s) (\<lambda>(e, s1).
     rbind (run_schedule N ms s1) (\<lambda>(es, s2). Inr (e @ es, s2)))"

lemma interleave_schedule:
  "run_schedule N ms s1 = Inr (fs, s2) \<Longrightarrow> interleave N s es s1 \<Longrightarrow> interleave N s (es @ fs) s2"
proof (induction ms arbitrary: s1 es fs)
  case Nil
  then show ?case by simp
next
  case (Cons m ms)
  from Cons.prems(1) obtain e s' gs where
    st: "(case m of None \<Rightarrow> pop_step N s1 | Some x \<Rightarrow> push_step N x s1) = Inr (e, s')"
    and r: "run_schedule N ms s' = Inr (gs, s2)" and fs: "fs = e @ gs"
    by (auto simp: rbind_eq_Inr)
  have "interleave N s (es @ e) s'"
    using st Cons.prems(2) by (cases m) (auto intro: interleave.push interleave.pop)
  from Cons.IH [OF r this] fs show ?case by simp
qed

definition two_schedule :: "u8 option list" where
  "two_schedule = [None, Some 7, Some 7, Some 7, Some 7, Some 7, None, None, None, None, None, None]"

definition two_end :: conc where
  "two_end = \<lparr>ring = \<lparr>c_buf = [7, 0], fence = 0x12345678, head = 1, tail = 1, overflow = 0,
       errors_fatal_p = 0\<rparr>, producer = PIdle, consumer = CIdle, push_ret = [True],
     pop_ret = [None, Some 7]\<rparr>"

definition two_events :: events where
  "two_events = [(Pop, Popped None), (Push 7, Pushed True), (Pop, Popped (Some 7))]"

lemma two_run: "run_schedule 2 two_schedule (conc_start conc_two) = Inr (two_events, two_end)"
  by (simp add: two_schedule_def conc_start_def conc_two_def push_step_def pop_step_def two_end_def
      two_events_def)

lemma two_init: "cq_init 2 0 = Inr conc_two"
  by (simp add: cq_init_def conc_two_def cq_empty_def cq_full_def cq_nelem_def cq_pop_nonblock_def)
    (simp add: numeral_2_eq_2)

theorem cq_linearizable_witness:
  "interleave 2 (conc_start conc_two) two_events two_end
    \<and> fifo_run 1 [] (map fst two_events) = (map snd two_events, cq_list 2 (ring two_end))
    \<and> pop_ret two_end = pops_of two_events"
proof -
  have i: "interleave 2 (conc_start conc_two) two_events two_end"
    using interleave_schedule [OF two_run interleave.none] by simp
  have "cq_size_ok 2" by (simp add: cq_size_ok_def)
  from cq_linearizable [OF this two_init i, of 0] i show ?thesis by (simp add: two_end_def)
qed

section \<open>The consumer finishes\<close>

text \<open>
  Left to itself, the consumer ends the call it is in within four steps, whatever the producer had
  reached: no lock is waited for.
\<close>

fun pop_left :: "consumer_pc \<Rightarrow> nat" where
  "pop_left CIdle = 0"
| "pop_left (CEmpty h) = 4"
| "pop_left CTail = 3"
| "pop_left (CRead t) = 2"
| "pop_left (CBump t e) = 1"

lemma pop_left_decreases:
  assumes "conc_inv N s" "consumer s \<noteq> CIdle" "pop_step N s = Inr (e, s')"
  shows "pop_left (consumer s') < pop_left (consumer s)"
  using assms(2,3) by (cases "consumer s") (auto simp: pop_step_def rbind_eq_Inr split: if_splits)

lemma pop_finishes:
  "conc_inv N s \<Longrightarrow> pop_left (consumer s) \<le> k \<Longrightarrow>
     \<exists>j es s'. j \<le> k \<and> run_schedule N (replicate j None) s = Inr (es, s') \<and> consumer s' = CIdle
       \<and> run_ok N s es s'"
proof (induction k arbitrary: s)
  case 0
  then have "consumer s = CIdle" by (cases "consumer s") simp_all
  with 0 show ?case by (auto simp: run_ok_def replays_Nil intro!: exI [of _ 0])
next
  case (Suc k)
  show ?case
  proof (cases "consumer s = CIdle")
    case True
    with Suc.prems show ?thesis by (auto simp: run_ok_def replays_Nil intro!: exI [of _ 0])
  next
    case False
    obtain e s1 where st: "pop_step N s = Inr (e, s1)" "step_ok N s (e, s1)"
      using pop_step_ok [OF Suc.prems(1)] by auto
    have ok: "run_ok N s e s1" using st(2) by (simp add: run_ok_def step_ok_def)
    then have inv: "conc_inv N s1" by (simp add: run_ok_def)
    have "pop_left (consumer s1) \<le> k"
      using pop_left_decreases [OF Suc.prems(1) False st(1)] Suc.prems(2) by simp
    from Suc.IH [OF inv this] obtain j es s' where
      j: "j \<le> k" "run_schedule N (replicate j None) s1 = Inr (es, s')" "consumer s' = CIdle"
        "run_ok N s1 es s'" by blast
    have "run_ok N s (e @ es) s'"
      using ok j(4) by (auto simp: run_ok_def intro: replays_append)
    then show ?thesis using j st(1) by (intro exI [of _ "Suc j"]) auto
  qed
qed

text \<open>
  In every reachable state, running only the consumer ends the call it is in after at most four of its
  steps.
\<close>
theorem cq_pop_wait_free:
  assumes "cq_size_ok N" "cq_init N f = Inr c0" "interleave N (conc_start c0) es s"
  shows "\<exists>j fs s'. j \<le> 4 \<and> run_schedule N (replicate j None) s = Inr (fs, s') \<and> consumer s' = CIdle
    \<and> interleave N (conc_start c0) (es @ fs) s'"
proof -
  have c0: "cq_inv N c0" using cq_init_ok [OF assms(1), of f] assms(2) by auto
  have inv: "conc_inv N s"
    using interleave_ok [OF assms(3) conc_start_inv [OF c0]] by (simp add: run_ok_def)
  have "pop_left (consumer s) \<le> 4" by (cases "consumer s") simp_all
  from pop_finishes [OF inv this] obtain j fs s' where
    j: "j \<le> 4" "run_schedule N (replicate j None) s = Inr (fs, s')" "consumer s' = CIdle" by blast
  with interleave_schedule [OF j(2) assms(3)] show ?thesis by blast
qed

definition two_half :: conc where
  "two_half = (conc_start conc_two)\<lparr>consumer := CEmpty 0\<rparr>"

theorem cq_pop_wait_free_witness:
  "\<exists>j fs s'. j \<le> 4 \<and> run_schedule 2 (replicate j None) two_half = Inr (fs, s') \<and> consumer s' = CIdle
    \<and> interleave 2 (conc_start conc_two) ([(Pop, Popped None)] @ fs) s'"
proof -
  have s: "cq_size_ok 2" by (simp add: cq_size_ok_def)
  have "run_schedule 2 [None] (conc_start conc_two) = Inr ([(Pop, Popped None)], two_half)"
    by (simp add: conc_start_def conc_two_def pop_step_def two_half_def)
  then have i: "interleave 2 (conc_start conc_two) [(Pop, Popped None)] two_half"
    using interleave_schedule [OF _ interleave.none] by fastforce
  show ?thesis by (rule cq_pop_wait_free [OF s two_init i])
qed

end
