(* ===== verification/Crc.thy ===== *)
theory Crc
  imports Prelude
begin

text \<open>
  The CRC32 checksum of \<^verbatim>\<open>libpi/libc/crc.c\<close>, with the copies of it in \<^verbatim>\<open>libunix/crc.c\<close> and in
  \<^verbatim>\<open>simple-boot.h\<close> (the Unix and Pi ends of the bootloader), and the hash of
  \<^verbatim>\<open>libpi/libc/hash.c\<close>. The table-driven routine is compared with the bit-serial definition of
  the checksum, and the error detection the bootloader relies on is derived from it.
\<close>

section \<open>The table and the routines\<close>

definition crc32_tab :: "u32 list" where
  "crc32_tab = [
     0x00000000, 0x77073096, 0xee0e612c, 0x990951ba, 0x076dc419, 0x706af48f, 0xe963a535,
     0x9e6495a3, 0x0edb8832, 0x79dcb8a4, 0xe0d5e91e, 0x97d2d988, 0x09b64c2b, 0x7eb17cbd,
     0xe7b82d07, 0x90bf1d91, 0x1db71064, 0x6ab020f2, 0xf3b97148, 0x84be41de, 0x1adad47d,
     0x6ddde4eb, 0xf4d4b551, 0x83d385c7, 0x136c9856, 0x646ba8c0, 0xfd62f97a, 0x8a65c9ec,
     0x14015c4f, 0x63066cd9, 0xfa0f3d63, 0x8d080df5, 0x3b6e20c8, 0x4c69105e, 0xd56041e4,
     0xa2677172, 0x3c03e4d1, 0x4b04d447, 0xd20d85fd, 0xa50ab56b, 0x35b5a8fa, 0x42b2986c,
     0xdbbbc9d6, 0xacbcf940, 0x32d86ce3, 0x45df5c75, 0xdcd60dcf, 0xabd13d59, 0x26d930ac,
     0x51de003a, 0xc8d75180, 0xbfd06116, 0x21b4f4b5, 0x56b3c423, 0xcfba9599, 0xb8bda50f,
     0x2802b89e, 0x5f058808, 0xc60cd9b2, 0xb10be924, 0x2f6f7c87, 0x58684c11, 0xc1611dab,
     0xb6662d3d, 0x76dc4190, 0x01db7106, 0x98d220bc, 0xefd5102a, 0x71b18589, 0x06b6b51f,
     0x9fbfe4a5, 0xe8b8d433, 0x7807c9a2, 0x0f00f934, 0x9609a88e, 0xe10e9818, 0x7f6a0dbb,
     0x086d3d2d, 0x91646c97, 0xe6635c01, 0x6b6b51f4, 0x1c6c6162, 0x856530d8, 0xf262004e,
     0x6c0695ed, 0x1b01a57b, 0x8208f4c1, 0xf50fc457, 0x65b0d9c6, 0x12b7e950, 0x8bbeb8ea,
     0xfcb9887c, 0x62dd1ddf, 0x15da2d49, 0x8cd37cf3, 0xfbd44c65, 0x4db26158, 0x3ab551ce,
     0xa3bc0074, 0xd4bb30e2, 0x4adfa541, 0x3dd895d7, 0xa4d1c46d, 0xd3d6f4fb, 0x4369e96a,
     0x346ed9fc, 0xad678846, 0xda60b8d0, 0x44042d73, 0x33031de5, 0xaa0a4c5f, 0xdd0d7cc9,
     0x5005713c, 0x270241aa, 0xbe0b1010, 0xc90c2086, 0x5768b525, 0x206f85b3, 0xb966d409,
     0xce61e49f, 0x5edef90e, 0x29d9c998, 0xb0d09822, 0xc7d7a8b4, 0x59b33d17, 0x2eb40d81,
     0xb7bd5c3b, 0xc0ba6cad, 0xedb88320, 0x9abfb3b6, 0x03b6e20c, 0x74b1d29a, 0xead54739,
     0x9dd277af, 0x04db2615, 0x73dc1683, 0xe3630b12, 0x94643b84, 0x0d6d6a3e, 0x7a6a5aa8,
     0xe40ecf0b, 0x9309ff9d, 0x0a00ae27, 0x7d079eb1, 0xf00f9344, 0x8708a3d2, 0x1e01f268,
     0x6906c2fe, 0xf762575d, 0x806567cb, 0x196c3671, 0x6e6b06e7, 0xfed41b76, 0x89d32be0,
     0x10da7a5a, 0x67dd4acc, 0xf9b9df6f, 0x8ebeeff9, 0x17b7be43, 0x60b08ed5, 0xd6d6a3e8,
     0xa1d1937e, 0x38d8c2c4, 0x4fdff252, 0xd1bb67f1, 0xa6bc5767, 0x3fb506dd, 0x48b2364b,
     0xd80d2bda, 0xaf0a1b4c, 0x36034af6, 0x41047a60, 0xdf60efc3, 0xa867df55, 0x316e8eef,
     0x4669be79, 0xcb61b38c, 0xbc66831a, 0x256fd2a0, 0x5268e236, 0xcc0c7795, 0xbb0b4703,
     0x220216b9, 0x5505262f, 0xc5ba3bbe, 0xb2bd0b28, 0x2bb45a92, 0x5cb36a04, 0xc2d7ffa7,
     0xb5d0cf31, 0x2cd99e8b, 0x5bdeae1d, 0x9b64c2b0, 0xec63f226, 0x756aa39c, 0x026d930a,
     0x9c0906a9, 0xeb0e363f, 0x72076785, 0x05005713, 0x95bf4a82, 0xe2b87a14, 0x7bb12bae,
     0x0cb61b38, 0x92d28e9b, 0xe5d5be0d, 0x7cdcefb7, 0x0bdbdf21, 0x86d3d2d4, 0xf1d4e242,
     0x68ddb3f8, 0x1fda836e, 0x81be16cd, 0xf6b9265b, 0x6fb077e1, 0x18b74777, 0x88085ae6,
     0xff0f6a70, 0x66063bca, 0x11010b5c, 0x8f659eff, 0xf862ae69, 0x616bffd3, 0x166ccf45,
     0xa00ae278, 0xd70dd2ee, 0x4e048354, 0x3903b3c2, 0xa7672661, 0xd06016f7, 0x4969474d,
     0x3e6e77db, 0xaed16a4a, 0xd9d65adc, 0x40df0b66, 0x37d83bf0, 0xa9bcae53, 0xdebb9ec5,
     0x47b2cf7f, 0x30b5ffe9, 0xbdbdf21c, 0xcabac28a, 0x53b39330, 0x24b4a3a6, 0xbad03605,
     0xcdd70693, 0x54de5729, 0x23d967bf, 0xb3667a2e, 0xc4614ab8, 0x5d681b02, 0x2a6f2b94,
     0xb40bbe37, 0xc30c8ea1, 0x5a05df1b, 0x2d02ef8d
   ]"

text \<open>The body of the loop: one table lookup per byte.\<close>

definition crc32_step :: "u32 \<Rightarrow> u8 \<Rightarrow> u32" where
  "crc32_step crc b = crc32_tab ! unat ((crc XOR ucast b) AND 0xFF) XOR drop_bit 8 crc"

text \<open>\<open>buf\<close> is the object the caller points to; reading past it is a fault.\<close>

fun crc32_loop :: "bytes \<Rightarrow> nat \<Rightarrow> u32 \<Rightarrow> u32 result" where
  "crc32_loop p 0 crc = Inr crc"
| "crc32_loop [] (Suc n) crc = Inl Bounds"
| "crc32_loop (b # p) (Suc n) crc = crc32_loop p n (crc32_step crc b)"

definition our_crc32_inc :: "bytes \<Rightarrow> u32 \<Rightarrow> u32 \<Rightarrow> u32 result" where
  "our_crc32_inc buf n crc =
     rbind (crc32_loop buf (unat n) (crc XOR NOT 0)) (\<lambda>crc. Inr (crc XOR NOT 0))"

definition our_crc32 :: "bytes \<Rightarrow> u32 \<Rightarrow> u32 result" where
  "our_crc32 buf n = our_crc32_inc buf n 0"

section \<open>The bit-serial reference\<close>

text \<open>
  One bit of polynomial division by the reflected CRC32 polynomial, and the checksum as the
  remainder after shifting in the message bit by bit: each byte is added to the low end and
  eight division steps follow.
\<close>

definition crc_bit :: "u32 \<Rightarrow> u32" where
  "crc_bit c = (if odd c then drop_bit 1 c XOR 0xEDB88320 else drop_bit 1 c)"

fun crc_bits :: "nat \<Rightarrow> u32 \<Rightarrow> u32" where
  "crc_bits 0 c = c"
| "crc_bits (Suc n) c = crc_bits n (crc_bit c)"

definition crc_ref_state :: "u32 \<Rightarrow> bytes \<Rightarrow> u32" where
  "crc_ref_state = foldl (\<lambda>c b. crc_bits 8 (c XOR ucast b))"

definition crc_ref :: "bytes \<Rightarrow> u32" where
  "crc_ref bs = crc_ref_state (NOT 0) bs XOR NOT 0"

section \<open>Linearity and injectivity of the division step\<close>

lemma word_xor_cancel_left [simp]: "(a :: 'a::len word) XOR (a XOR b) = b"
  by (simp flip: xor.assoc)

lemma word_xor_cancel_right: "a XOR c = b XOR c \<longleftrightarrow> a = (b :: 'a::len word)"
  by (metis xor.assoc xor_self_eq xor.right_neutral)

lemma word_xor_cancel: "c XOR a = c XOR b \<longleftrightarrow> a = (b :: 'a::len word)"
  by (metis word_xor_cancel_left)

lemma drop_bit_xor_word: "drop_bit n (a XOR b :: u32) = drop_bit n a XOR drop_bit n b"
  by (rule bit_eqI) (simp add: bit_simps)

lemma odd_xor_word: "odd (a XOR b :: u32) \<longleftrightarrow> odd a \<noteq> odd b"
  by (simp add: bit_0 [symmetric] bit_xor_iff)

lemma crc_bit_xor: "crc_bit (a XOR b) = crc_bit a XOR crc_bit b"
  by (auto simp: crc_bit_def odd_xor_word drop_bit_xor_word ac_simps)

lemma crc_bits_xor: "crc_bits n (a XOR b) = crc_bits n a XOR crc_bits n b"
  by (induction n arbitrary: a b) (simp_all add: crc_bit_xor)

lemma crc_bit_top: "bit (crc_bit c) 31 \<longleftrightarrow> odd c"
proof -
  have "\<not> bit (drop_bit 1 c) 31"
    using bit_imp_le_length [of c 32] by (auto simp: bit_simps)
  moreover have "bit (0xEDB88320 :: u32) 31"
    by (simp add: bit_iff_odd_drop_bit)
  ultimately show ?thesis
    by (auto simp: crc_bit_def bit_xor_iff)
qed

lemma crc_bit_inj: "crc_bit c = crc_bit d \<longleftrightarrow> c = d"
proof
  assume eq: "crc_bit c = crc_bit d"
  have par: "odd c \<longleftrightarrow> odd d"
    using crc_bit_top [of c] crc_bit_top [of d] eq by simp
  then have dr: "drop_bit 1 c = drop_bit 1 d"
    using eq by (auto simp: crc_bit_def word_xor_cancel_right split: if_splits)
  show "c = d"
  proof (rule bit_eqI)
    fix n
    show "bit c n \<longleftrightarrow> bit d n"
    proof (cases n)
      case 0
      then show ?thesis using par by (simp add: bit_0)
    next
      case (Suc m)
      then show ?thesis
        using arg_cong [OF dr, of "\<lambda>x. bit x m"] by (simp add: bit_simps)
    qed
  qed
qed simp

lemma crc_bits_inj: "crc_bits n c = crc_bits n d \<longleftrightarrow> c = d"
  by (induction n arbitrary: c d) (simp_all add: crc_bit_inj)

lemma crc_bits_0: "crc_bits n 0 = 0"
  by (induction n) (simp_all add: crc_bit_def)

lemma crc_bits_Suc_right: "crc_bits (Suc n) c = crc_bit (crc_bits n c)"
  by (induction n arbitrary: c) simp_all

lemma crc_bits_add: "crc_bits (m + n) c = crc_bits n (crc_bits m c)"
  by (induction m arbitrary: c) simp_all

lemma crc_bits_even: "(\<And>i. i < n \<Longrightarrow> \<not> bit c i) \<Longrightarrow> crc_bits n c = drop_bit n c"
proof (induction n arbitrary: c)
  case (Suc n)
  have "crc_bit c = drop_bit 1 c"
    using Suc.prems [of 0] by (simp add: crc_bit_def bit_0)
  moreover have "crc_bits n (drop_bit 1 c) = drop_bit n (drop_bit 1 c)"
    by (rule Suc.IH) (use Suc.prems in \<open>simp add: bit_simps\<close>)
  ultimately show ?case by simp
qed simp

section \<open>The table is the division of its index\<close>

text \<open>
  The entries at even positions \<open>2 * j\<close> are one division step ahead of entry \<open>j\<close>, and an odd
  entry adds entry 1 to its even neighbour: two short checks that determine all 256 entries.
\<close>

fun evens :: "'a list \<Rightarrow> 'a list" where
  "evens (x # y # xs) = x # evens xs"
| "evens _ = []"

fun odds :: "'a list \<Rightarrow> 'a list" where
  "odds (x # y # xs) = y # odds xs"
| "odds _ = []"

lemma nth_evens: "2 * j + 1 < length xs \<Longrightarrow> evens xs ! j = xs ! (2 * j)"
proof (induction xs arbitrary: j rule: evens.induct)
  case (1 x y xs)
  then show ?case by (cases j) auto
qed auto

lemma nth_odds: "2 * j + 1 < length xs \<Longrightarrow> odds xs ! j = xs ! (2 * j + 1)"
proof (induction xs arbitrary: j rule: odds.induct)
  case (1 x y xs)
  then show ?case by (cases j) auto
qed auto

lemma length_evens: "length (evens xs) = length xs div 2"
  by (induction xs rule: evens.induct) auto

lemma length_crc32_tab: "length crc32_tab = 256"
  by (simp add: crc32_tab_def)

lemma crc32_tab_evens: "map crc_bit (evens crc32_tab) = take 128 crc32_tab"
  by (simp add: crc32_tab_def crc_bit_def)

lemma crc32_tab_odds: "odds crc32_tab = map (\<lambda>x. x XOR 0x77073096) (evens crc32_tab)"
  by (simp add: crc32_tab_def)

lemma crc32_tab_01: "crc32_tab ! 0 = 0" "crc32_tab ! 1 = 0x77073096"
  by (simp_all add: crc32_tab_def)

lemma crc_bits_def_numeral: "crc_bits (numeral k) c = crc_bits (pred_numeral k) (crc_bit c)"
  by (simp add: numeral_eq_Suc)

lemma crc_bits_1: "crc_bits 8 1 = 0x77073096"
  by (simp add: crc_bits_def_numeral crc_bit_def)

lemma crc_bit_double:
  assumes "j < 2 ^ 31"
  shows "crc_bit (word_of_nat (2 * j)) = word_of_nat j"
proof -
  have "unat (drop_bit 1 (word_of_nat (2 * j) :: u32)) = unat (word_of_nat (2 * j) :: u32) div 2"
    by (simp only: unat_drop_bit) simp
  also have "\<dots> = j"
    using assms unat_of_nat_u32 [of "2 * j"] by simp
  finally have "unat (drop_bit 1 (word_of_nat (2 * j) :: u32)) = j" .
  then have "drop_bit 1 (word_of_nat (2 * j) :: u32) = word_of_nat j"
    using assms by (simp add: word_unat_eq_iff unat_of_nat_u32)
  then show ?thesis by (simp add: crc_bit_def)
qed

lemma crc32_tab_nth: "i < 256 \<Longrightarrow> crc32_tab ! i = crc_bits 8 (word_of_nat i)"
proof (induction i rule: less_induct)
  case (less i)
  define j where "j = i div 2"
  have j: "j < 128" using less.prems by (simp add: j_def)
  have ev: "crc32_tab ! (2 * j) = crc_bits 8 (word_of_nat (2 * j))"
  proof (cases "j = 0")
    case False
    have "crc_bit (crc32_tab ! (2 * j)) = crc32_tab ! j"
      using arg_cong [OF crc32_tab_evens, of "\<lambda>l. l ! j"] j
      by (simp add: nth_evens length_crc32_tab length_evens)
    also have "\<dots> = crc_bits 8 (word_of_nat j)"
      using less.IH [of j] False j less.prems by (simp add: j_def)
    also have "word_of_nat j = crc_bit (word_of_nat (2 * j))"
      using j by (intro crc_bit_double [symmetric]) simp
    finally show ?thesis
      by (simp only: crc_bit_inj crc_bits.simps(2) [symmetric] crc_bits_Suc_right)
  qed (simp add: crc32_tab_01 crc_bits_0)
  show ?case
  proof (cases "even i")
    case True
    then show ?thesis using ev by (simp add: j_def)
  next
    case False
    then have i: "i = 2 * j + 1" by (simp add: j_def)
    have "crc32_tab ! i = crc32_tab ! (2 * j) XOR 0x77073096"
      using arg_cong [OF crc32_tab_odds, of "\<lambda>l. l ! j"] j
      by (simp add: i nth_evens nth_odds length_crc32_tab length_evens)
    also have "\<dots> = crc_bits 8 (word_of_nat (2 * j) XOR 1)"
      by (simp only: ev crc_bits_1 [symmetric] crc_bits_xor)
    also have "word_of_nat (2 * j) XOR (1 :: u32) = word_of_nat i"
      by (simp add: i xor_one_eq)
    finally show ?thesis .
  qed
qed

section \<open>The routine computes the reference\<close>

lemma crc32_tab_low: "crc32_tab ! unat (c AND 0xFF) = crc_bits 8 (c AND 0xFF)"
proof -
  have "unat (c AND 0xFF) < 256" by (simp add: unat_and_0xFF)
  then show ?thesis by (simp add: crc32_tab_nth)
qed

lemma crc32_step_eq: "crc32_step c b = crc_bits 8 (c XOR ucast b)"
proof -
  let ?x = "c XOR ucast b"
  let ?h = "push_bit 8 (drop_bit 8 ?x)"
  have "crc_bits 8 ?h = drop_bit 8 ?h"
    by (rule crc_bits_even) (simp add: bit_simps)
  also have "\<dots> = drop_bit 8 c"
    by (rule bit_eqI) (auto simp: bit_simps dest: bit_imp_le_length)
  finally have hi: "crc_bits 8 ?h = drop_bit 8 c" .
  have "?x = take_bit 8 ?x XOR ?h"
  proof (rule bit_word_eqI)
    fix n
    assume "n < LENGTH(32)"
    then show "bit ?x n \<longleftrightarrow> bit (take_bit 8 ?x XOR ?h) n"
      by (cases "n < 8") (auto simp: bit_simps)
  qed
  then have "crc_bits 8 ?x = crc_bits 8 (?x AND 0xFF) XOR drop_bit 8 c"
    using hi by (metis crc_bits_xor and_0xFF)
  then show ?thesis by (simp add: crc32_step_def crc32_tab_low)
qed

lemma crc32_loop_eq:
  "crc32_loop p n c = (if n \<le> length p then Inr (crc_ref_state c (take n p)) else Inl Bounds)"
  by (induction p n c rule: crc32_loop.induct) (simp_all add: crc_ref_state_def crc32_step_eq)

lemma our_crc32_inc_eq:
  "our_crc32_inc buf n c =
     (if unat n \<le> length buf then Inr (crc_ref_state (c XOR NOT 0) (take (unat n) buf) XOR NOT 0)
      else Inl Bounds)"
  by (simp add: our_crc32_inc_def crc32_loop_eq)

section \<open>Error detection\<close>

text \<open>
  A byte added at a position of the state commutes with the division, so the state after up
  to four bytes is a bijective image of the state with those bytes added at once.
\<close>

lemma crc_ref_state_append: "crc_ref_state c (a @ b) = crc_ref_state (crc_ref_state c a) b"
  by (simp add: crc_ref_state_def)

lemma crc_ref_state_inj: "crc_ref_state c bs = crc_ref_state d bs \<longleftrightarrow> c = d"
  by (induction bs arbitrary: c d)
     (simp_all add: crc_ref_state_def crc_bits_inj word_xor_cancel_right)

lemma crc_bits_shift_in:
  fixes b :: u8
  assumes "n + 8 \<le> 32"
  shows "crc_bits n (push_bit n (ucast b)) = ucast b"
proof -
  have "crc_bits n (push_bit n (ucast b)) = drop_bit n (push_bit n (ucast b) :: u32)"
    by (rule crc_bits_even) (simp add: bit_simps)
  also have "\<dots> = ucast b"
    by (rule bit_eqI) (use assms in \<open>auto simp: bit_simps dest: bit_imp_le_length\<close>)
  finally show ?thesis .
qed

text \<open>The bytes of a list packed at ascending byte positions, from bit \<open>n\<close> on.\<close>

fun pack :: "nat \<Rightarrow> bytes \<Rightarrow> u32" where
  "pack n [] = 0"
| "pack n (b # bs) = push_bit n (ucast b) XOR pack (n + 8) bs"

lemma crc_ref_state_pack:
  assumes "n + 8 * length bs \<le> 32"
  shows "crc_ref_state (crc_bits n c) bs = crc_bits (n + 8 * length bs) (c XOR pack n bs)"
  using assms
proof (induction bs arbitrary: n c)
  case (Cons b bs)
  have "crc_ref_state (crc_bits n c) (b # bs)
        = crc_ref_state (crc_bits 8 (crc_bits n c XOR ucast b)) bs"
    by (simp add: crc_ref_state_def)
  also have "crc_bits n c XOR ucast b = crc_bits n (c XOR push_bit n (ucast b))"
    using Cons.prems crc_bits_shift_in [of n b] by (simp add: crc_bits_xor)
  also have "crc_bits 8 \<dots> = crc_bits (n + 8) (c XOR push_bit n (ucast b))"
    by (simp only: crc_bits_add)
  also have "crc_ref_state \<dots> bs
      = crc_bits (n + 8 + 8 * length bs) (c XOR push_bit n (ucast b) XOR pack (n + 8) bs)"
    using Cons.prems Cons.IH [of "n + 8"] by (simp add: xor.assoc)
  finally show ?case by (simp add: ac_simps)
qed (simp add: crc_ref_state_def)

lemma pack_low: "i < n \<Longrightarrow> \<not> bit (pack n bs) i"
  by (induction bs arbitrary: n) (simp_all add: bit_simps)

lemma pack_inj:
  assumes "length bs = length ds" "n + 8 * length bs \<le> 32" "pack n bs = pack n ds"
  shows "bs = ds"
  using assms
proof (induction bs ds arbitrary: n rule: list_induct2)
  case (Cons b bs d ds)
  have bits: "bit b i \<longleftrightarrow> bit d i" if "i < 8" for i
    using arg_cong [OF Cons.prems(2), of "\<lambda>w. bit w (n + i)"] that Cons.prems(1)
    by (simp add: bit_simps pack_low)
  then have "b = d" by (intro bit_eqI) simp
  moreover from this have "bs = ds"
    using Cons.prems Cons.IH [of "n + 8"] by (simp add: word_xor_cancel)
  ultimately show ?case by simp
qed simp

lemma crc_burst:
  assumes "length w = length w'" "length w \<le> 4" "w \<noteq> w'"
  shows "crc_ref (pre @ w @ suf) \<noteq> crc_ref (pre @ w' @ suf)"
proof
  let ?c = "crc_ref_state (NOT 0) pre"
  assume "crc_ref (pre @ w @ suf) = crc_ref (pre @ w' @ suf)"
  then have "crc_ref_state ?c w = crc_ref_state ?c w'"
    by (simp add: crc_ref_def word_xor_cancel_right crc_ref_state_append crc_ref_state_inj)
  then have "pack 0 w = pack 0 w'"
    using assms crc_ref_state_pack [of 0 w ?c] crc_ref_state_pack [of 0 w' ?c]
    by (simp add: crc_bits_inj word_xor_cancel)
  then show False using assms pack_inj [of w w' 0] by simp
qed

section \<open>The copies in libunix and the bootloader\<close>

definition libunix_crc32_tab :: "u32 list" where
  "libunix_crc32_tab = [
     0x00000000, 0x77073096, 0xee0e612c, 0x990951ba, 0x076dc419, 0x706af48f, 0xe963a535,
     0x9e6495a3, 0x0edb8832, 0x79dcb8a4, 0xe0d5e91e, 0x97d2d988, 0x09b64c2b, 0x7eb17cbd,
     0xe7b82d07, 0x90bf1d91, 0x1db71064, 0x6ab020f2, 0xf3b97148, 0x84be41de, 0x1adad47d,
     0x6ddde4eb, 0xf4d4b551, 0x83d385c7, 0x136c9856, 0x646ba8c0, 0xfd62f97a, 0x8a65c9ec,
     0x14015c4f, 0x63066cd9, 0xfa0f3d63, 0x8d080df5, 0x3b6e20c8, 0x4c69105e, 0xd56041e4,
     0xa2677172, 0x3c03e4d1, 0x4b04d447, 0xd20d85fd, 0xa50ab56b, 0x35b5a8fa, 0x42b2986c,
     0xdbbbc9d6, 0xacbcf940, 0x32d86ce3, 0x45df5c75, 0xdcd60dcf, 0xabd13d59, 0x26d930ac,
     0x51de003a, 0xc8d75180, 0xbfd06116, 0x21b4f4b5, 0x56b3c423, 0xcfba9599, 0xb8bda50f,
     0x2802b89e, 0x5f058808, 0xc60cd9b2, 0xb10be924, 0x2f6f7c87, 0x58684c11, 0xc1611dab,
     0xb6662d3d, 0x76dc4190, 0x01db7106, 0x98d220bc, 0xefd5102a, 0x71b18589, 0x06b6b51f,
     0x9fbfe4a5, 0xe8b8d433, 0x7807c9a2, 0x0f00f934, 0x9609a88e, 0xe10e9818, 0x7f6a0dbb,
     0x086d3d2d, 0x91646c97, 0xe6635c01, 0x6b6b51f4, 0x1c6c6162, 0x856530d8, 0xf262004e,
     0x6c0695ed, 0x1b01a57b, 0x8208f4c1, 0xf50fc457, 0x65b0d9c6, 0x12b7e950, 0x8bbeb8ea,
     0xfcb9887c, 0x62dd1ddf, 0x15da2d49, 0x8cd37cf3, 0xfbd44c65, 0x4db26158, 0x3ab551ce,
     0xa3bc0074, 0xd4bb30e2, 0x4adfa541, 0x3dd895d7, 0xa4d1c46d, 0xd3d6f4fb, 0x4369e96a,
     0x346ed9fc, 0xad678846, 0xda60b8d0, 0x44042d73, 0x33031de5, 0xaa0a4c5f, 0xdd0d7cc9,
     0x5005713c, 0x270241aa, 0xbe0b1010, 0xc90c2086, 0x5768b525, 0x206f85b3, 0xb966d409,
     0xce61e49f, 0x5edef90e, 0x29d9c998, 0xb0d09822, 0xc7d7a8b4, 0x59b33d17, 0x2eb40d81,
     0xb7bd5c3b, 0xc0ba6cad, 0xedb88320, 0x9abfb3b6, 0x03b6e20c, 0x74b1d29a, 0xead54739,
     0x9dd277af, 0x04db2615, 0x73dc1683, 0xe3630b12, 0x94643b84, 0x0d6d6a3e, 0x7a6a5aa8,
     0xe40ecf0b, 0x9309ff9d, 0x0a00ae27, 0x7d079eb1, 0xf00f9344, 0x8708a3d2, 0x1e01f268,
     0x6906c2fe, 0xf762575d, 0x806567cb, 0x196c3671, 0x6e6b06e7, 0xfed41b76, 0x89d32be0,
     0x10da7a5a, 0x67dd4acc, 0xf9b9df6f, 0x8ebeeff9, 0x17b7be43, 0x60b08ed5, 0xd6d6a3e8,
     0xa1d1937e, 0x38d8c2c4, 0x4fdff252, 0xd1bb67f1, 0xa6bc5767, 0x3fb506dd, 0x48b2364b,
     0xd80d2bda, 0xaf0a1b4c, 0x36034af6, 0x41047a60, 0xdf60efc3, 0xa867df55, 0x316e8eef,
     0x4669be79, 0xcb61b38c, 0xbc66831a, 0x256fd2a0, 0x5268e236, 0xcc0c7795, 0xbb0b4703,
     0x220216b9, 0x5505262f, 0xc5ba3bbe, 0xb2bd0b28, 0x2bb45a92, 0x5cb36a04, 0xc2d7ffa7,
     0xb5d0cf31, 0x2cd99e8b, 0x5bdeae1d, 0x9b64c2b0, 0xec63f226, 0x756aa39c, 0x026d930a,
     0x9c0906a9, 0xeb0e363f, 0x72076785, 0x05005713, 0x95bf4a82, 0xe2b87a14, 0x7bb12bae,
     0x0cb61b38, 0x92d28e9b, 0xe5d5be0d, 0x7cdcefb7, 0x0bdbdf21, 0x86d3d2d4, 0xf1d4e242,
     0x68ddb3f8, 0x1fda836e, 0x81be16cd, 0xf6b9265b, 0x6fb077e1, 0x18b74777, 0x88085ae6,
     0xff0f6a70, 0x66063bca, 0x11010b5c, 0x8f659eff, 0xf862ae69, 0x616bffd3, 0x166ccf45,
     0xa00ae278, 0xd70dd2ee, 0x4e048354, 0x3903b3c2, 0xa7672661, 0xd06016f7, 0x4969474d,
     0x3e6e77db, 0xaed16a4a, 0xd9d65adc, 0x40df0b66, 0x37d83bf0, 0xa9bcae53, 0xdebb9ec5,
     0x47b2cf7f, 0x30b5ffe9, 0xbdbdf21c, 0xcabac28a, 0x53b39330, 0x24b4a3a6, 0xbad03605,
     0xcdd70693, 0x54de5729, 0x23d967bf, 0xb3667a2e, 0xc4614ab8, 0x5d681b02, 0x2a6f2b94,
     0xb40bbe37, 0xc30c8ea1, 0x5a05df1b, 0x2d02ef8d
   ]"

definition boot_crc32_tab :: "u32 list" where
  "boot_crc32_tab = [
     0x00000000, 0x77073096, 0xee0e612c, 0x990951ba, 0x076dc419, 0x706af48f, 0xe963a535,
     0x9e6495a3, 0x0edb8832, 0x79dcb8a4, 0xe0d5e91e, 0x97d2d988, 0x09b64c2b, 0x7eb17cbd,
     0xe7b82d07, 0x90bf1d91, 0x1db71064, 0x6ab020f2, 0xf3b97148, 0x84be41de, 0x1adad47d,
     0x6ddde4eb, 0xf4d4b551, 0x83d385c7, 0x136c9856, 0x646ba8c0, 0xfd62f97a, 0x8a65c9ec,
     0x14015c4f, 0x63066cd9, 0xfa0f3d63, 0x8d080df5, 0x3b6e20c8, 0x4c69105e, 0xd56041e4,
     0xa2677172, 0x3c03e4d1, 0x4b04d447, 0xd20d85fd, 0xa50ab56b, 0x35b5a8fa, 0x42b2986c,
     0xdbbbc9d6, 0xacbcf940, 0x32d86ce3, 0x45df5c75, 0xdcd60dcf, 0xabd13d59, 0x26d930ac,
     0x51de003a, 0xc8d75180, 0xbfd06116, 0x21b4f4b5, 0x56b3c423, 0xcfba9599, 0xb8bda50f,
     0x2802b89e, 0x5f058808, 0xc60cd9b2, 0xb10be924, 0x2f6f7c87, 0x58684c11, 0xc1611dab,
     0xb6662d3d, 0x76dc4190, 0x01db7106, 0x98d220bc, 0xefd5102a, 0x71b18589, 0x06b6b51f,
     0x9fbfe4a5, 0xe8b8d433, 0x7807c9a2, 0x0f00f934, 0x9609a88e, 0xe10e9818, 0x7f6a0dbb,
     0x086d3d2d, 0x91646c97, 0xe6635c01, 0x6b6b51f4, 0x1c6c6162, 0x856530d8, 0xf262004e,
     0x6c0695ed, 0x1b01a57b, 0x8208f4c1, 0xf50fc457, 0x65b0d9c6, 0x12b7e950, 0x8bbeb8ea,
     0xfcb9887c, 0x62dd1ddf, 0x15da2d49, 0x8cd37cf3, 0xfbd44c65, 0x4db26158, 0x3ab551ce,
     0xa3bc0074, 0xd4bb30e2, 0x4adfa541, 0x3dd895d7, 0xa4d1c46d, 0xd3d6f4fb, 0x4369e96a,
     0x346ed9fc, 0xad678846, 0xda60b8d0, 0x44042d73, 0x33031de5, 0xaa0a4c5f, 0xdd0d7cc9,
     0x5005713c, 0x270241aa, 0xbe0b1010, 0xc90c2086, 0x5768b525, 0x206f85b3, 0xb966d409,
     0xce61e49f, 0x5edef90e, 0x29d9c998, 0xb0d09822, 0xc7d7a8b4, 0x59b33d17, 0x2eb40d81,
     0xb7bd5c3b, 0xc0ba6cad, 0xedb88320, 0x9abfb3b6, 0x03b6e20c, 0x74b1d29a, 0xead54739,
     0x9dd277af, 0x04db2615, 0x73dc1683, 0xe3630b12, 0x94643b84, 0x0d6d6a3e, 0x7a6a5aa8,
     0xe40ecf0b, 0x9309ff9d, 0x0a00ae27, 0x7d079eb1, 0xf00f9344, 0x8708a3d2, 0x1e01f268,
     0x6906c2fe, 0xf762575d, 0x806567cb, 0x196c3671, 0x6e6b06e7, 0xfed41b76, 0x89d32be0,
     0x10da7a5a, 0x67dd4acc, 0xf9b9df6f, 0x8ebeeff9, 0x17b7be43, 0x60b08ed5, 0xd6d6a3e8,
     0xa1d1937e, 0x38d8c2c4, 0x4fdff252, 0xd1bb67f1, 0xa6bc5767, 0x3fb506dd, 0x48b2364b,
     0xd80d2bda, 0xaf0a1b4c, 0x36034af6, 0x41047a60, 0xdf60efc3, 0xa867df55, 0x316e8eef,
     0x4669be79, 0xcb61b38c, 0xbc66831a, 0x256fd2a0, 0x5268e236, 0xcc0c7795, 0xbb0b4703,
     0x220216b9, 0x5505262f, 0xc5ba3bbe, 0xb2bd0b28, 0x2bb45a92, 0x5cb36a04, 0xc2d7ffa7,
     0xb5d0cf31, 0x2cd99e8b, 0x5bdeae1d, 0x9b64c2b0, 0xec63f226, 0x756aa39c, 0x026d930a,
     0x9c0906a9, 0xeb0e363f, 0x72076785, 0x05005713, 0x95bf4a82, 0xe2b87a14, 0x7bb12bae,
     0x0cb61b38, 0x92d28e9b, 0xe5d5be0d, 0x7cdcefb7, 0x0bdbdf21, 0x86d3d2d4, 0xf1d4e242,
     0x68ddb3f8, 0x1fda836e, 0x81be16cd, 0xf6b9265b, 0x6fb077e1, 0x18b74777, 0x88085ae6,
     0xff0f6a70, 0x66063bca, 0x11010b5c, 0x8f659eff, 0xf862ae69, 0x616bffd3, 0x166ccf45,
     0xa00ae278, 0xd70dd2ee, 0x4e048354, 0x3903b3c2, 0xa7672661, 0xd06016f7, 0x4969474d,
     0x3e6e77db, 0xaed16a4a, 0xd9d65adc, 0x40df0b66, 0x37d83bf0, 0xa9bcae53, 0xdebb9ec5,
     0x47b2cf7f, 0x30b5ffe9, 0xbdbdf21c, 0xcabac28a, 0x53b39330, 0x24b4a3a6, 0xbad03605,
     0xcdd70693, 0x54de5729, 0x23d967bf, 0xb3667a2e, 0xc4614ab8, 0x5d681b02, 0x2a6f2b94,
     0xb40bbe37, 0xc30c8ea1, 0x5a05df1b, 0x2d02ef8d
   ]"

fun tab_crc32_loop :: "u32 list \<Rightarrow> bytes \<Rightarrow> nat \<Rightarrow> u32 \<Rightarrow> u32 result" where
  "tab_crc32_loop tab p 0 crc = Inr crc"
| "tab_crc32_loop tab [] (Suc n) crc = Inl Bounds"
| "tab_crc32_loop tab (b # p) (Suc n) crc =
     tab_crc32_loop tab p n (tab ! unat ((crc XOR ucast b) AND 0xFF) XOR drop_bit 8 crc)"

definition libunix_crc32_inc :: "bytes \<Rightarrow> u32 \<Rightarrow> u32 \<Rightarrow> u32 result" where
  "libunix_crc32_inc buf n crc =
     rbind (tab_crc32_loop libunix_crc32_tab buf (unat n) (crc XOR NOT 0)) (\<lambda>crc. Inr (crc XOR NOT 0))"

definition libunix_crc32 :: "bytes \<Rightarrow> u32 \<Rightarrow> u32 result" where
  "libunix_crc32 buf n = libunix_crc32_inc buf n 0"

definition crc32_inc :: "bytes \<Rightarrow> u32 \<Rightarrow> u32 \<Rightarrow> u32 result" where
  "crc32_inc buf n crc =
     rbind (tab_crc32_loop boot_crc32_tab buf (unat n) (crc XOR NOT 0)) (\<lambda>crc. Inr (crc XOR NOT 0))"

definition crc32 :: "bytes \<Rightarrow> u32 \<Rightarrow> u32 result" where
  "crc32 buf n = crc32_inc buf n 0"

lemma tab_crc32_loop_eq: "tab_crc32_loop crc32_tab p n c = crc32_loop p n c"
  by (induction p n c rule: crc32_loop.induct) (simp_all add: crc32_step_def)

lemma crc_tabs_eq: "libunix_crc32_tab = crc32_tab" "boot_crc32_tab = crc32_tab"
  by (simp_all only: crc32_tab_def libunix_crc32_tab_def boot_crc32_tab_def)

lemma crc_copies_inc: "libunix_crc32_inc = our_crc32_inc" "crc32_inc = our_crc32_inc"
  by (simp_all add: fun_eq_iff libunix_crc32_inc_def crc32_inc_def our_crc32_inc_def
        crc_tabs_eq tab_crc32_loop_eq)

lemma crc_copies: "libunix_crc32 = our_crc32" "crc32 = our_crc32"
  by (simp_all add: fun_eq_iff libunix_crc32_def crc32_def our_crc32_def crc_copies_inc)

section \<open>Properties\<close>

text \<open>
  (C3) The table-driven checksum of libpi and its copies in libunix and in the bootloader
  compute the bit-serial CRC32 of the first \<open>n\<close> bytes of the buffer, whatever the buffer, and
  read past its end exactly when it is shorter than \<open>n\<close>.
\<close>

theorem our_crc32_correct:
  "our_crc32 buf n = (if unat n \<le> length buf then Inr (crc_ref (take (unat n) buf)) else Inl Bounds)
   \<and> libunix_crc32 buf n = our_crc32 buf n \<and> crc32 buf n = our_crc32 buf n"
  by (simp add: crc_copies our_crc32_def our_crc32_inc_eq crc_ref_def)

text \<open>
  Checksumming in pieces: feeding the checksum of a first buffer to \<open>our_crc32_inc\<close> on a
  second one gives the checksum of the concatenation.
\<close>

theorem our_crc32_incremental:
  assumes "length a + length b < 2 ^ 32"
  shows "rbind (our_crc32 a (word_of_nat (length a)))
           (\<lambda>c. our_crc32_inc b (word_of_nat (length b)) c)
         = our_crc32 (a @ b) (word_of_nat (length a + length b))"
proof -
  have "unat (word_of_nat (length a + length b) :: u32) = length a + length b"
    using assms by (intro unat_of_nat_u32) simp
  moreover have "unat (word_of_nat (length a) :: u32) = length a"
    "unat (word_of_nat (length b) :: u32) = length b"
    using assms by (simp_all add: unat_of_nat_u32)
  ultimately show ?thesis
    by (simp add: our_crc32_def our_crc32_inc_eq crc_ref_state_append xor.assoc del: of_nat_add)
qed

theorem our_crc32_incremental_witness:
  "rbind (our_crc32 [1, 2] 2) (our_crc32_inc [3] 1) = our_crc32 [1, 2, 3] 3"
  using our_crc32_incremental [of "[1, 2]" "[3]"] by simp

text \<open>
  (C24) Every corruption confined to four consecutive bytes of a message is detected: two
  messages of equal length that differ only there have different checksums. This is what the
  bootloader's check of the received code relies on.
\<close>

theorem our_crc32_detects_burst:
  assumes "length w = length w'" "length w \<le> 4" "w \<noteq> w'"
    and "length (pre @ w @ suf) < 2 ^ 32"
  shows "our_crc32 (pre @ w @ suf) (word_of_nat (length (pre @ w @ suf)))
         \<noteq> our_crc32 (pre @ w' @ suf) (word_of_nat (length (pre @ w' @ suf)))"
proof -
  let ?n = "length (pre @ w @ suf)"
  have n: "unat (word_of_nat ?n :: u32) = ?n"
    using assms(4) by (intro unat_of_nat_u32)
  have "our_crc32 m (word_of_nat ?n) = Inr (crc_ref m)" if "length m = ?n" for m
    using that n by (simp add: our_crc32_def our_crc32_inc_eq crc_ref_def del: length_append)
  moreover have "length (pre @ w' @ suf) = ?n" using assms(1) by simp
  ultimately show ?thesis
    using crc_burst [OF assms(1-3), of pre suf] by simp
qed

theorem our_crc32_detects_burst_witness:
  "our_crc32 [9, 1, 2, 3, 4, 8] 6 \<noteq> our_crc32 [9, 5, 2, 3, 7, 8] 6"
  using our_crc32_detects_burst [of "[1, 2, 3, 4]" "[5, 2, 3, 7]" "[9]" "[8]"] by simp

end
