(* ===== verification/Libc.thy ===== *)
theory Libc
  imports Prelude
begin

text \<open>
  The memory and string routines of \<^verbatim>\<open>libpi/libc\<close> (one C file each), the hash of \<open>hash.c\<close> and
  the pseudo-random generator of \<open>rpi-rand.c\<close>. The routines that write through a pointer whose
  alignment matters (\<open>memcpy\<close>, \<open>memset\<close>) work on the flat memory of the Pi; the others read or
  write C objects, given as byte lists, and fault outside them.
\<close>

section \<open>Memory\<close>

text \<open>The macros \<open>aligned\<close> and \<open>aligned4\<close>.\<close>

definition aligned4 :: "u32 \<Rightarrow> bool" where
  "aligned4 p \<longleftrightarrow> p mod 4 = 0"

fun memcpy_words :: "nat \<Rightarrow> ram \<Rightarrow> u32 \<Rightarrow> u32 \<Rightarrow> ram" where
  "memcpy_words 0 m d s = m"
| "memcpy_words (Suc n) m d s = memcpy_words n (st32 m d (ld32 m s)) (d + 4) (s + 4)"

fun memcpy_bytes :: "nat \<Rightarrow> ram \<Rightarrow> u32 \<Rightarrow> u32 \<Rightarrow> ram" where
  "memcpy_bytes 0 m d s = m"
| "memcpy_bytes (Suc n) m d s = memcpy_bytes n (m(d := m s)) (d + 1) (s + 1)"

definition memcpy :: "ram \<Rightarrow> u32 \<Rightarrow> u32 \<Rightarrow> u32 \<Rightarrow> ram" where
  "memcpy m dst src nbytes =
     (if aligned4 dst \<and> aligned4 src \<and> aligned4 nbytes
      then memcpy_words (unat (nbytes div 4)) m dst src
      else memcpy_bytes (unat nbytes) m dst src)"

text \<open>The pointer loop of \<open>memset\<close>: \<open>e\<close> is computed once, with wrap-around.\<close>

function memset_loop :: "ram \<Rightarrow> u32 \<Rightarrow> u32 \<Rightarrow> u8 \<Rightarrow> ram" where
  "memset_loop m p e c = (if p < e then memset_loop (m(p := c)) (p + 1) e c else m)"
  by pat_completeness auto
termination
  by (relation "measure (\<lambda>(m, p, e, c). unat (e - p))")
     (auto simp: word_less_nat_alt unat_sub_if' unat_plus_1 word_Suc_ne_0)

declare memset_loop.simps [simp del]

definition memset :: "ram \<Rightarrow> u32 \<Rightarrow> u32 \<Rightarrow> u32 \<Rightarrow> ram" where
  "memset m p c n = memset_loop m p (p + n) (ucast c)"

fun memcmp_loop :: "nat \<Rightarrow> bytes \<Rightarrow> bytes \<Rightarrow> int result" where
  "memcmp_loop 0 s1 s2 = Inr 0"
| "memcmp_loop (Suc n) (x # s1) (y # s2) =
     (let v = uint x - uint y in if v \<noteq> 0 then Inr v else memcmp_loop n s1 s2)"
| "memcmp_loop (Suc n) _ _ = Inl Bounds"

definition memcmp :: "bytes \<Rightarrow> bytes \<Rightarrow> u32 \<Rightarrow> int result" where
  "memcmp s1 s2 nbytes = memcmp_loop (unat nbytes) s1 s2"

fun memiszero_loop :: "nat \<Rightarrow> bytes \<Rightarrow> bool result" where
  "memiszero_loop 0 p = Inr True"
| "memiszero_loop (Suc n) (x # p) = (if x \<noteq> 0 then Inr False else memiszero_loop n p)"
| "memiszero_loop (Suc n) [] = Inl Bounds"

definition memiszero :: "bytes \<Rightarrow> u32 \<Rightarrow> bool result" where
  "memiszero p n = memiszero_loop (unat n) p"

section \<open>Strings\<close>

fun strlen_loop :: "bytes \<Rightarrow> u32 \<Rightarrow> u32 result" where
  "strlen_loop [] ret = Inl Bounds"
| "strlen_loop (c # p) ret = (if c \<noteq> 0 then strlen_loop p (ret + 1) else Inr ret)"

definition strlen :: "bytes \<Rightarrow> u32 result" where
  "strlen p = strlen_loop p 0"

fun strcmp :: "bytes \<Rightarrow> bytes \<Rightarrow> int result" where
  "strcmp (x # a) (y # b) = (if x \<noteq> 0 \<and> x = y then strcmp a b else Inr (uint x - uint y))"
| "strcmp _ _ = Inl Bounds"

fun strncmp_loop :: "nat \<Rightarrow> bytes \<Rightarrow> bytes \<Rightarrow> int result" where
  "strncmp_loop 0 s1 s2 = Inr 0"
| "strncmp_loop (Suc n) (x # s1) (y # s2) =
     (if x \<noteq> y then Inr (uint x - uint y) else strncmp_loop n s1 s2)"
| "strncmp_loop (Suc n) _ _ = Inl Bounds"

definition strncmp :: "bytes \<Rightarrow> bytes \<Rightarrow> u32 \<Rightarrow> int result" where
  "strncmp s1 s2 n = strncmp_loop (unat n) s1 s2"

text \<open>\<open>strchr\<close> returns a pointer into \<open>s\<close>, here its offset, or NULL.\<close>

fun strchr :: "bytes \<Rightarrow> u8 \<Rightarrow> nat option result" where
  "strchr [] c = Inl Bounds"
| "strchr (x # s) c =
     (if x = c then Inr (Some 0)
      else if x = 0 then Inr None
      else rbind (strchr s c) (\<lambda>r. Inr (map_option Suc r)))"

text \<open>The copy loop shared by \<open>strcpy\<close> and the second loop of \<open>strcat\<close>: writes from offset \<open>i\<close> on.\<close>

fun strcpy_loop :: "bytes \<Rightarrow> nat \<Rightarrow> bytes \<Rightarrow> bytes result" where
  "strcpy_loop d i [] = Inl Bounds"
| "strcpy_loop d i (c # s) =
     rbind (arr_set d i c) (\<lambda>d'. if c \<noteq> 0 then strcpy_loop d' (Suc i) s else Inr d')"

definition strcpy :: "bytes \<Rightarrow> bytes \<Rightarrow> bytes result" where
  "strcpy s1 s2 = strcpy_loop s1 0 s2"

text \<open>The first loop of \<open>strcat\<close>: the offset of the terminator.\<close>

fun strcat_end :: "bytes \<Rightarrow> nat result" where
  "strcat_end [] = Inl Bounds"
| "strcat_end (c # s) = (if c \<noteq> 0 then rbind (strcat_end s) (\<lambda>k. Inr (Suc k)) else Inr 0)"

definition strcat :: "bytes \<Rightarrow> bytes \<Rightarrow> bytes result" where
  "strcat dest src = rbind (strcat_end dest) (\<lambda>k. strcpy_loop dest k src)"

section \<open>Hash and random numbers\<close>

definition get16bits :: "bytes \<Rightarrow> nat \<Rightarrow> u32 result" where
  "get16bits d i =
     rbind (arr_get d (i + 1)) (\<lambda>hi.
     rbind (arr_get d i) (\<lambda>lo.
       Inr (push_bit 8 (ucast hi) + ucast lo)))"

fun fast_hash_loop :: "nat \<Rightarrow> bytes \<Rightarrow> nat \<Rightarrow> u32 \<Rightarrow> u32 result" where
  "fast_hash_loop 0 data i hash = Inr hash"
| "fast_hash_loop (Suc len) data i hash =
     rbind (get16bits data i) (\<lambda>g0.
     rbind (get16bits data (i + 2)) (\<lambda>g1.
     let hash = hash + g0;
         tmp = push_bit 11 g1 XOR hash;
         hash = push_bit 16 hash XOR tmp
     in fast_hash_loop len data (i + 4) (hash + drop_bit 11 hash)))"

definition fast_hash_tail :: "u32 \<Rightarrow> bytes \<Rightarrow> nat \<Rightarrow> u32 \<Rightarrow> u32 result" where
  "fast_hash_tail rem data i hash =
     (if rem = 3 then
        rbind (get16bits data i) (\<lambda>g.
        rbind (arr_get data (i + 2)) (\<lambda>b.
        let hash = hash + g;
            hash = hash XOR push_bit 16 hash;
            hash = hash XOR push_bit 18 (scast b)
        in Inr (hash + drop_bit 11 hash)))
      else if rem = 2 then
        rbind (get16bits data i) (\<lambda>g.
        let hash = hash + g;
            hash = hash XOR push_bit 11 hash
        in Inr (hash + drop_bit 17 hash))
      else if rem = 1 then
        rbind (arr_get data i) (\<lambda>b.
        let hash = hash + scast b;
            hash = hash XOR push_bit 10 hash
        in Inr (hash + drop_bit 1 hash))
      else Inr hash)"

definition fast_hash_avalanche :: "u32 \<Rightarrow> u32" where
  "fast_hash_avalanche hash =
     (let hash = hash XOR push_bit 3 hash;
          hash = hash + drop_bit 5 hash;
          hash = hash XOR push_bit 4 hash;
          hash = hash + drop_bit 17 hash;
          hash = hash XOR push_bit 25 hash
      in hash + drop_bit 6 hash)"

text \<open>\<open>len\<close> is a signed int; \<open>data\<close> is None for NULL.\<close>

definition fast_hash :: "bytes option \<Rightarrow> u32 \<Rightarrow> u32 result" where
  "fast_hash data len =
     (case data of
        None \<Rightarrow> Inr 0
      | Some d \<Rightarrow>
          if sint len \<le> 0 then Inr 0
          else rbind (fast_hash_loop (unat (drop_bit 2 len)) d 0 len) (\<lambda>hash.
               rbind (fast_hash_tail (len AND 3) d (4 * unat (drop_bit 2 len)) hash) (\<lambda>hash.
                 Inr (fast_hash_avalanche hash))))"

definition initial_seed :: u16 where
  "initial_seed = 0xACE1"

definition rpi_rand16 :: "u16 \<Rightarrow> u16 \<times> u16" where
  "rpi_rand16 lfsr =
     (let b = (drop_bit 0 lfsr XOR drop_bit 2 lfsr XOR drop_bit 3 lfsr XOR drop_bit 5 lfsr) AND 1;
          lfsr' = drop_bit 1 lfsr OR push_bit 15 b
      in (lfsr', lfsr'))"

text \<open>The order of the two calls is the compiler's choice; the left operand is called first.\<close>

definition rpi_rand32 :: "u16 \<Rightarrow> u32 \<times> u16" where
  "rpi_rand32 lfsr =
     (let (a, s1) = rpi_rand16 lfsr; (b, s2) = rpi_rand16 s1
      in (push_bit 16 (ucast a) OR ucast b, s2))"

definition rpi_reset :: "u32 \<Rightarrow> u16 \<Rightarrow> u16" where
  "rpi_reset seed lfsr = initial_seed"

section \<open>Copying\<close>

text \<open>The effect of a copy: the \<open>n\<close> bytes from \<open>d\<close> on hold what was \<open>n\<close> bytes from \<open>s\<close> on.\<close>

definition mem_copy :: "ram \<Rightarrow> u32 \<Rightarrow> u32 \<Rightarrow> nat \<Rightarrow> ram" where
  "mem_copy m d s n = (\<lambda>a. if unat (a - d) < n then m (s + (a - d)) else m a)"

definition mem_fill :: "ram \<Rightarrow> u32 \<Rightarrow> u8 \<Rightarrow> nat \<Rightarrow> ram" where
  "mem_fill m d c n = (\<lambda>a. if unat (a - d) < n then c else m a)"

definition mem_disjoint :: "u32 \<Rightarrow> u32 \<Rightarrow> nat \<Rightarrow> bool" where
  "mem_disjoint d s n \<longleftrightarrow> n \<le> unat (s - d) \<and> n \<le> unat (d - s)"

lemma unat_diff_Suc:
  fixes a d :: u32
  assumes "a \<noteq> d"
  shows "unat (a - d) = Suc (unat (a - (d + 1)))"
proof -
  have "a - (d + 1) + 1 \<noteq> 0" using assms by (simp add: algebra_simps)
  then show ?thesis using unat_plus_1 [of "a - (d + 1)"] by (simp add: algebra_simps)
qed

lemma mem_disjoint_Suc: "mem_disjoint d s (Suc n) \<Longrightarrow> mem_disjoint (d + 1) (s + 1) n"
  by (simp add: mem_disjoint_def)

lemma mem_copy_Suc:
  assumes "mem_disjoint d s (Suc n)"
  shows "mem_copy (m(d := m s)) (d + 1) (s + 1) n = mem_copy m d s (Suc n)"
proof
  fix a
  have n: "n \<le> unat (- 1 :: u32)"
    using assms unat_lt_2p32 [of "s - d"] by (simp add: mem_disjoint_def unsigned_minus_1_eq_mask mask_eq_exp_minus_1)
  show "mem_copy (m(d := m s)) (d + 1) (s + 1) n a = mem_copy m d s (Suc n) a"
  proof (cases "a = d")
    case True
    then show ?thesis using n by (simp add: mem_copy_def)
  next
    case False
    have "s + (a - d) \<noteq> d" if "unat (a - (d + 1)) < n"
    proof
      assume "s + (a - d) = d"
      then have "d - s = a - d" by (metis add_diff_cancel_left')
      then have "unat (d - s) = unat (a - d)" by (rule arg_cong)
      then show False
        using that assms unat_diff_Suc [OF False] unfolding mem_disjoint_def by linarith
    qed
    then show ?thesis
      using False unat_diff_Suc [OF False] by (simp add: mem_copy_def algebra_simps)
  qed
qed

lemma memcpy_bytes_eq: "mem_disjoint d s n \<Longrightarrow> memcpy_bytes n m d s = mem_copy m d s n"
proof (induction n arbitrary: m d s)
  case (Suc n)
  then show ?case by (simp add: mem_disjoint_Suc mem_copy_Suc del: fun_upd_apply)
qed (simp add: mem_copy_def)

lemma mem_disjoint_neq: "mem_disjoint d s n \<Longrightarrow> unat k < n \<Longrightarrow> s + k \<noteq> d"
  by (auto simp: mem_disjoint_def)

lemma mem_disjoint_mono: "mem_disjoint d s n \<Longrightarrow> k \<le> n \<Longrightarrow> mem_disjoint d s k"
  by (auto simp: mem_disjoint_def)

lemma memcpy_bytes_4:
  assumes "mem_disjoint d s 4"
  shows "memcpy_bytes (4 + k) m d s = memcpy_bytes k (st32 m d (ld32 m s)) (d + 4) (s + 4)"
proof -
  have "s + 1 \<noteq> d" "s + 2 \<noteq> d" "s + 3 \<noteq> d"
    by (rule mem_disjoint_neq [OF assms], simp)+
  then have ne: "s + 1 \<noteq> d" "s + 2 \<noteq> d" "s + 3 \<noteq> d" "s + 2 \<noteq> d + 1" "s + 3 \<noteq> d + 1" "s + 3 \<noteq> d + 2"
    by (auto simp: algebra_simps)
  have "memcpy_bytes (Suc (Suc (Suc (Suc k)))) m d s
      = memcpy_bytes k (m(d := m s, d + 1 := m (s + 1), d + 2 := m (s + 2), d + 3 := m (s + 3)))
          (d + 4) (s + 4)"
    using ne by (simp add: add.assoc)
  moreover have "4 + k = Suc (Suc (Suc (Suc k)))" by simp
  ultimately show ?thesis by (simp only: st32_ld32)
qed

lemma memcpy_words_eq:
  "mem_disjoint d s (4 * n) \<Longrightarrow> memcpy_words n m d s = memcpy_bytes (4 * n) m d s"
proof (induction n arbitrary: m d s)
  case (Suc n)
  have "mem_disjoint (d + 4) (s + 4) (4 * n)" "mem_disjoint d s 4"
    using Suc.prems by (simp_all add: mem_disjoint_def)
  then show ?case
    using Suc.IH [of "d + 4" "s + 4"] by (simp add: memcpy_bytes_4)
qed simp

lemma memcpy_eq:
  assumes "mem_disjoint dst src (unat n)"
  shows "memcpy m dst src n = mem_copy m dst src (unat n)"
proof (cases "aligned4 dst \<and> aligned4 src \<and> aligned4 n")
  case True
  then have "unat n mod 4 = 0"
    using unat_mod_distrib [of n 4] by (simp add: aligned4_def)
  then have "4 * unat (n div 4) = unat n"
    by (simp add: unat_div_distrib) presburger
  then show ?thesis
    using True assms by (simp add: memcpy_def memcpy_words_eq memcpy_bytes_eq)
qed (use assms in \<open>auto simp: memcpy_def memcpy_bytes_eq\<close>)

section \<open>Filling\<close>

lemma memset_loop_eq:
  "p \<le> e \<Longrightarrow> memset_loop m p e c = mem_fill m p c (unat (e - p))"
proof (induction m p e c rule: memset_loop.induct)
  case (1 m p e c)
  show ?case
  proof (cases "p < e")
    case True
    then have le: "p + 1 \<le> e" by (rule inc_le)
    have ne: "e \<noteq> p" using True by auto
    have "mem_fill (m(p := c)) (p + 1) c (unat (e - (p + 1))) = mem_fill m p c (unat (e - p))"
    proof
      fix a
      show "mem_fill (m(p := c)) (p + 1) c (unat (e - (p + 1))) a = mem_fill m p c (unat (e - p)) a"
        using unat_diff_Suc [of a p] unat_diff_Suc [OF ne]
        by (cases "a = p") (simp_all add: mem_fill_def)
    qed
    then show ?thesis
      using True le "1.IH" by (simp add: memset_loop.simps [of m p e c] del: fun_upd_apply)
  next
    case False
    then have "e = p" using 1(2) by simp
    then show ?thesis by (simp add: memset_loop.simps mem_fill_def)
  qed
qed

lemma memset_eq:
  assumes "unat p + unat n < 2 ^ 32"
  shows "memset m p c n = mem_fill m p (ucast c) (unat n)"
proof -
  have "p \<le> p + n"
    using assms by (simp add: word_le_nat_alt unat_add_u32)
  then show ?thesis by (simp add: memset_def memset_loop_eq)
qed

section \<open>C strings\<close>

text \<open>A C string in its object: the characters, the terminator, and the rest of the object.\<close>

definition cstring :: "bytes \<Rightarrow> bytes \<Rightarrow> bytes" where
  "cstring s rest = s @ 0 # rest"

definition no_nul :: "bytes \<Rightarrow> bool" where
  "no_nul s \<longleftrightarrow> 0 \<notin> set s"

lemma no_nul_simps [simp]:
  "no_nul []" "no_nul (c # s) \<longleftrightarrow> c \<noteq> 0 \<and> no_nul s" "no_nul (s @ t) \<longleftrightarrow> no_nul s \<and> no_nul t"
  by (auto simp: no_nul_def)

lemma cstring_simps [simp]:
  "cstring [] r = 0 # r" "cstring (c # s) r = c # cstring s r"
  by (simp_all add: cstring_def)

lemma length_cstring [simp]: "length (cstring s r) = Suc (length s + length r)"
  by (simp add: cstring_def)

lemma strlen_loop_cstring: "no_nul s \<Longrightarrow> strlen_loop (cstring s r) n = Inr (n + word_of_nat (length s))"
  by (induction s arbitrary: n) (simp_all add: add.assoc)

lemma strlen_cstring: "no_nul s \<Longrightarrow> strlen (cstring s r) = Inr (word_of_nat (length s))"
  by (simp add: strlen_def strlen_loop_cstring)

lemma strcat_end_cstring: "no_nul s \<Longrightarrow> strcat_end (cstring s r) = Inr (length s)"
  by (induction s) simp_all

text \<open>Writing a string over an object, from offset \<open>i\<close> on.\<close>

lemma strcpy_loop_cstring:
  assumes "no_nul s" "i \<le> length d"
  shows "strcpy_loop d i (cstring s r) =
    (if i + length s < length d then Inr (take i d @ cstring s (drop (i + Suc (length s)) d)) else Inl Bounds)"
  using assms
proof (induction s arbitrary: d i)
  case Nil
  then show ?case by (simp add: arr_set_def upd_conv_take_nth_drop)
next
  case (Cons c s)
  show ?case
  proof (cases "i < length d")
    case True
    then show ?thesis
      using Cons.prems Cons.IH [of "Suc i" "d[i := c]"]
      by (simp add: take_Suc_conv_app_nth)
  next
    case False
    then show ?thesis using Cons.prems by simp
  qed
qed

text \<open>The order \<open>strcmp\<close> decides: lexicographic by unsigned character.\<close>

fun str_less :: "bytes \<Rightarrow> bytes \<Rightarrow> bool" where
  "str_less [] b \<longleftrightarrow> b \<noteq> []"
| "str_less (x # a) [] \<longleftrightarrow> False"
| "str_less (x # a) (y # b) \<longleftrightarrow> x < y \<or> (x = y \<and> str_less a b)"

lemma strcmp_cstring:
  assumes "no_nul a" "no_nul b"
  shows "\<exists>v. strcmp (cstring a r) (cstring b r') = Inr v
    \<and> (v = 0 \<longleftrightarrow> a = b) \<and> (v < 0 \<longleftrightarrow> str_less a b)"
  using assms
proof (induction a b rule: str_less.induct)
  case (1 b)
  then show ?case by (cases b) (auto dest: uint_pos)
next
  case (2 x a)
  then show ?case by (auto dest: uint_pos)
next
  case (3 x a y b)
  then show ?case by (auto simp: word_less_def word_uint_eq_iff)
qed

lemma strncmp_eq_memcmp: "strncmp a b n = memcmp a b n"
proof -
  have "strncmp_loop k a b = memcmp_loop k a b" for k
    by (induction k a b rule: memcmp_loop.induct) (auto simp: Let_def word_uint_eq_iff)
  then show ?thesis by (simp add: strncmp_def memcmp_def)
qed

lemma memcmp_loop_zero: "memcmp_loop n (replicate n 0 @ a) (replicate n 0 @ b) = Inr 0"
  by (induction n) simp_all

lemma memcmp_loop_take:
  "n \<le> length a \<Longrightarrow> n \<le> length b \<Longrightarrow>
   \<exists>v. memcmp_loop n a b = Inr v \<and> (v = 0 \<longleftrightarrow> take n a = take n b)"
  by (induction n a b rule: memcmp_loop.induct) (auto simp: Let_def word_uint_eq_iff)

lemma memiszero_loop_eq:
  "n \<le> length p \<Longrightarrow> memiszero_loop n p = Inr (\<forall>x \<in> set (take n p). x = 0)"
  by (induction n p rule: memiszero_loop.induct) auto

lemma strncmp_loop_prefix:
  "strncmp_loop (length c + n) (c @ a) (c @ b) = strncmp_loop n a b"
  by (induction c) simp_all

section \<open>The hash stays inside its buffer\<close>

lemma fast_hash_loop_safe:
  "i + 4 * n \<le> length d \<Longrightarrow> \<exists>h'. fast_hash_loop n d i h = Inr h'"
  by (induction n arbitrary: i h) (auto simp: get16bits_def Let_def)

lemma fast_hash_tail_safe:
  "i + unat r \<le> length d \<Longrightarrow> \<exists>h'. fast_hash_tail r d i h = Inr h'"
  by (auto simp: fast_hash_tail_def get16bits_def Let_def)

lemma fast_hash_safe:
  assumes "unat len \<le> length d"
  shows "\<exists>h. fast_hash (Some d) len = Inr h"
proof -
  let ?n = "unat (drop_bit 2 len)"
  have n: "?n = unat len div 4" by (simp add: unat_drop_bit)
  then have "0 + 4 * ?n \<le> length d" using assms by simp
  from fast_hash_loop_safe [OF this] obtain h where h: "fast_hash_loop ?n d 0 len = Inr h" by blast
  have "4 * ?n + unat (len AND 3) \<le> length d"
    using assms n by (simp add: unat_and_3)
  from fast_hash_tail_safe [OF this, of h] h show ?thesis
    by (auto simp: fast_hash_def)
qed

section \<open>The shift register\<close>

lemma rpi_rand16_bits:
  "bit (snd (rpi_rand16 s)) i \<longleftrightarrow>
     (if i = 15 then (bit s 0 \<noteq> bit s 2) \<noteq> (bit s 3 \<noteq> bit s 5) else bit s (Suc i))"
proof (cases "i < 16")
  case True
  then show ?thesis
    using bit_imp_le_length [of s 16]
    by (cases "i = 15") (auto simp: rpi_rand16_def Let_def bit_simps)
next
  case False
  then have "\<not> bit (snd (rpi_rand16 s)) i" "\<not> bit s (Suc i)"
    using bit_imp_le_length [of "snd (rpi_rand16 s)" i] bit_imp_le_length [of s "Suc i"] by auto
  then show ?thesis using False by auto
qed

lemma rpi_rand16_inj: "inj (\<lambda>s. snd (rpi_rand16 s))"
proof (rule injI, rule bit_word_eqI)
  fix s t :: u16 and n
  assume eq: "snd (rpi_rand16 s) = snd (rpi_rand16 t)" and "n < LENGTH(16)"
  have up: "bit s (Suc i) = bit t (Suc i)" if "i < 15" for i
    using arg_cong [OF eq, of "\<lambda>w. bit w i"] that by (simp add: rpi_rand16_bits)
  have "bit s 2 = bit t 2" "bit s 3 = bit t 3" "bit s 5 = bit t 5"
    using up [of 1] up [of 2] up [of 4] by (simp_all add: numeral_eq_Suc)
  then have z: "bit s 0 = bit t 0"
    using arg_cong [OF eq, of "\<lambda>w. bit w 15"] by (auto simp: rpi_rand16_bits)
  show "bit s n = bit t n"
    using \<open>n < LENGTH(16)\<close> z up by (cases n) auto
qed

lemma rpi_rand16_zero: "snd (rpi_rand16 s) = 0 \<longleftrightarrow> s = 0"
proof -
  have "snd (rpi_rand16 0) = 0" by (simp add: rpi_rand16_def)
  then show ?thesis using injD [OF rpi_rand16_inj, of s 0] by auto
qed

section \<open>Properties\<close>

text \<open>
  (C20) \<open>memcpy\<close> copies: when source and destination do not overlap, both its word path and its
  byte path leave the \<open>n\<close> bytes of the source at the destination and every other byte of
  memory unchanged.
\<close>

theorem memcpy_correct:
  assumes "mem_disjoint dst src (unat n)"
  shows "memcpy m dst src n = (\<lambda>a. if unat (a - dst) < unat n then m (src + (a - dst)) else m a)"
  using memcpy_eq [OF assms] by (simp add: mem_copy_def)

theorem memcpy_correct_witness:
  "memcpy (\<lambda>a. ucast a) 0x100 0x200 8 0x105 = 5"
  using fun_cong [OF memcpy_correct [of "0x100" "0x200" 8 "\<lambda>a. ucast a"], of "0x105"]
  by (simp add: mem_disjoint_def)

text \<open>
  (C21) The string routines on C strings: \<open>strlen\<close> is the length, \<open>strcpy\<close> and \<open>strcat\<close> leave the
  string (the concatenation) and its terminator and keep the rest of the destination object,
  or run over its end when it is too small, and the sign of \<open>strcmp\<close> is the lexicographic order.
\<close>

theorem c_string_routines:
  assumes "no_nul s" "no_nul t"
  shows "strlen (cstring s r) = Inr (word_of_nat (length s))
    \<and> strcpy d (cstring s r) =
        (if length s < length d then Inr (cstring s (drop (Suc (length s)) d)) else Inl Bounds)
    \<and> strcat (cstring s r) (cstring t r') =
        (if length t \<le> length r then Inr (cstring (s @ t) (drop (length t) r)) else Inl Bounds)
    \<and> (\<exists>v. strcmp (cstring s r) (cstring t r') = Inr v \<and> (v = 0 \<longleftrightarrow> s = t) \<and> (v < 0 \<longleftrightarrow> str_less s t))"
proof (intro conjI)
  show "strlen (cstring s r) = Inr (word_of_nat (length s))"
    using assms by (simp add: strlen_cstring)
  show "strcpy d (cstring s r) =
      (if length s < length d then Inr (cstring s (drop (Suc (length s)) d)) else Inl Bounds)"
    using assms by (simp add: strcpy_def strcpy_loop_cstring)
  show "strcat (cstring s r) (cstring t r') =
      (if length t \<le> length r then Inr (cstring (s @ t) (drop (length t) r)) else Inl Bounds)"
    using assms by (simp add: strcat_def strcat_end_cstring strcpy_loop_cstring) (simp add: cstring_def)
  show "\<exists>v. strcmp (cstring s r) (cstring t r') = Inr v \<and> (v = 0 \<longleftrightarrow> s = t) \<and> (v < 0 \<longleftrightarrow> str_less s t)"
    using assms by (intro strcmp_cstring)
qed

theorem c_string_routines_witness:
  "strcat (cstring [97] [7, 8, 9]) (cstring [98, 99] []) = Inr (cstring [97, 98, 99] [9])
   \<and> strcpy [1] (cstring [97] []) = Inl Bounds"
  using c_string_routines [of "[97]" "[98, 99]" "[7, 8, 9]" "[]" "[]"]
    c_string_routines [of "[97]" "[]" "[]" "[1]" "[]"] by simp

text \<open>
  \<open>strncmp\<close> does not stop at the terminator: comparing a string with itself, in objects
  that end with the terminator, runs past both objects whenever the limit is longer than the
  string and its terminator. It is \<open>memcmp\<close>, not the standard routine.
\<close>

theorem strncmp_overruns_terminator:
  "strncmp a b n = memcmp a b n
   \<and> (length (cstring s []) < unat n \<longrightarrow> strncmp (cstring s []) (cstring s []) n = Inl Bounds)"
proof (intro conjI impI)
  show "strncmp a b n = memcmp a b n" by (rule strncmp_eq_memcmp)
  assume "length (cstring s []) < unat n"
  then obtain k where "unat n = length (cstring s []) + Suc k"
    by (metis add_Suc_right less_natE)
  then show "strncmp (cstring s []) (cstring s []) n = Inl Bounds"
    using strncmp_loop_prefix [of "cstring s []" "Suc k" "[]" "[]"] by (simp add: strncmp_def)
qed

theorem strncmp_overruns_terminator_witness:
  "strncmp (cstring [97] []) (cstring [97] []) 5 = Inl Bounds"
  using strncmp_overruns_terminator [of "[]" "[]" 5 "[97]"] by simp

end
