(* ===== verification/Printk.thy ===== *)
theory Printk
  imports Libc
begin

text \<open>
  Formatted output of \<^verbatim>\<open>libpi/libc\<close>: \<open>va_printk\<close> and its helpers (\<^verbatim>\<open>va-printk.c\<close>), \<open>printk\<close>,
  \<open>snprintk\<close>, \<open>putk\<close>, the output hooks of \<^verbatim>\<open>putchar.c\<close> and \<open>uart_hex\<close>. Format strings and \<open>%s\<close>
  arguments are objects read up to their terminator; an argument list is a list of values.
\<close>

section \<open>Converting one number\<close>

definition isdigit :: "u8 \<Rightarrow> bool" where
  "isdigit c \<longleftrightarrow> ch CHR ''0'' \<le> c \<and> c \<le> ch CHR ''9''"

definition pad_loop :: "bytes \<Rightarrow> nat \<Rightarrow> bytes" where
  "pad_loop p width = p @ replicate (width - length p) (ch CHR '' '')"

text \<open>
  \<open>pad\<close> writes into \<open>char buf[64]\<close>, terminator included; the returned pointer is the end of the
  padded text, which is the result here.
\<close>

definition pad :: "bytes \<Rightarrow> nat \<Rightarrow> bytes result" where
  "pad p width =
     (let q = pad_loop p width in if length q < 64 then Inr q else Inl Bounds)"

text \<open>The bytes \<open>reverse\<close> stores at \<open>dst\<close>, the terminator included.\<close>

definition reverse :: "nat \<Rightarrow> bytes \<Rightarrow> bytes" where
  "reverse n p =
     (let len = length p + 1;
          start = (if len > n then len - n else 0)
      in rev (drop start p) @ [0])"

text \<open>
  The \<open>do ... while\<close> loops of \<open>emit\<close>: least significant digit first. The base is 10, 16 or 2
  at every call; a base below 2 would not terminate in C and stops at once here.
\<close>

definition digit_chars :: bytes where
  "digit_chars = bstr ''0123456789abcdef''"

function emit_digits :: "u32 \<Rightarrow> u32 \<Rightarrow> bytes" where
  "emit_digits base u =
     digit_chars ! unat (u mod base) #
       (if u div base = 0 \<or> base < 2 then [] else emit_digits base (u div base))"
  by pat_completeness auto
termination
proof (relation "measure (\<lambda>(base, u). unat u)")
  fix base u :: u32
  assume "\<not> (u div base = 0 \<or> base < 2)"
  then have "2 \<le> unat base" "unat u div unat base \<noteq> 0"
    by (auto simp: word_less_nat_alt unat_div_distrib simp flip: unat_eq_0)
  moreover from this have "0 < unat u" by (metis div_0 gr0I)
  ultimately show "((base, u div base), (base, u)) \<in> measure (\<lambda>(base, u). unat u)"
    by (auto simp: unat_div_distrib intro!: div_less_dividend)
qed auto

declare emit_digits.simps [simp del]

definition emit :: "u32 \<Rightarrow> nat \<Rightarrow> u32 \<Rightarrow> nat \<Rightarrow> bool \<Rightarrow> bytes result" where
  "emit base n val width signed_p =
     (let width = (if width > n then n - 1 else width) in
      rbind
        (if base = 10 then
           (if sint val < 0 \<and> signed_p
            then Inr (emit_digits 10 (- val) @ [ch CHR ''-''])
            else Inr (emit_digits 10 val))
         else if base = 16 then Inr (emit_digits 16 val)
         else if base = 8 then Inr [ucast val]
         else if base = 2 then Inr (emit_digits 2 val)
         else Inl (AssertFail ''0''))
        (\<lambda>p. rbind (pad p width) (\<lambda>q. Inr (reverse n q))))"

section \<open>va_printk\<close>

text \<open>Values of a \<open>va_list\<close>: an integer (or pointer) word, or the object a \<open>char *\<close> points to.\<close>

datatype va = VInt u32 | VStr bytes

fun parse_width :: "bytes \<Rightarrow> u32 \<Rightarrow> u32 \<times> bytes" where
  "parse_width [] width = (width, [])"
| "parse_width (c # fmt) width =
     (if isdigit c then parse_width fmt (width * 10 + ucast c - 48) else (width, c # fmt))"

text \<open>One conversion: the text to copy and the remaining arguments.\<close>

fun va_int :: "va list \<Rightarrow> (u32 \<times> va list) result" where
  "va_int (VInt v # args) = Inr (v, args)"
| "va_int _ = Inl Bounds"

fun va_str :: "va list \<Rightarrow> (bytes \<times> va list) result" where
  "va_str (VStr s # args) = Inr (s, args)"
| "va_str _ = Inl Bounds"

definition convert :: "u8 \<Rightarrow> nat \<Rightarrow> va list \<Rightarrow> (bytes \<times> va list) result" where
  "convert spec width args =
     (let num = (\<lambda>base signed_p. rbind (va_int args) (\<lambda>(v, args').
                  rbind (emit base 128 v width signed_p) (\<lambda>s. Inr (s, args'))))
      in if spec = ch CHR ''f'' then Inl (Panic ''float not enabled!!!'')
         else if spec = ch CHR ''d'' then num 10 True
         else if spec = ch CHR ''u'' then num 10 False
         else if spec = ch CHR ''p'' \<or> spec = ch CHR ''x'' then num 16 False
         else if spec = ch CHR ''b'' then num 2 False
         else if spec = ch CHR ''s'' then va_str args
         else if spec = ch CHR ''c'' then num 8 False
         else Inl (Panic ''printk: not handling specifier''))"

text \<open>The safe string copy: \<open>lim\<close> is the number of bytes before \<open>e\<close>.\<close>

fun copy_str :: "nat \<Rightarrow> bytes \<Rightarrow> bytes \<Rightarrow> bytes result" where
  "copy_str lim out [] = (if length out < lim then Inl Bounds else Inr out)"
| "copy_str lim out (c # s) =
     (if length out < lim \<and> c \<noteq> 0 then copy_str lim (out @ [c]) s else Inr out)"

lemma parse_width_le: "length (snd (parse_width fmt w)) \<le> length fmt"
  by (induction fmt w rule: parse_width.induct) auto

function va_printk_loop :: "nat \<Rightarrow> bytes \<Rightarrow> bytes \<Rightarrow> va list \<Rightarrow> bytes result" where
  "va_printk_loop lim out [] args = Inl Bounds"
| "va_printk_loop lim out (c # fmt) args =
     (if c = 0 \<or> \<not> length out < lim then Inr out
      else if c \<noteq> ch CHR ''%'' then va_printk_loop lim (out @ [c]) fmt args
      else if fmt = [] then Inl Bounds
      else if hd fmt = ch CHR ''%'' then va_printk_loop lim (out @ [c]) (tl fmt) args
      else
        (let wf = parse_width fmt 0 in
         rbind (c_assert (fst wf < 32) ''width < 32'') (\<lambda>_.
           if snd wf = [] then Inl Bounds
           else rbind (convert (hd (snd wf)) (unat (fst wf)) args) (\<lambda>(s, args').
             rbind (copy_str lim out s) (\<lambda>out'.
               va_printk_loop lim out' (tl (snd wf)) args')))))"
  by pat_completeness auto
termination
proof (relation "measure (\<lambda>(lim, out, fmt, args). length fmt)", goal_cases)
  case (4 lim out c fmt args wf)
  then show ?case
    using parse_width_le [of fmt 0] by (auto simp: less_Suc_eq_le)
qed auto

declare va_printk_loop.simps(2) [simp del]

text \<open>
  The buffer has \<open>n\<close> bytes. The result is what it holds up to and including the terminator,
  and the returned count.
\<close>

definition va_printk :: "nat \<Rightarrow> bytes \<Rightarrow> va list \<Rightarrow> (bytes \<times> nat) result" where
  "va_printk n fmt args =
     (if n = 0 then Inl Bounds
      else rbind (va_printk_loop (n - 1) [] fmt args) (\<lambda>out.
        Inr (out @ [0], length out + 1)))"

section \<open>Output\<close>

text \<open>
  The two hooks: \<open>rpi_putchar\<close>, a function on the state of the output device, and \<open>putk\<close>,
  which is \<open>internal_putk\<close> unless replaced.
\<close>

record 's console =
  rpi_putchar :: "u8 \<Rightarrow> 's \<Rightarrow> 's"
  putk_fp :: "(bytes \<Rightarrow> 's \<Rightarrow> 's) option"

definition rpi_set_putc :: "(u8 \<Rightarrow> 's \<Rightarrow> 's) \<Rightarrow> 's console \<Rightarrow> 's console" where
  "rpi_set_putc fp con = con\<lparr>rpi_putchar := fp\<rparr>"

definition rpi_reset_putc :: "(u8 \<Rightarrow> 's \<Rightarrow> 's) \<Rightarrow> 's console \<Rightarrow> 's console" where
  "rpi_reset_putc uart_putc con = con\<lparr>rpi_putchar := uart_putc\<rparr>"

definition rpi_set_output ::
  "(u8 \<Rightarrow> 's \<Rightarrow> 's) option \<Rightarrow> (bytes \<Rightarrow> 's \<Rightarrow> 's) option \<Rightarrow> 's console \<Rightarrow> 's console result" where
  "rpi_set_output putc_fp puts_fp con =
     (case putc_fp of
        None \<Rightarrow> Inl (AssertFail ''putc_fp'')
      | Some f \<Rightarrow>
          Inr (case puts_fp of
                 None \<Rightarrow> con\<lparr>rpi_putchar := f\<rparr>
               | Some g \<Rightarrow> con\<lparr>rpi_putchar := f, putk_fp := Some g\<rparr>))"

fun internal_putk :: "(u8 \<Rightarrow> 's \<Rightarrow> 's) \<Rightarrow> bytes \<Rightarrow> 's \<Rightarrow> 's result" where
  "internal_putk f [] s = Inl Bounds"
| "internal_putk f (c # p) s = (if c \<noteq> 0 then internal_putk f p (f c s) else Inr s)"

definition putk :: "'s console \<Rightarrow> bytes \<Rightarrow> 's \<Rightarrow> 's result" where
  "putk con p s =
     (case putk_fp con of None \<Rightarrow> internal_putk (rpi_putchar con) p s | Some g \<Rightarrow> Inr (g p s))"

definition printk :: "'s console \<Rightarrow> bytes \<Rightarrow> va list \<Rightarrow> 's \<Rightarrow> (nat \<times> 's) result" where
  "printk con fmt args s =
     rbind (va_printk 1024 fmt args) (\<lambda>(buf, sz).
       rbind (putk con buf s) (\<lambda>s'. Inr (sz, s')))"

definition snprintk :: "nat \<Rightarrow> bytes \<Rightarrow> va list \<Rightarrow> (bytes \<times> nat) result" where
  "snprintk n fmt args = va_printk n fmt args"

definition uart_hex :: "'s console \<Rightarrow> u32 \<Rightarrow> 's \<Rightarrow> 's result" where
  "uart_hex con h s =
     rbind (printk con (cstring (bstr ''%x'') []) [VInt h] s) (\<lambda>(sz, s'). Inr s')"

section \<open>Digits denote the number\<close>

definition digit_val :: "u8 \<Rightarrow> nat" where
  "digit_val c = (if c \<le> ch CHR ''9'' then unat (c - 48) else unat (c - 87))"

text \<open>The value of a numeral, most significant digit first.\<close>

definition num_val :: "nat \<Rightarrow> bytes \<Rightarrow> nat" where
  "num_val b = foldl (\<lambda>v c. v * b + digit_val c) 0"

lemma num_val_snoc: "num_val b (ds @ [d]) = num_val b ds * b + digit_val d"
  by (simp add: num_val_def)

lemma digit_chars_val: "k < 16 \<Longrightarrow> digit_val (digit_chars ! k) = k"
proof -
  have "\<forall>k < 16. digit_val (digit_chars ! k) = k"
    unfolding all_less_16 by (simp add: digit_val_def digit_chars_def bstr_def ch_def)
  then show "k < 16 \<Longrightarrow> digit_val (digit_chars ! k) = k" by blast
qed

lemma digit_chars_nonzero: "k < 16 \<Longrightarrow> digit_chars ! k \<noteq> 0"
proof -
  have "\<forall>k < 16. digit_chars ! k \<noteq> 0"
    unfolding all_less_16 by (simp add: digit_chars_def bstr_def)
  then show "k < 16 \<Longrightarrow> digit_chars ! k \<noteq> 0" by blast
qed

definition base_ok :: "u32 \<Rightarrow> bool" where
  "base_ok b \<longleftrightarrow> 2 \<le> unat b \<and> unat b \<le> 16"

lemma base_ok_cases [simp]: "base_ok 10" "base_ok 16" "base_ok 2"
  by (simp_all add: base_ok_def)

lemma base_ok_not_less: "base_ok b \<Longrightarrow> \<not> b < 2"
  by (simp add: base_ok_def word_less_nat_alt)

lemma base_ok_mod: "base_ok b \<Longrightarrow> unat (u mod b) < 16 \<and> unat (u mod b) = unat u mod unat b"
  by (auto simp: base_ok_def unat_mod_distrib intro: order.strict_trans2 [OF mod_less_divisor])

lemma emit_digits_val: "base_ok b \<Longrightarrow> num_val (unat b) (rev (emit_digits b u)) = unat u"
proof (induction b u rule: emit_digits.induct)
  case (1 b u)
  note m = base_ok_mod [OF "1.prems", of u]
  show ?case
  proof (cases "u div b = 0")
    case True
    then have "unat u div unat b = 0" by (metis unat_0 unat_div_distrib)
    then have "unat u mod unat b = unat u"
      by (metis add.right_neutral mult_zero_right mod_mult_div_eq)
    then show ?thesis
      using True m by (simp add: emit_digits.simps [of b u] num_val_def digit_chars_val)
  next
    case False
    then have "num_val (unat b) (rev (emit_digits b (u div b))) = unat u div unat b"
      using 1 base_ok_not_less by (simp add: unat_div_distrib)
    then show ?thesis
      using False m base_ok_not_less [OF "1.prems"]
      by (simp add: emit_digits.simps [of b u] num_val_snoc digit_chars_val)
  qed
qed

lemma emit_digits_no_nul: "base_ok b \<Longrightarrow> no_nul (emit_digits b u)"
proof (induction b u rule: emit_digits.induct)
  case (1 b u)
  then show ?case
    using base_ok_mod [OF "1.prems", of u]
    by (subst emit_digits.simps) (auto simp: digit_chars_nonzero)
qed

lemma emit_digits_nonempty [simp]: "emit_digits b u \<noteq> []"
  by (subst emit_digits.simps) simp

lemma emit_digits_length:
  "base_ok b \<Longrightarrow> unat u < 2 ^ k \<Longrightarrow> 0 < k \<Longrightarrow> length (emit_digits b u) \<le> k"
proof (induction b u arbitrary: k rule: emit_digits.induct)
  case (1 b u)
  show ?case
  proof (cases "u div b = 0 \<or> k = 1")
    case True
    have "u div b = 0"
    proof (rule ccontr)
      assume nz: "u div b \<noteq> 0"
      then have "k = 1" using True by simp
      then have "unat u < unat b" using 1 by (simp add: base_ok_def)
      then have "unat (u div b) = 0" by (simp add: unat_div_distrib)
      then show False using nz by (simp add: unat_eq_0)
    qed
    then show ?thesis using 1 by (subst emit_digits.simps) simp
  next
    case False
    then obtain j where k: "k = Suc j" "0 < j" using 1(4) by (cases k) auto
    have "unat u div unat b \<le> unat u div 2"
      using 1(2) by (intro div_le_mono2) (simp_all add: base_ok_def)
    then have "unat (u div b) < 2 ^ j"
      using 1(3) k by (simp add: unat_div_distrib)
    then have "length (emit_digits b (u div b)) \<le> j"
      using 1 False k base_ok_not_less by simp
    then show ?thesis using k by (subst emit_digits.simps) simp
  qed
qed

lemma emit_digits_length_32: "base_ok b \<Longrightarrow> length (emit_digits b u) \<le> 32"
  using emit_digits_length [of b u 32] unat_lt_2p32 [of u] by simp

section \<open>Conversions\<close>

text \<open>The text of a number before padding, most significant digit first.\<close>

definition num_text :: "u32 \<Rightarrow> u32 \<Rightarrow> bool \<Rightarrow> bytes" where
  "num_text base v signed_p =
     (if base = 10 \<and> sint v < 0 \<and> signed_p then ch CHR ''-'' # rev (emit_digits 10 (- v))
      else rev (emit_digits base v))"

definition blanks :: "nat \<Rightarrow> bytes" where
  "blanks k = replicate k (ch CHR '' '')"

lemma num_text_props:
  assumes "base_ok b"
  shows "no_nul (num_text b v sp)" "length (num_text b v sp) \<le> 33"
  using assms emit_digits_no_nul [of b v] emit_digits_no_nul [of 10 "- v"]
    emit_digits_length_32 [of b v] emit_digits_length_32 [of 10 "- v"]
  by (auto simp: num_text_def no_nul_def ch_def)

text \<open>The digits of a number are the only characters of its text.\<close>

lemma emit_digits_chars: "base_ok b \<Longrightarrow> set (emit_digits b u) \<subseteq> set digit_chars"
proof (induction b u rule: emit_digits.induct)
  case (1 b u)
  have "unat (u mod b) < length digit_chars"
    using base_ok_mod [OF 1(2), of u] by (simp add: digit_chars_def bstr_def)
  then have d: "digit_chars ! unat (u mod b) \<in> set digit_chars" by (rule nth_mem)
  have "u div b = 0 \<or> set (emit_digits b (u div b)) \<subseteq> set digit_chars"
    using 1 base_ok_not_less by blast
  with d show ?case by (subst emit_digits.simps) auto
qed

lemma num_text_digits: "base_ok b \<Longrightarrow> set (num_text b v False) \<subseteq> set digit_chars"
  using emit_digits_chars [of b v] by (simp add: num_text_def)

lemma num_text_not: "base_ok b \<Longrightarrow> c < 48 \<Longrightarrow> c \<notin> set (num_text b v False)"
  using num_text_digits [of b v] by (auto simp: digit_chars_def bstr_def)

lemma num_text_inj: "base_ok b \<Longrightarrow> num_text b v False = num_text b w False \<Longrightarrow> v = w"
  using emit_digits_val [of b v] emit_digits_val [of b w] by (simp add: num_text_def word_unat_eq_iff)

lemma no_nul_rev: "no_nul (rev s) = no_nul s"
  by (simp add: no_nul_def)

lemma no_nul_blanks: "no_nul (blanks k)"
  by (simp add: no_nul_def blanks_def ch_def)

lemma pad_reverse:
  assumes "length p \<le> 33" "w < 32"
  shows "rbind (pad p w) (\<lambda>q. Inr (reverse 128 q)) = Inr (cstring (blanks (w - length p) @ rev p) [])"
  using assms by (auto simp: pad_def pad_loop_def reverse_def Let_def cstring_def blanks_def)

lemma emit_num:
  assumes "b = 10 \<or> b = 16 \<or> b = 2" "w < 32"
  shows "emit b 128 v w sp
    = Inr (cstring (blanks (w - length (num_text b v sp)) @ num_text b v sp) [])"
proof -
  have *: "emit b 128 v w sp = rbind (pad (rev (num_text b v sp)) w) (\<lambda>q. Inr (reverse 128 q))"
    using assms by (auto simp: emit_def num_text_def)
  have "base_ok b" using assms(1) by auto
  then show ?thesis
    unfolding * using num_text_props(2) [of b v sp] assms(2) by (simp add: pad_reverse)
qed

lemma emit_char:
  assumes "w < 32"
  shows "emit 8 128 v w sp = Inr (cstring (blanks (w - 1) @ [ucast v]) [])"
  using assms pad_reverse [of "[ucast v]" w] by (simp add: emit_def)

lemma num_text_val:
  "num_val 10 (num_text 10 v False) = unat v"
  "num_val 16 (num_text 16 v sp) = unat v"
  "num_val 2 (num_text 2 v sp) = unat v"
  using emit_digits_val [of 10 v] emit_digits_val [of 16 v] emit_digits_val [of 2 v]
  by (simp_all add: num_text_def)

lemma num_text_signed:
  "sint v < 0 \<Longrightarrow> \<exists>ds. num_text 10 v True = ch CHR ''-'' # ds \<and> int (num_val 10 ds) = - sint v"
  "0 \<le> sint v \<Longrightarrow> int (num_val 10 (num_text 10 v True)) = sint v"
  using emit_digits_val [of 10 "- v"] emit_digits_val [of 10 v] unat_sint_neg [of v] unat_sint_nonneg [of v]
  by (simp_all add: num_text_def)

section \<open>Well-formed calls return\<close>

text \<open>Formats whose specifiers the code handles, with arguments of the right number and kind.\<close>

definition int_specs :: "u8 set" where
  "int_specs = {ch CHR ''d'', ch CHR ''u'', ch CHR ''p'', ch CHR ''x'', ch CHR ''b'', ch CHR ''c''}"

inductive fmt_args :: "bytes \<Rightarrow> va list \<Rightarrow> bool" where
  fa_end: "fmt_args (0 # r) args"
| fa_lit: "c \<noteq> 0 \<Longrightarrow> c \<noteq> ch CHR ''%'' \<Longrightarrow> fmt_args f args \<Longrightarrow> fmt_args (c # f) args"
| fa_pct: "fmt_args f args \<Longrightarrow> fmt_args (ch CHR ''%'' # ch CHR ''%'' # f) args"
| fa_int: "parse_width f 0 = (w, spec # f') \<Longrightarrow> w < 32 \<Longrightarrow> spec \<in> int_specs
    \<Longrightarrow> fmt_args f' args \<Longrightarrow> fmt_args (ch CHR ''%'' # f) (VInt v # args)"
| fa_str: "parse_width f 0 = (w, ch CHR ''s'' # f') \<Longrightarrow> w < 32 \<Longrightarrow> no_nul s
    \<Longrightarrow> fmt_args f' args \<Longrightarrow> fmt_args (ch CHR ''%'' # f) (VStr (cstring s r) # args)"

lemma copy_str_cstring:
  assumes "length out \<le> lim"
  shows "\<exists>k. copy_str lim out (cstring s r) = Inr (out @ take k (takeWhile (\<lambda>c. c \<noteq> 0) s))
      \<and> length out + length (take k (takeWhile (\<lambda>c. c \<noteq> 0) s)) \<le> lim"
  using assms
proof (induction s arbitrary: out)
  case Nil
  then show ?case by simp
next
  case (Cons c s)
  show ?case
  proof (cases "length out < lim \<and> c \<noteq> 0")
    case True
    then obtain k where
      k: "copy_str lim (out @ [c]) (cstring s r) = Inr ((out @ [c]) @ take k (takeWhile (\<lambda>c. c \<noteq> 0) s))"
         "length (out @ [c]) + length (take k (takeWhile (\<lambda>c. c \<noteq> 0) s)) \<le> lim"
      using Cons.IH [of "out @ [c]"] by auto
    show ?thesis using True k by (intro exI [of _ "Suc k"]) simp
  next
    case False
    then show ?thesis using Cons.prems by (intro exI [of _ 0]) auto
  qed
qed

lemma no_nul_takeWhile: "no_nul (take k (takeWhile (\<lambda>c. c \<noteq> 0) s))"
  using in_set_takeD [of 0 k] set_takeWhileD [of 0 "\<lambda>c. c \<noteq> 0" s] by (auto simp: no_nul_def)

definition good_out :: "nat \<Rightarrow> bytes \<Rightarrow> bool" where
  "good_out lim out \<longleftrightarrow> no_nul out \<and> length out \<le> lim"

lemma copy_str_good:
  "good_out lim out \<Longrightarrow> \<exists>out'. copy_str lim out (cstring s r) = Inr out' \<and> good_out lim out'"
  using copy_str_cstring [of out lim s r] no_nul_takeWhile unfolding good_out_def by fastforce

lemma convert_int_ok:
  assumes "spec \<in> int_specs" "w < 32"
  shows "\<exists>t. convert spec w (VInt v # args) = Inr (cstring t [], args)"
  using assms by (auto simp: int_specs_def convert_def ch_def emit_num emit_char)

lemma spec_ne_pct: "spec \<in> int_specs \<Longrightarrow> spec \<noteq> ch CHR ''%'' \<and> spec \<noteq> 0"
  by (auto simp: int_specs_def ch_def)

lemma parse_width_hd:
  "parse_width f w0 = (w, spec # f') \<Longrightarrow> spec \<noteq> ch CHR ''%'' \<Longrightarrow> f \<noteq> [] \<and> hd f \<noteq> ch CHR ''%''"
  by (cases f) (auto simp: isdigit_def ch_def split: if_splits)

lemma va_printk_loop_conv:
  assumes "parse_width f 0 = (w, spec # f')" "w < 32" "spec \<noteq> ch CHR ''%''" "length out < lim"
  shows "va_printk_loop lim out (ch CHR ''%'' # f) args =
    rbind (convert spec (unat w) args) (\<lambda>(s, args').
      rbind (copy_str lim out s) (\<lambda>out'. va_printk_loop lim out' f' args'))"
proof -
  have "ch CHR ''%'' \<noteq> 0" by (simp add: ch_def)
  then show ?thesis
    using assms parse_width_hd [OF assms(1,3)] by (simp add: va_printk_loop.simps Let_def)
qed

lemma va_printk_loop_full: "\<not> length out < lim \<Longrightarrow> va_printk_loop lim out (c # f) args = Inr out"
  by (simp add: va_printk_loop.simps)

lemma va_printk_loop_returns:
  assumes "fmt_args fmt args" "good_out lim out"
  shows "\<exists>out'. va_printk_loop lim out fmt args = Inr out' \<and> good_out lim out'"
  using assms
proof (induction arbitrary: out rule: fmt_args.induct)
  case (fa_end r args)
  then show ?case by (simp add: va_printk_loop.simps)
next
  case (fa_lit c f args)
  then show ?case by (auto simp: va_printk_loop.simps good_out_def)
next
  case (fa_pct f args)
  have "ch CHR ''%'' \<noteq> 0" by (simp add: ch_def)
  then show ?case using fa_pct by (auto simp: va_printk_loop.simps good_out_def)
next
  case (fa_int f w spec f' args v)
  have "unat w < 32" using fa_int(2) by (simp add: word_less_nat_alt)
  from convert_int_ok [OF fa_int(3) this, of v args] obtain t where
    t: "convert spec (unat w) (VInt v # args) = Inr (cstring t [], args)" by blast
  from copy_str_good [OF fa_int.prems, of t "[]"] obtain o2 where
    o2: "copy_str lim out (cstring t []) = Inr o2" "good_out lim o2" by blast
  show ?case
  proof (cases "length out < lim")
    case True
    with fa_int t o2 show ?thesis
      by (simp add: va_printk_loop_conv spec_ne_pct)
  qed (use fa_int in \<open>simp add: va_printk_loop_full\<close>)
next
  case (fa_str f w f' s args r)
  have s: "ch CHR ''s'' \<noteq> ch CHR ''%''" by (simp add: ch_def)
  from copy_str_good [OF fa_str.prems, of s r] obtain o2 where
    o2: "copy_str lim out (cstring s r) = Inr o2" "good_out lim o2" by blast
  show ?case
  proof (cases "length out < lim")
    case True
    then show ?thesis
      using fa_str o2 s by (simp add: va_printk_loop_conv) (simp add: convert_def ch_def)
  qed (use fa_str in \<open>simp add: va_printk_loop_full\<close>)
qed

section \<open>Properties\<close>

text \<open>
  (C23) A number is printed so that it can be read back: for every width below 32 the text of
  \<open>%d\<close>, \<open>%u\<close>, \<open>%x\<close> (and \<open>%p\<close>) and \<open>%b\<close> is right-aligned with blanks to the width, and its digits
  denote the argument, as a signed value with a leading minus for \<open>%d\<close> and as an unsigned one for
  the others; the argument is consumed.
\<close>

theorem printk_number_roundtrip:
  assumes "w < 32"
  shows "\<exists>td tu tx tb.
      convert (ch CHR ''d'') w (VInt v # args) = Inr (cstring (blanks (w - length td) @ td) [], args)
    \<and> convert (ch CHR ''u'') w (VInt v # args) = Inr (cstring (blanks (w - length tu) @ tu) [], args)
    \<and> convert (ch CHR ''x'') w (VInt v # args) = Inr (cstring (blanks (w - length tx) @ tx) [], args)
    \<and> convert (ch CHR ''b'') w (VInt v # args) = Inr (cstring (blanks (w - length tb) @ tb) [], args)
    \<and> (if sint v < 0 then \<exists>ds. td = ch CHR ''-'' # ds \<and> int (num_val 10 ds) = - sint v
       else int (num_val 10 td) = sint v)
    \<and> num_val 10 tu = unat v \<and> num_val 16 tx = unat v \<and> num_val 2 tb = unat v"
  by (rule exI [of _ "num_text 10 v True"], rule exI [of _ "num_text 10 v False"],
      rule exI [of _ "num_text 16 v False"], rule exI [of _ "num_text 2 v False"])
     (use assms num_text_signed [of v] in \<open>simp add: convert_def ch_def emit_num num_text_val\<close>)

theorem printk_number_roundtrip_witness:
  "\<exists>td. convert (ch CHR ''d'') 5 [VInt (- 42)] = Inr (cstring (blanks (5 - length td) @ td) [], [])
     \<and> (\<exists>ds. td = ch CHR ''-'' # ds \<and> int (num_val 10 ds) = 42)"
proof -
  have "sint (- 42 :: u32) = - 42" by simp
  then show ?thesis
    using printk_number_roundtrip [of 5 "- 42" "[]"] by fastforce
qed

text \<open>
  (C22) \<open>snprintk\<close> with a buffer of \<open>n > 0\<close> bytes and arguments that match the format always
  returns, never leaves the buffer, and terminates what it wrote: the buffer holds a string of
  at most \<open>n - 1\<close> characters. The returned count is that length plus one: it counts the
  terminator and the text that fits, not the length the whole text would have had.
\<close>

theorem snprintk_bounded:
  assumes "fmt_args fmt args" "0 < n"
  shows "\<exists>out. snprintk n fmt args = Inr (cstring out [], length out + 1)
    \<and> no_nul out \<and> length out + 1 \<le> n"
proof -
  have "good_out (n - 1) []" by (simp add: good_out_def)
  from va_printk_loop_returns [OF assms(1) this] assms(2) show ?thesis
    by (auto simp: snprintk_def va_printk_def good_out_def cstring_def)
qed

theorem snprintk_bounded_witness:
  "\<exists>out. snprintk 4 (cstring (bstr ''a%dbcd'') []) [VInt 7] = Inr (cstring out [], length out + 1)
     \<and> no_nul out \<and> length out + 1 \<le> 4"
proof -
  have "fmt_args (cstring (bstr ''bcd'') []) []"
    by (auto simp: bstr_def ch_def intro!: fa_lit fa_end)
  then have "fmt_args (ch CHR ''%'' # ch CHR ''d'' # cstring (bstr ''bcd'') []) [VInt 7]"
    by (intro fa_int [of _ 0 "ch CHR ''d''"])
       (auto simp: isdigit_def ch_def int_specs_def)
  then have "fmt_args (cstring (bstr ''a%dbcd'') []) [VInt 7]"
    by (auto simp: bstr_def ch_def intro!: fa_lit)
  from snprintk_bounded [OF this, of 4] show ?thesis by simp
qed

end
