(* ===== verification/Pi_Random.thy ===== *)
theory Pi_Random
  imports Prelude
begin

text \<open>
  The random number generator of the fake Pi (\<^verbatim>\<open>libpi-fake/pi-random.c\<close>, cut down from the GNU C
  library), the wrapper \<^verbatim>\<open>pi-test.c\<close> that seeds and checks it, and the fake devices that draw
  from it (\<^verbatim>\<open>fake-gpio.c\<close>, \<^verbatim>\<open>fake-time.c\<close>). State arrays live in a store of objects: word 0 of an
  object is \<open>state[-1]\<close>, word \<open>i + 1\<close> is \<open>state[i]\<close>; the pointers \<open>fptr\<close>, \<open>rptr\<close> and \<open>end_ptr\<close> are
  offsets from \<open>state\<close>. A return value of -1 is None.
\<close>

section \<open>Constants and state\<close>

definition TYPE_0 :: nat where "TYPE_0 = 0"
definition TYPE_1 :: nat where "TYPE_1 = 1"
definition TYPE_2 :: nat where "TYPE_2 = 2"
definition TYPE_3 :: nat where "TYPE_3 = 3"
definition TYPE_4 :: nat where "TYPE_4 = 4"
definition BREAK_0 :: nat where "BREAK_0 = 8"
definition BREAK_1 :: nat where "BREAK_1 = 32"
definition BREAK_2 :: nat where "BREAK_2 = 64"
definition BREAK_3 :: nat where "BREAK_3 = 128"
definition BREAK_4 :: nat where "BREAK_4 = 256"
definition MAX_TYPES :: nat where "MAX_TYPES = 5"

definition poly_seps :: "nat list" where
  "poly_seps = [0, 3, 1, 3, 1]"

definition poly_degrees :: "nat list" where
  "poly_degrees = [0, 7, 15, 31, 63]"

lemmas rand_consts = TYPE_0_def TYPE_1_def TYPE_2_def TYPE_3_def TYPE_4_def BREAK_0_def BREAK_1_def
  BREAK_2_def BREAK_3_def BREAK_4_def MAX_TYPES_def poly_seps_def poly_degrees_def

record pi_random_data =
  fptr :: nat
  rptr :: nat
  state :: nat
  rand_type :: nat
  rand_deg :: nat
  rand_sep :: nat
  end_ptr :: nat

type_synonym rstore = "nat \<Rightarrow> u32 list"

definition st_get :: "rstore \<Rightarrow> nat \<Rightarrow> nat \<Rightarrow> u32 result" where
  "st_get h a i = arr_get (h a) (i + 1)"

definition st_set :: "rstore \<Rightarrow> nat \<Rightarrow> nat \<Rightarrow> u32 \<Rightarrow> rstore result" where
  "st_set h a i v = rbind (arr_set (h a) (i + 1) v) (\<lambda>l. Inr (h(a := l)))"

definition tag_get :: "rstore \<Rightarrow> nat \<Rightarrow> u32 result" where
  "tag_get h a = arr_get (h a) 0"

definition tag_set :: "rstore \<Rightarrow> nat \<Rightarrow> u32 \<Rightarrow> rstore result" where
  "tag_set h a v = rbind (arr_set (h a) 0 v) (\<lambda>l. Inr (h(a := l)))"

section \<open>The generator\<close>

definition pi_random_r ::
  "pi_random_data option \<Rightarrow> rstore \<Rightarrow> (u32 \<times> pi_random_data \<times> rstore) option result" where
  "pi_random_r pbuf h =
     (case pbuf of None \<Rightarrow> Inr None | Some buf \<Rightarrow>
      if rand_type buf = TYPE_0 then
        rbind (st_get h (state buf) 0) (\<lambda>s0.
        let val = (s0 * 1103515245 + 12345) AND 0x7fffffff in
        rbind (st_set h (state buf) 0 val) (\<lambda>h'. Inr (Some (val, buf, h'))))
      else
        rbind (st_get h (state buf) (fptr buf)) (\<lambda>f.
        rbind (st_get h (state buf) (rptr buf)) (\<lambda>r.
        let val = f + r in
        rbind (st_set h (state buf) (fptr buf) val) (\<lambda>h'.
        let out = drop_bit 1 val AND 0x7fffffff;
            f' = fptr buf + 1
        in if f' \<ge> end_ptr buf
           then Inr (Some (out, buf\<lparr>fptr := 0, rptr := rptr buf + 1\<rparr>, h'))
           else
             (let r' = rptr buf + 1 in
              Inr (Some (out, buf\<lparr>fptr := f', rptr := (if r' \<ge> end_ptr buf then 0 else r')\<rparr>, h')))))))"

text \<open>
  One step of the seeding loop. \<open>long int\<close> has 64 bits on the Unix side, so nothing
  overflows and the division is that of integers.
\<close>

definition seed_step :: "int \<Rightarrow> int" where
  "seed_step word =
     (let hi = word div 127773;
          lo = word mod 127773;
          word' = 16807 * lo - 2836 * hi
      in if word' < 0 then word' + 2147483647 else word')"

fun seed_loop :: "nat \<Rightarrow> nat \<Rightarrow> int \<Rightarrow> nat \<Rightarrow> rstore \<Rightarrow> rstore result" where
  "seed_loop 0 i word a h = Inr h"
| "seed_loop (Suc k) i word a h =
     (let word' = seed_step word in
      rbind (st_set h a i (word_of_int word')) (\<lambda>h'. seed_loop k (i + 1) word' a h'))"

fun discard_loop :: "nat \<Rightarrow> pi_random_data \<Rightarrow> rstore \<Rightarrow> (pi_random_data \<times> rstore) result" where
  "discard_loop 0 buf h = Inr (buf, h)"
| "discard_loop (Suc k) buf h =
     rbind (pi_random_r (Some buf) h) (\<lambda>r.
       case r of None \<Rightarrow> discard_loop k buf h | Some (_, buf', h') \<Rightarrow> discard_loop k buf' h')"

definition pi_srandom_r ::
  "u32 \<Rightarrow> pi_random_data option \<Rightarrow> rstore \<Rightarrow> (pi_random_data \<times> rstore) option result" where
  "pi_srandom_r seed pbuf h =
     (case pbuf of None \<Rightarrow> Inr None | Some buf \<Rightarrow>
      if rand_type buf \<ge> MAX_TYPES then Inr None
      else
        (let seed = (if seed = 0 then 1 else seed) in
         rbind (st_set h (state buf) 0 seed) (\<lambda>h1.
         if rand_type buf = TYPE_0 then Inr (Some (buf, h1))
         else
           rbind (seed_loop (rand_deg buf - 1) 1 (uint seed) (state buf) h1) (\<lambda>h2.
           rbind (discard_loop (10 * rand_deg buf) (buf\<lparr>fptr := rand_sep buf, rptr := 0\<rparr>) h2)
             (\<lambda>(buf', h'). Inr (Some (buf', h')))))))"

definition pi_initstate_r ::
  "u32 \<Rightarrow> nat \<Rightarrow> nat \<Rightarrow> pi_random_data option \<Rightarrow> rstore \<Rightarrow> (pi_random_data \<times> rstore) option result" where
  "pi_initstate_r seed arg_state n pbuf h =
     (case pbuf of None \<Rightarrow> Inr None | Some buf \<Rightarrow>
      if n < BREAK_0 then Inr None
      else
        (let type = (if n \<ge> BREAK_3 then (if n < BREAK_4 then TYPE_3 else TYPE_4)
                     else if n < BREAK_1 then TYPE_0
                     else if n < BREAK_2 then TYPE_1 else TYPE_2);
             degree = poly_degrees ! type;
             separation = poly_seps ! type;
             buf1 = buf\<lparr>rand_type := type, rand_sep := separation, rand_deg := degree,
                        end_ptr := degree, state := arg_state\<rparr>
         in
         rbind (pi_srandom_r seed (Some buf1) h) (\<lambda>r.
         let (buf2, h2) = (case r of None \<Rightarrow> (buf1, h) | Some p \<Rightarrow> p) in
         rbind (tag_set h2 arg_state (of_nat TYPE_0)) (\<lambda>h3.
         if type \<noteq> TYPE_0
         then rbind (tag_set h3 arg_state (of_nat (rptr buf2 * MAX_TYPES + type))) (\<lambda>h4.
                Inr (Some (buf2, h4)))
         else Inr (Some (buf2, h3))))))"

text \<open>
  \<open>new_state[-1]\<close> is a signed word; the tags the library writes are small, and C's remainder
  and quotient of a negative tag are negative, which the first guard sends to the failure
  return (a negative multiple of 5 passes it).
\<close>

definition c_rem5 :: "u32 \<Rightarrow> int" where
  "c_rem5 v = (if sint v < 0 then - ((- sint v) mod 5) else sint v mod 5)"

definition c_div5 :: "u32 \<Rightarrow> int" where
  "c_div5 v = (if sint v < 0 then - ((- sint v) div 5) else sint v div 5)"

definition pi_setstate_r ::
  "nat option \<Rightarrow> pi_random_data option \<Rightarrow> rstore \<Rightarrow> (pi_random_data option \<times> rstore) result" where
  "pi_setstate_r parg pbuf h =
     (case (parg, pbuf) of
        (Some arg_state, Some buf) \<Rightarrow>
          rbind (tag_set h (state buf)
                   (if rand_type buf = TYPE_0 then of_nat TYPE_0
                    else of_nat (MAX_TYPES * rptr buf + rand_type buf))) (\<lambda>h1.
          rbind (tag_get h1 arg_state) (\<lambda>tag.
          if c_rem5 tag < int TYPE_0 \<or> c_rem5 tag > int TYPE_4 then Inr (None, h1)
          else
            (let type = nat (c_rem5 tag);
                 degree = poly_degrees ! type;
                 separation = poly_seps ! type;
                 buf1 = buf\<lparr>rand_deg := degree, rand_sep := separation, rand_type := type\<rparr>;
                 rear = nat (c_div5 tag);
                 buf2 = (if type \<noteq> TYPE_0
                         then buf1\<lparr>rptr := rear, fptr := (rear + separation) mod degree\<rparr>
                         else buf1)
             in Inr (Some (buf2\<lparr>state := arg_state, end_ptr := degree\<rparr>), h1))))
      | _ \<Rightarrow> Inr (None, h))"

section \<open>The test wrapper and the fake devices\<close>

text \<open>The statics of \<^verbatim>\<open>pi-test.c\<close>; the state buffer is object 0, of 32 words.\<close>

record fake_state =
  init_p :: bool
  fr :: pi_random_data
  fstore :: rstore
  time_usec :: u32
  bias :: u32

definition STATESIZE :: nat where
  "STATESIZE = 128"

definition zero_data :: pi_random_data where
  "zero_data = \<lparr>fptr = 0, rptr = 0, state = 0, rand_type = 0, rand_deg = 0, rand_sep = 0, end_ptr = 0\<rparr>"

definition fake_random_seed :: "u32 \<Rightarrow> fake_state \<Rightarrow> fake_state result" where
  "fake_random_seed x s =
     (let seed = 0 in
      rbind (pi_initstate_r seed 0 STATESIZE (Some zero_data) (fstore s)) (\<lambda>r.
      case r of None \<Rightarrow> Inl (AssertFail ''0'') | Some (b1, h1) \<Rightarrow>
      rbind (pi_srandom_r seed (Some b1) h1) (\<lambda>r2.
      case r2 of None \<Rightarrow> Inl (AssertFail ''0'') | Some (b2, h2) \<Rightarrow>
        Inr (s\<lparr>init_p := True, fr := b2, fstore := h2\<rparr>))))"

definition fake_random :: "fake_state \<Rightarrow> (u32 \<times> fake_state) result" where
  "fake_random s =
     rbind (c_assert (init_p s) ''init_p'') (\<lambda>_.
     rbind (pi_random_r (Some (fr s)) (fstore s)) (\<lambda>r.
     case r of None \<Rightarrow> Inl (AssertFail ''0'') | Some (x, b, h) \<Rightarrow>
       Inr (x, s\<lparr>fr := b, fstore := h\<rparr>)))"

definition fake_random_check :: "fake_state \<Rightarrow> (u32 \<times> fake_state) result" where
  "fake_random_check s =
     rbind (fake_random_seed 0 s) (\<lambda>s1.
     rbind (fake_random s1) (\<lambda>(u, s2).
     rbind (c_assert (0x6b8b4567 = u) ''0x6b8b4567 == u'') (\<lambda>_. Inr (u, s2))))"

definition fake_time_init :: "u32 \<Rightarrow> fake_state \<Rightarrow> fake_state" where
  "fake_time_init t s = s\<lparr>time_usec := t\<rparr>"

definition fake_pi_init :: "fake_state \<Rightarrow> fake_state result" where
  "fake_pi_init s = rbind (fake_random_check s) (\<lambda>(u, s1). Inr (fake_time_init u s1))"

definition timer_get_usec :: "fake_state \<Rightarrow> u32 \<times> fake_state" where
  "timer_get_usec s = (let t = time_usec s + 1 in (t, s\<lparr>time_usec := t\<rparr>))"

definition delay_us :: "u32 \<Rightarrow> fake_state \<Rightarrow> fake_state" where
  "delay_us us s = s\<lparr>time_usec := time_usec s + us\<rparr>"

definition delay_ms :: "u32 \<Rightarrow> fake_state \<Rightarrow> fake_state" where
  "delay_ms ms s = s\<lparr>time_usec := time_usec s + ms * 1000\<rparr>"

definition fake_gpio_set_bias :: "u32 \<Rightarrow> fake_state \<Rightarrow> fake_state" where
  "fake_gpio_set_bias n s = s\<lparr>bias := n + 2\<rparr>"

definition fake_gpio_read :: "u32 \<Rightarrow> fake_state \<Rightarrow> (u32 \<times> fake_state) result" where
  "fake_gpio_read pin s =
     rbind (fake_random s) (\<lambda>(val, s1). Inr (of_bool (val mod bias s1 \<noteq> 0), s1))"

section \<open>The seeding step is multiplication modulo a prime\<close>

lemma seed_step_eq:
  assumes "0 \<le> x" "x < 2 ^ 32"
  shows "seed_step x = (16807 * x) mod 2147483647"
proof -
  define hi where "hi = x div 127773"
  define lo where "lo = x mod 127773"
  have x: "x = 127773 * hi + lo" by (simp add: hi_def lo_def)
  have lo: "0 \<le> lo" "lo < 127773" by (simp_all add: lo_def)
  have hi: "0 \<le> hi" "hi \<le> 33614"
    using assms by (auto simp: hi_def)
  let ?w = "16807 * lo - 2836 * hi"
  have w: "- 2147483647 < ?w" "?w < 2147483647" using lo hi by auto
  have "16807 * x = ?w + 2147483647 * hi" by (simp add: x)
  then have "(16807 * x) mod 2147483647 = ?w mod 2147483647"
    by (metis mod_mult_self2)
  also have "\<dots> = (if ?w < 0 then ?w + 2147483647 else ?w)"
  proof (cases "?w < 0")
    case True
    have "?w mod 2147483647 = (?w + 2147483647) mod 2147483647" by simp
    also have "\<dots> = ?w + 2147483647" using True w by (intro mod_pos_pos_trivial) auto
    finally show ?thesis using True by simp
  next
    case False
    then show ?thesis using w by (simp add: mod_pos_pos_trivial)
  qed
  finally show ?thesis by (simp add: seed_step_def Let_def hi_def lo_def)
qed

section \<open>Invariant and refinement to a lagged Fibonacci generator\<close>

definition rand_ok :: "pi_random_data \<Rightarrow> rstore \<Rightarrow> bool" where
  "rand_ok buf h \<longleftrightarrow>
     rand_type buf \<in> {1, 2, 3, 4} \<and> rand_deg buf = poly_degrees ! rand_type buf
     \<and> rand_sep buf = poly_seps ! rand_type buf \<and> end_ptr buf = rand_deg buf
     \<and> rand_deg buf < length (h (state buf)) \<and> rptr buf < rand_deg buf
     \<and> fptr buf = (rptr buf + rand_sep buf) mod rand_deg buf"

text \<open>The table read from the front pointer on, oldest value first.\<close>

definition rand_tab :: "pi_random_data \<Rightarrow> rstore \<Rightarrow> u32 list" where
  "rand_tab buf h = take (rand_deg buf) (tl (h (state buf)))"

definition rand_abs :: "pi_random_data \<Rightarrow> rstore \<Rightarrow> u32 list" where
  "rand_abs buf h = rotate (fptr buf) (rand_tab buf h)"

definition lfg_new :: "nat \<Rightarrow> u32 list \<Rightarrow> u32" where
  "lfg_new sep xs = xs ! 0 + xs ! (length xs - sep)"

definition lfg_next :: "nat \<Rightarrow> u32 list \<Rightarrow> u32 list" where
  "lfg_next sep xs = tl xs @ [lfg_new sep xs]"

definition lfg_out :: "u32 \<Rightarrow> u32" where
  "lfg_out v = drop_bit 1 v AND 0x7fffffff"

lemma rand_ok_sep:
  assumes "rand_ok buf h"
  shows "0 < rand_sep buf" "rand_sep buf < rand_deg buf" "0 < rand_deg buf"
    "rand_type buf \<noteq> TYPE_0" "fptr buf < rand_deg buf"
  using assms by (auto simp: rand_ok_def rand_consts)

lemma rand_tab_nth: "rand_ok buf h \<Longrightarrow> i < rand_deg buf \<Longrightarrow> rand_tab buf h ! i = h (state buf) ! Suc i"
  by (auto simp: rand_tab_def rand_ok_def nth_tl)

lemma length_rand_tab [simp]: "rand_ok buf h \<Longrightarrow> length (rand_tab buf h) = rand_deg buf"
  by (auto simp: rand_tab_def rand_ok_def)

lemma rand_rear_index:
  assumes "rand_ok buf h"
  shows "(fptr buf + (rand_deg buf - rand_sep buf)) mod rand_deg buf = rptr buf"
proof -
  note ok = rand_ok_sep [OF assms]
  have r: "rptr buf < rand_deg buf" and f: "fptr buf = (rptr buf + rand_sep buf) mod rand_deg buf"
    using assms by (simp_all add: rand_ok_def)
  have "(fptr buf + (rand_deg buf - rand_sep buf)) mod rand_deg buf
      = (rptr buf + rand_sep buf + (rand_deg buf - rand_sep buf)) mod rand_deg buf"
    unfolding f by (rule mod_add_left_eq)
  also have "\<dots> = rptr buf" using ok r by simp
  finally show ?thesis .
qed

lemma lfg_new_abs:
  assumes "rand_ok buf h"
  shows "lfg_new (rand_sep buf) (rand_abs buf h) = h (state buf) ! Suc (fptr buf) + h (state buf) ! Suc (rptr buf)"
proof -
  note ok = rand_ok_sep [OF assms]
  have r: "rptr buf < rand_deg buf" using assms by (simp add: rand_ok_def)
  show ?thesis
    using ok assms r rand_rear_index [OF assms]
    by (simp add: lfg_new_def rand_abs_def nth_rotate rand_tab_nth)
qed

text \<open>Storing the new value at the front and advancing the front rotates the table by one.\<close>

lemma rotate_update:
  assumes "f < length xs"
  shows "rotate (Suc f mod length xs) (xs[f := v]) = tl (rotate f xs) @ [v]"
proof (rule nth_equalityI)
  show "length (rotate (Suc f mod length xs) (xs[f := v])) = length (tl (rotate f xs) @ [v])"
    using assms by simp
  fix i
  assume "i < length (rotate (Suc f mod length xs) (xs[f := v]))"
  then have i: "i < length xs" by simp
  have l: "rotate (Suc f mod length xs) (xs[f := v]) ! i = xs[f := v] ! ((Suc f + i) mod length xs)"
    using i assms by (simp add: nth_rotate mod_add_left_eq)
  show "rotate (Suc f mod length xs) (xs[f := v]) ! i = (tl (rotate f xs) @ [v]) ! i"
  proof (cases "Suc i < length xs")
    case True
    then have ne: "(Suc f + i) mod length xs \<noteq> f"
    proof (cases "Suc f + i < length xs")
      case False
      then have "(Suc f + i) mod length xs = Suc f + i - length xs"
        using True assms by (simp add: mod_if)
      then show ?thesis using True False by linarith
    qed simp
    moreover have "i < length xs - 1" using True by simp
    ultimately show ?thesis
      using l True i assms by (simp add: nth_append nth_tl nth_rotate)
  next
    case False
    then have "i = length xs - 1" using i by simp
    then have "Suc f + i = f + length xs" using i by simp
    then have "(Suc f + i) mod length xs = f" using assms by (metis mod_add_self2 mod_less)
    moreover have "\<not> i < length xs - 1" using False by simp
    ultimately show ?thesis using l False i assms by (simp add: nth_append)
  qed
qed

lemma tl_update_Suc: "tl (xs[Suc n := v]) = (tl xs)[n := v]"
  by (cases xs) simp_all

lemma rand_step:
  assumes "rand_ok buf h"
  shows "\<exists>buf' h'. pi_random_r (Some buf) h
      = Inr (Some (lfg_out (lfg_new (rand_sep buf) (rand_abs buf h)), buf', h'))
    \<and> rand_ok buf' h' \<and> rand_abs buf' h' = lfg_next (rand_sep buf) (rand_abs buf h)
    \<and> rand_sep buf' = rand_sep buf \<and> rand_deg buf' = rand_deg buf \<and> state buf' = state buf
    \<and> rand_type buf' = rand_type buf
    \<and> (\<forall>a. a \<noteq> state buf \<longrightarrow> h' a = h a) \<and> length (h' (state buf)) = length (h (state buf))"
proof -
  note ok = rand_ok_sep [OF assms]
  have r: "rptr buf < rand_deg buf" and f: "fptr buf = (rptr buf + rand_sep buf) mod rand_deg buf"
    and e: "end_ptr buf = rand_deg buf" and l: "rand_deg buf < length (h (state buf))"
    using assms by (simp_all add: rand_ok_def)
  define v where "v = lfg_new (rand_sep buf) (rand_abs buf h)"
  define buf' where "buf' = buf\<lparr>fptr := Suc (fptr buf) mod rand_deg buf, rptr := Suc (rptr buf) mod rand_deg buf\<rparr>"
  define h' where "h' = h(state buf := (h (state buf))[Suc (fptr buf) := v])"
  have wrap: "Suc (rptr buf) < rand_deg buf" if "Suc (fptr buf) = rand_deg buf"
    using that f r ok by (auto simp: mod_if split: if_splits)
  have "pi_random_r (Some buf) h = Inr (Some (lfg_out v, buf', h'))"
  proof (cases "Suc (fptr buf) = rand_deg buf")
    case True
    then show ?thesis
      using ok l r e wrap
      by (simp add: pi_random_r_def st_get_def st_set_def Let_def lfg_out_def v_def lfg_new_abs [OF assms]
          buf'_def h'_def)
  next
    case False
    have "(if rand_deg buf \<le> Suc (rptr buf) then 0 else Suc (rptr buf)) = Suc (rptr buf) mod rand_deg buf"
      using r by (auto simp: mod_Suc)
    then show ?thesis
      using False ok l r e
      by (simp add: pi_random_r_def st_get_def st_set_def Let_def lfg_out_def v_def lfg_new_abs [OF assms]
          buf'_def h'_def)
  qed
  moreover have ok': "rand_ok buf' h'"
    using assms ok by (auto simp: rand_ok_def buf'_def h'_def mod_Suc_eq mod_add_left_eq)
  moreover have "rand_abs buf' h' = lfg_next (rand_sep buf) (rand_abs buf h)"
  proof -
    have "rand_tab buf' h' = (rand_tab buf h)[fptr buf := v]"
      by (simp add: rand_tab_def buf'_def h'_def tl_update_Suc take_update_swap)
    then show ?thesis
      using rotate_update [of "fptr buf" "rand_tab buf h" v] ok assms
      by (simp add: rand_abs_def lfg_next_def v_def buf'_def)
  qed
  ultimately show ?thesis by (auto simp: v_def buf'_def h'_def)
qed

text \<open>Several calls: the values returned, and the last buffer and store.\<close>

fun rand_calls :: "nat \<Rightarrow> pi_random_data \<Rightarrow> rstore \<Rightarrow> (u32 list \<times> pi_random_data \<times> rstore) option result" where
  "rand_calls 0 buf h = Inr (Some ([], buf, h))"
| "rand_calls (Suc k) buf h =
     rbind (pi_random_r (Some buf) h) (\<lambda>r.
       case r of
         None \<Rightarrow> Inr None
       | Some (x, buf', h') \<Rightarrow>
           rbind (rand_calls k buf' h') (\<lambda>r'.
             Inr (case r' of None \<Rightarrow> None | Some (xs, b, h) \<Rightarrow> Some (x # xs, b, h))))"

text \<open>The sequence the generator should produce: \<open>k\<close> outputs from a table.\<close>

fun lfg_outs :: "nat \<Rightarrow> nat \<Rightarrow> u32 list \<Rightarrow> u32 list" where
  "lfg_outs 0 sep xs = []"
| "lfg_outs (Suc k) sep xs = lfg_out (lfg_new sep xs) # lfg_outs k sep (lfg_next sep xs)"

lemma rand_calls_refine:
  assumes "rand_ok buf h"
  shows "\<exists>buf' h'. rand_calls k buf h = Inr (Some (lfg_outs k (rand_sep buf) (rand_abs buf h), buf', h'))
    \<and> rand_ok buf' h' \<and> rand_abs buf' h' = (lfg_next (rand_sep buf) ^^ k) (rand_abs buf h)
    \<and> state buf' = state buf \<and> rand_type buf' = rand_type buf
    \<and> (\<forall>a. a \<noteq> state buf \<longrightarrow> h' a = h a) \<and> length (h' (state buf)) = length (h (state buf))"
  using assms
proof (induction k arbitrary: buf h)
  case (Suc k)
  from rand_step [OF Suc.prems] obtain b h1 where
    s: "pi_random_r (Some buf) h = Inr (Some (lfg_out (lfg_new (rand_sep buf) (rand_abs buf h)), b, h1))"
       "rand_ok b h1" "rand_abs b h1 = lfg_next (rand_sep buf) (rand_abs buf h)" "rand_sep b = rand_sep buf"
       "state b = state buf" "rand_type b = rand_type buf"
       "\<forall>a. a \<noteq> state buf \<longrightarrow> h1 a = h a" "length (h1 (state buf)) = length (h (state buf))"
    by blast
  from Suc.IH [OF s(2)] s show ?case by (auto simp: funpow_swap1)
qed simp

lemma discard_loop_eq:
  assumes "rand_ok buf h"
  shows "\<exists>buf' h'. discard_loop k buf h = Inr (buf', h') \<and> rand_ok buf' h'
    \<and> rand_abs buf' h' = (lfg_next (rand_sep buf) ^^ k) (rand_abs buf h)
    \<and> state buf' = state buf \<and> rand_type buf' = rand_type buf
    \<and> (\<forall>a. a \<noteq> state buf \<longrightarrow> h' a = h a) \<and> length (h' (state buf)) = length (h (state buf))"
  using assms
proof (induction k arbitrary: buf h)
  case (Suc k)
  from rand_step [OF Suc.prems] obtain x b h1 where
    s: "pi_random_r (Some buf) h = Inr (Some (x, b, h1))"
       "rand_ok b h1" "rand_abs b h1 = lfg_next (rand_sep buf) (rand_abs buf h)" "rand_sep b = rand_sep buf"
       "state b = state buf" "rand_type b = rand_type buf"
       "\<forall>a. a \<noteq> state buf \<longrightarrow> h1 a = h a" "length (h1 (state buf)) = length (h (state buf))"
    by blast
  from Suc.IH [OF s(2)] s show ?case by (auto simp: funpow_swap1)
qed simp

section \<open>Seeding\<close>

definition seed_table :: "u32 \<Rightarrow> nat \<Rightarrow> u32 list" where
  "seed_table seed deg = map (\<lambda>i. word_of_int ((seed_step ^^ i) (uint seed))) [0..<deg]"

lemma seed_loop_eq:
  assumes "i + k < length (h a)"
  shows "\<exists>h'. seed_loop k i w a h = Inr h'
    \<and> length (h' a) = length (h a) \<and> (\<forall>b. b \<noteq> a \<longrightarrow> h' b = h b)
    \<and> (\<forall>j < length (h a). h' a ! j =
         (if i < j \<and> j \<le> i + k then word_of_int ((seed_step ^^ (j - i)) w) else h a ! j))"
  using assms
proof (induction k arbitrary: i w h)
  case (Suc k)
  define h1 where "h1 = h(a := (h a)[i + 1 := word_of_int (seed_step w)])"
  have h1: "h1 a = (h a)[i + 1 := word_of_int (seed_step w)]" "\<And>b. b \<noteq> a \<Longrightarrow> h1 b = h b"
    by (simp_all add: h1_def)
  from Suc.IH [of "i + 1" h1 "seed_step w"] Suc.prems h1 obtain h' where
    h': "seed_loop k (i + 1) (seed_step w) a h1 = Inr h'" "length (h' a) = length (h a)"
      "\<forall>b. b \<noteq> a \<longrightarrow> h' b = h1 b"
      "\<forall>j < length (h a). h' a ! j = (if i + 1 < j \<and> j \<le> i + 1 + k
         then word_of_int ((seed_step ^^ (j - (i + 1))) (seed_step w)) else h1 a ! j)"
    by auto
  have "seed_loop (Suc k) i w a h = Inr h'"
    using Suc.prems h'(1) by (simp add: st_set_def h1_def)
  moreover have "h' a ! j = (if i < j \<and> j \<le> i + Suc k then word_of_int ((seed_step ^^ (j - i)) w) else h a ! j)"
    if j: "j < length (h a)" for j
  proof (cases "j = i + 1")
    case False
    have "(seed_step ^^ (j - (i + 1))) (seed_step w) = (seed_step ^^ (j - i)) w" if "i + 1 < j"
    proof -
      have "j - i = Suc (j - (i + 1))" using that by simp
      then show ?thesis by (simp add: funpow_swap1)
    qed
    then show ?thesis using h'(4) h1(1) j False by auto
  qed (use h'(4) h1(1) j in auto)
  ultimately show ?case using h'(2,3) h1(2) by (intro exI [of _ h']) simp
qed auto

text \<open>A buffer set up for a trinomial generator, before its pointers are.\<close>

definition rand_shape :: "pi_random_data \<Rightarrow> rstore \<Rightarrow> bool" where
  "rand_shape buf h \<longleftrightarrow>
     rand_type buf \<in> {1, 2, 3, 4} \<and> rand_deg buf = poly_degrees ! rand_type buf
     \<and> rand_sep buf = poly_seps ! rand_type buf \<and> end_ptr buf = rand_deg buf
     \<and> rand_deg buf < length (h (state buf))"

definition seeded_tab :: "u32 \<Rightarrow> nat \<Rightarrow> nat \<Rightarrow> u32 list" where
  "seeded_tab seed sep deg =
     (lfg_next sep ^^ (10 * deg)) (rotate sep (seed_table (if seed = 0 then 1 else seed) deg))"

lemma rand_ok_shape: "rand_ok buf h \<Longrightarrow> rand_shape buf h"
  by (simp add: rand_ok_def rand_shape_def)

lemma srandom_eq:
  assumes "rand_shape buf h"
  shows "\<exists>buf' h'. pi_srandom_r seed (Some buf) h = Inr (Some (buf', h')) \<and> rand_ok buf' h'
    \<and> rand_abs buf' h' = seeded_tab seed (rand_sep buf) (rand_deg buf)
    \<and> state buf' = state buf \<and> rand_type buf' = rand_type buf
    \<and> (\<forall>a. a \<noteq> state buf \<longrightarrow> h' a = h a) \<and> length (h' (state buf)) = length (h (state buf))"
proof -
  define sd where "sd = (if seed = 0 then 1 else seed)"
  let ?a = "state buf" and ?deg = "rand_deg buf"
  have deg: "?deg < length (h ?a)" "1 < ?deg" "rand_sep buf < ?deg" "rand_type buf < 5" "rand_type buf \<noteq> 0"
    using assms by (auto simp: rand_shape_def rand_consts)
  define h1 where "h1 = h(?a := (h ?a)[1 := sd])"
  have h1: "h1 ?a = (h ?a)[1 := sd]" "\<And>b. b \<noteq> ?a \<Longrightarrow> h1 b = h b" by (simp_all add: h1_def)
  have l: "1 + (?deg - 1) < length (h1 ?a)" using deg h1 by simp
  from seed_loop_eq [of 1 "?deg - 1" h1 ?a, OF l, of "uint sd"] obtain h2 where
    h2: "seed_loop (?deg - 1) 1 (uint sd) ?a h1 = Inr h2" "length (h2 ?a) = length (h1 ?a)"
      "\<forall>b. b \<noteq> ?a \<longrightarrow> h2 b = h1 b"
      "\<forall>j < length (h1 ?a). h2 ?a ! j = (if 1 < j \<and> j \<le> 1 + (?deg - 1)
         then word_of_int ((seed_step ^^ (j - 1)) (uint sd)) else h1 ?a ! j)" by blast
  define b0 where "b0 = buf\<lparr>fptr := rand_sep buf, rptr := 0\<rparr>"
  have ok0: "rand_ok b0 h2"
    using assms deg h2(2) h1 by (simp add: b0_def rand_ok_def rand_shape_def)
  have "rand_tab b0 h2 = seed_table sd ?deg"
  proof (rule nth_equalityI)
    show "length (rand_tab b0 h2) = length (seed_table sd ?deg)"
      using ok0 by (simp add: seed_table_def b0_def)
    fix i
    assume "i < length (rand_tab b0 h2)"
    then have i: "i < ?deg" using ok0 by (simp add: b0_def)
    then have "rand_tab b0 h2 ! i = h2 ?a ! Suc i"
      using rand_tab_nth [OF ok0, of i] by (simp add: b0_def)
    then show "rand_tab b0 h2 ! i = seed_table sd ?deg ! i"
      using i h2(4) deg h1 by (cases i) (simp_all add: seed_table_def)
  qed
  then have abs0: "rand_abs b0 h2 = rotate (rand_sep buf) (seed_table sd ?deg)"
    by (simp add: rand_abs_def) (simp add: b0_def)
  from discard_loop_eq [OF ok0, of "10 * ?deg"] obtain b3 h3 where
    d: "discard_loop (10 * ?deg) b0 h2 = Inr (b3, h3)" "rand_ok b3 h3"
      "rand_abs b3 h3 = (lfg_next (rand_sep b0) ^^ (10 * ?deg)) (rand_abs b0 h2)"
      "state b3 = state b0" "rand_type b3 = rand_type b0"
      "\<forall>a. a \<noteq> state b0 \<longrightarrow> h3 a = h2 a" "length (h3 (state b0)) = length (h2 (state b0))" by blast
  have "pi_srandom_r seed (Some buf) h = Inr (Some (b3, h3))"
    using deg h2(1) d(1) by (simp add: pi_srandom_r_def st_set_def Let_def rand_consts h1_def
        flip: sd_def b0_def)
  moreover have "rand_sep b0 = rand_sep buf" "state b0 = ?a" "rand_type b0 = rand_type buf"
    by (simp_all add: b0_def)
  ultimately show ?thesis
    using d h2 h1 abs0 by (auto simp: seeded_tab_def sd_def)
qed

lemma poly_bounds:
  assumes "t \<in> {1, 2, 3, 4}"
  shows "poly_seps ! t < poly_degrees ! t" "0 < poly_seps ! t"
  using assms by (auto simp: rand_consts)

section \<open>Switching state arrays\<close>

lemma c_div_rem5:
  assumes "r < 5" "q < 64"
  shows "c_rem5 (of_nat (5 * q + r)) = int r" "c_div5 (of_nat (5 * q + r)) = int q"
proof -
  have "unat (of_nat (5 * q + r) :: u32) = 5 * q + r"
    using assms by (intro unat_of_nat_u32) simp
  moreover have "sint (of_nat (5 * q + r) :: u32) = int (5 * q + r)"
    using assms by (simp add: signed_of_nat signed_take_bit_eq_if_positive take_bit_eq_mod
        bit_iff_odd div_less del: of_nat_add)
  moreover have "int (5 * q + r) mod 5 = int r" "int (5 * q + r) div 5 = int q"
    using assms by simp_all
  ultimately show "c_rem5 (of_nat (5 * q + r)) = int r" "c_div5 (of_nat (5 * q + r)) = int q"
    by (simp_all add: c_rem5_def c_div5_def del: of_nat_add)
qed

text \<open>The tag \<open>setstate\<close> leaves in the array it switches away from.\<close>

definition rand_tag :: "pi_random_data \<Rightarrow> u32" where
  "rand_tag buf = of_nat (MAX_TYPES * rptr buf + rand_type buf)"

text \<open>An array that carries the tag of a suspended generator.\<close>

definition resumable :: "u32 list \<Rightarrow> nat \<Rightarrow> nat \<Rightarrow> bool" where
  "resumable xs t r \<longleftrightarrow> t \<in> {1, 2, 3, 4} \<and> r < poly_degrees ! t \<and> poly_degrees ! t < length xs
     \<and> xs ! 0 = of_nat (MAX_TYPES * r + t)"

lemma poly_degree_lt: "t \<in> {1, 2, 3, 4} \<Longrightarrow> poly_degrees ! t < 64"
  by (auto simp: rand_consts)

lemma setstate_eq:
  assumes ok: "rand_ok buf h" and new: "resumable (h1 b) t r"
    and h1: "h1 = h(state buf := (h (state buf))[0 := rand_tag buf])"
  shows "pi_setstate_r (Some b) (Some buf) h =
    Inr (Some \<lparr>fptr = (r + poly_seps ! t) mod poly_degrees ! t, rptr = r, state = b, rand_type = t,
               rand_deg = poly_degrees ! t, rand_sep = poly_seps ! t, end_ptr = poly_degrees ! t\<rparr>, h1)"
proof -
  have st: "t \<in> {1, 2, 3, 4}" "r < poly_degrees ! t" "h1 b ! 0 = of_nat (5 * r + t)" "0 < length (h1 b)"
    using new by (auto simp: resumable_def MAX_TYPES_def)
  have "t < 5" "r < 64" using st(1,2) poly_degree_lt [OF st(1)] by auto
  note tag = c_div_rem5 [OF this]
  have "0 < length (h (state buf))" using ok by (auto simp: rand_ok_def)
  then have "tag_set h (state buf) (of_nat (MAX_TYPES * rptr buf + rand_type buf)) = Inr h1"
    by (simp add: tag_set_def h1 rand_tag_def)
  moreover have "tag_get h1 b = Inr (of_nat (5 * r + t))"
    using st by (simp add: tag_get_def del: of_nat_add)
  moreover have "rand_type buf \<noteq> TYPE_0" using rand_ok_sep [OF ok] by simp
  moreover have "t \<noteq> 0" using st(1) by auto
  ultimately show ?thesis
    using tag \<open>t < 5\<close>
    by (simp add: pi_setstate_r_def TYPE_0_def TYPE_4_def Let_def del: of_nat_add)
qed

lemma rand_tag_resumable:
  assumes "rand_ok buf h"
  shows "resumable ((h (state buf))[0 := rand_tag buf]) (rand_type buf) (rptr buf)"
proof -
  have "0 < length (h (state buf))" using assms by (auto simp: rand_ok_def)
  then show ?thesis using assms by (simp add: resumable_def rand_ok_def rand_tag_def)
qed

lemma rand_ok_record:
  "rand_ok buf h \<Longrightarrow> buf = \<lparr>fptr = (rptr buf + poly_seps ! rand_type buf) mod poly_degrees ! rand_type buf,
     rptr = rptr buf, state = state buf, rand_type = rand_type buf,
     rand_deg = poly_degrees ! rand_type buf, rand_sep = poly_seps ! rand_type buf,
     end_ptr = poly_degrees ! rand_type buf\<rparr>"
  by (cases buf) (simp add: rand_ok_def)

section \<open>The wrapper\<close>

lemma initstate_128:
  assumes "32 \<le> length (h a)"
  shows "\<exists>buf' h'. pi_initstate_r seed a 128 (Some buf) h = Inr (Some (buf', h'))
    \<and> rand_ok buf' h' \<and> rand_type buf' = 3 \<and> state buf' = a
    \<and> rand_abs buf' h' = seeded_tab seed 3 31"
proof -
  define b1 where "b1 = buf\<lparr>rand_type := 3, rand_sep := 3, rand_deg := 31, end_ptr := 31, state := a\<rparr>"
  have sh: "rand_shape b1 h" using assms by (simp add: b1_def rand_shape_def rand_consts)
  from srandom_eq [OF sh, of seed] obtain b2 h2 where
    2: "pi_srandom_r seed (Some b1) h = Inr (Some (b2, h2))" "rand_ok b2 h2"
      "rand_abs b2 h2 = seeded_tab seed 3 31" "state b2 = a" "rand_type b2 = 3"
      "length (h2 a) = length (h a)"
    by (auto simp: b1_def)
  define h3 where "h3 = h2(a := (h2 a)[0 := rand_tag b2])"
  have ne: "0 < length (h2 a)" using 2 assms by auto
  have "pi_initstate_r seed a 128 (Some buf) h = Inr (Some (b2, h3))"
    using 2(1,5) ne
    by (simp add: pi_initstate_r_def rand_consts Let_def tag_set_def rand_tag_def h3_def mult.commute
        flip: b1_def)
  moreover have "tl (h3 x) = tl (h2 x)" for x
    by (cases "h2 a") (simp_all add: h3_def)
  moreover have "length (h3 x) = length (h2 x)" for x by (simp add: h3_def)
  ultimately show ?thesis
    using 2 by (auto simp: rand_ok_def rand_abs_def rand_tab_def)
qed

fun fake_randoms :: "nat \<Rightarrow> fake_state \<Rightarrow> u32 list result" where
  "fake_randoms 0 s = Inr []"
| "fake_randoms (Suc k) s =
     rbind (fake_random s) (\<lambda>(x, s1). rbind (fake_randoms k s1) (\<lambda>xs. Inr (x # xs)))"

lemma fake_randoms_eq:
  assumes "init_p s" "rand_ok (fr s) (fstore s)"
  shows "fake_randoms k s = Inr (lfg_outs k (rand_sep (fr s)) (rand_abs (fr s) (fstore s)))"
  using assms
proof (induction k arbitrary: s)
  case (Suc k)
  from rand_step [OF Suc.prems(2)] obtain b h where
    "pi_random_r (Some (fr s)) (fstore s)
      = Inr (Some (lfg_out (lfg_new (rand_sep (fr s)) (rand_abs (fr s) (fstore s))), b, h))"
    "rand_ok b h" "rand_abs b h = lfg_next (rand_sep (fr s)) (rand_abs (fr s) (fstore s))"
    "rand_sep b = rand_sep (fr s)" by blast
  then show ?case
    using Suc.prems Suc.IH [of "s\<lparr>fr := b, fstore := h\<rparr>"] by (simp add: fake_random_def)
qed simp

lemma fake_random_seed_eq:
  assumes "32 \<le> length (fstore s 0)"
  shows "\<exists>s'. fake_random_seed x s = Inr s'
    \<and> fake_randoms k s' = Inr (lfg_outs k 3 (seeded_tab 0 3 31))"
proof -
  from initstate_128 [where h = "fstore s" and a = 0, OF assms, of 0 zero_data] obtain b1 h1 where
    1: "pi_initstate_r 0 0 128 (Some zero_data) (fstore s) = Inr (Some (b1, h1))" "rand_ok b1 h1"
      "rand_type b1 = 3" by blast
  have sd: "rand_sep b1 = 3" "rand_deg b1 = 31" using 1 by (simp_all add: rand_ok_def rand_consts)
  from srandom_eq [OF rand_ok_shape [OF 1(2)], of 0] sd obtain b2 h2 where
    2: "pi_srandom_r 0 (Some b1) h1 = Inr (Some (b2, h2))" "rand_ok b2 h2"
      "rand_abs b2 h2 = seeded_tab 0 3 31" "rand_type b2 = 3"
    using 1(3) by auto
  have "rand_sep b2 = 3" using 2 by (simp add: rand_ok_def rand_consts)
  then show ?thesis
    using 1(1) 2 fake_randoms_eq [of "s\<lparr>init_p := True, fr := b2, fstore := h2\<rparr>" k]
    by (simp add: fake_random_seed_def STATESIZE_def)
qed

section \<open>The first number drawn\<close>

text \<open>
  The seeding of the 31-word generator with seed 1 (which replaces seed 0), evaluated: the
  table of powers of 16807 and the table after the 310 numbers that are thrown away.
\<close>

lemma lfg_next_31: "lfg_next 3 [x0, x1, x2, x3, x4, x5, x6, x7, x8, x9, x10, x11, x12, x13, x14, x15, x16, x17, x18, x19, x20, x21, x22, x23, x24, x25, x26, x27, x28, x29, x30] = [x1, x2, x3, x4, x5, x6, x7, x8, x9, x10, x11, x12, x13, x14, x15, x16, x17, x18, x19, x20, x21, x22, x23, x24, x25, x26, x27, x28, x29, x30, x0 + x28]"
  by (simp add: lfg_next_def lfg_new_def)

fun lfg_iter :: "nat \<Rightarrow> u32 list \<Rightarrow> u32 list" where
 "lfg_iter 0 xs = xs" | "lfg_iter (Suc n) xs = lfg_iter n (lfg_next 3 xs)"

lemma lfg_iter_num: "lfg_iter (numeral k) xs = lfg_iter (pred_numeral k) (lfg_next 3 xs)"
  by (simp add: numeral_eq_Suc)

fun seed_iter :: "nat \<Rightarrow> int \<Rightarrow> u32 list" where
  "seed_iter 0 w = []" | "seed_iter (Suc n) w = word_of_int w # seed_iter n (seed_step w)"

lemma seed_iter_num: "seed_iter (numeral k) w = word_of_int w # seed_iter (pred_numeral k) (seed_step w)"
  by (simp add: numeral_eq_Suc)

lemma seed_iter_eq: "seed_iter n w = map (\<lambda>i. word_of_int ((seed_step ^^ i) w)) [0..<n]"
proof (induction n arbitrary: w)
  case (Suc n)
  have "map (\<lambda>i. word_of_int ((seed_step ^^ i) w) :: u32) [0..<Suc n] = word_of_int w # map (\<lambda>i. word_of_int ((seed_step ^^ Suc i) w)) [0..<n]"
    by (simp only: upt_conv_Cons zero_less_Suc map_Suc_upt [symmetric]) simp
  then show ?case using Suc by (simp add: funpow_swap1)
qed simp

lemma lfg_iter_eq: "(lfg_next 3 ^^ n) xs = lfg_iter n xs"
  by (induction n arbitrary: xs) (simp_all add: funpow_Suc_right del: funpow.simps(2))

lemma seed_tab_1: "seed_iter 31 1 = [
     1, 16807, 282475249, 1622650073, 984943658, 1144108930, 470211272,
     101027544, 1457850878, 1458777923, 2007237709, 823564440, 1115438165, 1784484492,
     74243042, 114807987, 1137522503, 1441282327, 16531729, 823378840, 143542612,
     896544303, 1474833169, 1264817709, 1998097157, 1817129560, 1131570933, 197493099,
     1404280278, 893351816, 1505795335]"
  by (simp add: seed_iter_num seed_step_def)

lemma seed_tab_rotated: "rotate 3 [
     1, 16807, 282475249, 1622650073, 984943658, 1144108930, 470211272,
     101027544, 1457850878, 1458777923, 2007237709, 823564440, 1115438165, 1784484492,
     74243042, 114807987, 1137522503, 1441282327, 16531729, 823378840, 143542612,
     896544303, 1474833169, 1264817709, 1998097157, 1817129560, 1131570933, 197493099,
     1404280278, 893351816, 1505795335] = [
     1622650073, 984943658, 1144108930, 470211272, 101027544, 1457850878, 1458777923,
     2007237709, 823564440, 1115438165, 1784484492, 74243042, 114807987, 1137522503,
     1441282327, 16531729, 823378840, 143542612, 896544303, 1474833169, 1264817709,
     1998097157, 1817129560, 1131570933, 197493099, 1404280278, 893351816, 1505795335,
     1, 16807, 282475249]"
  by (simp add: numeral_3_eq_3)

lemma seed_tab_cycled: "lfg_iter 310 [
     1622650073, 984943658, 1144108930, 470211272, 101027544, 1457850878, 1458777923,
     2007237709, 823564440, 1115438165, 1784484492, 74243042, 114807987, 1137522503,
     1441282327, 16531729, 823378840, 143542612, 896544303, 1474833169, 1264817709,
     1998097157, 1817129560, 1131570933, 197493099, 1404280278, 893351816, 1505795335,
     1, 16807, 282475249] = [
     1040273694, 1313901226, 1627687941, 4115662359, 2221633813, 1780058412, 2305464239,
     3678992694, 344556628, 939512070, 3045851036, 1507946756, 3482421833, 154635395,
     1388815473, 2368290473, 525320961, 3285938622, 968117788, 4171517689, 1284210865,
     435012392, 2277460957, 3383902437, 3924708123, 1132637927, 1398500161, 4089365978,
     2568305073, 379960547, 1735697613]"
  by (simp add: lfg_iter_num lfg_next_31)
lemma seeded_tab_first: "lfg_outs 1 3 (seeded_tab 0 3 31) = [0x6b8b4567]"
proof -
  have "seed_table 1 31 = seed_iter 31 1" by (simp only: seed_table_def seed_iter_eq) simp
  then have "seeded_tab 0 3 31 = lfg_iter 310 (rotate 3 (seed_iter 31 1))"
    by (simp add: seeded_tab_def lfg_iter_eq)
  then show ?thesis
    by (simp only: seed_tab_1 seed_tab_rotated seed_tab_cycled)
       (simp add: lfg_new_def lfg_out_def)
qed

section \<open>Properties\<close>

text \<open>
  (C9) The generator is the additive feedback generator its comments describe: seeding any of
  the four trinomial generators in an array that is large enough fills the table with the
  powers of 16807 modulo \<open>2 ^ 31 - 1\<close>, and every later call then returns the next value of
  the recurrence \<open>x(n) = x(n - deg) + x(n - sep)\<close> without its low bit. No call leaves the
  array, whatever the seed and the number of calls.
\<close>

theorem pi_random_refines_lfg:
  assumes "rand_shape buf h"
  shows "\<exists>buf1 h1 buf2 h2. pi_srandom_r seed (Some buf) h = Inr (Some (buf1, h1))
    \<and> rand_calls k buf1 h1 =
        Inr (Some (lfg_outs k (rand_sep buf) (seeded_tab seed (rand_sep buf) (rand_deg buf)), buf2, h2))
    \<and> (\<forall>x. 0 \<le> x \<and> x < 2 ^ 32 \<longrightarrow> seed_step x = (16807 * x) mod (2 ^ 31 - 1))
    \<and> (\<forall>a. a \<noteq> state buf \<longrightarrow> h2 a = h a)"
proof -
  from srandom_eq [OF assms, of seed] obtain b1 h1 where
    1: "pi_srandom_r seed (Some buf) h = Inr (Some (b1, h1))" "rand_ok b1 h1"
      "rand_abs b1 h1 = seeded_tab seed (rand_sep buf) (rand_deg buf)"
      "state b1 = state buf" "rand_type b1 = rand_type buf" "\<forall>a. a \<noteq> state buf \<longrightarrow> h1 a = h a" by blast
  have "rand_sep b1 = rand_sep buf"
    using 1(2,5) assms by (simp add: rand_ok_def rand_shape_def)
  with rand_calls_refine [OF 1(2), of k] 1 show ?thesis
    by (auto simp: seed_step_eq)
qed

theorem pi_random_refines_lfg_witness:
  "\<exists>b h b2 h2. pi_srandom_r 5 (Some \<lparr>fptr = 0, rptr = 0, state = 0, rand_type = 1, rand_deg = 7,
       rand_sep = 3, end_ptr = 7\<rparr>) (\<lambda>_. replicate 8 0) = Inr (Some (b, h))
     \<and> rand_calls 2 b h = Inr (Some (lfg_outs 2 3 (seeded_tab 5 3 7), b2, h2))"
  using pi_random_refines_lfg [of "\<lparr>fptr = 0, rptr = 0, state = 0, rand_type = 1, rand_deg = 7,
       rand_sep = 3, end_ptr = 7\<rparr>" "\<lambda>_. replicate 8 0" 5 2]
  by (fastforce simp: rand_shape_def rand_consts)

text \<open>
  Switching with \<open>pi_setstate_r\<close> to another suspended generator and back gives the generator
  that was left: the buffer is the same, pointers included, and the array differs only in its
  tag word, so the interrupted sequence continues where it stopped.
\<close>

theorem pi_setstate_roundtrip:
  assumes "rand_ok buf h" "resumable (h b) t r" "b \<noteq> state buf"
  shows "\<exists>buf1 h1 h2. pi_setstate_r (Some b) (Some buf) h = Inr (Some buf1, h1)
    \<and> state buf1 = b \<and> rptr buf1 = r \<and> rand_type buf1 = t
    \<and> pi_setstate_r (Some (state buf)) (Some buf1) h1 = Inr (Some buf, h2)
    \<and> (\<forall>a. tl (h2 a) = tl (h a)) \<and> rand_abs buf h2 = rand_abs buf h"
proof -
  define h1 where "h1 = h(state buf := (h (state buf))[0 := rand_tag buf])"
  define b1 where "b1 = \<lparr>fptr = (r + poly_seps ! t) mod poly_degrees ! t, rptr = r, state = b, rand_type = t,
       rand_deg = poly_degrees ! t, rand_sep = poly_seps ! t, end_ptr = poly_degrees ! t\<rparr>"
  define h2 where "h2 = h1(b := (h1 b)[0 := rand_tag b1])"
  have s1: "pi_setstate_r (Some b) (Some buf) h = Inr (Some b1, h1)"
    unfolding b1_def using assms by (intro setstate_eq h1_def) (simp_all add: h1_def)
  have ok1: "rand_ok b1 h1"
    using assms(2,3) by (simp add: rand_ok_def b1_def resumable_def h1_def)
  have "resumable (h2 (state buf)) (rand_type buf) (rptr buf)"
    using rand_tag_resumable [OF assms(1)] assms(3) by (simp add: h2_def h1_def)
  moreover have "h2 = h1(state b1 := (h1 (state b1))[0 := rand_tag b1])"
    by (simp add: h2_def b1_def)
  ultimately have s2: "pi_setstate_r (Some (state buf)) (Some b1) h1 = Inr (Some buf, h2)"
    using setstate_eq [OF ok1, of h2 "state buf"] rand_ok_record [OF assms(1)] by simp
  have tl_upd: "tl (xs[0 := v]) = tl xs" for xs :: "u32 list" and v by (cases xs) simp_all
  then have "tl (h2 a) = tl (h a)" for a by (simp add: h2_def h1_def)
  then show ?thesis
    using s1 s2 by (auto simp: b1_def rand_abs_def rand_tab_def)
qed

theorem pi_setstate_roundtrip_witness:
  "\<exists>h1 h2 b1. pi_setstate_r (Some 1) (Some \<lparr>fptr = 3, rptr = 0, state = 0, rand_type = 1, rand_deg = 7,
       rand_sep = 3, end_ptr = 7\<rparr>) (\<lambda>_. 6 # replicate 7 9) = Inr (Some b1, h1)
     \<and> pi_setstate_r (Some 0) (Some b1) h1 = Inr (Some \<lparr>fptr = 3, rptr = 0, state = 0, rand_type = 1,
       rand_deg = 7, rand_sep = 3, end_ptr = 7\<rparr>, h2)"
  using pi_setstate_roundtrip [of "\<lparr>fptr = 3, rptr = 0, state = 0, rand_type = 1, rand_deg = 7,
       rand_sep = 3, end_ptr = 7\<rparr>" "\<lambda>_. 6 # replicate 7 9" 1 1 1]
  by (fastforce simp: rand_ok_def resumable_def rand_consts)

text \<open>
  \<open>fake_random_seed\<close> ignores its argument: whatever seed is passed, and whatever state the
  generator was in, it returns and the numbers drawn afterwards are the same ones, those of
  seed 0. The trials of the driver, which reseeds with the number of the trial, are identical.
\<close>

theorem fake_random_seed_ignored:
  assumes "32 \<le> length (fstore s 0)" "32 \<le> length (fstore s' 0)"
  shows "\<exists>t t'. fake_random_seed x s = Inr t \<and> fake_random_seed y s' = Inr t'
    \<and> fake_randoms k t = fake_randoms k t'
    \<and> fake_randoms k t = Inr (lfg_outs k 3 (seeded_tab 0 3 31))"
  using fake_random_seed_eq [OF assms(1), of x k] fake_random_seed_eq [OF assms(2), of y k] by auto

theorem fake_random_seed_ignored_witness:
  "\<exists>t t'. fake_random_seed 1 \<lparr>init_p = False, fr = zero_data, fstore = \<lambda>_. replicate 32 0, time_usec = 0,
       bias = 2\<rparr> = Inr t
     \<and> fake_random_seed 2 \<lparr>init_p = True, fr = zero_data, fstore = \<lambda>_. replicate 32 7, time_usec = 0,
       bias = 2\<rparr> = Inr t'
     \<and> fake_randoms 8 t = fake_randoms 8 t'"
  using fake_random_seed_ignored [of "\<lparr>init_p = False, fr = zero_data, fstore = \<lambda>_. replicate 32 0, time_usec = 0,
       bias = 2\<rparr>" "\<lparr>init_p = True, fr = zero_data, fstore = \<lambda>_. replicate 32 7, time_usec = 0, bias = 2\<rparr>" 1 2 8]
  by auto

text \<open>
  The start-up check of the fake Pi passes: from any state whose buffer has its 32 words,
  \<open>fake_random_check\<close> draws exactly the number the source expects (0x6b8b4567), the assertion
  holds, and \<open>fake_pi_init\<close> returns with the clock set to it.
\<close>

theorem fake_pi_init_passes:
  assumes "32 \<le> length (fstore s 0)"
  shows "\<exists>s'. fake_random_check s = Inr (0x6b8b4567, s') \<and>
    fake_pi_init s = Inr (s'\<lparr>time_usec := 0x6b8b4567\<rparr>)"
proof -
  from fake_random_seed_eq [OF assms, of 0 1] obtain t where
    t: "fake_random_seed 0 s = Inr t" "fake_randoms 1 t = Inr [0x6b8b4567]"
    using seeded_tab_first by auto
  then obtain t' where "fake_random t = Inr (0x6b8b4567, t')"
    by (auto simp: rbind_eq_Inr)
  then show ?thesis
    using t(1) by (simp add: fake_random_check_def fake_pi_init_def fake_time_init_def)
qed

theorem fake_pi_init_passes_witness:
  "\<exists>s'. fake_pi_init \<lparr>init_p = False, fr = zero_data, fstore = \<lambda>_. replicate 32 0, time_usec = 0,
       bias = 2\<rparr> = Inr (s'\<lparr>time_usec := 0x6b8b4567\<rparr>)"
  using fake_pi_init_passes [of "\<lparr>init_p = False, fr = zero_data, fstore = \<lambda>_. replicate 32 0,
       time_usec = 0, bias = 2\<rparr>"] by auto

end
