(* ===== verification/Replay_Log.thy ===== *)
theory Replay_Log
  imports Prelude
begin

text \<open>
  The trace log of the replay lab (\<^verbatim>\<open>labs/5-replay/code\<close>): how \<open>interpose.c\<close> writes one line per
  byte, and the two programs that read it back, \<open>log-util.c\<close> (used by \<open>replay.c\<close>) and
  \<open>pretty-print.c\<close>, which also accepts trailing blanks and comments. The routines the two files
  share textually differ only in the line reader they call, which is their first argument
  here; the interface they rely on is the locale \<open>log_reader\<close>, interpreted on both readers.
\<close>

section \<open>The log and single characters\<close>

text \<open>
  The counters are unsigned in the source; as \<open>off\<close> never passes \<open>nbytes\<close>, and a line number not the size of
  the file, they do not wrap.
\<close>

record log_t =
  log :: bytes
  nbytes :: nat
  off :: nat
  lineno :: nat

definition PI_OUTPUT :: u8 where "PI_OUTPUT = ch CHR ''p''"
definition UNIX_OUTPUT :: u8 where "UNIX_OUTPUT = ch CHR ''u''"

text \<open>\<open>read_file\<close> belongs to libunix; its result is the file's contents.\<close>

definition log_readin :: "bytes \<Rightarrow> log_t" where
  "log_readin contents = \<lparr>log = contents, nbytes = length contents, off = 0, lineno = 1\<rparr>"

definition log_err :: "'a result" where
  "log_err = Inl (Panic ''parse error'')"

definition log_is_eol :: "log_t \<Rightarrow> bool" where
  "log_is_eol l \<longleftrightarrow> off l = nbytes l"

definition log_getc :: "log_t \<Rightarrow> (u8 \<times> log_t) result" where
  "log_getc l =
     rbind (c_assert (off l < nbytes l) ''l->off < l->nbytes'') (\<lambda>_.
     rbind (arr_get (log l) (off l)) (\<lambda>c.
       Inr (c, l\<lparr>off := off l + 1\<rparr>)))"

definition log_peek :: "log_t \<Rightarrow> u8 result" where
  "log_peek l =
     rbind (c_assert (\<not> log_is_eol l) ''!log_is_eol(l)'') (\<lambda>_. arr_get (log l) (off l))"

definition exp_tok :: "log_t \<Rightarrow> u8 \<Rightarrow> log_t result" where
  "exp_tok l e = rbind (log_getc l) (\<lambda>(got, l'). if e \<noteq> got then log_err else Inr l')"

definition hex2int :: "u8 \<Rightarrow> nat result" where
  "hex2int c =
     (if c \<ge> ch CHR ''0'' \<and> c \<le> ch CHR ''9'' then Inr (unat (c - ch CHR ''0''))
      else if c \<ge> ch CHR ''A'' \<and> c \<le> ch CHR ''F'' then Inr (unat (c - ch CHR ''A'') + 10)
      else if c \<ge> ch CHR ''a'' \<and> c \<le> ch CHR ''f'' then Inr (unat (c - ch CHR ''a'') + 10)
      else log_err)"

definition log_get_hex :: "log_t \<Rightarrow> (u8 \<times> log_t) result" where
  "log_get_hex l =
     rbind (exp_tok l (ch CHR ''0'')) (\<lambda>l.
     rbind (exp_tok l (ch CHR ''x'')) (\<lambda>l.
     rbind (log_getc l) (\<lambda>(d1, l).
     rbind (log_getc l) (\<lambda>(d0, l).
     rbind (hex2int d1) (\<lambda>h1.
     rbind (hex2int d0) (\<lambda>h0.
     let v = h1 * 16 + h0 in
     rbind (c_assert (v \<le> 255) ''v <= 255'') (\<lambda>_. Inr (of_nat v, l))))))))"

section \<open>The two line readers\<close>

type_synonym reader = "log_t \<Rightarrow> ((u8 \<times> u8) option \<times> log_t) result"

text \<open>\<open>log_readline\<close> of \<^verbatim>\<open>log-util.c\<close>: an entry and exactly a newline.\<close>

definition log_readline :: reader where
  "log_readline l =
     (if log_is_eol l then Inr (None, l)
      else
        rbind (log_getc l) (\<lambda>(op, l).
        rbind (exp_tok l (ch CHR '','')) (\<lambda>l.
        rbind (log_get_hex l) (\<lambda>(v, l).
        rbind (exp_tok l 10) (\<lambda>l. Inr (Some (op, v), l))))))"

definition isspace :: "u8 \<Rightarrow> bool" where
  "isspace c \<longleftrightarrow> c = 32 \<or> (9 \<le> c \<and> c \<le> 13)"

lemma log_getc_step: "log_getc l = Inr (c, l') \<Longrightarrow> nbytes l' - off l' < nbytes l - off l"
  by (auto simp: log_getc_def result_inversions)

text \<open>\<open>eat_line\<close> of \<^verbatim>\<open>pretty-print.c\<close>: blanks and a comment up to the newline.\<close>

function eat_loop :: "log_t \<Rightarrow> bool \<Rightarrow> log_t result" where
  "eat_loop l in_comment_p =
     rbind (log_getc l) (\<lambda>(c, l').
       if c = 10 then Inr l'
       else
         (let in_comment_p = (in_comment_p \<or> c = ch CHR ''#'') in
          if \<not> in_comment_p \<and> \<not> isspace c then log_err
          else eat_loop l' in_comment_p))"
  by pat_completeness auto
termination
  by (relation "measure (\<lambda>(l, p). nbytes l - off l)") (auto dest: log_getc_step)

declare eat_loop.simps [simp del]

definition eat_line :: "log_t \<Rightarrow> log_t result" where
  "eat_line l = rbind (eat_loop l False) (\<lambda>l'. Inr (l'\<lparr>lineno := lineno l' + 1\<rparr>))"

definition log_read_ent :: reader where
  "log_read_ent l =
     (if log_is_eol l then Inr (None, l)
      else
        rbind (log_getc l) (\<lambda>(op, l).
        rbind (exp_tok l (ch CHR '','')) (\<lambda>l.
        rbind (log_get_hex l) (\<lambda>(v, l).
        rbind (eat_line l) (\<lambda>l. Inr (Some (op, v), l))))))"

section \<open>Readers of larger units\<close>

text \<open>
  \<open>log_parse_tuples\<close>: the array has one slot more than the file has bytes and the loop asserts
  \<open>i <= nbytes\<close> after each entry, which bounds it.
\<close>

fun parse_tuples_loop :: "nat \<Rightarrow> reader \<Rightarrow> log_t \<Rightarrow> (u8 \<times> u8) list result" where
  "parse_tuples_loop 0 rd l = Inl (AssertFail ''i <= l.nbytes'')"
| "parse_tuples_loop (Suc k) rd l =
     rbind (rd l) (\<lambda>(r, l').
       case r of
         None \<Rightarrow> Inr []
       | Some e \<Rightarrow> rbind (parse_tuples_loop k rd l') (\<lambda>es. Inr (e # es)))"

definition log_parse_tuples :: "reader \<Rightarrow> bytes \<Rightarrow> (u8 \<times> u8) list result" where
  "log_parse_tuples rd contents =
     (let l = log_readin contents in parse_tuples_loop (nbytes l + 2) rd l)"

text \<open>At the end of the log the reader assigns neither \<open>op\<close> nor \<open>v\<close>, and the caller does not look.\<close>

definition read_ent_op :: "reader \<Rightarrow> log_t \<Rightarrow> u8 \<Rightarrow> (u8 \<times> log_t) result" where
  "read_ent_op rd l op_exp =
     rbind (rd l) (\<lambda>(r, l').
       case r of
         None \<Rightarrow> Inl Uninit
       | Some (op, v) \<Rightarrow> if op_exp \<noteq> op then log_err else Inr (v, l'))"

definition log_read_ent32 :: "reader \<Rightarrow> log_t \<Rightarrow> u8 \<Rightarrow> (u32 option \<times> log_t) result" where
  "log_read_ent32 rd l op =
     (if log_is_eol l then Inr (None, l)
      else
        rbind (read_ent_op rd l op) (\<lambda>(v0, l).
        rbind (read_ent_op rd l op) (\<lambda>(v1, l).
        rbind (read_ent_op rd l op) (\<lambda>(v2, l).
        rbind (read_ent_op rd l op) (\<lambda>(v3, l).
          Inr (Some (push_bit 24 (ucast v3) OR push_bit 16 (ucast v2) OR push_bit 8 (ucast v1) OR ucast v0), l))))))"

definition log_ent32_exp :: "reader \<Rightarrow> log_t \<Rightarrow> u8 \<Rightarrow> (u32 \<times> log_t) result" where
  "log_ent32_exp rd l op =
     rbind (log_read_ent32 rd l op) (\<lambda>(r, l').
       case r of None \<Rightarrow> log_err | Some v \<Rightarrow> Inr (v, l'))"

definition log_peek32 :: "reader \<Rightarrow> log_t \<Rightarrow> u8 \<Rightarrow> (u32 \<times> log_t) result" where
  "log_peek32 rd l op = rbind (log_ent32_exp rd l op) (\<lambda>(v, l'). Inr (v, l))"

definition log_read32 :: "reader \<Rightarrow> log_t \<Rightarrow> ((u8 \<times> u32) option \<times> log_t) result" where
  "log_read32 rd l =
     (if log_is_eol l then Inr (None, l)
      else
        rbind (log_peek l) (\<lambda>op.
        rbind (log_read_ent32 rd l op) (\<lambda>(r, l').
          Inr (map_option (Pair op) r, l'))))"

fun readN_loop :: "nat \<Rightarrow> reader \<Rightarrow> log_t \<Rightarrow> u8 \<Rightarrow> (bytes \<times> log_t) result" where
  "readN_loop 0 rd l op = Inr ([], l)"
| "readN_loop (Suc n) rd l op =
     rbind (rd l) (\<lambda>(r, l').
       case r of
         None \<Rightarrow> Inl (Panic ''impossible'')
       | Some (op1, v) \<Rightarrow>
           if op \<noteq> op1 then Inl (Panic ''impossible'')
           else rbind (readN_loop n rd l' op) (\<lambda>(vs, l''). Inr (v # vs, l'')))"

text \<open>The buffer has one zero byte more than the values.\<close>

definition log_readN :: "reader \<Rightarrow> log_t \<Rightarrow> u8 \<Rightarrow> u32 \<Rightarrow> (bytes \<times> log_t) result" where
  "log_readN rd l op n = rbind (readN_loop (unat n) rd l op) (\<lambda>(p, l'). Inr (p @ [0], l'))"

text \<open>
  The counting loop of \<open>log_readall\<close>. Every entry takes at least one byte of the file, so
  \<open>nbytes + 1\<close> rounds reach its end; running out of them would be \<open>OutOfInput\<close>.
\<close>

fun count_loop :: "nat \<Rightarrow> reader \<Rightarrow> log_t \<Rightarrow> u8 \<Rightarrow> u32 \<Rightarrow> (u32 \<times> log_t) result" where
  "count_loop 0 rd l op n = Inl OutOfInput"
| "count_loop (Suc k) rd l op n =
     rbind (rd l) (\<lambda>(r, l').
       case r of
         None \<Rightarrow> Inr (n, l')
       | Some (op1, v) \<Rightarrow>
           if op \<noteq> op1 then Inl (Panic ''impossible'') else count_loop k rd l' op (n + 1))"

definition log_readall :: "reader \<Rightarrow> log_t \<Rightarrow> u8 \<Rightarrow> (bytes \<times> u32 \<times> log_t) result" where
  "log_readall rd l op =
     rbind (count_loop (nbytes l + 1) rd l op 0) (\<lambda>(n, l').
       if \<not> log_is_eol l' then log_err
       else rbind (log_readN rd l op n) (\<lambda>(p, l''). Inr (p, n, l'')))"

section \<open>Messages\<close>

definition BOOT_START :: u32 where "BOOT_START = 0xFFFF0000"
definition GET_PROG_INFO :: u32 where "GET_PROG_INFO = 0x11112222"
definition PUT_PROG_INFO :: u32 where "PUT_PROG_INFO = 0x33334444"
definition GET_CODE :: u32 where "GET_CODE = 0x55556666"
definition PUT_CODE :: u32 where "PUT_CODE = 0x77778888"
definition BOOT_SUCCESS :: u32 where "BOOT_SUCCESS = 0x9999AAAA"
definition BOOT_ERROR :: u32 where "BOOT_ERROR = 0xBBBBCCCC"
definition PRINT_STRING :: u32 where "PRINT_STRING = 0xDDDDEEEE"
definition BAD_CODE_ADDR :: u32 where "BAD_CODE_ADDR = 0xdeadbeef"
definition BAD_CODE_CKSUM :: u32 where "BAD_CODE_CKSUM = 0xfeedface"
definition BAD_DATA :: u32 where "BAD_DATA = 1"
definition ARMBASE :: u32 where "ARMBASE = 0x8000"

lemmas boot_ops = BOOT_START_def GET_PROG_INFO_def PUT_PROG_INFO_def GET_CODE_def PUT_CODE_def
  BOOT_SUCCESS_def BOOT_ERROR_def PRINT_STRING_def BAD_CODE_ADDR_def BAD_CODE_CKSUM_def

text \<open>The union of \<open>struct msg\<close>, by the member the operation selects.\<close>

datatype msg_types =
    M_none
  | bad_data u8
  | boot_success (bs_output: bytes) (bs_nbytes: u32)
  | prog_info (pi_armbase: u32) (pi_nbytes: u32) (pi_crc32: u32)
  | get_code u32
  | put_code bytes u32
  | print_string u32 bytes

record msg =
  m_op :: u32
  m_sender :: u8
  m_u :: msg_types

definition op_check :: "u32 \<Rightarrow> string result" where
  "op_check op =
     (if op = BOOT_START then Inr ''BOOT_START''
      else if op = GET_PROG_INFO then Inr ''GET_PROG_INFO''
      else if op = PUT_PROG_INFO then Inr ''PUT_PROG_INFO''
      else if op = GET_CODE then Inr ''GET_CODE''
      else if op = PUT_CODE then Inr ''PUT_CODE''
      else if op = BOOT_SUCCESS then Inr ''BOOT_SUCCESS''
      else if op = BOOT_ERROR then Inr ''BOOT_ERROR''
      else if op = PRINT_STRING then Inr ''PRINT_STRING''
      else if op = BAD_CODE_ADDR then Inr ''BAD_CODE_ADDR''
      else if op = BAD_CODE_CKSUM then Inr ''BAD_CODE_CKSUM''
      else Inl (Panic ''invalid op''))"

text \<open>
  The first loop of \<open>parse_trace\<close>, over bytes left from an earlier connection. It stores
  \<open>BAD_DATA\<close> messages from index 0 on, and the second loop starts at index 0 again: the result
  here is only the log behind the skipped bytes, and the number of them.
\<close>

fun skip_bad :: "nat \<Rightarrow> reader \<Rightarrow> log_t \<Rightarrow> log_t result" where
  "skip_bad 0 rd l = Inl OutOfInput"
| "skip_bad (Suc k) rd l =
     rbind (log_peek32 rd l PI_OUTPUT) (\<lambda>(v, l).
       if v \<noteq> GET_PROG_INFO
       then rbind (read_ent_op rd l PI_OUTPUT) (\<lambda>(x, l'). skip_bad k rd l')
       else Inr l)"

text \<open>One round of the second loop after the operation word: the message and the expected size.\<close>

definition parse_msg :: "reader \<Rightarrow> u32 \<Rightarrow> u32 \<Rightarrow> log_t \<Rightarrow> (msg \<times> u32 \<times> log_t) result" where
  "parse_msg rd msg_op nb l =
     (if msg_op = GET_PROG_INFO \<or> msg_op = BOOT_ERROR \<or> msg_op = BAD_CODE_ADDR \<or> msg_op = BAD_CODE_CKSUM
      then Inr (\<lparr>m_op = msg_op, m_sender = PI_OUTPUT, m_u = M_none\<rparr>, nb, l)
      else if msg_op = GET_CODE then
        rbind (log_ent32_exp rd l PI_OUTPUT) (\<lambda>(crc, l').
          Inr (\<lparr>m_op = msg_op, m_sender = PI_OUTPUT, m_u = get_code crc\<rparr>, nb, l'))
      else if msg_op = BOOT_SUCCESS then
        rbind (log_readall rd l PI_OUTPUT) (\<lambda>(p, n, l').
          Inr (\<lparr>m_op = msg_op, m_sender = PI_OUTPUT, m_u = boot_success p n\<rparr>, nb, l'))
      else if msg_op = PUT_PROG_INFO then
        rbind (log_ent32_exp rd l UNIX_OUTPUT) (\<lambda>(base, l).
        rbind (log_ent32_exp rd l UNIX_OUTPUT) (\<lambda>(n, l).
        rbind (log_ent32_exp rd l UNIX_OUTPUT) (\<lambda>(crc, l).
        rbind (c_assert (nb = 0 \<or> nb = n) ''nbytes == p->nbytes'') (\<lambda>_.
          Inr (\<lparr>m_op = msg_op, m_sender = UNIX_OUTPUT, m_u = prog_info base n crc\<rparr>,
               (if nb \<noteq> 0 then nb else n), l)))))
      else if msg_op = PUT_CODE then
        rbind (c_assert (nb \<noteq> 0) ''nbytes'') (\<lambda>_.
        rbind (log_readN rd l UNIX_OUTPUT nb) (\<lambda>(p, l').
          Inr (\<lparr>m_op = msg_op, m_sender = UNIX_OUTPUT, m_u = put_code p nb\<rparr>, nb, l')))
      else if msg_op = PRINT_STRING then Inl (Panic ''not handling'')
      else Inl (Panic ''impossible''))"

fun parse_loop :: "nat \<Rightarrow> reader \<Rightarrow> u32 \<Rightarrow> log_t \<Rightarrow> msg list result" where
  "parse_loop 0 rd nb l = Inl OutOfInput"
| "parse_loop (Suc k) rd nb l =
     rbind (log_read32 rd l) (\<lambda>(r, l').
       case r of
         None \<Rightarrow> Inr []
       | Some (op, msg_op) \<Rightarrow>
           rbind (op_check msg_op) (\<lambda>op_s.
           rbind (parse_msg rd msg_op nb l') (\<lambda>(m, nb', l'').
           rbind (parse_loop k rd nb' l'') (\<lambda>ms. Inr (m # ms)))))"

definition parse_trace :: "reader \<Rightarrow> log_t \<Rightarrow> msg list result" where
  "parse_trace rd l =
     rbind (skip_bad (nbytes l + 1) rd l) (\<lambda>l'. parse_loop (nbytes l + 1) rd 0 l')"

section \<open>Writing\<close>

definition hex_digit :: "nat \<Rightarrow> u8" where
  "hex_digit k = bstr ''0123456789abcdef'' ! k"

definition log_line :: "u8 \<Rightarrow> u8 \<Rightarrow> bytes" where
  "log_line ty b =
     [ty, ch CHR '','', ch CHR ''0'', ch CHR ''x'', hex_digit (unat b div 16), hex_digit (unat b mod 16), 10]"

text \<open>The text is written up to its \<open>strlen\<close>.\<close>

definition wr_log_byte :: "u8 \<Rightarrow> u8 \<Rightarrow> bytes" where
  "wr_log_byte ty b = takeWhile (\<lambda>c. c \<noteq> 0) (log_line ty b)"

definition type_name :: "u8 \<Rightarrow> string result" where
  "type_name ty =
     (if ty = PI_OUTPUT then Inr ''pi side''
      else if ty = UNIX_OUTPUT then Inr ''unix side''
      else Inl (Panic ''invalid type''))"

text \<open>\<open>check_parse\<close>: print every entry again and compare with the file.\<close>

fun reprint_loop :: "nat \<Rightarrow> reader \<Rightarrow> log_t \<Rightarrow> bytes result" where
  "reprint_loop 0 rd l = Inl OutOfInput"
| "reprint_loop (Suc k) rd l =
     rbind (rd l) (\<lambda>(r, l').
       case r of
         None \<Rightarrow> Inr []
       | Some (op, v) \<Rightarrow> rbind (reprint_loop k rd l') (\<lambda>s. Inr (log_line op v @ s)))"

definition check_parse :: "reader \<Rightarrow> bytes \<Rightarrow> log_t \<Rightarrow> bool result" where
  "check_parse rd input l = rbind (reprint_loop (nbytes l + 1) rd l) (\<lambda>s. Inr (s = input))"

text \<open>The values \<open>random()\<close> yields are a list; a corrupted byte is the first that differs.\<close>

fun corrupt_byte :: "bytes \<Rightarrow> u8 \<Rightarrow> u8 result" where
  "corrupt_byte [] c = Inl OutOfInput"
| "corrupt_byte (v # rs) c = (if v = c then corrupt_byte rs c else Inr v)"

section \<open>The routines of pretty-print.c\<close>

text \<open>The same routines with the reader of \<^verbatim>\<open>pretty-print.c\<close>.\<close>

definition pp_log_parse_tuples :: "bytes \<Rightarrow> (u8 \<times> u8) list result" where
  "pp_log_parse_tuples = log_parse_tuples log_read_ent"

definition pp_read_ent_op :: "log_t \<Rightarrow> u8 \<Rightarrow> (u8 \<times> log_t) result" where
  "pp_read_ent_op = read_ent_op log_read_ent"

definition pp_log_read_ent32 :: "log_t \<Rightarrow> u8 \<Rightarrow> (u32 option \<times> log_t) result" where
  "pp_log_read_ent32 = log_read_ent32 log_read_ent"

definition pp_log_ent32_exp :: "log_t \<Rightarrow> u8 \<Rightarrow> (u32 \<times> log_t) result" where
  "pp_log_ent32_exp = log_ent32_exp log_read_ent"

definition pp_log_peek32 :: "log_t \<Rightarrow> u8 \<Rightarrow> (u32 \<times> log_t) result" where
  "pp_log_peek32 = log_peek32 log_read_ent"

definition pp_log_read32 :: "log_t \<Rightarrow> ((u8 \<times> u32) option \<times> log_t) result" where
  "pp_log_read32 = log_read32 log_read_ent"

definition pp_log_readN :: "log_t \<Rightarrow> u8 \<Rightarrow> u32 \<Rightarrow> (bytes \<times> log_t) result" where
  "pp_log_readN = log_readN log_read_ent"

definition pp_log_readall :: "log_t \<Rightarrow> u8 \<Rightarrow> (bytes \<times> u32 \<times> log_t) result" where
  "pp_log_readall = log_readall log_read_ent"

definition pp_parse_trace :: "log_t \<Rightarrow> msg list result" where
  "pp_parse_trace = parse_trace log_read_ent"

definition pp_check_parse :: "bytes \<Rightarrow> log_t \<Rightarrow> bool result" where
  "pp_check_parse = check_parse log_read_ent"

section \<open>replay.c\<close>

definition log_eq32 :: "(u8 \<times> u8) list \<Rightarrow> nat \<Rightarrow> u32 \<Rightarrow> bool result" where
  "log_eq32 e i v =
     (if length e < i + 4 then Inl Bounds
      else if \<exists>k \<in> {0, 1, 2, 3}. fst (e ! (i + k)) \<noteq> fst (e ! i) then Inr False
      else Inr (v = (push_bit 24 (ucast (snd (e ! (i + 3)))) OR push_bit 16 (ucast (snd (e ! (i + 2))))
                     OR push_bit 8 (ucast (snd (e ! (i + 1)))) OR ucast (snd (e ! i)))))"

text \<open>
  The loop of \<open>main\<close> that counts the Pi's bytes up to the first \<open>BOOT_SUCCESS\<close>. The bound
  \<open>n - 4\<close> is unsigned, so it is enormous for a log of fewer than four entries.
\<close>

fun ncorrupt_loop :: "nat \<Rightarrow> (u8 \<times> u8) list \<Rightarrow> nat \<Rightarrow> nat \<Rightarrow> nat result" where
  "ncorrupt_loop 0 es i nc = Inr nc"
| "ncorrupt_loop (Suc k) es i nc =
     rbind (arr_get es i) (\<lambda>e.
       if fst e \<noteq> PI_OUTPUT then ncorrupt_loop k es (i + 1) nc
       else rbind (log_eq32 es i BOOT_SUCCESS) (\<lambda>found.
         if found then Inr (nc + 3) else ncorrupt_loop k es (i + 1) (nc + 1)))"

definition ncorrupt :: "(u8 \<times> u8) list \<Rightarrow> nat result" where
  "ncorrupt es = ncorrupt_loop (unat (of_nat (length es) - 4 :: u32)) es 0 0"

section \<open>Reading back what was written\<close>

lemma log_getc_cons:
  assumes "drop (off l) (log l) = c # rest" "nbytes l = length (log l)"
  shows "log_getc l = Inr (c, l\<lparr>off := off l + 1\<rparr>)" "drop (off l + 1) (log l) = rest"
proof -
  have "off l < length (log l)" using assms(1) by (metis drop_all list.distinct(1) not_le)
  then show "log_getc l = Inr (c, l\<lparr>off := off l + 1\<rparr>)" "drop (off l + 1) (log l) = rest"
    using assms by (auto simp: log_getc_def Cons_nth_drop_Suc [symmetric])
qed

lemma exp_tok_cons:
  assumes "drop (off l) (log l) = c # rest" "nbytes l = length (log l)"
  shows "exp_tok l c = Inr (l\<lparr>off := off l + 1\<rparr>)"
  using log_getc_cons [OF assms] by (simp add: exp_tok_def)

lemma hex2int_digit: "k < 16 \<Longrightarrow> hex2int (hex_digit k) = Inr k"
proof -
  have "\<forall>k < 16. hex2int (hex_digit k) = Inr k"
    unfolding all_less_16 by (simp add: hex2int_def hex_digit_def bstr_def ch_def)
  then show "k < 16 \<Longrightarrow> hex2int (hex_digit k) = Inr k" by blast
qed

lemma unat_div_mod_16: "unat (v :: u8) div 16 < 16" "unat v div 16 * 16 + unat v mod 16 = unat v"
  using unat_lt_256 [of v] by simp_all

lemma hex_value: "word_of_nat (unat (v :: u8) div 16) * 16 + word_of_nat (unat v mod 16) = v"
proof -
  have "word_of_nat (unat v div 16) * 16 + word_of_nat (unat v mod 16)
      = (word_of_nat (unat v div 16 * 16 + unat v mod 16) :: u8)"
    by (simp only: of_nat_add of_nat_mult of_nat_numeral)
  also have "\<dots> = word_of_nat (unat v)" by (simp only: unat_div_mod_16)
  also have "\<dots> = v" by simp
  finally show ?thesis .
qed

text \<open>The first six characters of a line, common to the two readers.\<close>

lemma log_line_prefix:
  assumes "drop (off l) (log l) = log_line op v @ rest" "nbytes l = length (log l)"
  shows "\<not> log_is_eol l" "log_getc l = Inr (op, l\<lparr>off := off l + 1\<rparr>)"
    "exp_tok (l\<lparr>off := off l + 1\<rparr>) (ch CHR '','') = Inr (l\<lparr>off := off l + 2\<rparr>)"
    "log_get_hex (l\<lparr>off := off l + 2\<rparr>) = Inr (v, l\<lparr>off := off l + 6\<rparr>)"
    "drop (off l + 6) (log l) = 10 # rest"
proof -
  note c0 = log_getc_cons [OF assms(1) [unfolded log_line_def, simplified] assms(2)]
  let ?l = "\<lambda>k. l\<lparr>off := off l + k\<rparr>"
  have n: "nbytes (?l k) = length (log (?l k))" for k using assms(2) by simp
  have d: "drop (off l + k) (log l) = drop k (log_line op v @ rest)" for k
    using assms(1) by (metis add.commute drop_drop)
  have step: "log_getc (?l k) = Inr (c, ?l (Suc k))" if "drop k (log_line op v @ rest) = c # r" for k c r
    using log_getc_cons(1) [of "?l k" c r] that d [of k] n by simp
  show "\<not> log_is_eol l"
    using assms by (auto simp: log_is_eol_def log_line_def)
  show "log_getc l = Inr (op, ?l 1)" by (rule c0(1))
  show "exp_tok (?l 1) (ch CHR '','') = Inr (?l 2)"
    using step [of 1] by (simp add: exp_tok_def log_line_def numeral_2_eq_2)
  have "log_getc (?l 2) = Inr (ch CHR ''0'', ?l 3)" "log_getc (?l 3) = Inr (ch CHR ''x'', ?l 4)"
    "log_getc (?l 4) = Inr (hex_digit (unat v div 16), ?l 5)"
    "log_getc (?l 5) = Inr (hex_digit (unat v mod 16), ?l 6)"
    using step [of 2] step [of 3] step [of 4] step [of 5] by (simp_all add: log_line_def)
  then show "log_get_hex (?l 2) = Inr (v, ?l 6)"
    using unat_lt_256 [of v]
    by (simp add: log_get_hex_def exp_tok_def hex2int_digit unat_div_mod_16 hex_value Let_def)
  show "drop (off l + 6) (log l) = 10 # rest"
    using d [of 6] by (simp add: log_line_def)
qed

text \<open>
  What a client needs of a line reader: the end of the log is reported, and a written line is
  read back as its two values, leaving the log behind the line.
\<close>

locale log_reader =
  fixes rd :: reader
  assumes rd_eol: "log_is_eol l \<Longrightarrow> rd l = Inr (None, l)"
    and rd_line: "drop (off l) (log l) = log_line op v @ rest \<Longrightarrow> nbytes l = length (log l)
      \<Longrightarrow> \<exists>l'. rd l = Inr (Some (op, v), l') \<and> log l' = log l \<and> nbytes l' = nbytes l \<and> off l' = off l + 7"

interpretation strict: log_reader log_readline
proof
  show "log_readline l = Inr (None, l)" if "log_is_eol l" for l
    using that by (simp add: log_readline_def)
  fix l :: log_t and op v rest
  assume a: "drop (off l) (log l) = log_line op v @ rest" "nbytes l = length (log l)"
  note p = log_line_prefix [OF a]
  have "exp_tok (l\<lparr>off := off l + 6\<rparr>) 10 = Inr (l\<lparr>off := off l + 7\<rparr>)"
    using exp_tok_cons [of "l\<lparr>off := off l + 6\<rparr>" 10 rest] p(5) a(2) by simp
  then show "\<exists>l'. log_readline l = Inr (Some (op, v), l') \<and> log l' = log l \<and> nbytes l' = nbytes l
      \<and> off l' = off l + 7"
    using p by (simp add: log_readline_def)
qed

interpretation pp: log_reader log_read_ent
proof
  show "log_read_ent l = Inr (None, l)" if "log_is_eol l" for l
    using that by (simp add: log_read_ent_def)
  fix l :: log_t and op v rest
  assume a: "drop (off l) (log l) = log_line op v @ rest" "nbytes l = length (log l)"
  note p = log_line_prefix [OF a]
  have "log_getc (l\<lparr>off := off l + 6\<rparr>) = Inr (10, l\<lparr>off := off l + 7\<rparr>)"
    using log_getc_cons(1) [of "l\<lparr>off := off l + 6\<rparr>" 10 rest] p(5) a(2) by simp
  then have "eat_line (l\<lparr>off := off l + 6\<rparr>) = Inr (l\<lparr>off := off l + 7, lineno := lineno l + 1\<rparr>)"
    by (simp add: eat_line_def eat_loop.simps)
  then show "\<exists>l'. log_read_ent l = Inr (Some (op, v), l') \<and> log l' = log l \<and> nbytes l' = nbytes l
      \<and> off l' = off l + 7"
    using p by (simp add: log_read_ent_def)
qed

section \<open>Reading a sequence of entries\<close>

text \<open>From \<open>l\<close> on, the reader delivers the entries \<open>es\<close> and then the end of the log.\<close>

fun reads :: "reader \<Rightarrow> log_t \<Rightarrow> (u8 \<times> u8) list \<Rightarrow> bool" where
  "reads rd l [] \<longleftrightarrow> log_is_eol l \<and> rd l = Inr (None, l)"
| "reads rd l (e # es) \<longleftrightarrow> \<not> log_is_eol l \<and> log_peek l = Inr (fst e)
     \<and> (\<exists>l'. rd l = Inr (Some e, l') \<and> nbytes l' = nbytes l \<and> reads rd l' es)"

definition log_text :: "(u8 \<times> u8) list \<Rightarrow> bytes" where
  "log_text es = concat (map (\<lambda>(op, v). log_line op v) es)"

lemma length_log_text: "length (log_text es) = 7 * length es"
  by (induction es) (auto simp: log_text_def log_line_def)

context log_reader
begin

lemma reads_text:
  assumes "drop (off l) (log l) = log_text es" "nbytes l = length (log l)" "off l \<le> nbytes l"
  shows "reads rd l es"
  using assms
proof (induction es arbitrary: l)
  case Nil
  then have "log_is_eol l" by (auto simp: log_text_def log_is_eol_def)
  then show ?case by (simp add: rd_eol)
next
  case (Cons e es)
  obtain op v where e: "e = (op, v)" by force
  have d: "drop (off l) (log l) = log_line op v @ log_text es"
    using Cons.prems(1) by (simp add: e log_text_def)
  from rd_line [OF d Cons.prems(2)] obtain l' where
    l': "rd l = Inr (Some (op, v), l')" "log l' = log l" "nbytes l' = nbytes l" "off l' = off l + 7" by blast
  have "drop (off l') (log l') = log_text es"
  proof -
    have "drop (7 + off l) (log l) = drop 7 (log_line op v @ log_text es)"
      by (simp only: d [symmetric] drop_drop)
    then show ?thesis by (simp add: l' log_line_def add.commute)
  qed
  moreover have "length (drop (off l) (log l)) \<ge> 7" by (simp add: d log_line_def)
  then have "off l' \<le> nbytes l'" using l' Cons.prems(2) by simp
  ultimately have "reads rd l' es" using Cons.IH [of l'] l' Cons.prems(2) by simp
  moreover have "\<not> log_is_eol l" by (rule log_line_prefix(1) [OF d Cons.prems(2)])
  moreover have "log_peek l = Inr op"
    using log_line_prefix(1,2) [OF d Cons.prems(2)]
    by (auto simp: log_peek_def log_getc_def result_inversions)
  ultimately show ?case using l' by (simp add: e)
qed

lemma reads_readin: "reads rd (log_readin (log_text es)) es"
  by (rule reads_text) (simp_all add: log_readin_def)

end

lemma parse_tuples_loop_reads: "reads rd l es \<Longrightarrow> length es < k \<Longrightarrow> parse_tuples_loop k rd l = Inr es"
proof (induction es arbitrary: l k)
  case Nil
  then show ?case by (cases k) auto
next
  case (Cons e es)
  then show ?case by (cases k) auto
qed

lemma reprint_loop_reads: "reads rd l es \<Longrightarrow> length es < k \<Longrightarrow> reprint_loop k rd l = Inr (log_text es)"
proof (induction es arbitrary: l k)
  case Nil
  then show ?case by (cases k) (auto simp: log_text_def)
next
  case (Cons e es)
  then show ?case by (cases k) (auto simp: log_text_def split: prod.split)
qed

lemma read_ent_op_reads:
  "reads rd l ((op, v) # es) \<Longrightarrow> \<exists>l'. read_ent_op rd l op = Inr (v, l') \<and> nbytes l' = nbytes l \<and> reads rd l' es"
  by (auto simp: read_ent_op_def)

text \<open>The entries of a 32-bit word, least significant byte first.\<close>

definition word_ents :: "u8 \<Rightarrow> u32 \<Rightarrow> (u8 \<times> u8) list" where
  "word_ents op v = map (Pair op) (bytes_of_u32 v)"

lemma read_ent32_reads:
  assumes "reads rd l ((op, b0) # (op, b1) # (op, b2) # (op, b3) # es)"
  shows "\<exists>l'. log_read_ent32 rd l op = Inr (Some (le32 b0 b1 b2 b3), l') \<and> nbytes l' = nbytes l \<and> reads rd l' es"
proof -
  have "\<not> log_is_eol l" using assms by simp
  moreover from read_ent_op_reads [OF assms] obtain l1 where
    1: "read_ent_op rd l op = Inr (b0, l1)" "nbytes l1 = nbytes l" "reads rd l1 ((op, b1) # (op, b2) # (op, b3) # es)" by blast
  moreover from read_ent_op_reads [OF 1(3)] obtain l2 where
    2: "read_ent_op rd l1 op = Inr (b1, l2)" "nbytes l2 = nbytes l1" "reads rd l2 ((op, b2) # (op, b3) # es)" by blast
  moreover from read_ent_op_reads [OF 2(3)] obtain l3 where
    3: "read_ent_op rd l2 op = Inr (b2, l3)" "nbytes l3 = nbytes l2" "reads rd l3 ((op, b3) # es)" by blast
  moreover from read_ent_op_reads [OF 3(3)] obtain l4 where
    4: "read_ent_op rd l3 op = Inr (b3, l4)" "nbytes l4 = nbytes l3" "reads rd l4 es" by blast
  ultimately show ?thesis by (simp add: log_read_ent32_def le32_def ac_simps)
qed

lemma ent32_exp_reads:
  assumes "reads rd l (word_ents op v @ es)"
  shows "\<exists>l'. log_ent32_exp rd l op = Inr (v, l') \<and> nbytes l' = nbytes l \<and> reads rd l' es"
  using read_ent32_reads [of rd l op "byte_of 0 v" "byte_of 1 v" "byte_of 2 v" "byte_of 3 v" es] assms
  by (auto simp: log_ent32_exp_def word_ents_def bytes_of_u32_def simp del: reads.simps)

lemma read32_reads:
  assumes "reads rd l (word_ents op v @ es)"
  shows "\<exists>l'. log_read32 rd l = Inr (Some (op, v), l') \<and> nbytes l' = nbytes l \<and> reads rd l' es"
proof -
  have "\<not> log_is_eol l" "log_peek l = Inr op"
    using assms by (simp_all add: word_ents_def bytes_of_u32_def)
  then show ?thesis
    using read_ent32_reads [of rd l op "byte_of 0 v" "byte_of 1 v" "byte_of 2 v" "byte_of 3 v" es] assms
    by (auto simp: log_read32_def word_ents_def bytes_of_u32_def simp del: reads.simps)
qed

lemma read32_eol: "reads rd l [] \<Longrightarrow> log_read32 rd l = Inr (None, l)"
  by (simp add: log_read32_def)

lemma readN_loop_reads:
  "reads rd l (map (Pair op) vs @ es) \<Longrightarrow>
   \<exists>l'. readN_loop (length vs) rd l op = Inr (vs, l') \<and> nbytes l' = nbytes l \<and> reads rd l' es"
  by (induction vs arbitrary: l) fastforce+

lemma count_loop_reads:
  "reads rd l (map (Pair op) vs) \<Longrightarrow> length vs < k \<Longrightarrow>
   \<exists>l'. count_loop k rd l op n = Inr (n + of_nat (length vs), l') \<and> log_is_eol l'"
proof (induction vs arbitrary: l k n)
  case Nil
  then show ?case by (cases k) auto
next
  case (Cons v vs)
  then obtain j where k: "k = Suc j" "length vs < j" by (cases k) auto
  from Cons.prems obtain l' where l': "rd l = Inr (Some (op, v), l')" "reads rd l' (map (Pair op) vs)" by auto
  from Cons.IH [OF l'(2) k(2), of "n + 1"] l'(1) k(1) show ?case by (auto simp: add.assoc)
qed

lemma readN_reads:
  assumes "reads rd l (map (Pair op) vs @ es)" "unat n = length vs"
  shows "\<exists>l'. log_readN rd l op n = Inr (vs @ [0], l') \<and> nbytes l' = nbytes l \<and> reads rd l' es"
  using readN_loop_reads [OF assms(1)] assms(2) by (auto simp: log_readN_def)

lemma readall_reads:
  assumes "reads rd l (map (Pair op) vs)" "length vs \<le> nbytes l" "length vs < 2 ^ 32"
  shows "\<exists>l'. log_readall rd l op = Inr (vs @ [0], of_nat (length vs), l') \<and> nbytes l' = nbytes l \<and> reads rd l' []"
proof -
  have "length vs < nbytes l + 1" using assms(2) by simp
  from count_loop_reads [OF assms(1) this, of 0] obtain l1 where
    "count_loop (nbytes l + 1) rd l op 0 = Inr (of_nat (length vs), l1)" "log_is_eol l1" by auto
  moreover have "reads rd l (map (Pair op) vs @ [])" using assms(1) by simp
  from readN_reads [OF this, of "of_nat (length vs)"] assms(3) obtain l2 where
    "log_readN rd l op (of_nat (length vs)) = Inr (vs @ [0], l2)" "nbytes l2 = nbytes l" "reads rd l2 []"
    by (auto simp: unat_of_nat_u32)
  ultimately show ?thesis by (simp add: log_readall_def)
qed

section \<open>Boot traces\<close>

text \<open>
  The traces of the boot protocol: entries on the left, the messages they stand for on the
  right; \<open>nb\<close> is the program size announced so far. The output after \<open>BOOT_SUCCESS\<close> runs to the
  end of the trace. Messages come in any order and number; before that point the Pi may also send
  strings to print, with their length in front.
\<close>

definition pi_plain_ops :: "u32 set" where
  "pi_plain_ops = {GET_PROG_INFO, BOOT_ERROR, BAD_CODE_ADDR, BAD_CODE_CKSUM}"

inductive boot_trace :: "u32 \<Rightarrow> (u8 \<times> u8) list \<Rightarrow> msg list \<Rightarrow> bool" where
  bt_nil: "boot_trace nb [] []"
| bt_plain: "op \<in> pi_plain_ops \<Longrightarrow> boot_trace nb es ms \<Longrightarrow>
    boot_trace nb (word_ents PI_OUTPUT op @ es) (\<lparr>m_op = op, m_sender = PI_OUTPUT, m_u = M_none\<rparr> # ms)"
| bt_get_code: "boot_trace nb es ms \<Longrightarrow>
    boot_trace nb (word_ents PI_OUTPUT GET_CODE @ word_ents PI_OUTPUT crc @ es)
      (\<lparr>m_op = GET_CODE, m_sender = PI_OUTPUT, m_u = get_code crc\<rparr> # ms)"
| bt_prog_info: "nb = 0 \<or> nb = n \<Longrightarrow> boot_trace (if nb \<noteq> 0 then nb else n) es ms \<Longrightarrow>
    boot_trace nb (word_ents UNIX_OUTPUT PUT_PROG_INFO @ word_ents UNIX_OUTPUT base
        @ word_ents UNIX_OUTPUT n @ word_ents UNIX_OUTPUT crc @ es)
      (\<lparr>m_op = PUT_PROG_INFO, m_sender = UNIX_OUTPUT, m_u = prog_info base n crc\<rparr> # ms)"
| bt_put_code: "nb \<noteq> 0 \<Longrightarrow> length code = unat nb \<Longrightarrow> boot_trace nb es ms \<Longrightarrow>
    boot_trace nb (word_ents UNIX_OUTPUT PUT_CODE @ map (Pair UNIX_OUTPUT) code @ es)
      (\<lparr>m_op = PUT_CODE, m_sender = UNIX_OUTPUT, m_u = put_code (code @ [0]) nb\<rparr> # ms)"
| bt_success: "length out < 2 ^ 32 \<Longrightarrow>
    boot_trace nb (word_ents PI_OUTPUT BOOT_SUCCESS @ map (Pair PI_OUTPUT) out)
      [\<lparr>m_op = BOOT_SUCCESS, m_sender = PI_OUTPUT, m_u = boot_success (out @ [0]) (of_nat (length out))\<rparr>]"
| bt_print: "length txt = unat n \<Longrightarrow> boot_trace nb es ms \<Longrightarrow>
    boot_trace nb (word_ents PI_OUTPUT PRINT_STRING @ word_ents PI_OUTPUT n @ map (Pair PI_OUTPUT) txt @ es)
      (\<lparr>m_op = PRINT_STRING, m_sender = PI_OUTPUT, m_u = print_string n txt\<rparr> # ms)"

text \<open>
  What the parser makes of the messages of a trace: it has no code for \<open>PRINT_STRING\<close>, and one such
  message anywhere stops it.
\<close>

definition parsed :: "msg list \<Rightarrow> msg list result" where
  "parsed ms = (if PRINT_STRING \<in> m_op ` set ms then Inl (Panic ''not handling'') else Inr ms)"

lemma parsed_Nil [simp]: "parsed [] = Inr []"
  by (simp add: parsed_def)

lemma parsed_Cons: "m_op m \<noteq> PRINT_STRING \<Longrightarrow> rbind (parsed ms) (\<lambda>ms. Inr (m # ms)) = parsed (m # ms)"
  by (auto simp: parsed_def)

lemma length_word_ents [simp]: "length (word_ents op v) = 4"
  by (simp add: word_ents_def bytes_of_u32_def)

lemma boot_trace_length: "boot_trace nb es ms \<Longrightarrow> length ms \<le> length es"
  by (induction rule: boot_trace.induct) auto

lemma op_check_ok:
  "op \<in> pi_plain_ops \<Longrightarrow> \<exists>s. op_check op = Inr s"
  "\<exists>s. op_check GET_CODE = Inr s" "\<exists>s. op_check PUT_PROG_INFO = Inr s" "\<exists>s. op_check PUT_CODE = Inr s"
  "\<exists>s. op_check BOOT_SUCCESS = Inr s"
  by (auto simp: op_check_def pi_plain_ops_def)

lemma parse_loop_step:
  assumes "reads rd l (word_ents op v @ es)" "op_check v = Inr s"
    and "\<And>l'. reads rd l' es \<Longrightarrow> nbytes l' = nbytes l \<Longrightarrow>
      \<exists>l''. parse_msg rd v nb l' = Inr (m, nb', l'') \<and> nbytes l'' = nbytes l \<and> reads rd l'' es'"
    and "\<And>l''. reads rd l'' es' \<Longrightarrow> nbytes l'' = nbytes l \<Longrightarrow> parse_loop k rd nb' l'' = parsed ms"
    and "m_op m \<noteq> PRINT_STRING"
  shows "parse_loop (Suc k) rd nb l = parsed (m # ms)"
proof -
  from read32_reads [OF assms(1)] obtain l1 where
    1: "log_read32 rd l = Inr (Some (op, v), l1)" "nbytes l1 = nbytes l" "reads rd l1 es" by blast
  from assms(3) [OF 1(3,2)] obtain l2 where
    2: "parse_msg rd v nb l1 = Inr (m, nb', l2)" "nbytes l2 = nbytes l" "reads rd l2 es'" by blast
  from assms(4) [OF 2(3,2)] 1(1) 2(1) assms(2) parsed_Cons [OF assms(5), of ms] show ?thesis by simp
qed

lemma parse_msg_plain:
  "op \<in> pi_plain_ops \<Longrightarrow>
   parse_msg rd op nb l = Inr (\<lparr>m_op = op, m_sender = PI_OUTPUT, m_u = M_none\<rparr>, nb, l)"
  by (auto simp: parse_msg_def pi_plain_ops_def)

lemma parse_msg_get_code:
  "parse_msg rd GET_CODE nb l =
     rbind (log_ent32_exp rd l PI_OUTPUT) (\<lambda>(crc, l').
       Inr (\<lparr>m_op = GET_CODE, m_sender = PI_OUTPUT, m_u = get_code crc\<rparr>, nb, l'))"
  by (simp add: parse_msg_def boot_ops)

lemma parse_msg_success:
  "parse_msg rd BOOT_SUCCESS nb l =
     rbind (log_readall rd l PI_OUTPUT) (\<lambda>(p, n, l').
       Inr (\<lparr>m_op = BOOT_SUCCESS, m_sender = PI_OUTPUT, m_u = boot_success p n\<rparr>, nb, l'))"
  by (simp add: parse_msg_def boot_ops)

lemma parse_msg_put_code:
  "nb \<noteq> 0 \<Longrightarrow> parse_msg rd PUT_CODE nb l =
     rbind (log_readN rd l UNIX_OUTPUT nb) (\<lambda>(p, l').
       Inr (\<lparr>m_op = PUT_CODE, m_sender = UNIX_OUTPUT, m_u = put_code p nb\<rparr>, nb, l'))"
  by (simp add: parse_msg_def boot_ops)

lemma parse_msg_prog_info:
  assumes "reads rd l (word_ents UNIX_OUTPUT base @ word_ents UNIX_OUTPUT n @ word_ents UNIX_OUTPUT crc @ es)"
    and "nb = 0 \<or> nb = n"
  shows "\<exists>l'. parse_msg rd PUT_PROG_INFO nb l =
      Inr (\<lparr>m_op = PUT_PROG_INFO, m_sender = UNIX_OUTPUT, m_u = prog_info base n crc\<rparr>,
           (if nb \<noteq> 0 then nb else n), l') \<and> nbytes l' = nbytes l \<and> reads rd l' es"
proof -
  from ent32_exp_reads [OF assms(1)] obtain l1 where
    1: "log_ent32_exp rd l UNIX_OUTPUT = Inr (base, l1)" "nbytes l1 = nbytes l"
      "reads rd l1 (word_ents UNIX_OUTPUT n @ word_ents UNIX_OUTPUT crc @ es)" by blast
  from ent32_exp_reads [OF 1(3)] obtain l2 where
    2: "log_ent32_exp rd l1 UNIX_OUTPUT = Inr (n, l2)" "nbytes l2 = nbytes l1"
      "reads rd l2 (word_ents UNIX_OUTPUT crc @ es)" by blast
  from ent32_exp_reads [OF 2(3)] obtain l3 where
    3: "log_ent32_exp rd l2 UNIX_OUTPUT = Inr (crc, l3)" "nbytes l3 = nbytes l2" "reads rd l3 es" by blast
  show ?thesis using 1 2 3 assms(2) by (auto simp: parse_msg_def boot_ops)
qed

lemma parse_loop_prog_info:
  assumes rd: "reads rd l (word_ents UNIX_OUTPUT PUT_PROG_INFO @ word_ents UNIX_OUTPUT base
      @ word_ents UNIX_OUTPUT n @ word_ents UNIX_OUTPUT crc @ es)"
    and nb: "nb = 0 \<or> nb = n"
    and rest: "\<And>l''. reads rd l'' es \<Longrightarrow> nbytes l'' = nbytes l \<Longrightarrow>
      parse_loop j rd (if nb \<noteq> 0 then nb else n) l'' = parsed ms"
  shows "parse_loop (Suc j) rd nb l =
    parsed (\<lparr>m_op = PUT_PROG_INFO, m_sender = UNIX_OUTPUT, m_u = prog_info base n crc\<rparr> # ms)"
proof -
  from op_check_ok(3) obtain s where s: "op_check PUT_PROG_INFO = Inr s" by blast
  show ?thesis
    by (rule parse_loop_step [OF rd s _ rest]) (use parse_msg_prog_info [OF _ nb] in \<open>fastforce simp: boot_ops\<close>)+
qed

lemma parse_loop_success:
  assumes rd: "reads rd l (word_ents PI_OUTPUT BOOT_SUCCESS @ map (Pair PI_OUTPUT) out)"
    and out: "length out < 2 ^ 32" "length out \<le> nbytes l"
  shows "parse_loop (Suc (Suc j)) rd nb l = parsed [\<lparr>m_op = BOOT_SUCCESS, m_sender = PI_OUTPUT,
    m_u = boot_success (out @ [0]) (of_nat (length out))\<rparr>]"
proof -
  from op_check_ok(5) obtain s where s: "op_check BOOT_SUCCESS = Inr s" by blast
  show ?thesis
  proof (rule parse_loop_step [OF rd s])
    fix l'
    assume "reads rd l' (map (Pair PI_OUTPUT) out)" and n: "nbytes l' = nbytes l"
    from readall_reads [OF this(1)] out n
    show "\<exists>l''. parse_msg rd BOOT_SUCCESS nb l' = Inr (\<lparr>m_op = BOOT_SUCCESS, m_sender = PI_OUTPUT,
        m_u = boot_success (out @ [0]) (of_nat (length out))\<rparr>, nb, l'')
        \<and> nbytes l'' = nbytes l \<and> reads rd l'' []" by (auto simp: parse_msg_success)
  qed (simp_all add: read32_eol boot_ops)
qed

text \<open>The operation of a string to print is read, and that is the end.\<close>

lemma parse_loop_print:
  assumes "reads rd l (word_ents op PRINT_STRING @ es)"
  shows "parse_loop (Suc j) rd nb l = Inl (Panic ''not handling'')"
proof -
  have "op_check PRINT_STRING = Inr ''PRINT_STRING''" by (simp add: op_check_def boot_ops)
  moreover have "parse_msg rd PRINT_STRING nb l' = Inl (Panic ''not handling'')" for l'
    by (simp add: parse_msg_def boot_ops)
  ultimately show ?thesis using read32_reads [OF assms] by auto
qed

lemma not_print [simp]: "GET_CODE \<noteq> PRINT_STRING" "PUT_CODE \<noteq> PRINT_STRING"
  by (simp_all add: boot_ops)

lemma pi_plain_not_print: "op \<in> pi_plain_ops \<Longrightarrow> op \<noteq> PRINT_STRING"
  by (auto simp: pi_plain_ops_def boot_ops)

lemma parse_loop_reads:
  "boot_trace nb es ms \<Longrightarrow> reads rd l es \<Longrightarrow> length ms < k \<Longrightarrow> length es \<le> nbytes l \<Longrightarrow>
   parse_loop k rd nb l = parsed ms"
proof (induction arbitrary: l k rule: boot_trace.induct)
  case (bt_nil nb)
  then show ?case by (cases k) (auto simp: read32_eol)
next
  case (bt_plain op nb es ms)
  then obtain j where k: "k = Suc j" by (cases k) auto
  from op_check_ok(1) [OF bt_plain(1)] obtain s where "op_check op = Inr s" by blast
  from parse_loop_step [OF bt_plain.prems(1) this] show ?case
    unfolding k using bt_plain k pi_plain_not_print by (auto simp: parse_msg_plain)
next
  case (bt_get_code nb es ms crc)
  then obtain j where k: "k = Suc j" by (cases k) auto
  from op_check_ok(2) obtain s where "op_check GET_CODE = Inr s" by blast
  from parse_loop_step [OF bt_get_code.prems(1) this, of nb "\<lparr>m_op = GET_CODE, m_sender = PI_OUTPUT, m_u = get_code crc\<rparr>" nb es j ms]
  show ?case
    unfolding k using bt_get_code k ent32_exp_reads by (fastforce simp: parse_msg_get_code)
next
  case (bt_prog_info nb n es ms base crc)
  then obtain j where k: "k = Suc j" by (cases k) auto
  show ?case
    unfolding k
    by (rule parse_loop_prog_info [OF bt_prog_info.prems(1) bt_prog_info(1)])
      (use bt_prog_info.IH bt_prog_info.prems k in simp)
next
  case (bt_put_code nb code es ms)
  then obtain j where k: "k = Suc j" by (cases k) auto
  from op_check_ok(4) obtain s where "op_check PUT_CODE = Inr s" by blast
  from parse_loop_step [OF bt_put_code.prems(1) this, of nb
      "\<lparr>m_op = PUT_CODE, m_sender = UNIX_OUTPUT, m_u = put_code (code @ [0]) nb\<rparr>" nb es j ms]
  show ?case
    unfolding k using bt_put_code k readN_reads [OF _ bt_put_code(2) [symmetric]]
    by (fastforce simp: parse_msg_put_code)
next
  case (bt_success out nb)
  then obtain j where "k = Suc (Suc j)" by (cases k; cases "k - 1") auto
  then show ?case using parse_loop_success bt_success by simp
next
  case (bt_print str n nb es ms)
  then obtain j where "k = Suc j" by (cases k) auto
  then show ?case using parse_loop_print [OF bt_print.prems(1)] by (simp add: parsed_def)
qed

text \<open>Bytes before the first request that do not complete one earlier.\<close>

definition stale :: "bytes \<Rightarrow> bool" where
  "stale bad \<longleftrightarrow> (\<forall>i < length bad.
     take 4 (drop i (bad @ bytes_of_u32 GET_PROG_INFO)) \<noteq> bytes_of_u32 GET_PROG_INFO)"

lemma peek32_reads:
  assumes "reads rd l (map (Pair PI_OUTPUT) bs @ es)" "4 \<le> length bs"
  shows "\<exists>v. log_peek32 rd l PI_OUTPUT = Inr (v, l) \<and> bytes_of_u32 v = take 4 bs"
proof -
  obtain b0 b1 b2 b3 r where bs: "bs = b0 # b1 # b2 # b3 # r"
    using assms(2) by (auto simp: numeral_eq_Suc Suc_le_length_iff)
  from read_ent32_reads [of rd l PI_OUTPUT b0 b1 b2 b3 "map (Pair PI_OUTPUT) r @ es"] assms(1) bs
  have "\<exists>l'. log_read_ent32 rd l PI_OUTPUT = Inr (Some (le32 b0 b1 b2 b3), l')"
    by (auto simp del: reads.simps)
  then show ?thesis
    by (auto simp: log_peek32_def log_ent32_exp_def bytes_of_u32_def bs)
qed

lemma stale_tl: "stale (b # bad) \<Longrightarrow> stale bad"
  unfolding stale_def
proof (intro allI impI)
  fix i
  assume all: "\<forall>i < length (b # bad).
      take 4 (drop i ((b # bad) @ bytes_of_u32 GET_PROG_INFO)) \<noteq> bytes_of_u32 GET_PROG_INFO"
    and i: "i < length bad"
  show "take 4 (drop i (bad @ bytes_of_u32 GET_PROG_INFO)) \<noteq> bytes_of_u32 GET_PROG_INFO"
    using all [rule_format, of "Suc i"] i by simp
qed

lemma skip_bad_reads:
  "reads rd l (map (Pair PI_OUTPUT) bad @ word_ents PI_OUTPUT GET_PROG_INFO @ es) \<Longrightarrow> stale bad \<Longrightarrow>
   length bad < k \<Longrightarrow>
   \<exists>l'. skip_bad k rd l = Inr l' \<and> nbytes l' = nbytes l \<and> reads rd l' (word_ents PI_OUTPUT GET_PROG_INFO @ es)"
proof (induction bad arbitrary: l k)
  case Nil
  then obtain j where k: "k = Suc j" by (cases k) auto
  have l4: "length (bytes_of_u32 GET_PROG_INFO) = 4" by (simp add: bytes_of_u32_def)
  have "reads rd l (map (Pair PI_OUTPUT) (bytes_of_u32 GET_PROG_INFO) @ es)"
    using Nil.prems(1) by (simp add: word_ents_def)
  from peek32_reads [OF this] obtain v where
    "log_peek32 rd l PI_OUTPUT = Inr (v, l)" "bytes_of_u32 v = bytes_of_u32 GET_PROG_INFO"
    using l4 by auto
  then show ?case using Nil by (simp add: k bytes_of_u32_inj)
next
  case (Cons b bad)
  then obtain j where k: "k = Suc j" "length bad < j" by (cases k) auto
  let ?w = "bytes_of_u32 GET_PROG_INFO"
  have "reads rd l (map (Pair PI_OUTPUT) ((b # bad) @ ?w) @ es)"
    using Cons.prems(1) by (simp add: word_ents_def)
  from peek32_reads [OF this] obtain v where
    v: "log_peek32 rd l PI_OUTPUT = Inr (v, l)" "bytes_of_u32 v = take 4 ((b # bad) @ ?w)"
    by (auto simp: bytes_of_u32_def)
  have "take 4 ((b # bad) @ ?w) \<noteq> ?w"
    using Cons.prems(2) unfolding stale_def by (metis drop0 length_Cons zero_less_Suc)
  then have "v \<noteq> GET_PROG_INFO" using v(2) by auto
  moreover from read_ent_op_reads [of rd l PI_OUTPUT b] Cons.prems(1) obtain l' where
    "read_ent_op rd l PI_OUTPUT = Inr (b, l')" "nbytes l' = nbytes l"
    "reads rd l' (map (Pair PI_OUTPUT) bad @ word_ents PI_OUTPUT GET_PROG_INFO @ es)"
    by (auto simp del: reads.simps)
  ultimately show ?case
    using Cons.IH [of l' j] stale_tl [OF Cons.prems(2)] v(1) k by auto
qed

lemma parse_trace_reads:
  assumes "boot_trace 0 es ms" "es = word_ents PI_OUTPUT GET_PROG_INFO @ es'"
    and "reads rd l (map (Pair PI_OUTPUT) bad @ es)" "stale bad"
    and "length bad + length es \<le> nbytes l"
  shows "parse_trace rd l = parsed ms"
proof -
  have "reads rd l (map (Pair PI_OUTPUT) bad @ word_ents PI_OUTPUT GET_PROG_INFO @ es')"
    using assms(2,3) by simp
  moreover have "length bad < nbytes l + 1" using assms(5) by simp
  ultimately obtain l' where
    l': "skip_bad (nbytes l + 1) rd l = Inr l'" "nbytes l' = nbytes l" "reads rd l' es"
    using skip_bad_reads assms(2,4) by metis
  have "length ms < nbytes l + 1"
    using boot_trace_length [OF assms(1)] assms(5) by simp
  from parse_loop_reads [OF assms(1) l'(3) this] l' assms(5) show ?thesis
    by (simp add: parse_trace_def)
qed

lemma log_text_append: "log_text (xs @ ys) = log_text xs @ log_text ys"
  by (simp add: log_text_def)

section \<open>Properties\<close>

text \<open>
  (C39) The log is read back exactly: for entries whose senders are not NUL, the lines that
  \<open>wr_log_byte\<close> writes are parsed by both readers (the strict one of \<open>log-util.c\<close> and the one of
  \<open>pretty-print.c\<close>) into the same entries, in order, without any assertion failing; printing
  them again gives the file, which is the check \<open>check_parse\<close> makes.
\<close>

theorem replay_log_roundtrip:
  assumes "\<forall>(op, v) \<in> set es. op \<noteq> 0"
    and "file = concat (map (\<lambda>(op, v). wr_log_byte op v) es)"
  shows "log_parse_tuples log_readline file = Inr es \<and> pp_log_parse_tuples file = Inr es
    \<and> check_parse log_readline file (log_readin file) = Inr True
    \<and> pp_check_parse file (log_readin file) = Inr True"
proof -
  have hd0: "hex_digit k \<noteq> 0" if "k < 16" for k
    using hex2int_digit [OF that] by (auto simp: hex2int_def ch_def log_err_def)
  have wr: "wr_log_byte op v = log_line op v" if "op \<noteq> 0" for op v
    using that hd0 unat_div_mod_16(1) [of v] by (simp add: wr_log_byte_def log_line_def ch_def)
  have ft: "file = log_text es"
    unfolding assms(2) log_text_def using assms(1) wr
    by (intro arg_cong [where f = concat] map_cong) (auto dest: bspec)
  have n: "nbytes (log_readin file) = 7 * length es"
    by (simp add: ft log_readin_def length_log_text)
  show ?thesis
    using strict.reads_readin [of es] pp.reads_readin [of es] n
    by (simp add: pp_log_parse_tuples_def pp_check_parse_def log_parse_tuples_def check_parse_def parse_tuples_loop_reads reprint_loop_reads
        ft [symmetric] Let_def del: parse_tuples_loop.simps reprint_loop.simps)
qed

theorem replay_log_roundtrip_witness:
  "log_parse_tuples log_readline (wr_log_byte PI_OUTPUT 0x22 @ wr_log_byte UNIX_OUTPUT 0xAB)
     = Inr [(PI_OUTPUT, 0x22), (UNIX_OUTPUT, 0xAB)]"
  using replay_log_roundtrip [of "[(PI_OUTPUT, 0x22), (UNIX_OUTPUT, 0xAB)]"
      "wr_log_byte PI_OUTPUT 0x22 @ wr_log_byte UNIX_OUTPUT 0xAB"]
  by (simp add: PI_OUTPUT_def UNIX_OUTPUT_def ch_def)

text \<open>
  (C11) What \<open>parse_trace\<close> makes of every trace that is a sequence of messages of the boot protocol and
  starts with a program request, with either reader. Without strings to print, it recovers all messages,
  with all values, the code and the output included. A string to print, which the format allows
  anywhere, stops it with a panic instead. Bytes left in the line from an earlier connection are
  skipped; although the code stores them as \<open>BAD_DATA\<close> messages, none of them is in the result.
\<close>

theorem parse_trace_correct:
  assumes "boot_trace 0 (word_ents PI_OUTPUT GET_PROG_INFO @ es) ms" "stale bad"
    and "file = log_text (map (Pair PI_OUTPUT) bad @ word_ents PI_OUTPUT GET_PROG_INFO @ es)"
    and "res = (if PRINT_STRING \<in> m_op ` set ms then Inl (Panic ''not handling'') else Inr ms)"
  shows "parse_trace log_readline (log_readin file) = res \<and> pp_parse_trace (log_readin file) = res"
proof -
  let ?es = "word_ents PI_OUTPUT GET_PROG_INFO @ es"
  have n: "nbytes (log_readin file) = 7 * (length bad + length ?es)"
    by (simp add: assms(3) log_readin_def length_log_text)
  have "reads log_readline (log_readin file) (map (Pair PI_OUTPUT) bad @ ?es)"
    "reads log_read_ent (log_readin file) (map (Pair PI_OUTPUT) bad @ ?es)"
    unfolding assms(3) by (rule strict.reads_readin pp.reads_readin)+
  then show ?thesis
    using parse_trace_reads [OF assms(1) refl _ assms(2)] n assms(4)
    by (simp add: pp_parse_trace_def parsed_def)
qed

text \<open>Two traces: a request after a stale byte, and the same with the string \<open>hi\<close> printed by the Pi.\<close>

theorem parse_trace_correct_witness:
  "parse_trace log_readline (log_readin (log_text ((PI_OUTPUT, 7) # word_ents PI_OUTPUT GET_PROG_INFO)))
     = Inr [\<lparr>m_op = GET_PROG_INFO, m_sender = PI_OUTPUT, m_u = M_none\<rparr>]
   \<and> parse_trace log_readline (log_readin (log_text ((PI_OUTPUT, 7) # word_ents PI_OUTPUT GET_PROG_INFO
       @ word_ents PI_OUTPUT PRINT_STRING @ word_ents PI_OUTPUT 2 @ map (Pair PI_OUTPUT) (bstr ''hi''))))
     = Inl (Panic ''not handling'')"
proof -
  let ?req = "\<lparr>m_op = GET_PROG_INFO, m_sender = PI_OUTPUT, m_u = M_none\<rparr>"
  let ?str = "\<lparr>m_op = PRINT_STRING, m_sender = PI_OUTPUT, m_u = print_string 2 (bstr ''hi'')\<rparr>"
  let ?es = "word_ents PI_OUTPUT PRINT_STRING @ word_ents PI_OUTPUT 2 @ map (Pair PI_OUTPUT) (bstr ''hi'') @ []"
  have st: "stale [7]"
    by (simp add: stale_def bytes_of_u32_def byte_of_def GET_PROG_INFO_def)
  have "boot_trace 0 (word_ents PI_OUTPUT GET_PROG_INFO @ []) [?req]"
    by (intro bt_plain bt_nil) (simp add: pi_plain_ops_def)
  moreover have "boot_trace 0 (word_ents PI_OUTPUT GET_PROG_INFO @ ?es) [?req, ?str]"
    by (intro bt_plain bt_print bt_nil) (simp_all add: pi_plain_ops_def bstr_def)
  ultimately show ?thesis
    using parse_trace_correct [OF _ st refl refl, of "[]" "[?req]"]
      parse_trace_correct [OF _ st refl refl, of ?es "[?req, ?str]"] by (simp add: boot_ops)
qed

text \<open>
  A log that ends inside a 32-bit word is not reported as such: with one to three entries
  left, \<open>log_ent32_exp\<close> does not give its "unexpected end of file" error but goes on to test a
  variable the reader never assigned, because \<open>read_ent_op\<close> ignores the reader's return value.
\<close>

theorem truncated_word_uninit:
  assumes "0 < length bs" "length bs < 4"
  shows "log_ent32_exp log_readline (log_readin (log_text (map (Pair op) bs))) op = Inl Uninit
    \<and> log_ent32_exp log_readline (log_readin []) op = log_err"
proof
  have eof: "read_ent_op rd l op = Inl Uninit" if "reads rd l []" for rd l
    using that by (simp add: read_ent_op_def)
  obtain b0 bs1 where bs: "bs = b0 # bs1" "length bs1 < 3" using assms by (cases bs) auto
  have "reads log_readline (log_readin (log_text (map (Pair op) bs))) (map (Pair op) bs)"
    by (rule strict.reads_readin)
  moreover have "bs1 = [] \<or> (\<exists>b1. bs1 = [b1]) \<or> (\<exists>b1 b2. bs1 = [b1, b2])"
    using bs(2) by (cases bs1; cases "tl bs1") auto
  ultimately show "log_ent32_exp log_readline (log_readin (log_text (map (Pair op) bs))) op = Inl Uninit"
    using bs(1) by (auto simp: log_ent32_exp_def log_read_ent32_def read_ent_op_def)
  show "log_ent32_exp log_readline (log_readin []) op = log_err"
    by (simp add: log_ent32_exp_def log_read_ent32_def log_is_eol_def log_readin_def)
qed

theorem truncated_word_uninit_witness:
  "log_ent32_exp log_readline (log_readin (log_text [(PI_OUTPUT, 1)])) PI_OUTPUT = Inl Uninit"
  using truncated_word_uninit [of "[1]" PI_OUTPUT] by simp

end
