(* ===== verification/Unix_Io.thy ===== *)
theory Unix_Io
  imports Prelude
begin

text \<open>
  The laptop side of the serial line, \<^verbatim>\<open>libunix\<close>: \<^verbatim>\<open>read-exact.c\<close>, \<^verbatim>\<open>write-exact.c\<close>, \<^verbatim>\<open>can-read.c\<close>,
  \<^verbatim>\<open>read-timeout.c\<close> and \<^verbatim>\<open>pi-echo.c\<close> (with its twin in \<^verbatim>\<open>labs/2-bootloader/unix-side/my-install.c\<close>).
  A descriptor is what its future reads and writes answer: a \<open>read\<close> returns at most the bytes of
  one arrival, a \<open>write\<close> may take only part of the buffer.
\<close>

section \<open>Descriptors\<close>

text \<open>
  \<open>Data b\<close>: bytes that have arrived (\<open>Data []\<close> is an end of file); \<open>Idle\<close>: nothing came before the
  time limit of the terminal or of \<open>select\<close>; \<open>Fail\<close>: the call returns an error. A write consumes
  one limit: \<open>Some n\<close> takes at most \<open>n\<close> bytes, \<open>None\<close> is an error; without limits all is taken.
\<close>

datatype rd_ev = Data bytes | Idle | Fail

record fd_t =
  rd :: "rd_ev list"
  wr :: bytes
  wr_lim :: "nat option list"

text \<open>\<open>read(fd, buf, n)\<close>: the bytes read, none at all after a time-out; \<open>None\<close> is -1.\<close>

definition os_read :: "nat \<Rightarrow> fd_t \<Rightarrow> bytes option \<times> fd_t" where
  "os_read n f =
     (case rd f of
        [] \<Rightarrow> (Some [], f)
      | Idle # r \<Rightarrow> (Some [], f\<lparr>rd := r\<rparr>)
      | Fail # r \<Rightarrow> (None, f\<lparr>rd := r\<rparr>)
      | Data b # r \<Rightarrow>
          (Some (take n b), f\<lparr>rd := (if length b \<le> n then r else Data (drop n b) # r)\<rparr>))"

definition os_write :: "bytes \<Rightarrow> fd_t \<Rightarrow> nat option \<times> fd_t" where
  "os_write b f =
     (case wr_lim f of
        [] \<Rightarrow> (Some (length b), f\<lparr>wr := wr f @ b\<rparr>)
      | None # l \<Rightarrow> (None, f\<lparr>wr_lim := l\<rparr>)
      | Some n # l \<Rightarrow> (Some (length (take n b)), f\<lparr>wr := wr f @ take n b, wr_lim := l\<rparr>))"

definition sys_die :: "string \<Rightarrow> 'x result" where
  "sys_die msg = Inl (Panic msg)"

definition read_exact_can_fail :: "nat \<Rightarrow> fd_t \<Rightarrow> (bytes option \<times> fd_t) result" where
  "read_exact_can_fail n f =
     rbind (c_assert (n \<noteq> 0) ''n'') (\<lambda>_.
       case os_read n f of
         (None, _) \<Rightarrow> sys_die ''read_exact failed''
       | (Some b, f1) \<Rightarrow> Inr (if length b \<noteq> n then None else Some b, f1))"

definition read_exact :: "nat \<Rightarrow> fd_t \<Rightarrow> (bytes \<times> fd_t) result" where
  "read_exact n f =
     rbind (read_exact_can_fail n f) (\<lambda>(r, f1).
       case r of None \<Rightarrow> Inl (Panic ''read_exact failed'') | Some b \<Rightarrow> Inr (b, f1))"

definition write_exact_can_fail :: "bytes \<Rightarrow> fd_t \<Rightarrow> (bool \<times> fd_t) result" where
  "write_exact_can_fail b f =
     rbind (c_assert (b \<noteq> []) ''n'') (\<lambda>_.
       case os_write b f of
         (None, _) \<Rightarrow> sys_die ''write_exact failed''
       | (Some n, f1) \<Rightarrow> Inr (n = length b, f1))"

definition write_exact :: "bytes \<Rightarrow> fd_t \<Rightarrow> fd_t result" where
  "write_exact b f =
     rbind (write_exact_can_fail b f) (\<lambda>(ok, f1).
       if ok then Inr f1 else Inl (Panic ''write_exact failed''))"

text \<open>\<open>select\<close> with a time limit: it uses up a spell of silence, and reports data, end and error.\<close>

definition can_read_timeout :: "fd_t \<Rightarrow> bool \<times> fd_t" where
  "can_read_timeout f =
     (case rd f of
        [] \<Rightarrow> (False, f)
      | Idle # r \<Rightarrow> (False, f\<lparr>rd := r\<rparr>)
      | _ \<Rightarrow> (True, f))"

definition can_read :: "fd_t \<Rightarrow> bool \<times> fd_t" where
  "can_read f = can_read_timeout f"

text \<open>
  \<open>n\<close> is unsigned here, so the test for an error never succeeds: -1 is returned and \<open>None\<close> stands
  for it.
\<close>

definition read_timeout :: "nat \<Rightarrow> fd_t \<Rightarrow> bytes option \<times> fd_t" where
  "read_timeout n f =
     (case can_read_timeout f of (ok, f1) \<Rightarrow> if \<not> ok then (Some [], f1) else os_read n f1)"

text \<open>The bytes still to be read, a bound for the loops.\<close>

fun rd_left :: "rd_ev list \<Rightarrow> nat" where
  "rd_left [] = 0"
| "rd_left (Data b # r) = Suc (length b) + rd_left r"
| "rd_left (_ # r) = Suc (rd_left r)"

section \<open>Echoing the output of the Pi\<close>

definition exit_string :: bytes where
  "exit_string = bstr ''DONE!!!'' @ [10]"

text \<open>
  \<open>pi_done\<close> keeps \<open>pos\<close> in a static variable: it is passed in and returned. The argument is the
  text in front of the terminator. After a mismatch the search goes on behind the character
  that did not match.
\<close>

fun pi_done :: "nat \<Rightarrow> bytes \<Rightarrow> (bool \<times> nat) result" where
  "pi_done pos [] = Inr (False, pos)"
| "pi_done pos (c # s) =
     rbind (c_assert (pos < length exit_string) ''pos < n'') (\<lambda>_.
       if c \<noteq> exit_string ! pos then pi_done 0 s
       else if pos + 1 = length exit_string then Inr (True, pos + 1)
       else pi_done (pos + 1) s)"

definition isprint :: "u8 \<Rightarrow> bool" where
  "isprint c \<longleftrightarrow> 32 \<le> c \<and> c \<le> 126"

definition isspace_c :: "u8 \<Rightarrow> bool" where
  "isspace_c c \<longleftrightarrow> c = 32 \<or> (9 \<le> c \<and> c \<le> 13)"

definition remove_nonprint :: "bytes \<Rightarrow> bytes" where
  "remove_nonprint = map (\<lambda>c. if isprint c \<or> (isspace_c c \<and> c \<noteq> 13) then c else 32)"

text \<open>How the program ends: \<open>clean_exit\<close> leaves with code 0 and a message.\<close>

record echo_t =
  unix_fd :: fd_t
  pi_fd :: fd_t
  echo_pos :: nat
  echo_out :: bytes

datatype echo_end = PiExited | TtyClosed

text \<open>
  One round of the loop of \<open>pi_echo\<close>. \<open>gone\<close> says whether there is no port name or the terminal
  is gone. The buffer has 4096 bytes and the round stores a terminator behind what it read: a
  full buffer of keyboard input is written past its end. A failed read of the keyboard gives -1,
  so the terminator goes in front of the buffer.
\<close>

definition echo_round :: "bool \<Rightarrow> echo_t \<Rightarrow> (echo_end option \<times> echo_t) result" where
  "echo_round gone s =
     (case read_timeout 4096 (unix_fd s) of
        (None, _) \<Rightarrow> Inl Bounds
      | (Some b, u1) \<Rightarrow>
          rbind (if b = [] then Inr (pi_fd s)
                 else if length b \<ge> 4096 then Inl Bounds
                 else write_exact b (pi_fd s)) (\<lambda>p1.
          case can_read_timeout p1 of (ready, p2) \<Rightarrow>
            if \<not> ready then Inr (None, s\<lparr>unix_fd := u1, pi_fd := p2\<rparr>)
            else
              (case os_read 4095 p2 of
                 (None, _) \<Rightarrow> sys_die ''pi connection closed.  cleaning up''
               | (Some t, p3) \<Rightarrow>
                   if t = [] then
                     Inr (if gone then Some TtyClosed else None, s\<lparr>unix_fd := u1, pi_fd := p3\<rparr>)
                   else
                     (let t1 = remove_nonprint t in
                      rbind (pi_done (echo_pos s) t1) (\<lambda>(done, pos).
                        Inr (if done then Some PiExited else None,
                             s\<lparr>unix_fd := u1, pi_fd := p3, echo_pos := pos,
                               echo_out := echo_out s @ t1\<rparr>))))))"

text \<open>The loop with fuel, the number of rounds.\<close>

fun pi_echo_loop :: "nat \<Rightarrow> bool \<Rightarrow> echo_t \<Rightarrow> (echo_end \<times> echo_t) result" where
  "pi_echo_loop 0 gone s = Inl Diverges"
| "pi_echo_loop (Suc k) gone s =
     rbind (echo_round gone s) (\<lambda>(e, s1).
       case e of None \<Rightarrow> pi_echo_loop k gone s1 | Some x \<Rightarrow> Inr (x, s1))"

definition pi_echo :: "nat \<Rightarrow> bool \<Rightarrow> fd_t \<Rightarrow> fd_t \<Rightarrow> (echo_end \<times> echo_t) result" where
  "pi_echo fuel gone u p =
     pi_echo_loop fuel gone \<lparr>unix_fd = u, pi_fd = p, echo_pos = 0, echo_out = []\<rparr>"

section \<open>Exact reads and writes\<close>

lemma read_exact_arrived:
  assumes "rd f = Data b # r" "length b = n" "n \<noteq> 0"
  shows "read_exact n f = Inr (b, f\<lparr>rd := r\<rparr>)"
  using assms by (simp add: read_exact_def read_exact_can_fail_def os_read_def)

lemma read_exact_more:
  assumes "rd f = Data b # r" "n < length b" "n \<noteq> 0"
  shows "read_exact n f = Inr (take n b, f\<lparr>rd := Data (drop n b) # r\<rparr>)"
  using assms by (simp add: read_exact_def read_exact_can_fail_def os_read_def)

text \<open>\<open>read_exact\<close> reads once: a message that arrives in two parts is a panic.\<close>

lemma read_exact_split:
  assumes "rd f = Data b # r" "length b < n"
  shows "read_exact n f = Inl (Panic ''read_exact failed'')"
  using assms by (auto simp: read_exact_def read_exact_can_fail_def os_read_def)

lemma write_exact_all:
  assumes "wr_lim f = []" "b \<noteq> []"
  shows "write_exact b f = Inr (f\<lparr>wr := wr f @ b\<rparr>)"
  using assms by (simp add: write_exact_def write_exact_can_fail_def os_write_def)

section \<open>Recognising the end of the output\<close>

lemma length_exit_string: "length exit_string = 8"
  by (simp add: exit_string_def bstr_def)

lemma pi_done_total:
  assumes "pos < 8"
  shows "\<exists>d p. pi_done pos s = Inr (d, p) \<and> (if d then p = 8 else p < 8)"
  using assms
proof (induction pos s rule: pi_done.induct)
  case (2 pos c s)
  then show ?case by (auto simp: length_exit_string)
qed auto

text \<open>The text may be cut anywhere between two calls: the static \<open>pos\<close> carries the match over.\<close>

lemma pi_done_append:
  "pi_done pos (s @ t) =
     rbind (pi_done pos s) (\<lambda>(d, p). if d then Inr (True, p) else pi_done p t)"
  by (induction pos s rule: pi_done.induct) (auto simp: rbind_assoc c_assert_def)

text \<open>A report is never false: the exit string is in the text.\<close>

lemma pi_done_sound:
  assumes "pos < 8" "pi_done pos s = Inr (True, p)"
  shows "\<exists>pre post. take pos exit_string @ s = pre @ exit_string @ post"
  using assms
proof (induction pos s rule: pi_done.induct)
  case (2 pos c s)
  show ?case
  proof (cases "c = exit_string ! pos")
    case True
    then have t: "take (pos + 1) exit_string = take pos exit_string @ [c]"
      using "2.prems"(1) by (simp add: take_Suc_conv_app_nth length_exit_string)
    show ?thesis
    proof (cases "pos + 1 = 8")
      case True
      then have "take (pos + 1) exit_string = exit_string" by (simp add: length_exit_string)
      with t have "take pos exit_string @ c # s = [] @ exit_string @ s"
        by (metis append.assoc append_Cons append_Nil)
      then show ?thesis by blast
    next
      case False
      with True "2.prems" "2.IH"(2) t show ?thesis by (simp add: length_exit_string)
    qed
  next
    case False
    with "2.prems" "2.IH"(1) obtain pre post where "s = pre @ exit_string @ post"
      by (auto simp: length_exit_string)
    then have "take pos exit_string @ c # s = (take pos exit_string @ c # pre) @ exit_string @ post"
      by simp
    then show ?thesis by blast
  qed
qed simp

lemma pi_done_skip: "hd exit_string \<notin> set pre \<Longrightarrow> pi_done 0 (pre @ t) = pi_done 0 t"
  by (induction pre) (auto simp: length_exit_string exit_string_def bstr_def)

lemma pi_done_exit_string: "pi_done 0 (exit_string @ t) = Inr (True, 8)"
  by (simp add: exit_string_def bstr_def)

text \<open>But a \<open>D\<close> in front of it hides it: the second \<open>D\<close> is skipped as the character that did not match.\<close>

lemma pi_done_misses: "pi_done 0 (ch CHR ''D'' # exit_string) = Inr (False, 0)"
  by (simp add: exit_string_def bstr_def ch_def)

section \<open>What is printed\<close>

lemma length_remove_nonprint [simp]: "length (remove_nonprint b) = length b"
  by (simp add: remove_nonprint_def)

lemma remove_nonprint_append [simp]:
  "remove_nonprint (a @ b) = remove_nonprint a @ remove_nonprint b"
  by (simp add: remove_nonprint_def)

lemma remove_nonprint_concat: "remove_nonprint (concat bs) = concat (map remove_nonprint bs)"
  by (induction bs) (simp_all add: remove_nonprint_def)

lemma remove_nonprint_printable:
  "c \<in> set (remove_nonprint b) \<Longrightarrow> isprint c \<or> c \<in> {9, 10, 11, 12}"
proof -
  assume "c \<in> set (remove_nonprint b)"
  then have "isprint c \<or> (9 \<le> c \<and> c \<le> 13 \<and> c \<noteq> 13)"
    by (auto simp: remove_nonprint_def isprint_def isspace_c_def)
  moreover have "c \<in> {9, 10, 11, 12}" if "9 \<le> c" "c \<le> 13" "c \<noteq> 13"
  proof -
    have "9 \<le> unat c" "unat c \<le> 13" "unat c \<noteq> 13"
      using that by (simp_all add: word_le_nat_alt word_unat_eq_iff)
    then have "unat c \<in> {9, 10, 11, 12}" by auto
    then show ?thesis by (auto simp: word_unat_eq_iff)
  qed
  ultimately show ?thesis by auto
qed

lemma remove_nonprint_idem: "remove_nonprint (remove_nonprint b) = remove_nonprint b"
  by (auto simp: remove_nonprint_def isprint_def)

section \<open>The echo loop\<close>

definition quiet_fd :: fd_t where
  "quiet_fd = \<lparr>rd = [], wr = [], wr_lim = []\<rparr>"

definition arrivals :: "bytes list \<Rightarrow> fd_t" where
  "arrivals bs = \<lparr>rd = map Data bs, wr = [], wr_lim = []\<rparr>"

definition echo_at :: "bytes list \<Rightarrow> nat \<Rightarrow> bytes \<Rightarrow> echo_t" where
  "echo_at bs pos out = \<lparr>unix_fd = quiet_fd, pi_fd = arrivals bs, echo_pos = pos, echo_out = out\<rparr>"

lemma echo_round_arrival:
  assumes "b \<noteq> []" "length b \<le> 4095" "pi_done pos (remove_nonprint b) = Inr (d, p)"
  shows "echo_round gone (echo_at (b # bs) pos out) =
    Inr (if d then Some PiExited else None, echo_at bs p (out @ remove_nonprint b))"
  using assms
  by (simp add: echo_round_def echo_at_def quiet_fd_def arrivals_def read_timeout_def
      can_read_timeout_def os_read_def)

lemma pi_echo_loop_done:
  assumes "\<forall>b \<in> set bs. b \<noteq> [] \<and> length b \<le> 4095" "pos < 8"
    and "pi_done pos (remove_nonprint (concat bs)) = Inr (True, p)"
    and "\<forall>k < length bs. \<exists>q. pi_done pos (remove_nonprint (concat (take k bs))) = Inr (False, q)"
  shows "pi_echo_loop (length bs) gone (echo_at bs pos out) =
    Inr (PiExited, echo_at [] p (out @ remove_nonprint (concat bs)))"
  using assms
proof (induction bs arbitrary: pos out)
  case Nil
  then show ?case by (simp add: remove_nonprint_def)
next
  case (Cons b bs)
  obtain d q where q: "pi_done pos (remove_nonprint b) = Inr (d, q)" "if d then q = 8 else q < 8"
    using pi_done_total [OF Cons.prems(2), of "remove_nonprint b"] by blast
  have round: "echo_round gone (echo_at (b # bs) pos out) =
      Inr (if d then Some PiExited else None, echo_at bs q (out @ remove_nonprint b))"
    using echo_round_arrival [OF _ _ q(1)] Cons.prems(1) by simp
  have later: "\<exists>r. pi_done pos (remove_nonprint b @ remove_nonprint (concat (take k bs))) = Inr (False, r)"
    if "k < length bs" for k
    using Cons.prems(4) [rule_format, of "Suc k"] that by simp
  show ?case
  proof (cases "bs = []")
    case True
    with Cons.prems(3) q round show ?thesis by (simp add: remove_nonprint_def)
  next
    case False
    from later [of 0] False q have d: "\<not> d"
      by (auto simp: remove_nonprint_def)
    have "pi_echo_loop (length bs) gone (echo_at bs q (out @ remove_nonprint b)) =
        Inr (PiExited, echo_at [] p ((out @ remove_nonprint b) @ remove_nonprint (concat bs)))"
    proof (rule Cons.IH)
      show "q < 8" using q(2) d by simp
      show "pi_done q (remove_nonprint (concat bs)) = Inr (True, p)"
        using Cons.prems(3) q(1) d by (simp add: pi_done_append)
      show "\<forall>k < length bs. \<exists>r. pi_done q (remove_nonprint (concat (take k bs))) = Inr (False, r)"
        using later q(1) d by (simp add: pi_done_append)
    qed (use Cons.prems(1) in simp)
    with round d show ?thesis by simp
  qed
qed

text \<open>
  The search goes on from the state the text left it in: the exit string is only seen when that state
  is 0. In the middle of a match its \<open>D\<close> is skipped as the character that did not match.
\<close>

lemma pi_done_exit_from:
  assumes "0 < pos" "pos < 8"
  shows "pi_done pos exit_string = Inr (False, 0)"
proof -
  have "pos \<in> {1, 2, 3, 4, 5, 6, 7}" using assms by auto
  then show ?thesis by (elim insertE emptyE) (simp_all add: exit_string_def bstr_def)
qed

lemma pi_done_prefix: "pi_done pos (s @ t) = Inr (False, p) \<Longrightarrow> \<exists>q. pi_done pos s = Inr (False, q)"
  by (auto simp: pi_done_append rbind_eq_Inr split: if_splits)

text \<open>Before its last character has arrived, the exit string at the end of the text is not seen.\<close>

lemma pi_done_not_yet:
  assumes "pi_done 0 pre = Inr (False, 0)" "pre @ exit_string = s @ t" "t \<noteq> []"
  shows "\<exists>q. pi_done 0 s = Inr (False, q)"
proof -
  consider u where "pre = s @ u" | u where "s = pre @ u" "exit_string = u @ t"
    using assms(2) by (auto simp: append_eq_append_conv2)
  then show ?thesis
  proof cases
    case 1
    then show ?thesis using pi_done_prefix [of 0 s] assms(1) by simp
  next
    case 2
    have "u = take (length u) exit_string" by (simp add: 2(2))
    moreover have "length u < 8"
      using assms(3) arg_cong [OF 2(2), of length] by (cases t) (simp_all add: length_exit_string)
    moreover have "\<exists>q. pi_done 0 (take k exit_string) = Inr (False, q)" if "k < 8" for k
    proof -
      have "k \<in> {0, 1, 2, 3, 4, 5, 6, 7}" using that by auto
      then show ?thesis by (elim insertE emptyE) (simp_all add: exit_string_def bstr_def)
    qed
    ultimately have "\<exists>q. pi_done 0 u = Inr (False, q)" by metis
    then show ?thesis using 2(1) assms(1) by (simp add: pi_done_append)
  qed
qed

text \<open>
  \<open>pi_echo\<close> ends when the Pi says so: however the text is cut into reads, as soon as
  \<open>DONE!!!\<close> and a newline have arrived the loop leaves with a clean exit, after one round per
  arrival, and every character received has been echoed, unprintable ones as blanks. It holds for
  texts that do not leave the search in the middle of a match.
\<close>
lemma pi_echo_ends_from:
  assumes "\<forall>b \<in> set bs. b \<noteq> [] \<and> length b \<le> 4095"
    and "remove_nonprint (concat bs) = pre @ exit_string" "pi_done 0 pre = Inr (False, 0)"
  shows "\<exists>s. pi_echo (length bs) gone quiet_fd (arrivals bs) = Inr (PiExited, s)
    \<and> echo_out s = pre @ exit_string"
proof -
  have full: "pi_done 0 (remove_nonprint (concat bs)) = Inr (True, 8)"
    using assms(2,3) pi_done_exit_string [of "[]"] by (simp add: pi_done_append)
  have "\<exists>q. pi_done 0 (remove_nonprint (concat (take k bs))) = Inr (False, q)" if k: "k < length bs" for k
  proof (rule pi_done_not_yet [OF assms(3)])
    show "pre @ exit_string = remove_nonprint (concat (take k bs)) @ remove_nonprint (concat (drop k bs))"
      unfolding assms(2) [symmetric]
      by (metis append_take_drop_id concat_append remove_nonprint_append)
    obtain b rest where "drop k bs = b # rest" using k by (cases "drop k bs") simp_all
    moreover from this have "b \<in> set bs" by (metis in_set_dropD list.set_intros(1))
    ultimately show "remove_nonprint (concat (drop k bs)) \<noteq> []"
      using assms(1) by (auto simp: remove_nonprint_def)
  qed
  with pi_echo_loop_done [OF assms(1) _ full, of gone "[]"] assms(2) show ?thesis
    by (simp add: pi_echo_def echo_at_def)
qed

lemma pi_echo_ends:
  assumes "\<forall>b \<in> set bs. b \<noteq> [] \<and> length b \<le> 4095"
    and "remove_nonprint (concat bs) = pre @ exit_string" "ch CHR ''D'' \<notin> set pre"
  shows "\<exists>s. pi_echo (length bs) gone quiet_fd (arrivals bs) = Inr (PiExited, s)
    \<and> echo_out s = pre @ exit_string"
proof -
  have "hd exit_string \<notin> set pre" using assms(3) by (simp add: exit_string_def bstr_def ch_def)
  from pi_done_skip [OF this, of "[]"] pi_echo_ends_from [OF assms(1,2)] show ?thesis by simp
qed

text \<open>When the exit string is not seen, the loop goes on polling a silent line.\<close>

lemma pi_echo_loop_waits:
  assumes "\<forall>b \<in> set bs. b \<noteq> [] \<and> length b \<le> 4095" "pos < 8"
    and "pi_done pos (remove_nonprint (concat bs)) = Inr (False, p)"
  shows "pi_echo_loop k gone (echo_at bs pos out) = Inl Diverges"
  using assms
proof (induction k arbitrary: bs pos out)
  case (Suc k)
  show ?case
  proof (cases bs)
    case Nil
    have "echo_round gone (echo_at [] pos out) = Inr (None, echo_at [] pos out)"
      by (simp add: echo_round_def echo_at_def quiet_fd_def arrivals_def read_timeout_def can_read_timeout_def)
    with Nil Suc.IH [of "[]" pos out] Suc.prems show ?thesis by simp
  next
    case (Cons b bs1)
    obtain d q where q: "pi_done pos (remove_nonprint b) = Inr (d, q)" "if d then q = 8 else q < 8"
      using pi_done_total [OF Suc.prems(2), of "remove_nonprint b"] by blast
    have d: "\<not> d" "pi_done q (remove_nonprint (concat bs1)) = Inr (False, p)"
      using Suc.prems(3) Cons q(1) by (auto simp: pi_done_append split: if_splits)
    have "echo_round gone (echo_at (b # bs1) pos out) = Inr (None, echo_at bs1 q (out @ remove_nonprint b))"
      using echo_round_arrival [OF _ _ q(1)] Suc.prems(1) Cons d(1) by simp
    with Suc.IH [of bs1 q "out @ remove_nonprint b"] Suc.prems(1) Cons q(2) d show ?thesis by simp
  qed
qed simp

end
