(* ===== verification/Interpose.thy ===== *)
theory Interpose
  imports Replay_Log Unix_Io Printk
begin

text \<open>
  The programs of \<^verbatim>\<open>labs/5-replay/code\<close> on top of the log: the pretty printer of
  \<^verbatim>\<open>pretty-print.c\<close>, and of \<^verbatim>\<open>interpose.c\<close> the endpoints, the tracer and the replay of a log to the
  laptop side, each up to the stubs of the source.
\<close>

section \<open>The pretty printer\<close>

text \<open>\<open>%x\<close> and \<open>%d\<close> of \<open>fprintf\<close> without width are the digits \<open>Printk\<close> computes.\<close>

definition hex_text :: "u32 \<Rightarrow> bytes" where
  "hex_text v = num_text 16 v False"

definition dec_text :: "u32 \<Rightarrow> bytes" where
  "dec_text v = num_text 10 v True"

definition sender_pad :: "u8 \<Rightarrow> bytes" where
  "sender_pad sender = (if sender = UNIX_OUTPUT then blanks 37 else [])"

text \<open>
  The text of a message; the member of the union is read as the opcode says. Reading another
  member than the one that was stored is \<open>Uninit\<close>. \<open>%s\<close> stops at the terminator.
\<close>

definition pretty_body :: "bytes \<Rightarrow> msg \<Rightarrow> bytes result" where
  "pretty_body pre m =
     (if m_op m = BAD_DATA then
        (case m_u m of bad_data b \<Rightarrow> Inr (bstr ''    '' @ hex_text (ucast b)) | _ \<Rightarrow> Inl Uninit)
      else if m_op m = GET_PROG_INFO then Inr []
      else if m_op m = BOOT_ERROR \<or> m_op m = BAD_CODE_ADDR \<or> m_op m = BAD_CODE_CKSUM
      then Inr (bstr ''    is an error'' @ [10])
      else if m_op m = GET_CODE then
        (case m_u m of get_code crc \<Rightarrow> Inr (bstr ''    crc32=0x'' @ hex_text crc @ [10]) | _ \<Rightarrow> Inl Uninit)
      else if m_op m = BOOT_SUCCESS then
        (case m_u m of
           boot_success out n \<Rightarrow>
             if 0 \<notin> set out then Inl Bounds
             else Inr (bstr ''output follows:'' @ [10] @ takeWhile (\<lambda>c. c \<noteq> 0) out @ [10])
         | _ \<Rightarrow> Inl Uninit)
      else if m_op m = PUT_PROG_INFO then
        (case m_u m of
           prog_info base n crc \<Rightarrow>
             Inr (bstr ''    '' @ pre @ bstr ''armbase=0x'' @ hex_text base @ [10]
               @ bstr ''    '' @ pre @ bstr ''nbytes='' @ dec_text n @ [10]
               @ bstr ''    '' @ pre @ bstr ''crc32=0x'' @ hex_text crc @ [10])
         | _ \<Rightarrow> Inl Uninit)
      else if m_op m = PUT_CODE then
        (case m_u m of
           put_code code n \<Rightarrow> Inr (pre @ bstr ''    code= <...'' @ dec_text n @ bstr '' nbytes...>'' @ [10])
         | _ \<Rightarrow> Inl Uninit)
      else if m_op m = PRINT_STRING then Inl (Panic ''not handling'')
      else Inl (Panic ''impossible''))"

definition pretty_print_op :: "msg \<Rightarrow> bytes result" where
  "pretty_print_op m =
     rbind (op_check (m_op m)) (\<lambda>op_s.
     let pre = sender_pad (m_sender m) in
     rbind (pretty_body pre m) (\<lambda>body.
       Inr (pre @ bstr op_s @ bstr ''/'' @ hex_text (m_op m) @ bstr '':'' @ [10] @ body
         @ (if m_sender m = PI_OUTPUT then bstr ''                        --------->'' @ [10]
            else bstr ''                        <---------'' @ [10]))))"

fun pretty_print_loop :: "msg list \<Rightarrow> bytes result" where
  "pretty_print_loop [] = Inr []"
| "pretty_print_loop (m # ms) =
     rbind (pretty_print_op m) (\<lambda>t. rbind (pretty_print_loop ms) (\<lambda>ts. Inr (t @ ts)))"

definition rule_line :: bytes where
  "rule_line = bstr ''----------------------------------------------'' @ [10]"

definition pretty_print :: "msg list \<Rightarrow> bytes result" where
  "pretty_print ms =
     rbind (pretty_print_loop ms) (\<lambda>t.
       Inr (rule_line @ bstr ''       PI                            UNIX'' @ [10] @ t @ rule_line))"

text \<open>\<open>run_system\<close> panics when \<open>diff\<close> finds a difference, so a log that is not as it would be printed stops here.\<close>

definition pp_diff :: "bytes \<Rightarrow> log_t \<Rightarrow> unit result" where
  "pp_diff contents l =
     rbind (pp_check_parse contents l) (\<lambda>same. if same then Inr () else Inl (Panic ''system <diff> failed''))"

definition pp_main :: "bytes \<Rightarrow> bytes result" where
  "pp_main contents =
     (let l = log_readin contents in
      rbind (pp_diff contents l) (\<lambda>_.
      rbind (pp_diff contents l) (\<lambda>_.
      rbind (pp_parse_trace l) pretty_print)))"

section \<open>Endpoints, tracing and replay\<close>

record endpt_t =
  e_type :: u8
  e_name :: string
  dev_name :: string
  e_fd :: fd_t
  e_pid :: u32

definition is_unix_side :: "endpt_t \<Rightarrow> bool" where
  "is_unix_side e \<longleftrightarrow> e_type e = UNIX_OUTPUT"

definition endpt_mk :: "u8 \<Rightarrow> string \<Rightarrow> fd_t \<Rightarrow> endpt_t result" where
  "endpt_mk ty dev f =
     rbind (type_name ty) (\<lambda>nm.
       Inr \<lparr>e_type = ty, e_name = nm, dev_name = dev, e_fd = f, e_pid = 0\<rparr>)"

definition forward :: "endpt_t \<Rightarrow> endpt_t \<Rightarrow> (u32 \<times> endpt_t \<times> endpt_t) result" where
  "forward inp out = Inl Unimplemented"

text \<open>The two inner loops poll; with nothing to read the outer loop polls again, \<open>k\<close> times at most.\<close>

fun trace_loop :: "nat \<Rightarrow> endpt_t \<Rightarrow> endpt_t \<Rightarrow> unit result" where
  "trace_loop 0 u p = Inl Diverges"
| "trace_loop (Suc k) u p =
     (case can_read (e_fd p) of (pr, pf) \<Rightarrow>
        if pr then rbind (forward (p\<lparr>e_fd := pf\<rparr>) u) (\<lambda>_. Inr ())
        else
          (case can_read (e_fd u) of (ur, uf) \<Rightarrow>
             if ur then rbind (forward (u\<lparr>e_fd := uf\<rparr>) (p\<lparr>e_fd := pf\<rparr>)) (\<lambda>_. Inr ())
             else trace_loop k (u\<lparr>e_fd := uf\<rparr>) (p\<lparr>e_fd := pf\<rparr>)))"

definition trace :: "nat \<Rightarrow> endpt_t \<Rightarrow> endpt_t \<Rightarrow> unit result" where
  "trace k u p =
     rbind (c_assert (is_unix_side u) ''is_unix_side(u)'') (\<lambda>_.
     rbind (c_assert (\<not> is_unix_side p) ''!is_unix_side(p)'') (\<lambda>_.
     rbind (c_assert (e_pid u \<noteq> 0) ''u->pid'') (\<lambda>_. trace_loop k u p)))"

text \<open>
  The loop of \<open>replay_unix\<close>: bytes of the Pi are sent, the one with number \<open>fail_i\<close> corrupted; at
  a byte of the laptop side the code is a stub. \<open>rs\<close> is what \<open>random()\<close> yields.
\<close>

fun replay_loop :: "(u8 \<times> u8) list \<Rightarrow> int \<Rightarrow> int \<Rightarrow> bytes \<Rightarrow> bool \<Rightarrow> fd_t \<Rightarrow> (bool \<times> fd_t) result" where
  "replay_loop [] fail_i sent rs corrupted f = Inr (corrupted, f)"
| "replay_loop ((sender, v) # es) fail_i sent rs corrupted f =
     (if sender = PI_OUTPUT then
        (if fail_i = sent
         then rbind (corrupt_byte rs v) (\<lambda>c. rbind (write_exact [c] f) (replay_loop es fail_i (sent + 1) rs True))
         else rbind (write_exact [v] f) (replay_loop es fail_i (sent + 1) rs corrupted))
      else Inl Unimplemented)"

definition replay_unix :: "endpt_t \<Rightarrow> (u8 \<times> u8) list \<Rightarrow> int \<Rightarrow> bytes \<Rightarrow> bool result" where
  "replay_unix u es fail_i rs =
     rbind (c_assert (is_unix_side u) ''is_unix_side(u)'') (\<lambda>_.
     rbind (c_assert (e_pid u \<noteq> 0) ''u->pid'') (\<lambda>_.
     rbind (replay_loop es fail_i 0 rs False (e_fd u)) (\<lambda>_. Inl Unimplemented)))"

section \<open>Printing a trace\<close>

text \<open>The messages a trace of the boot protocol parses to can all be printed.\<close>

definition printable :: "msg \<Rightarrow> bool" where
  "printable m \<longleftrightarrow> (\<exists>t. pretty_print_op m = Inr t)"

lemma pretty_print_loop_printable: "\<forall>m \<in> set ms. printable m \<Longrightarrow> \<exists>t. pretty_print_loop ms = Inr t"
  by (induction ms) (auto simp: printable_def)

lemma printable_plain:
  assumes "op \<in> pi_plain_ops"
  shows "printable \<lparr>m_op = op, m_sender = s, m_u = u\<rparr>"
  using assms op_check_ok(1) [OF assms]
  by (auto simp: printable_def pretty_print_op_def pretty_body_def pi_plain_ops_def BAD_DATA_def boot_ops Let_def)

lemma printable_members:
  "printable \<lparr>m_op = GET_CODE, m_sender = s, m_u = get_code crc\<rparr>"
  "printable \<lparr>m_op = PUT_PROG_INFO, m_sender = s, m_u = prog_info base n crc\<rparr>"
  "printable \<lparr>m_op = PUT_CODE, m_sender = s, m_u = put_code code n\<rparr>"
  "printable \<lparr>m_op = BOOT_SUCCESS, m_sender = s, m_u = boot_success (out @ [0]) n\<rparr>"
  by (simp_all add: printable_def pretty_print_op_def pretty_body_def op_check_def BAD_DATA_def boot_ops Let_def)

lemma boot_trace_printable:
  "boot_trace nb es ms \<Longrightarrow> PRINT_STRING \<notin> m_op ` set ms \<Longrightarrow> \<forall>m \<in> set ms. printable m"
  by (induction rule: boot_trace.induct) (auto intro: printable_plain printable_members)

text \<open>The case for \<open>BAD_DATA\<close> is dead: \<open>op_check\<close> does not know the opcode and panics first.\<close>

lemma bad_data_not_printed:
  "pretty_print_op \<lparr>m_op = BAD_DATA, m_sender = s, m_u = bad_data b\<rparr> = Inl (Panic ''invalid op'')"
  by (simp add: pretty_print_op_def op_check_def BAD_DATA_def boot_ops)

text \<open>
  The pretty printer handles every trace of the boot protocol that starts with a program request,
  stale bytes in front of it included: it parses and prints it without a fault, unless the Pi
  sent a string to print.
\<close>

lemma pp_main_prints:
  assumes "boot_trace 0 (word_ents PI_OUTPUT GET_PROG_INFO @ es) ms" "stale bad"
    and "contents = log_text (map (Pair PI_OUTPUT) bad @ word_ents PI_OUTPUT GET_PROG_INFO @ es)"
    and "PRINT_STRING \<notin> m_op ` set ms"
  shows "\<exists>t. pp_main contents = Inr t"
proof -
  let ?l = "log_readin contents"
  let ?es = "map (Pair PI_OUTPUT) bad @ word_ents PI_OUTPUT GET_PROG_INFO @ es"
  have r: "reads log_read_ent ?l ?es" unfolding assms(3) by (rule pp.reads_readin)
  have n: "nbytes ?l = 7 * length ?es" by (simp add: assms(3) log_readin_def length_log_text)
  have c: "pp_check_parse contents ?l = Inr True"
    using reprint_loop_reads [OF r] n assms(3)
    by (simp add: pp_check_parse_def check_parse_def del: reprint_loop.simps)
  have p: "pp_parse_trace ?l = Inr ms"
    using parse_trace_reads [OF assms(1) refl r assms(2)] n assms(4)
    by (simp add: pp_parse_trace_def parsed_def)
  obtain t where "pretty_print_loop ms = Inr t"
    using pretty_print_loop_printable [OF boot_trace_printable [OF assms(1,4)]] by blast
  with c p show ?thesis by (simp add: pp_main_def pp_diff_def pretty_print_def)
qed

section \<open>Replaying with one corrupted byte\<close>

lemma corrupt_byte_differs: "corrupt_byte rs c = Inr v \<Longrightarrow> v \<noteq> c"
  by (induction rs) (auto split: if_splits)

lemma replay_loop_plain:
  "wr_lim f = [] \<Longrightarrow> fail_i < sent \<Longrightarrow>
     replay_loop (map (Pair PI_OUTPUT) vs) fail_i sent rs cor f = Inr (cor, f\<lparr>wr := wr f @ vs\<rparr>)"
  by (induction vs arbitrary: sent f) (simp_all add: write_exact_all)

lemma replay_loop_none:
  "wr_lim f = [] \<Longrightarrow> fail_i < 0 \<Longrightarrow>
     replay_loop (map (Pair PI_OUTPUT) vs) fail_i 0 rs cor f = Inr (cor, f\<lparr>wr := wr f @ vs\<rparr>)"
  by (rule replay_loop_plain)

text \<open>Exactly the byte with number \<open>fail_i\<close> is changed, and it is changed to another value.\<close>

lemma replay_loop_corrupts:
  "wr_lim f = [] \<Longrightarrow> fail_i = sent + int (length us) \<Longrightarrow> corrupt_byte rs v = Inr c \<Longrightarrow>
     replay_loop (map (Pair PI_OUTPUT) (us @ v # vs)) fail_i sent rs cor f
       = Inr (True, f\<lparr>wr := wr f @ us @ c # vs\<rparr>) \<and> c \<noteq> v"
  by (induction us arbitrary: sent f)
    (simp_all add: write_exact_all replay_loop_plain corrupt_byte_differs)

end
