(* ===== verification/Utf8.thy ===== *)
theory Utf8
  imports Prelude
begin

text \<open>
  The UTF-8 encoder and decoder of \<^verbatim>\<open>labs/13-fat32/1-code/external-code/unicode-utf8.c\<close>, which the
  FAT32 code uses to print long file names. \<open>char\<close> is unsigned on the Pi. The table is an array
  of six pointers, none of them NULL, that the loops walk until a NULL pointer: leaving the
  array is a fault.
\<close>

section \<open>Table and routines\<close>

record utf_t =
  u_mask :: u8
  u_lead :: u8
  u_beg :: u32
  u_end :: u32
  bits_stored :: nat

definition utf :: "utf_t list" where
  "utf = [\<lparr>u_mask = 0x3F, u_lead = 0x80, u_beg = 0, u_end = 0, bits_stored = 6\<rparr>,
          \<lparr>u_mask = 0x7F, u_lead = 0x00, u_beg = 0, u_end = 0x7F, bits_stored = 7\<rparr>,
          \<lparr>u_mask = 0x1F, u_lead = 0xC0, u_beg = 0x80, u_end = 0x7FF, bits_stored = 5\<rparr>,
          \<lparr>u_mask = 0x0F, u_lead = 0xE0, u_beg = 0x800, u_end = 0xFFFF, bits_stored = 4\<rparr>,
          \<lparr>u_mask = 0x07, u_lead = 0xF0, u_beg = 0x10000, u_end = 0x10FFFF, bits_stored = 3\<rparr>,
          \<lparr>u_mask = 0, u_lead = 0, u_beg = 0, u_end = 0, bits_stored = 0\<rparr>]"

fun codepoint_loop :: "utf_t list \<Rightarrow> u32 \<Rightarrow> nat \<Rightarrow> nat result" where
  "codepoint_loop [] cp len = Inl Bounds"
| "codepoint_loop (u # us) cp len =
     (if cp \<ge> u_beg u \<and> cp \<le> u_end u then Inr len else codepoint_loop us cp (len + 1))"

text \<open>A length, or None for the -1 of a length above 4.\<close>

definition codepoint_len :: "u32 \<Rightarrow> nat option result" where
  "codepoint_len cp = rbind (codepoint_loop utf cp 0) (\<lambda>len. Inr (if len > 4 then None else Some len))"

fun utf8_len_loop :: "utf_t list \<Rightarrow> u8 \<Rightarrow> nat \<Rightarrow> nat result" where
  "utf8_len_loop [] c len = Inl Bounds"
| "utf8_len_loop (u # us) c len =
     (if c AND NOT (u_mask u) = u_lead u then Inr len else utf8_len_loop us c (len + 1))"

definition utf8_len :: "u8 \<Rightarrow> nat option result" where
  "utf8_len c = rbind (utf8_len_loop utf c 0) (\<lambda>len. Inr (if len > 4 then None else Some len))"

text \<open>The byte stored at one position: the code point shifted down, masked, with the lead bits.\<close>

definition enc_byte :: "nat \<Rightarrow> u32 \<Rightarrow> nat \<Rightarrow> u8" where
  "enc_byte k cp shift = ucast ((drop_bit shift cp AND ucast (u_mask (utf ! k))) OR ucast (u_lead (utf ! k)))"

text \<open>The contents of \<open>ret\<close> up to and including its terminator, or None for NULL.\<close>

definition to_utf8 :: "u32 \<Rightarrow> bytes option result" where
  "to_utf8 cp =
     rbind (codepoint_len cp) (\<lambda>r.
       case r of
         None \<Rightarrow> Inr None
       | Some n \<Rightarrow>
           if n = 0 then Inl UndefShift
           else Inr (Some ([enc_byte n cp (6 * (n - 1))]
             @ map (\<lambda>i. enc_byte 0 cp (6 * (n - 1 - i))) [1..<n] @ [0])))"

fun to_cp_loop :: "bytes \<Rightarrow> nat \<Rightarrow> u32 \<Rightarrow> u32 result" where
  "to_cp_loop chr 0 codep = Inr codep"
| "to_cp_loop [] (Suc k) codep = Inl Bounds"
| "to_cp_loop (c # chr) (Suc k) codep =
     to_cp_loop chr k (codep OR push_bit (6 * k) (ucast c AND ucast (u_mask (utf ! 0))))"

definition to_cp :: "bytes \<Rightarrow> u32 result" where
  "to_cp chr =
     rbind (arr_get chr 0) (\<lambda>c.
     rbind (utf8_len c) (\<lambda>r.
       case r of
         None \<Rightarrow> Inr 0
       | Some n \<Rightarrow>
           if n = 0 then Inl UndefShift
           else to_cp_loop (tl chr) (n - 1) (push_bit (6 * (n - 1)) (ucast c AND ucast (u_mask (utf ! n))))))"

section \<open>Lengths\<close>

lemma codepoint_len_eq:
  "codepoint_len cp =
     (if cp = 0 then Inr (Some 0) else if cp \<le> 0x7F then Inr (Some 1) else if cp \<le> 0x7FF then Inr (Some 2)
      else if cp \<le> 0xFFFF then Inr (Some 3) else if cp \<le> 0x10FFFF then Inr (Some 4) else Inl Bounds)"
  by (auto simp: codepoint_len_def utf_def word_le_nat_alt unat_eq_0)

section \<open>Masks as bit ranges\<close>

lemma bit_mask_consts:
  "bit (0x3F :: u32) n \<longleftrightarrow> n < 6" "bit (0x7F :: u32) n \<longleftrightarrow> n < 7" "bit (0x1F :: u32) n \<longleftrightarrow> n < 5"
  "bit (0x0F :: u32) n \<longleftrightarrow> n < 4" "bit (0x07 :: u32) n \<longleftrightarrow> n < 3" "bit (0x80 :: u32) n \<longleftrightarrow> n = 7"
  "bit (0xC0 :: u32) n \<longleftrightarrow> n = 6 \<or> n = 7" "bit (0xE0 :: u32) n \<longleftrightarrow> n = 5 \<or> n = 6 \<or> n = 7"
  "bit (0xF0 :: u32) n \<longleftrightarrow> n = 4 \<or> n = 5 \<or> n = 6 \<or> n = 7"
proof -
  have m: "(0x3F :: u32) = mask 6" "(0x7F :: u32) = mask 7" "(0x1F :: u32) = mask 5" "(0x0F :: u32) = mask 4"
    "(0x07 :: u32) = mask 3" "(0x80 :: u32) = 2 ^ 7" "(0xC0 :: u32) = push_bit 6 (mask 2)"
    "(0xE0 :: u32) = push_bit 5 (mask 3)" "(0xF0 :: u32) = push_bit 4 (mask 4)"
    by (simp_all add: mask_eq_exp_minus_1)
  show "bit (0x3F :: u32) n \<longleftrightarrow> n < 6" "bit (0x7F :: u32) n \<longleftrightarrow> n < 7" "bit (0x1F :: u32) n \<longleftrightarrow> n < 5"
    "bit (0x0F :: u32) n \<longleftrightarrow> n < 4" "bit (0x07 :: u32) n \<longleftrightarrow> n < 3" "bit (0x80 :: u32) n \<longleftrightarrow> n = 7"
    "bit (0xC0 :: u32) n \<longleftrightarrow> n = 6 \<or> n = 7" "bit (0xE0 :: u32) n \<longleftrightarrow> n = 5 \<or> n = 6 \<or> n = 7"
    "bit (0xF0 :: u32) n \<longleftrightarrow> n = 4 \<or> n = 5 \<or> n = 6 \<or> n = 7"
    unfolding m by (auto simp: bit_push_bit_iff bit_mask_iff bit_exp_iff simp del: power_numeral)
qed

lemma utf8_bits:
  "bit (NOT 0x3F :: u8) n \<longleftrightarrow> n = 6 \<or> n = 7"
  "bit (NOT 0x7F :: u8) n \<longleftrightarrow> n = 7"
  "bit (NOT 0x1F :: u8) n \<longleftrightarrow> n = 5 \<or> n = 6 \<or> n = 7"
  "bit (NOT 0x0F :: u8) n \<longleftrightarrow> n = 4 \<or> n = 5 \<or> n = 6 \<or> n = 7"
  "bit (NOT 0x07 :: u8) n \<longleftrightarrow> n = 3 \<or> n = 4 \<or> n = 5 \<or> n = 6 \<or> n = 7"
  "bit (0x80 :: u8) n \<longleftrightarrow> n = 7"
  "bit (0xC0 :: u8) n \<longleftrightarrow> n = 6 \<or> n = 7"
  "bit (0xE0 :: u8) n \<longleftrightarrow> n = 5 \<or> n = 6 \<or> n = 7"
  "bit (0xF0 :: u8) n \<longleftrightarrow> n = 4 \<or> n = 5 \<or> n = 6 \<or> n = 7"
proof -
  have m: "(NOT 0x3F :: u8) = push_bit 6 (mask 2)" "(NOT 0x7F :: u8) = 2 ^ 7"
    "(NOT 0x1F :: u8) = push_bit 5 (mask 3)" "(NOT 0x0F :: u8) = push_bit 4 (mask 4)"
    "(NOT 0x07 :: u8) = push_bit 3 (mask 5)" "(0x80 :: u8) = 2 ^ 7"
    "(0xC0 :: u8) = push_bit 6 (mask 2)" "(0xE0 :: u8) = push_bit 5 (mask 3)" "(0xF0 :: u8) = push_bit 4 (mask 4)"
    by (simp_all add: mask_eq_exp_minus_1)
  show "bit (NOT 0x3F :: u8) n \<longleftrightarrow> n = 6 \<or> n = 7"
    "bit (NOT 0x7F :: u8) n \<longleftrightarrow> n = 7"
    "bit (NOT 0x1F :: u8) n \<longleftrightarrow> n = 5 \<or> n = 6 \<or> n = 7"
    "bit (NOT 0x0F :: u8) n \<longleftrightarrow> n = 4 \<or> n = 5 \<or> n = 6 \<or> n = 7"
    "bit (NOT 0x07 :: u8) n \<longleftrightarrow> n = 3 \<or> n = 4 \<or> n = 5 \<or> n = 6 \<or> n = 7"
    "bit (0x80 :: u8) n \<longleftrightarrow> n = 7"
    "bit (0xC0 :: u8) n \<longleftrightarrow> n = 6 \<or> n = 7"
    "bit (0xE0 :: u8) n \<longleftrightarrow> n = 5 \<or> n = 6 \<or> n = 7"
    "bit (0xF0 :: u8) n \<longleftrightarrow> n = 4 \<or> n = 5 \<or> n = 6 \<or> n = 7"
    unfolding m by (auto simp: bit_push_bit_iff bit_mask_iff bit_exp_iff simp del: power_numeral)
qed

section \<open>Encoding then decoding\<close>

lemma word8_eq_iff:
  "(a :: u8) = b \<longleftrightarrow> (bit a 0 = bit b 0) \<and> (bit a 1 = bit b 1) \<and> (bit a 2 = bit b 2) \<and> (bit a 3 = bit b 3)
     \<and> (bit a 4 = bit b 4) \<and> (bit a 5 = bit b 5) \<and> (bit a 6 = bit b 6) \<and> (bit a 7 = bit b 7)"
proof
  assume b: "(bit a 0 = bit b 0) \<and> (bit a 1 = bit b 1) \<and> (bit a 2 = bit b 2) \<and> (bit a 3 = bit b 3)
     \<and> (bit a 4 = bit b 4) \<and> (bit a 5 = bit b 5) \<and> (bit a 6 = bit b 6) \<and> (bit a 7 = bit b 7)"
  show "a = b"
  proof (rule bit_word_eqI)
    fix n
    assume "n < LENGTH(8)"
    then have "n = 0 \<or> n = 1 \<or> n = 2 \<or> n = 3 \<or> n = 4 \<or> n = 5 \<or> n = 6 \<or> n = 7" by simp arith
    then show "bit a n = bit b n" using b by (elim disjE) simp_all
  qed
qed simp

lemma utf8_len_bits:
  "utf8_len c =
     (if bit c 7 \<and> \<not> bit c 6 then Inr (Some 0) else if \<not> bit c 7 then Inr (Some 1)
      else if \<not> bit c 5 then Inr (Some 2) else if \<not> bit c 4 then Inr (Some 3)
      else if \<not> bit c 3 then Inr (Some 4) else Inl Bounds)"
proof -
  have e: "c AND NOT 0x3F = 0x80 \<longleftrightarrow> bit c 7 \<and> \<not> bit c 6" "c AND NOT 0x7F = 0 \<longleftrightarrow> \<not> bit c 7"
    "c AND NOT 0x1F = 0xC0 \<longleftrightarrow> bit c 7 \<and> bit c 6 \<and> \<not> bit c 5"
    "c AND NOT 0x0F = 0xE0 \<longleftrightarrow> bit c 7 \<and> bit c 6 \<and> bit c 5 \<and> \<not> bit c 4"
    "c AND NOT 0x07 = 0xF0 \<longleftrightarrow> bit c 7 \<and> bit c 6 \<and> bit c 5 \<and> bit c 4 \<and> \<not> bit c 3"
    by (simp_all only: word8_eq_iff bit_and_iff utf8_bits bit_0_eq bot_apply) auto
  have n: "NOT (0x3F :: u8) = - 64" "NOT (0x7F :: u8) = - 128" "NOT (0x1F :: u8) = - 32"
    "NOT (0x0F :: u8) = - 16" "NOT (0x07 :: u8) = - 8" by simp_all
  have "c \<noteq> 0" if "bit c 7" using that by auto
  then show ?thesis by (simp add: utf8_len_def utf_def e [unfolded n])
qed

lemma enc_byte_simps:
  "enc_byte 0 cp s = ucast ((drop_bit s cp AND 0x3F) OR 0x80 :: u32)"
  "enc_byte (Suc 0) cp s = ucast (drop_bit s cp AND 0x7F :: u32)"
  "enc_byte 2 cp s = ucast ((drop_bit s cp AND 0x1F) OR 0xC0 :: u32)"
  "enc_byte 3 cp s = ucast ((drop_bit s cp AND 0x0F) OR 0xE0 :: u32)"
  "enc_byte 4 cp s = ucast ((drop_bit s cp AND 0x07) OR 0xF0 :: u32)"
  by (simp_all add: enc_byte_def utf_def)

lemma enc_first_len:
  "utf8_len (enc_byte 2 cp s) = Inr (Some 2)" "utf8_len (enc_byte 3 cp s) = Inr (Some 3)"
  "utf8_len (enc_byte 4 cp s) = Inr (Some 4)"
  by (simp_all add: utf8_len_bits enc_byte_simps bit_simps bit_mask_consts)

lemma enc_ascii: "cp \<le> 0x7F \<Longrightarrow> utf8_len (enc_byte (Suc 0) cp 0) = Inr (Some 1)"
  by (simp only: utf8_len_bits enc_byte_simps bit_simps bit_mask_consts) simp

text \<open>Masking the stored byte again gives back the bits of the code point it holds.\<close>

lemma dec_enc:
  "ucast (enc_byte 0 cp s) AND (0x3F :: u32) = take_bit 6 (drop_bit s cp)"
  "ucast (enc_byte (Suc 0) cp s) AND (0x7F :: u32) = take_bit 7 (drop_bit s cp)"
  "ucast (enc_byte 2 cp s) AND (0x1F :: u32) = take_bit 5 (drop_bit s cp)"
  "ucast (enc_byte 3 cp s) AND (0x0F :: u32) = take_bit 4 (drop_bit s cp)"
  "ucast (enc_byte 4 cp s) AND (0x07 :: u32) = take_bit 3 (drop_bit s cp)"
  by (rule bit_word_eqI, simp only: enc_byte_simps bit_simps bit_mask_consts, auto)+

lemma high_bits_clear:
  fixes cp :: u32
  assumes "cp < 2 ^ k" "k \<le> n"
  shows "\<not> bit cp n"
proof -
  have "take_bit k cp = cp"
    using assms(1) by (simp add: less_mask_eq take_bit_eq_mask)
  then show ?thesis using assms(2) by (metis bit_take_bit_iff not_le)
qed

lemma utf8_cases:
  assumes "cp \<noteq> 0" "cp \<le> 0x10FFFF"
  obtains (1) "cp < 2 ^ 7" "codepoint_len cp = Inr (Some (Suc 0))"
    | (2) "cp < 2 ^ 11" "codepoint_len cp = Inr (Some 2)"
    | (3) "cp < 2 ^ 16" "codepoint_len cp = Inr (Some 3)"
    | (4) "cp < 2 ^ 21" "codepoint_len cp = Inr (Some 4)"
  using assms codepoint_len_eq [of cp] that
  by (auto simp: word_le_nat_alt word_less_nat_alt split: if_splits)

text \<open>Putting six-bit pieces together.\<close>

lemma join_bits:
  fixes cp :: u32
  shows "cp < 2 ^ 11 \<Longrightarrow> push_bit 6 (take_bit 5 (drop_bit 6 cp)) OR take_bit 6 cp = cp"
    "cp < 2 ^ 16 \<Longrightarrow> push_bit 12 (take_bit 4 (drop_bit 12 cp)) OR push_bit 6 (take_bit 6 (drop_bit 6 cp))
       OR take_bit 6 cp = cp"
    "cp < 2 ^ 21 \<Longrightarrow> push_bit 18 (take_bit 3 (drop_bit 18 cp)) OR push_bit 12 (take_bit 6 (drop_bit 12 cp))
       OR push_bit 6 (take_bit 6 (drop_bit 6 cp)) OR take_bit 6 cp = cp"
proof -
  show "push_bit 6 (take_bit 5 (drop_bit 6 cp)) OR take_bit 6 cp = cp" if "cp < 2 ^ 11"
  proof (rule bit_word_eqI)
    fix n :: nat
    consider "n < 6" | "6 \<le> n" "n < 11" | "11 \<le> n" by linarith
    then show "bit (push_bit 6 (take_bit 5 (drop_bit 6 cp)) OR take_bit 6 cp) n = bit cp n"
      by cases (auto simp: bit_simps high_bits_clear [OF that] dest: bit_imp_le_length)
  qed
  show "push_bit 12 (take_bit 4 (drop_bit 12 cp)) OR push_bit 6 (take_bit 6 (drop_bit 6 cp))
       OR take_bit 6 cp = cp" if "cp < 2 ^ 16"
  proof (rule bit_word_eqI)
    fix n :: nat
    consider "n < 6" | "6 \<le> n" "n < 12" | "12 \<le> n" "n < 16" | "16 \<le> n" by linarith
    then show "bit (push_bit 12 (take_bit 4 (drop_bit 12 cp)) OR push_bit 6 (take_bit 6 (drop_bit 6 cp))
       OR take_bit 6 cp) n = bit cp n"
      by cases (auto simp: bit_simps high_bits_clear [OF that] dest: bit_imp_le_length)
  qed
  show "push_bit 18 (take_bit 3 (drop_bit 18 cp)) OR push_bit 12 (take_bit 6 (drop_bit 12 cp))
       OR push_bit 6 (take_bit 6 (drop_bit 6 cp)) OR take_bit 6 cp = cp" if "cp < 2 ^ 21"
  proof (rule bit_word_eqI)
    fix n :: nat
    consider "n < 6" | "6 \<le> n" "n < 12" | "12 \<le> n" "n < 18" | "18 \<le> n" "n < 21" | "21 \<le> n" by linarith
    then show "bit (push_bit 18 (take_bit 3 (drop_bit 18 cp)) OR push_bit 12 (take_bit 6 (drop_bit 12 cp))
       OR push_bit 6 (take_bit 6 (drop_bit 6 cp)) OR take_bit 6 cp) n = bit cp n"
      by cases (auto simp: bit_simps high_bits_clear [OF that] dest: bit_imp_le_length)
  qed
qed

lemma to_utf8_bytes:
  "codepoint_len cp = Inr (Some (Suc 0)) \<Longrightarrow> to_utf8 cp = Inr (Some [enc_byte (Suc 0) cp 0, 0])"
  "codepoint_len cp = Inr (Some 2) \<Longrightarrow> to_utf8 cp = Inr (Some [enc_byte 2 cp 6, enc_byte 0 cp 0, 0])"
  "codepoint_len cp = Inr (Some 3) \<Longrightarrow>
     to_utf8 cp = Inr (Some [enc_byte 3 cp 12, enc_byte 0 cp 6, enc_byte 0 cp 0, 0])"
  "codepoint_len cp = Inr (Some 4) \<Longrightarrow>
     to_utf8 cp = Inr (Some [enc_byte 4 cp 18, enc_byte 0 cp 12, enc_byte 0 cp 6, enc_byte 0 cp 0, 0])"
  by (simp_all add: to_utf8_def upt_rec [of "Suc 0"] upt_rec_numeral numeral_eq_Suc)

lemma to_cp_loop_numeral:
  "to_cp_loop (c # chr) (numeral k) codep =
     to_cp_loop chr (pred_numeral k) (codep OR push_bit (6 * pred_numeral k) (ucast c AND ucast (u_mask (utf ! 0))))"
  by (simp add: numeral_eq_Suc)

lemma u_mask_utf:
  "ucast (u_mask (utf ! 0)) = (0x3F :: u32)" "ucast (u_mask (utf ! Suc 0)) = (0x7F :: u32)"
  "ucast (u_mask (utf ! 2)) = (0x1F :: u32)" "ucast (u_mask (utf ! 3)) = (0x0F :: u32)"
  "ucast (u_mask (utf ! 4)) = (0x07 :: u32)"
  by (simp_all add: utf_def)

section \<open>Properties\<close>

text \<open>
  (C27) Every code point from 1 to 0x10FFFF is encoded in one to four bytes with a terminator
  and decoded back to itself; the length of the encoding is the one \<open>codepoint_len\<close> gives and
  \<open>utf8_len\<close> reads it off the first byte.
\<close>

theorem utf8_roundtrip:
  assumes "cp \<noteq> 0" "cp \<le> 0x10FFFF"
  shows "\<exists>n bs. codepoint_len cp = Inr (Some n) \<and> 1 \<le> n \<and> n \<le> 4
    \<and> to_utf8 cp = Inr (Some (bs @ [0])) \<and> length bs = n
    \<and> utf8_len (hd bs) = Inr (Some n) \<and> to_cp (bs @ [0]) = Inr cp"
  using assms
proof (cases rule: utf8_cases)
  case 1
  have "take_bit 7 cp = cp" using 1(1) by (simp add: take_bit_eq_mask less_mask_eq)
  moreover have "cp \<le> 0x7F" using 1(1) by (simp add: word_le_nat_alt word_less_nat_alt)
  then have "utf8_len (enc_byte (Suc 0) cp 0) = Inr (Some 1)" by (rule enc_ascii)
  ultimately show ?thesis
    using 1 by (intro exI [of _ "Suc 0"] exI [of _ "[enc_byte (Suc 0) cp 0]"])
      (simp add: to_utf8_bytes to_cp_def u_mask_utf dec_enc)
next
  case 2
  then show ?thesis
    by (intro exI [of _ 2] exI [of _ "[enc_byte 2 cp 6, enc_byte 0 cp 0]"])
      (simp add: to_utf8_bytes to_cp_def u_mask_utf dec_enc enc_first_len join_bits)
next
  case 3
  then show ?thesis
    by (intro exI [of _ 3] exI [of _ "[enc_byte 3 cp 12, enc_byte 0 cp 6, enc_byte 0 cp 0]"])
      (simp add: to_utf8_bytes to_cp_def u_mask_utf dec_enc enc_first_len join_bits
        to_cp_loop_numeral or.assoc)
next
  case 4
  then show ?thesis
    by (intro exI [of _ 4]
        exI [of _ "[enc_byte 4 cp 18, enc_byte 0 cp 12, enc_byte 0 cp 6, enc_byte 0 cp 0]"])
      (simp add: to_utf8_bytes to_cp_def u_mask_utf dec_enc enc_first_len join_bits
        to_cp_loop_numeral or.assoc)
qed

theorem utf8_roundtrip_witness:
  "\<exists>bs. to_utf8 0x20AC = Inr (Some (bs @ [0])) \<and> to_cp (bs @ [0]) = Inr 0x20AC"
  using utf8_roundtrip [of "0x20AC"] by auto

text \<open>
  A code point above 0x10FFFF is not rejected: the last table entry is a zeroed structure,
  not a NULL pointer, so the search leaves the table instead of returning -1. The decoder does
  the same on a first byte of 0xF8 or more.
\<close>

theorem codepoint_len_overruns:
  "(0x10FFFF < cp \<longrightarrow> codepoint_len cp = Inl Bounds \<and> to_utf8 cp = Inl Bounds)
   \<and> (0xF8 \<le> c \<longrightarrow> utf8_len c = Inl Bounds)"
proof (intro conjI impI)
  assume "0x10FFFF < cp"
  then show *: "codepoint_len cp = Inl Bounds"
    by (auto simp: codepoint_len_eq word_le_nat_alt word_less_nat_alt)
  then show "to_utf8 cp = Inl Bounds" by (simp add: to_utf8_def)
next
  assume c: "0xF8 \<le> c"
  have "c = 0xF8 \<or> c = 0xF9 \<or> c = 0xFA \<or> c = 0xFB \<or> c = 0xFC \<or> c = 0xFD \<or> c = 0xFE \<or> c = 0xFF"
  proof -
    have "248 \<le> unat c" "unat c < 256" using c unat_lt_256 [of c] by (simp_all add: word_le_nat_alt)
    then have "unat c \<in> {248, 249, 250, 251, 252, 253, 254, 255}" by auto
    then show ?thesis by (auto simp: word_unat_eq_iff)
  qed
  then show "utf8_len c = Inl Bounds" by (elim disjE) (simp_all add: utf8_len_def utf_def)
qed

theorem codepoint_len_overruns_witness:
  "to_utf8 0x110000 = Inl Bounds \<and> utf8_len 0xFF = Inl Bounds"
  using codepoint_len_overruns [of "0x110000" "0xFF"] by simp

end
