(* ===== verification/Fat32.thy ===== *)
theory Fat32
  imports Libc Utf8
begin

text \<open>
  The FAT32 structures and helpers of \<^verbatim>\<open>labs/13-fat32/1-code\<close>: the on-disk layouts of \<^verbatim>\<open>fat32.h\<close>
  with the offset checks of \<^verbatim>\<open>fat32-check-offsets.h\<close>, the boot record helpers (\<open>mbr-helpers.c\<close>),
  the volume, table and directory helpers (\<open>fat32-helpers.c\<close>), long file names
  (\<open>fat32-lfn-helpers.c\<close>) and the directory conversions of \<open>driver.c\<close>. A packed structure is the
  bytes it occupies, read through its layout: the code casts between \<open>fat32_dir_t\<close> and
  \<open>lfn_dir_t\<close>, and the two layouts are two views of the same 32 bytes. A directory is a list of
  such entries.
\<close>

section \<open>Layouts\<close>

type_synonym layout = "(string \<times> nat) list"

text \<open>Offset and size of a field of a packed structure.\<close>

fun field_off :: "layout \<Rightarrow> string \<Rightarrow> (nat \<times> nat) option" where
  "field_off [] f = None"
| "field_off ((g, n) # l) f =
     (if f = g then Some (0, n) else map_option (\<lambda>(off, sz). (off + n, sz)) (field_off l f))"

definition struct_size :: "layout \<Rightarrow> nat" where
  "struct_size l = sum_list (map snd l)"

definition field :: "layout \<Rightarrow> string \<Rightarrow> bytes \<Rightarrow> bytes" where
  "field l f bs = (case field_off l f of None \<Rightarrow> [] | Some (off, sz) \<Rightarrow> take sz (drop off bs))"

text \<open>A little-endian integer field.\<close>

fun le_num :: "bytes \<Rightarrow> nat" where
  "le_num [] = 0"
| "le_num (b # bs) = unat b + 256 * le_num bs"

definition num_field :: "layout \<Rightarrow> string \<Rightarrow> bytes \<Rightarrow> nat" where
  "num_field l f bs = le_num (field l f bs)"

definition mbr_layout :: layout where
  "mbr_layout = [
    (''code'', 446), (''part_tab1'', 16), (''part_tab2'', 16), (''part_tab3'', 16),
     (''part_tab4'', 16), (''sigval'', 2)]"

definition partition_layout :: layout where
  "partition_layout = [
    (''bootable_p'', 1), (''chs_start'', 3), (''part_type'', 1), (''chs_end'', 3),
     (''lba_start'', 4), (''nsec'', 4)]"

definition fsinfo_layout :: layout where
  "fsinfo_layout = [
    (''sig1'', 4), (''_reserved0'', 480), (''sig2'', 4), (''free_cluster_count'', 4),
     (''next_free_cluster'', 4), (''_reserved1'', 12), (''sig3'', 4)]"

definition boot_sec_layout :: layout where
  "boot_sec_layout = [
    (''asm_code'', 3), (''oem'', 8), (''bytes_per_sec'', 2), (''sec_per_cluster'', 1),
     (''reserved_area_nsec'', 2), (''nfats'', 1), (''max_files'', 2), (''fs_nsec'', 2),
     (''media_type'', 1), (''zero'', 2), (''sec_per_track'', 2), (''n_heads'', 2),
     (''hidden_secs'', 4), (''nsec_in_fs'', 4), (''nsec_per_fat'', 4), (''mirror_flags'', 2),
     (''version'', 2), (''first_cluster'', 4), (''info_sec_num'', 2), (''backup_boot_loc'', 2),
     (''reserved'', 12), (''logical_drive_num'', 1), (''reserved1'', 1), (''extended_sig'', 1),
     (''serial_num'', 4), (''volume_label'', 11), (''fs_type'', 8), (''ignore'', 420), (''sig'', 2)]"

definition dir_layout :: layout where
  "dir_layout = [
    (''filename'', 11), (''attr'', 1), (''reserved0'', 1), (''ctime_tenths'', 1), (''ctime'', 2),
     (''create_date'', 2), (''access_date'', 2), (''hi_start'', 2), (''mod_time'', 2),
     (''mod_date'', 2), (''lo_start'', 2), (''file_nbytes'', 4)]"

definition lfn_layout :: layout where
  "lfn_layout = [
    (''seqno'', 1), (''name1_5'', 10), (''attr'', 1), (''reserved'', 1), (''cksum'', 1),
     (''name6_11'', 12), (''reserved1'', 2), (''name12_13'', 4)]"

text \<open>The static checks: field, expected offset, expected size.\<close>

definition check_off_static :: "layout \<Rightarrow> string \<times> nat \<times> nat \<Rightarrow> bool" where
  "check_off_static l = (\<lambda>(f, off, nbytes). field_off l f = Some (off, nbytes))"

definition mbr_offsets :: "(string \<times> nat \<times> nat) list" where
  "mbr_offsets = [
    (''code'', 0, 446), (''part_tab1'', 446, 16), (''part_tab2'', 462, 16),
     (''part_tab3'', 478, 16), (''part_tab4'', 494, 16), (''sigval'', 510, 2)]"

definition fsinfo_offsets :: "(string \<times> nat \<times> nat) list" where
  "fsinfo_offsets = [
    (''sig1'', 0, 4), (''_reserved0'', 4, 480), (''sig2'', 484, 4),
     (''free_cluster_count'', 488, 4), (''next_free_cluster'', 492, 4), (''_reserved1'', 496, 12),
     (''sig3'', 508, 4)]"

definition boot_sec_offsets :: "(string \<times> nat \<times> nat) list" where
  "boot_sec_offsets = [
    (''asm_code'', 0, 3), (''oem'', 3, 8), (''bytes_per_sec'', 11, 2),
     (''sec_per_cluster'', 13, 1), (''reserved_area_nsec'', 14, 2), (''nfats'', 16, 1),
     (''max_files'', 17, 2), (''fs_nsec'', 19, 2), (''media_type'', 21, 1), (''zero'', 22, 2),
     (''sec_per_track'', 24, 2), (''n_heads'', 26, 2), (''hidden_secs'', 28, 4),
     (''nsec_in_fs'', 32, 4), (''nsec_per_fat'', 36, 4), (''mirror_flags'', 40, 2),
     (''version'', 42, 2), (''first_cluster'', 44, 4), (''info_sec_num'', 48, 2),
     (''backup_boot_loc'', 50, 2), (''reserved'', 52, 12), (''logical_drive_num'', 64, 1),
     (''reserved1'', 65, 1), (''extended_sig'', 66, 1), (''serial_num'', 67, 4),
     (''volume_label'', 71, 11), (''fs_type'', 82, 8), (''ignore'', 90, 420), (''sig'', 510, 2)]"

definition dir_offsets :: "(string \<times> nat \<times> nat) list" where
  "dir_offsets = [
    (''filename'', 0, 11), (''attr'', 11, 1), (''reserved0'', 12, 1), (''ctime_tenths'', 13, 1),
     (''ctime'', 14, 2), (''create_date'', 16, 2), (''access_date'', 18, 2), (''hi_start'', 20, 2),
     (''mod_time'', 22, 2), (''mod_date'', 24, 2), (''lo_start'', 26, 2), (''file_nbytes'', 28, 4)]"

definition lfn_offsets :: "(string \<times> nat \<times> nat) list" where
  "lfn_offsets = [
    (''seqno'', 0, 1), (''name1_5'', 1, 10), (''attr'', 11, 1), (''reserved'', 12, 1),
     (''cksum'', 13, 1), (''name6_11'', 14, 12), (''reserved1'', 26, 2), (''name12_13'', 28, 4)]"

section \<open>Master boot record\<close>

definition mbr_part_is_fat32 :: "nat \<Rightarrow> bool" where
  "mbr_part_is_fat32 t \<longleftrightarrow> t = 0xb \<or> t = 0xc"

definition mbr_partition_empty :: "bytes \<Rightarrow> bool result" where
  "mbr_partition_empty part = memiszero part 16"

definition mbr_check :: "bytes \<Rightarrow> unit result" where
  "mbr_check mbr =
     (let part = (\<lambda>f. field mbr_layout f mbr) in
      rbind (c_assert (num_field mbr_layout ''sigval'' mbr = 0xAA55) ''mbr->sigval == 0xAA55'') (\<lambda>_.
      rbind (c_assert (mbr_part_is_fat32 (num_field partition_layout ''part_type'' (part ''part_tab1'')))
               ''mbr_part_is_fat32(p.part_type)'') (\<lambda>_.
      rbind (mbr_partition_empty (part ''part_tab1'')) (\<lambda>e1.
      rbind (c_assert (\<not> e1) ''!mbr_partition_empty(part_tab1)'') (\<lambda>_.
      rbind (mbr_partition_empty (part ''part_tab2'')) (\<lambda>e2.
      rbind (c_assert e2 ''mbr_partition_empty(part_tab2)'') (\<lambda>_.
      rbind (mbr_partition_empty (part ''part_tab3'')) (\<lambda>e3.
      rbind (c_assert e3 ''mbr_partition_empty(part_tab3)'') (\<lambda>_.
      rbind (mbr_partition_empty (part ''part_tab4'')) (\<lambda>e4.
        c_assert e4 ''mbr_partition_empty(part_tab4)''))))))))))"

definition mbr_get_partition :: "bytes \<Rightarrow> nat \<Rightarrow> bytes result" where
  "mbr_get_partition mbr partno =
     rbind (c_assert (partno < 4) ''partno < 4'') (\<lambda>_.
       if length mbr < 446 + 16 * partno + 16 then Inl Bounds
       else Inr (take 16 (drop (446 + 16 * partno) mbr)))"

definition part_names :: "(nat \<times> string) list" where
  "part_names = [
    (0x00, ''Empty''),
    (0x01, ''FAT12 - CHS''),
    (0x04, ''FAT16 - 16-32 MB - CHS''),
    (0x05, ''Microsoft Extended - CHS''),
    (0x06, ''FAT16 - 32 MB-2 GB - CHS''),
    (0x07, ''NTFS''),
    (0x0b, ''FAT32 - CHS''),
    (0x0c, ''FAT32 - LBA''),
    (0x0e, ''FAT16 - 32 MB-2 GB - LBA''),
    (0x0f, ''Microsoft Extended - LBA''),
    (0x11, ''Hidden FAT12 - CHS''),
    (0x14, ''Hidden FAT16 - 16-32 MB - CHS''),
    (0x16, ''Hidden FAT16 - 32 MB-2 GB - CHS''),
    (0x1b, ''Hidden FAT32 - CHS''),
    (0x1c, ''Hidden FAT32 - LBA''),
    (0x1e, ''Hidden FAT16 - 32 MB-2 GB - LBA''),
    (0x42, ''Microsoft MBR - Dynamic Disk''),
    (0x82, ''Solaris x86 or Linux swap?''),
    (0x83, ''Linux''),
    (0x84, ''Hibernation''),
    (0x85, ''Linux Extended''),
    (0x86, ''NTFS Volume Set''),
    (0x87, ''NTFS Volume Set''),
    (0xa0, ''Hibernation''),
    (0xa1, ''Hibernation''),
    (0xa5, ''FreeBSD''),
    (0xa6, ''OpenBSD''),
    (0xa8, ''Mac OSX''),
    (0xa9, ''NetBSD''),
    (0xab, ''Mac OSX Boot''),
    (0xb7, ''BSDI''),
    (0xb8, ''BSDI swap''),
    (0xee, ''EFI GPT Disk''),
    (0xef, ''EFI System Partition''),
    (0xfb, ''Vmware File System''),
    (0xfc, ''Vmware swap'')]"

definition mbr_part_str :: "nat \<Rightarrow> string result" where
  "mbr_part_str x =
     (case map_of part_names x of Some s \<Rightarrow> Inr s | None \<Rightarrow> Inl (Panic ''unknown type''))"

section \<open>Volume id, fsinfo and the table\<close>

definition is_pow2 :: "u32 \<Rightarrow> bool" where
  "is_pow2 x \<longleftrightarrow> x AND (- x) = x"

definition fat32_volume_id_check :: "bytes \<Rightarrow> unit result" where
  "fat32_volume_id_check b =
     (let g = (\<lambda>f. num_field boot_sec_layout f b); n = g ''bytes_per_sec'' in
      rbind (c_assert (n = 512) ''b->bytes_per_sec == 512'') (\<lambda>_.
      rbind (c_assert (g ''nfats'' = 2) ''b->nfats == 2'') (\<lambda>_.
      rbind (c_assert (g ''sig'' = 0xAA55) ''b->sig == 0xAA55'') (\<lambda>_.
      rbind (c_assert (is_pow2 (of_nat (g ''sec_per_cluster''))) ''is_pow2(b->sec_per_cluster)'') (\<lambda>_.
      rbind (c_assert (n = 512 \<or> n = 1024 \<or> n = 2048 \<or> n = 4096) ''n == 512 || ...'') (\<lambda>_.
      rbind (c_assert (g ''max_files'' = 0) ''!b->max_files'') (\<lambda>_.
      rbind (c_assert (g ''fs_nsec'' = 0) ''b->fs_nsec == 0'') (\<lambda>_.
      rbind (c_assert (g ''zero'' = 0) ''b->zero == 0'') (\<lambda>_.
      rbind (c_assert (g ''nsec_in_fs'' \<noteq> 0) ''b->nsec_in_fs != 0'') (\<lambda>_.
      rbind (c_assert (g ''info_sec_num'' = 1) ''b->info_sec_num == 1'') (\<lambda>_.
      rbind (c_assert (g ''backup_boot_loc'' = 6) ''b->backup_boot_loc == 6'') (\<lambda>_.
        c_assert (g ''extended_sig'' = 0x29) ''b->extended_sig == 0x29''))))))))))))"

definition fat32_fsinfo_check :: "bytes \<Rightarrow> unit result" where
  "fat32_fsinfo_check info =
     (let g = (\<lambda>f. num_field fsinfo_layout f info) in
      rbind (c_assert (g ''sig1'' = 0x41615252) ''info->sig1 == 0x41615252'') (\<lambda>_.
      rbind (c_assert (g ''sig2'' = 0x61417272) ''info->sig2 == 0x61417272'') (\<lambda>_.
        c_assert (g ''sig3'' = 0xaa550000) ''info->sig3 == 0xaa550000'')))"

definition FREE_CLUSTER :: u32 where "FREE_CLUSTER = 0"
definition RESERVED_CLUSTER :: u32 where "RESERVED_CLUSTER = 1"
definition BAD_CLUSTER :: u32 where "BAD_CLUSTER = 0xFFFFFF7"
definition LAST_CLUSTER :: u32 where "LAST_CLUSTER = 0xFFFFFF8"
definition USED_CLUSTER :: u32 where "USED_CLUSTER = 0xFFFFFF9"

lemmas cluster_consts = FREE_CLUSTER_def RESERVED_CLUSTER_def BAD_CLUSTER_def LAST_CLUSTER_def USED_CLUSTER_def

definition fat32_fat_entry_type_str :: "u32 \<Rightarrow> string result" where
  "fat32_fat_entry_type_str x =
     (if x = FREE_CLUSTER then Inr ''FREE_CLUSTER''
      else if x = RESERVED_CLUSTER then Inr ''RESERVED_CLUSTER''
      else if x = BAD_CLUSTER then Inr ''BAD_CLUSTER''
      else if x = LAST_CLUSTER then Inr ''LAST_CLUSTER''
      else if x = USED_CLUSTER then Inr ''USED_CLUSTER''
      else Inl (Panic ''bad value''))"

definition fat32_fat_entry_type :: "u32 \<Rightarrow> u32 result" where
  "fat32_fat_entry_type x0 =
     (let x = drop_bit 4 (push_bit 4 x0) in
      if x = FREE_CLUSTER \<or> x = RESERVED_CLUSTER \<or> x = BAD_CLUSTER then Inr x
      else if x \<ge> 0x2 \<and> x \<le> 0xFFFFFEF then Inr USED_CLUSTER
      else if x \<ge> 0xFFFFFF0 \<and> x \<le> 0xFFFFFF6 then Inl (Panic ''reserved value'')
      else if x \<ge> 0xFFFFFF8 \<and> x \<le> 0xFFFFFFF then Inr LAST_CLUSTER
      else Inl (Panic ''impossible type value''))"

section \<open>Directory entries\<close>

definition FAT32_RO :: nat where "FAT32_RO = 0x01"
definition FAT32_HIDDEN :: nat where "FAT32_HIDDEN = 0x02"
definition FAT32_SYSTEM_FILE :: nat where "FAT32_SYSTEM_FILE = 0x04"
definition FAT32_VOLUME_LABEL :: nat where "FAT32_VOLUME_LABEL = 0x08"
definition FAT32_LONG_FILE_NAME :: nat where "FAT32_LONG_FILE_NAME = 0x0f"
definition FAT32_DIR :: nat where "FAT32_DIR = 0x10"
definition FAT32_ARCHIVE :: nat where "FAT32_ARCHIVE = 0x20"

lemmas fat32_attrs = FAT32_RO_def FAT32_HIDDEN_def FAT32_SYSTEM_FILE_def FAT32_VOLUME_LABEL_def
  FAT32_LONG_FILE_NAME_def FAT32_DIR_def FAT32_ARCHIVE_def

definition dir_attr :: "bytes \<Rightarrow> nat" where
  "dir_attr d = num_field dir_layout ''attr'' d"

definition dir_filename :: "bytes \<Rightarrow> bytes" where
  "dir_filename d = field dir_layout ''filename'' d"

definition fat32_cluster_id :: "bytes \<Rightarrow> u32" where
  "fat32_cluster_id d =
     push_bit 16 (of_nat (num_field dir_layout ''hi_start'' d)) OR of_nat (num_field dir_layout ''lo_start'' d)"

definition fat32_is_dir :: "bytes \<Rightarrow> bool" where
  "fat32_is_dir d \<longleftrightarrow> dir_attr d = FAT32_DIR"

definition fat32_is_attr :: "nat \<Rightarrow> nat \<Rightarrow> bool" where
  "fat32_is_attr x flag = (if x = FAT32_LONG_FILE_NAME then x = flag else x AND flag = flag)"

definition fat32_dirent_is_lfn :: "bytes \<Rightarrow> bool" where
  "fat32_dirent_is_lfn d \<longleftrightarrow> dir_attr d = FAT32_LONG_FILE_NAME"

definition lfn_is_deleted :: "u8 \<Rightarrow> bool" where
  "lfn_is_deleted seqno \<longleftrightarrow> seqno AND 0xe5 = 0xe5"

definition lfn_is_last :: "u8 \<Rightarrow> bool" where
  "lfn_is_last seqno \<longleftrightarrow> seqno AND 0x40 \<noteq> 0"

definition lfn_is_first :: "u8 \<Rightarrow> bool" where
  "lfn_is_first seqno \<longleftrightarrow> seqno AND NOT 0x40 = 1"

definition lfn_seqno :: "bytes \<Rightarrow> u8" where
  "lfn_seqno l = of_nat (num_field lfn_layout ''seqno'' l)"

definition fat32_dirent_is_deleted_lfn :: "bytes \<Rightarrow> bool result" where
  "fat32_dirent_is_deleted_lfn d =
     rbind (c_assert (dir_attr d = FAT32_LONG_FILE_NAME) ''d->attr == FAT32_LONG_FILE_NAME'') (\<lambda>_.
       Inr (lfn_is_deleted (lfn_seqno d)))"

definition fat32_dirent_free :: "bytes \<Rightarrow> bool result" where
  "fat32_dirent_free d =
     rbind (arr_get (dir_filename d) 0) (\<lambda>x.
       if dir_attr d = FAT32_LONG_FILE_NAME then fat32_dirent_is_deleted_lfn d
       else Inr (x = 0 \<or> x = 0xe5))"

definition fat32_dir_attr_str :: "nat \<Rightarrow> string result" where
  "fat32_dir_attr_str attr0 =
     (if attr0 = FAT32_LONG_FILE_NAME then Inr '' LONG FILE NAME''
      else
        (let (b1, a1) = (if fat32_is_attr attr0 FAT32_RO then (''R/O'', attr0 - FAT32_RO) else ([], attr0));
             (b2, a2) = (if fat32_is_attr a1 FAT32_HIDDEN then (b1 @ '' HIDDEN'', a1 - FAT32_HIDDEN) else (b1, a1))
         in if a2 = FAT32_SYSTEM_FILE then Inr (b2 @ '' SYSTEM FILE'')
            else if a2 = FAT32_VOLUME_LABEL then Inr (b2 @ '' VOLUME LABEL'')
            else if a2 = FAT32_DIR then Inr (b2 @ '' DIR'')
            else if a2 = FAT32_ARCHIVE then Inr (b2 @ '' ARCHIVE'')
            else Inl (Panic ''unhandled attr'')))"

text \<open>
  The search for the last character of the name that is not a blank: the number of characters
  kept, or None when the index runs down to -1.
\<close>

fun last_nonspace :: "nat \<Rightarrow> bytes \<Rightarrow> nat option" where
  "last_nonspace 0 s = None"
| "last_nonspace (Suc i) s = (if s ! i \<noteq> 32 then Some (Suc i) else last_nonspace i s)"

text \<open>The static buffer \<open>s[14]\<close> up to and including its terminator; index -1 is outside it.\<close>

definition to_8dot3 :: "bytes \<Rightarrow> bytes result" where
  "to_8dot3 p =
     (if length p < 11 then Inl Bounds
      else case last_nonspace 8 (take 8 p) of
             None \<Rightarrow> Inl Bounds
           | Some i \<Rightarrow> Inr (take i p @ [46] @ take 3 (drop 8 p) @ [0]))"

definition fat32_dirent_name :: "bytes \<Rightarrow> bytes \<Rightarrow> bytes result" where
  "fat32_dirent_name d name = rbind (to_8dot3 (dir_filename d)) (\<lambda>s. strcpy name s)"

fun dir_lookup_loop :: "bytes \<Rightarrow> bytes list \<Rightarrow> nat \<Rightarrow> nat option result" where
  "dir_lookup_loop name [] i = Inr None"
| "dir_lookup_loop name (d # ds) i =
     rbind (fat32_dirent_free d) (\<lambda>fr.
       if fr \<or> fat32_dirent_is_lfn d then dir_lookup_loop name ds (i + 1)
       else rbind (memcmp name (dir_filename d) 11) (\<lambda>v.
         if v = 0 then Inr (Some i) else dir_lookup_loop name ds (i + 1)))"

text \<open>The index of the entry, or None for -1.\<close>

definition fat32_dir_lookup :: "bytes \<Rightarrow> bytes list \<Rightarrow> nat option result" where
  "fat32_dir_lookup name dirs = dir_lookup_loop name dirs 0"

record dirent_t =
  de_name :: bytes
  raw_name :: bytes
  cluster_id :: u32
  is_dir_p :: bool
  de_nbytes :: nat

definition fat32_dirent_convert :: "bytes \<Rightarrow> dirent_t result" where
  "fat32_dirent_convert d =
     rbind (fat32_dirent_name d (replicate 16 0)) (\<lambda>nm.
       Inr \<lparr>de_name = nm, raw_name = dir_filename d @ replicate 5 0, cluster_id = fat32_cluster_id d,
            is_dir_p = fat32_is_dir d, de_nbytes = num_field dir_layout ''file_nbytes'' d\<rparr>)"

definition dirent_fat32_lookup :: "bytes \<Rightarrow> bytes list \<Rightarrow> dirent_t option result" where
  "dirent_fat32_lookup raw dirs =
     rbind (fat32_dir_lookup raw dirs) (\<lambda>r.
       case r of
         None \<Rightarrow> Inr None
       | Some i \<Rightarrow> rbind (fat32_dirent_convert (dirs ! i)) (\<lambda>e. Inr (Some e)))"

text \<open>Of the printing helper, what can stop it: an attribute or a name it cannot render.\<close>

definition fat32_dirent_print_helper :: "bytes \<Rightarrow> unit result" where
  "fat32_dirent_print_helper d =
     rbind (fat32_dirent_free d) (\<lambda>fr.
       if fr \<or> dir_attr d = FAT32_LONG_FILE_NAME then Inr ()
       else rbind (if fat32_is_attr (dir_attr d) FAT32_ARCHIVE \<or> fat32_is_attr (dir_attr d) FAT32_DIR
                   then Inr [] else fat32_dir_attr_str (dir_attr d)) (\<lambda>_.
         rbind (to_8dot3 (dir_filename d)) (\<lambda>_. Inr ())))"

section \<open>Long file names\<close>

definition lfn_checksum_step :: "u8 \<Rightarrow> u8 \<Rightarrow> u8" where
  "lfn_checksum_step s b = push_bit 7 (s AND 1) + drop_bit 1 s + b"

definition lfn_checksum :: "bytes \<Rightarrow> u8 result" where
  "lfn_checksum p =
     (if length p < 11 then Inl Bounds else Inr (foldl lfn_checksum_step 0 (take 11 p)))"

definition lfn_terminator :: "u8 \<Rightarrow> u8 \<Rightarrow> bool" where
  "lfn_terminator x0 x1 \<longleftrightarrow> (x0 = 0 \<and> x1 = 0) \<or> (x0 = 0xff \<and> x1 = 0xff)"

text \<open>
  Append to the string in \<open>filename[512]\<close>: \<open>buf\<close> is the text so far, and the terminator must fit
  as well. \<open>to_utf8\<close> gives NULL for no 16-bit code unit.
\<close>

fun utf8_append :: "bytes \<Rightarrow> bytes \<Rightarrow> bytes result" where
  "utf8_append buf [] = Inr buf"
| "utf8_append buf [x] = Inl (AssertFail ''nbytes%2 == 0'')"
| "utf8_append buf (x0 # x1 # rest) =
     (if lfn_terminator x0 x1 then Inr buf
      else rbind (to_utf8 (ucast x0 OR push_bit 8 (ucast x1))) (\<lambda>r.
        case r of
          None \<Rightarrow> Inl Bounds
        | Some enc \<Rightarrow>
            (let b' = buf @ takeWhile (\<lambda>c. c \<noteq> 0) enc in
             if length b' < 512 then utf8_append b' rest else Inl Bounds)))"

definition lfn_append_entry :: "bytes \<Rightarrow> bytes \<Rightarrow> bytes result" where
  "lfn_append_entry buf l =
     rbind (c_assert (num_field lfn_layout ''attr'' l = FAT32_LONG_FILE_NAME)
              ''l->attr == FAT32_LONG_FILE_NAME'') (\<lambda>_.
     rbind (utf8_append buf (field lfn_layout ''name1_5'' l)) (\<lambda>buf.
     rbind (utf8_append buf (field lfn_layout ''name6_11'' l)) (\<lambda>buf.
       utf8_append buf (field lfn_layout ''name12_13'' l))))"

fun lfn_get_name_loop :: "bytes \<Rightarrow> bytes list \<Rightarrow> bytes result" where
  "lfn_get_name_loop buf [] = Inr buf"
| "lfn_get_name_loop buf (l # ls) = rbind (lfn_append_entry buf l) (\<lambda>buf. lfn_get_name_loop buf ls)"

text \<open>
  The entries are visited from the last to the first, so one that is not there is read at once; the result
  is the text before the NUL.
\<close>

definition lfn_get_name :: "bytes list \<Rightarrow> nat \<Rightarrow> bytes result" where
  "lfn_get_name s cnt = (if length s < cnt then Inl Bounds else lfn_get_name_loop [] (rev (take cnt s)))"

fun count_lfn :: "bytes list \<Rightarrow> nat" where
  "count_lfn [] = 0"
| "count_lfn (d # ds) = (if dir_attr d \<noteq> FAT32_LONG_FILE_NAME then 0 else Suc (count_lfn ds))"

definition lower_case :: "bool \<Rightarrow> u8 \<Rightarrow> u8" where
  "lower_case p c = (if p \<and> 65 \<le> c \<and> c \<le> 90 then c + 32 else c)"

definition short_name :: "bytes \<Rightarrow> bytes" where
  "short_name d =
     (let lc = (num_field dir_layout ''reserved0'' d = 0x18); f = dir_filename d in
      map (lower_case lc) (filter (\<lambda>c. c \<noteq> 32) (take 8 f)) @ [46] @ map (lower_case lc) (drop 8 f))"

text \<open>
  \<open>d\<close> is the list of entries from the pointer to the end; the result is the name and how many
  entries the returned pointer is ahead.
\<close>

definition fat32_dir_filename :: "bytes list \<Rightarrow> (bytes \<times> nat) result" where
  "fat32_dir_filename d =
     (case d of [] \<Rightarrow> Inl Bounds | d0 # ds \<Rightarrow>
      rbind (fat32_dirent_free d0) (\<lambda>fr.
      rbind (c_assert (\<not> fr) ''!fat32_dirent_free(d)'') (\<lambda>_.
      if dir_attr d0 = FAT32_LONG_FILE_NAME then
        (let cnt = 1 + count_lfn ds in
         rbind (c_assert (cnt < length d) ''cnt < n'') (\<lambda>_.
         rbind (c_assert (fat32_is_attr (dir_attr (d ! cnt)) FAT32_DIR
                  \<or> fat32_is_attr (dir_attr (d ! cnt)) FAT32_ARCHIVE) ''is_attr(d[cnt].attr, ...)'') (\<lambda>_.
         rbind (lfn_get_name d cnt) (\<lambda>nm. Inr (nm, cnt)))))
      else
        rbind (c_assert (fat32_is_attr (dir_attr d0) FAT32_DIR \<or> fat32_is_attr (dir_attr d0) FAT32_ARCHIVE
                 \<or> fat32_is_attr (dir_attr d0) FAT32_VOLUME_LABEL) ''is_attr(x, ...)'') (\<lambda>_.
          Inr (short_name d0, 0)))))"

text \<open>The checks of \<open>lfn_print\<close>; the entries themselves are not printed.\<close>

definition lfn_print :: "bytes list \<Rightarrow> nat \<Rightarrow> u8 \<Rightarrow> unit result" where
  "lfn_print s cnt cksum =
     rbind (c_assert (cnt \<ge> 1) ''cnt >= 1'') (\<lambda>_.
     rbind (c_demand (cnt > 0 \<and> cnt < 3) ''weird for cs140e if larger!'') (\<lambda>_.
     if length s < cnt then Inl Bounds
     else
       rbind (c_assert (\<forall>l \<in> set (take cnt s). \<not> lfn_is_deleted (lfn_seqno l)
                  \<and> num_field lfn_layout ''cksum'' l = unat cksum) ''s[i].cksum == cksum'') (\<lambda>_.
       rbind (c_assert (lfn_is_last (lfn_seqno (s ! 0))) ''lfn_is_last(s->seqno)'') (\<lambda>_.
         c_assert (lfn_is_first (lfn_seqno (s ! (cnt - 1)))) ''lfn_is_first((s+cnt-1)->seqno)''))))"

text \<open>The number of entries to advance by; \<open>d\<close> is the list of the entries left.\<close>

definition fat32_lfn_print :: "bytes list \<Rightarrow> nat result" where
  "fat32_lfn_print d =
     (case d of [] \<Rightarrow> Inl Bounds | d0 # _ \<Rightarrow>
      if dir_attr d0 \<noteq> FAT32_LONG_FILE_NAME
      then rbind (fat32_dirent_print_helper d0) (\<lambda>_. Inr 1)
      else
        (let cnt = count_lfn d in
         rbind (c_assert (cnt < length d) ''cnt < left'') (\<lambda>_.
         rbind (c_assert (fat32_is_attr (dir_attr (d ! cnt)) FAT32_DIR
                  \<or> fat32_is_attr (dir_attr (d ! cnt)) FAT32_ARCHIVE) ''is_attr(d[cnt].attr, ...)'') (\<lambda>_.
         rbind (lfn_checksum (dir_filename (d ! cnt))) (\<lambda>ck.
         rbind (lfn_print d cnt ck) (\<lambda>_.
         rbind (lfn_get_name d cnt) (\<lambda>nm.
         rbind (fat32_dirent_print_helper (d ! cnt)) (\<lambda>_. Inr (cnt + 1)))))))))"

section \<open>Layout facts\<close>

lemmas fat32_layouts = mbr_layout_def partition_layout_def fsinfo_layout_def boot_sec_layout_def
  dir_layout_def lfn_layout_def

lemma field_offsets:
  "list_all (check_off_static mbr_layout) mbr_offsets"
  "list_all (check_off_static fsinfo_layout) fsinfo_offsets"
  "list_all (check_off_static boot_sec_layout) boot_sec_offsets"
  "list_all (check_off_static dir_layout) dir_offsets"
  "list_all (check_off_static lfn_layout) lfn_offsets"
  by (simp_all add: check_off_static_def fat32_layouts mbr_offsets_def fsinfo_offsets_def
      boot_sec_offsets_def dir_offsets_def lfn_offsets_def)

lemma layout_sizes:
  "struct_size mbr_layout = 512" "struct_size partition_layout = 16" "struct_size fsinfo_layout = 512"
  "struct_size boot_sec_layout = 512" "struct_size dir_layout = 32" "struct_size lfn_layout = 32"
  by (simp_all add: struct_size_def fat32_layouts)

lemma dir_views:
  "length d = 32 \<Longrightarrow> dir_attr d = unat (d ! 11)" "dir_filename d = take 11 d"
proof -
  show "dir_filename d = take 11 d" by (simp add: dir_filename_def field_def dir_layout_def)
  assume "length d = 32"
  then have "take 1 (drop 11 d) = [d ! 11]" by (simp add: take_Suc_conv_app_nth)
  then show "dir_attr d = unat (d ! 11)"
    by (simp add: dir_attr_def num_field_def field_def dir_layout_def)
qed

section \<open>Looking up a name\<close>

text \<open>An entry in use that is not part of a long name.\<close>

definition live :: "bytes \<Rightarrow> bool" where
  "live d \<longleftrightarrow> d ! 11 \<noteq> 0x0f \<and> d ! 0 \<noteq> 0 \<and> d ! 0 \<noteq> 0xe5"

definition dir_match :: "bytes \<Rightarrow> bytes \<Rightarrow> bool" where
  "dir_match name d \<longleftrightarrow> live d \<and> take 11 d = take 11 name"

lemma lfn_attr: "length d = 32 \<Longrightarrow> dir_attr d = FAT32_LONG_FILE_NAME \<longleftrightarrow> d ! 11 = 0x0f"
  by (simp add: dir_views FAT32_LONG_FILE_NAME_def word_unat_eq_iff)

lemma dirent_skip:
  assumes "length d = 32"
  shows "\<exists>fr. fat32_dirent_free d = Inr fr \<and> (fr \<or> fat32_dirent_is_lfn d \<longleftrightarrow> \<not> live d)"
  using assms lfn_attr [OF assms]
  by (auto simp: fat32_dirent_free_def fat32_dirent_is_deleted_lfn_def fat32_dirent_is_lfn_def live_def
      dir_views(2))

lemma memcmp_names:
  assumes "length d = 32" "11 \<le> length name"
  shows "\<exists>v. memcmp name (dir_filename d) 11 = Inr v \<and> (v = 0 \<longleftrightarrow> take 11 name = take 11 d)"
  using memcmp_loop_take [of 11 name "take 11 d"] assms by (auto simp: memcmp_def dir_views(2))

lemma dir_lookup_loop_spec:
  assumes "\<forall>d \<in> set ds. length d = 32" "11 \<le> length name"
  shows "\<exists>r. dir_lookup_loop name ds i = Inr r
    \<and> (case r of
         None \<Rightarrow> \<forall>d \<in> set ds. \<not> dir_match name d
       | Some k \<Rightarrow> i \<le> k \<and> k < i + length ds \<and> dir_match name (ds ! (k - i))
           \<and> (\<forall>j < k - i. \<not> dir_match name (ds ! j)))"
  using assms(1)
proof (induction ds arbitrary: i)
  case (Cons d ds)
  have d: "length d = 32" using Cons.prems by simp
  from dirent_skip [OF d] obtain fr where
    fr: "fat32_dirent_free d = Inr fr" "fr \<or> fat32_dirent_is_lfn d \<longleftrightarrow> \<not> live d" by blast
  from memcmp_names [OF d assms(2)] obtain v where
    v: "memcmp name (dir_filename d) 11 = Inr v" "v = 0 \<longleftrightarrow> take 11 name = take 11 d" by blast
  show ?case
  proof (cases "dir_match name d")
    case True
    then show ?thesis using fr v by (auto simp: dir_match_def)
  next
    case False
    from Cons.IH [of "i + 1"] Cons.prems obtain r where
      r: "dir_lookup_loop name ds (i + 1) = Inr r"
        "case r of None \<Rightarrow> \<forall>d \<in> set ds. \<not> dir_match name d
         | Some k \<Rightarrow> i + 1 \<le> k \<and> k < i + 1 + length ds \<and> dir_match name (ds ! (k - (i + 1)))
             \<and> (\<forall>j < k - (i + 1). \<not> dir_match name (ds ! j))" by auto
    have "dir_lookup_loop name (d # ds) i = Inr r"
      using False fr v r(1) by (auto simp: dir_match_def)
    moreover have "\<not> dir_match name ((d # ds) ! j)" if "\<forall>j < m. \<not> dir_match name (ds ! j)" "j < Suc m" for j m
      using that False by (cases j) auto
    ultimately show ?thesis
      using r(2) False by (auto split: option.splits simp: Suc_diff_le nth_Cons' Suc_le_eq)
  qed
qed simp

section \<open>Table entries\<close>

lemma unat_low28: "unat (drop_bit 4 (push_bit 4 (x :: u32))) = unat x mod 2 ^ 28"
proof -
  have "drop_bit 4 (push_bit 4 x) = take_bit 28 x"
    by (rule bit_word_eqI) (auto simp: bit_simps)
  then have "unat (drop_bit 4 (push_bit 4 x)) = unat (take_bit 28 x)" by simp
  also have "\<dots> = unat x mod 2 ^ 28" by (simp only: unsigned_take_bit_eq) (simp add: take_bit_eq_mod)
  finally show ?thesis .
qed

definition entry_class :: "nat \<Rightarrow> u32 result" where
  "entry_class v =
     (if v = 0 then Inr FREE_CLUSTER else if v = 1 then Inr RESERVED_CLUSTER
      else if v \<le> 0xFFFFFEF then Inr USED_CLUSTER
      else if v \<le> 0xFFFFFF6 then Inl (Panic ''reserved value'')
      else if v = 0xFFFFFF7 then Inr BAD_CLUSTER else Inr LAST_CLUSTER)"

lemma entry_type_class: "fat32_fat_entry_type x = entry_class (unat x mod 2 ^ 28)"
proof -
  let ?y = "drop_bit 4 (push_bit 4 x)"
  have y: "unat ?y = unat x mod 2 ^ 28" by (rule unat_low28)
  have lt: "unat ?y < 2 ^ 28" by (simp add: y)
  have eqs: "?y = k \<longleftrightarrow> unat ?y = unat k" for k by (rule word_unat_eq_iff)
  show ?thesis
    unfolding fat32_fat_entry_type_def Let_def entry_class_def cluster_consts y [symmetric]
    using lt by (auto simp: eqs word_le_nat_alt word_unat_eq_iff)
qed

section \<open>Checksum\<close>

lemma lfn_checksum_step_inj:
  "lfn_checksum_step s b = lfn_checksum_step s c \<longleftrightarrow> b = c"
  "lfn_checksum_step s b = lfn_checksum_step t b \<longleftrightarrow> s = t"
proof -
  have rot: "push_bit 7 (x AND 1) + drop_bit 1 x = push_bit 7 (x AND 1) OR drop_bit 1 x" for x :: u8
    by (rule disjunctive_add) (auto simp: bit_simps dest: bit_imp_le_length)
  have bits: "bit (push_bit 7 (x AND 1) OR drop_bit 1 x) n \<longleftrightarrow> n < 8 \<and> (if n = 7 then bit x 0 else bit x (Suc n))"
    for x :: u8 and n
    by (auto simp: bit_simps dest: bit_imp_le_length)
  show "lfn_checksum_step s b = lfn_checksum_step s c \<longleftrightarrow> b = c"
    by (simp add: lfn_checksum_step_def)
  show "lfn_checksum_step s b = lfn_checksum_step t b \<longleftrightarrow> s = t"
  proof
    assume "lfn_checksum_step s b = lfn_checksum_step t b"
    then have e: "push_bit 7 (s AND 1) OR drop_bit 1 s = push_bit 7 (t AND 1) OR drop_bit 1 t"
      by (simp only: lfn_checksum_step_def rot add_right_cancel)
    show "s = t"
    proof (rule bit_word_eqI)
      fix n
      assume "n < LENGTH(8)"
      then show "bit s n = bit t n"
        using arg_cong [OF e, of "\<lambda>w. bit w 7"] arg_cong [OF e, of "\<lambda>w. bit w (n - 1)"] bits
        by (cases n) auto
    qed
  qed simp
qed

lemma lfn_fold_inj: "foldl lfn_checksum_step s bs = foldl lfn_checksum_step t bs \<longleftrightarrow> s = t"
  by (induction bs arbitrary: s t) (simp_all add: lfn_checksum_step_inj)

section \<open>Long names\<close>

text \<open>The two bytes of a 16-bit code unit, and the name bytes of a run of them.\<close>

definition unit_bytes :: "u16 \<Rightarrow> bytes" where
  "unit_bytes u = [ucast u, ucast (drop_bit 8 u)]"

definition units_bytes :: "u16 list \<Rightarrow> bytes" where
  "units_bytes us = concat (map unit_bytes us)"

definition name_unit :: "u16 \<Rightarrow> bool" where
  "name_unit u \<longleftrightarrow> u \<noteq> 0 \<and> u \<noteq> 0xFFFF"

text \<open>The text of a code unit.\<close>

definition unit_text :: "u16 \<Rightarrow> bytes" where
  "unit_text u = (case to_utf8 (ucast u) of Inr (Some e) \<Rightarrow> takeWhile (\<lambda>c. c \<noteq> 0) e | _ \<Rightarrow> [])"

definition units_text :: "u16 list \<Rightarrow> bytes" where
  "units_text us = concat (map unit_text us)"

text \<open>A long-name entry: sequence number, checksum and thirteen code units.\<close>

definition lfn_entry :: "u8 \<Rightarrow> u8 \<Rightarrow> u16 list \<Rightarrow> bytes" where
  "lfn_entry seq ck us =
     [seq] @ units_bytes (take 5 us) @ [0x0f, 0, ck] @ units_bytes (take 6 (drop 5 us)) @ [0, 0]
       @ units_bytes (drop 11 us)"

lemma units_bytes_simps [simp]:
  "units_bytes [] = []" "units_bytes (u # us) = ucast u # ucast (drop_bit 8 u) # units_bytes us"
  "units_bytes (us @ vs) = units_bytes us @ units_bytes vs"
  by (simp_all add: units_bytes_def unit_bytes_def)

lemma units_text_simps [simp]:
  "units_text [] = []" "units_text (u # us) = unit_text u @ units_text us"
  "units_text (us @ vs) = units_text us @ units_text vs"
  by (simp_all add: units_text_def)

lemma length_units_bytes [simp]: "length (units_bytes us) = 2 * length us"
  by (induction us) simp_all

lemma unit_join: "ucast (ucast u :: u8) OR push_bit 8 (ucast (ucast (drop_bit 8 u) :: u8)) = (ucast u :: u32)"
  for u :: u16
proof (rule bit_word_eqI)
  fix n
  assume "n < LENGTH(32)"
  then show "bit (ucast (ucast u :: u8) OR push_bit 8 (ucast (ucast (drop_bit 8 u) :: u8)) :: u32) n
      \<longleftrightarrow> bit (ucast u :: u32) n"
    by (cases "n < 8") (auto simp: bit_simps dest: bit_imp_le_length)
qed

lemma unat_unit: "unat (ucast u :: u32) = unat u" for u :: u16
proof -
  have "unat u < 2 ^ 16" using unsigned_less [where 'a = nat, of u] by simp
  then have "unat u < 2 ^ 32" by simp
  then show ?thesis by (simp only: unsigned_ucast_eq) (simp add: take_bit_nat_eq_self_iff)
qed

lemma unit_terminator: "lfn_terminator (ucast u) (ucast (drop_bit 8 u)) \<longleftrightarrow> \<not> name_unit u"
proof -
  have 0: "u = 0" if "(ucast u :: u8) = 0" "(ucast (drop_bit 8 u) :: u8) = 0"
  proof -
    have "(ucast u :: u32) = 0" using unit_join [of u] that by simp
    then have "unat (ucast u :: u32) = 0" by simp
    then show ?thesis by (simp only: unat_unit unat_eq_0)
  qed
  have f: "u = 0xFFFF" if "(ucast u :: u8) = 0xFF" "(ucast (drop_bit 8 u) :: u8) = 0xFF"
  proof -
    have "(ucast u :: u32) = 0xFFFF" using unit_join [of u] that by simp
    then have "unat (ucast u :: u32) = 0xFFFF" by simp
    then have "unat u = 0xFFFF" by (simp only: unat_unit)
    then show ?thesis by (simp add: word_unat_eq_iff)
  qed
  show ?thesis using 0 f by (auto simp: lfn_terminator_def name_unit_def)
qed

lemma to_utf8_unit:
  assumes "name_unit u"
  shows "\<exists>e. to_utf8 (ucast u) = Inr (Some e) \<and> takeWhile (\<lambda>c. c \<noteq> 0) e = unit_text u"
proof -
  have "unat u < 2 ^ 16" using unsigned_less [where 'a = nat, of u] by simp
  then have le: "(ucast u :: u32) \<le> 0x10FFFF" by (simp add: word_le_nat_alt unat_unit)
  have ne: "(ucast u :: u32) \<noteq> 0"
    using assms unat_unit [of u] by (auto simp: name_unit_def unat_eq_0)
  then have "\<exists>n. codepoint_len (ucast u) = Inr (Some n) \<and> n \<noteq> 0"
    using le codepoint_len_eq [of "ucast u"] by auto
  then show ?thesis by (auto simp: to_utf8_def unit_text_def)
qed

lemma utf8_append_units:
  assumes "list_all name_unit vs" "list_all (\<lambda>u. \<not> name_unit u) ps"
    and "length (buf @ units_text vs) < 512"
  shows "utf8_append buf (units_bytes (vs @ ps)) = Inr (buf @ units_text vs)"
  using assms
proof (induction vs arbitrary: buf)
  case Nil
  then show ?case by (cases ps) (simp_all add: unit_terminator)
next
  case (Cons u vs)
  from to_utf8_unit [of u] Cons.prems(1) obtain e where
    "to_utf8 (ucast u) = Inr (Some e)" "takeWhile (\<lambda>c. c \<noteq> 0) e = unit_text u" by auto
  then show ?case
    using Cons.prems Cons.IH [of "buf @ unit_text u"]
    by (simp add: unit_terminator unit_join)
qed

lemma lfn_entry_fields:
  assumes "length us = 13"
  shows "num_field lfn_layout ''attr'' (lfn_entry seq ck us) = FAT32_LONG_FILE_NAME"
    "field lfn_layout ''name1_5'' (lfn_entry seq ck us) = units_bytes (take 5 us)"
    "field lfn_layout ''name6_11'' (lfn_entry seq ck us) = units_bytes (take 6 (drop 5 us))"
    "field lfn_layout ''name12_13'' (lfn_entry seq ck us) = units_bytes (drop 11 us)"
  using assms
  by (simp_all add: lfn_entry_def num_field_def field_def lfn_layout_def FAT32_LONG_FILE_NAME_def)

lemma utf8_append_piece:
  assumes "list_all name_unit vs" "list_all (\<lambda>u. \<not> name_unit u) ps"
    and "length (buf @ units_text (take n (drop k vs))) < 512"
  shows "utf8_append buf (units_bytes (take n (drop k (vs @ ps)))) = Inr (buf @ units_text (take n (drop k vs)))"
proof -
  have "take n (drop k (vs @ ps)) = take n (drop k vs) @ take (n - length (drop k vs)) (drop (k - length vs) ps)"
    by simp
  moreover have "list_all name_unit (take n (drop k vs))"
    "list_all (\<lambda>u. \<not> name_unit u) (take (n - length (drop k vs)) (drop (k - length vs) ps))"
    using assms(1,2) by (auto simp: list_all_iff dest: in_set_takeD in_set_dropD)
  ultimately show ?thesis using utf8_append_units [OF _ _ assms(3)] by metis
qed

lemma lfn_append_entry_text:
  assumes "list_all name_unit vs" "list_all (\<lambda>u. \<not> name_unit u) ps" "length (vs @ ps) = 13"
    and "length (buf @ units_text vs) < 512"
  shows "lfn_append_entry buf (lfn_entry seq ck (vs @ ps)) = Inr (buf @ units_text vs)"
proof -
  have split: "units_text vs = units_text (take 5 (drop 0 vs)) @ units_text (take 6 (drop 5 vs)) @ units_text (take 2 (drop 11 vs))"
  proof -
    have "vs = take 5 vs @ take 6 (drop 5 vs) @ drop 11 vs"
    proof -
      have "drop 5 vs = take 6 (drop 5 vs) @ drop 6 (drop 5 vs)" by (rule append_take_drop_id [symmetric])
      then have "drop 5 vs = take 6 (drop 5 vs) @ drop 11 vs" by simp
      then show ?thesis by (metis append_take_drop_id)
    qed
    moreover have "take 2 (drop 11 vs) = drop 11 vs" using assms(3) by simp
    ultimately show ?thesis by (metis drop0 units_text_simps(3))
  qed
  let ?b1 = "buf @ units_text (take 5 (drop 0 vs))"
  let ?b2 = "?b1 @ units_text (take 6 (drop 5 vs))"
  have len: "length ?b1 < 512" "length ?b2 < 512" "length (?b2 @ units_text (take 2 (drop 11 vs))) < 512"
    using assms(4) unfolding split by simp_all
  have "utf8_append buf (units_bytes (take 5 (vs @ ps))) = Inr ?b1"
    using utf8_append_piece [OF assms(1,2), of buf 5 0] len by simp
  moreover have "utf8_append ?b1 (units_bytes (take 6 (drop 5 (vs @ ps)))) = Inr ?b2"
    using utf8_append_piece [OF assms(1,2) len(2)] by simp
  moreover have "utf8_append ?b2 (units_bytes (drop 11 (vs @ ps))) = Inr (?b2 @ units_text (take 2 (drop 11 vs)))"
    using utf8_append_piece [OF assms(1,2) len(3)] assms(3) by simp
  ultimately show ?thesis
    unfolding lfn_append_entry_def lfn_entry_fields [OF assms(3)] split by simp
qed

text \<open>Entries of a name, each a run of name units and padding, with any sequence number.\<close>

definition lfn_ent_ok :: "u8 \<times> u16 list \<times> u16 list \<Rightarrow> bool" where
  "lfn_ent_ok = (\<lambda>(seq, vs, ps). list_all name_unit vs \<and> list_all (\<lambda>u. \<not> name_unit u) ps \<and> length (vs @ ps) = 13)"

lemma lfn_get_name_loop_text:
  assumes "list_all lfn_ent_ok es" "length (buf @ units_text (concat (map (\<lambda>(seq, vs, ps). vs) es))) < 512"
  shows "lfn_get_name_loop buf (map (\<lambda>(seq, vs, ps). lfn_entry seq ck (vs @ ps)) es)
    = Inr (buf @ units_text (concat (map (\<lambda>(seq, vs, ps). vs) es)))"
  using assms
proof (induction es arbitrary: buf)
  case (Cons e es)
  obtain seq vs ps where e: "e = (seq, vs, ps)" by (cases e) auto
  show ?case
    using Cons.prems Cons.IH [of "buf @ units_text vs"] lfn_append_entry_text [of vs ps buf seq ck]
    by (simp add: e lfn_ent_ok_def)
qed simp

lemma last_nonspace_None: "last_nonspace n s = None \<longleftrightarrow> (\<forall>i < n. s ! i = 32)"
  by (induction n) (auto simp: less_Suc_eq)

lemma last_nonspace_Some:
  "last_nonspace n s = Some k \<Longrightarrow> 0 < k \<and> k \<le> n \<and> s ! (k - 1) \<noteq> 32 \<and> (\<forall>i. k \<le> i \<and> i < n \<longrightarrow> s ! i = 32)"
proof (induction n)
  case (Suc n)
  show ?case
  proof (cases "s ! n = 32")
    case True
    then show ?thesis using Suc by (auto simp: less_Suc_eq)
  next
    case False
    then show ?thesis using Suc.prems by auto
  qed
qed simp

section \<open>Properties\<close>

text \<open>
  The structures of \<open>fat32.h\<close>, packed in the order of their declarations, have exactly the
  offsets and sizes that \<open>fat32-check-offsets.h\<close> demands of every field, and their sizes are
  those of the static assertions: a sector for the boot records, 32 bytes for both kinds of
  directory entry, 16 for a partition.
\<close>

theorem fat32_layout_checked:
  "list_all (check_off_static mbr_layout) mbr_offsets
   \<and> list_all (check_off_static fsinfo_layout) fsinfo_offsets
   \<and> list_all (check_off_static boot_sec_layout) boot_sec_offsets
   \<and> list_all (check_off_static dir_layout) dir_offsets
   \<and> list_all (check_off_static lfn_layout) lfn_offsets
   \<and> map struct_size [mbr_layout, partition_layout, fsinfo_layout, boot_sec_layout, dir_layout, lfn_layout]
     = [512, 16, 512, 512, 32, 32]"
  by (simp add: field_offsets layout_sizes)

text \<open>
  Every FAT entry is classified by its low 28 bits as the table in \<open>fat32.h\<close> says, the upper
  four bits never matter, the reserved values 0xFFFFFF0 to 0xFFFFFF6 are the only ones that
  panic (the last panic of the routine is unreachable), and every class has a printable name.
\<close>

theorem fat_entry_type_classifies:
  "fat32_fat_entry_type x =
     (let v = unat x mod 2 ^ 28 in
      if v = 0 then Inr FREE_CLUSTER else if v = 1 then Inr RESERVED_CLUSTER
      else if v \<le> 0xFFFFFEF then Inr USED_CLUSTER
      else if v \<le> 0xFFFFFF6 then Inl (Panic ''reserved value'')
      else if v = 0xFFFFFF7 then Inr BAD_CLUSTER else Inr LAST_CLUSTER)
   \<and> (\<forall>t. fat32_fat_entry_type x = Inr t \<longrightarrow> (\<exists>s. fat32_fat_entry_type_str t = Inr s))"
proof
  show "fat32_fat_entry_type x =
     (let v = unat x mod 2 ^ 28 in
      if v = 0 then Inr FREE_CLUSTER else if v = 1 then Inr RESERVED_CLUSTER
      else if v \<le> 0xFFFFFEF then Inr USED_CLUSTER
      else if v \<le> 0xFFFFFF6 then Inl (Panic ''reserved value'')
      else if v = 0xFFFFFF7 then Inr BAD_CLUSTER else Inr LAST_CLUSTER)"
    unfolding entry_type_class entry_class_def Let_def by (rule refl)
  show "\<forall>t. fat32_fat_entry_type x = Inr t \<longrightarrow> (\<exists>s. fat32_fat_entry_type_str t = Inr s)"
    unfolding entry_type_class entry_class_def fat32_fat_entry_type_str_def
    by (auto split: if_splits)
qed

theorem fat_entry_type_classifies_witness:
  "fat32_fat_entry_type 0xFFFFFFFF = Inr LAST_CLUSTER \<and> (\<exists>s. fat32_fat_entry_type_str LAST_CLUSTER = Inr s)"
  using fat_entry_type_classifies [of "0xFFFFFFFF"] by simp

text \<open>
  (C25) Looking up a raw name in a directory never faults and returns the first entry that is in
  use, is not part of a long name and carries that name; it returns -1 exactly when there is
  none.
\<close>

theorem fat32_dir_lookup_first:
  assumes "\<forall>d \<in> set dirs. length d = 32" "11 \<le> length name"
  shows "\<exists>r. fat32_dir_lookup name dirs = Inr r
    \<and> (case r of
         None \<Rightarrow> \<forall>d \<in> set dirs. \<not> dir_match name d
       | Some i \<Rightarrow> i < length dirs \<and> dir_match name (dirs ! i) \<and> (\<forall>j < i. \<not> dir_match name (dirs ! j)))"
  using dir_lookup_loop_spec [OF assms, of 0] by (auto simp: fat32_dir_lookup_def split: option.splits)

theorem fat32_dir_lookup_first_witness:
  "\<exists>r. fat32_dir_lookup (replicate 11 65) [replicate 32 0, replicate 32 65] = Inr r
     \<and> (r = None \<longrightarrow> \<not> dir_match (replicate 11 65) (replicate 32 65))"
  using fat32_dir_lookup_first [of "[replicate 32 0, replicate 32 65]" "replicate 11 65"] by auto

text \<open>
  (C28) A long name is put back together: for entries stored last piece first, each holding a run
  of code units followed by padding, \<open>lfn_get_name\<close> returns the UTF-8 text of all the units in
  order, provided the text fits in the static buffer of 512 bytes; the sequence numbers and
  the checksum play no part.
\<close>

theorem lfn_name_roundtrip:
  assumes "list_all lfn_ent_ok es" "length (units_text (concat (map (\<lambda>(seq, vs, ps). vs) es))) < 512"
  shows "lfn_get_name (rev (map (\<lambda>(seq, vs, ps). lfn_entry seq ck (vs @ ps)) es) @ rest) (length es)
    = Inr (units_text (concat (map (\<lambda>(seq, vs, ps). vs) es)))"
  using lfn_get_name_loop_text [of es "[]" ck] assms by (simp add: lfn_get_name_def)

theorem lfn_name_roundtrip_witness:
  "lfn_get_name [lfn_entry 0x41 7 ([0x61, 0x62] @ (0 # replicate 10 0xFFFF))] 1 = Inr (units_text [0x61, 0x62])"
proof -
  have "unit_text 0x61 = [0x61]" "unit_text 0x62 = [0x62]"
    by (simp_all add: unit_text_def to_utf8_def codepoint_len_def utf_def enc_byte_def)
  then show ?thesis
    using lfn_name_roundtrip [of "[(0x41, [0x61, 0x62], 0 # replicate 10 0xFFFF)]" 7 "[]"]
    by (simp add: lfn_ent_ok_def name_unit_def list_all_iff)
qed

text \<open>
  The checksum that ties long-name entries to their short name detects every change of one
  byte of the short name.
\<close>

theorem lfn_checksum_detects:
  assumes "length (pre @ [b] @ suf) = 11" "b \<noteq> c"
  shows "lfn_checksum (pre @ [b] @ suf) \<noteq> lfn_checksum (pre @ [c] @ suf)"
  using assms by (simp add: lfn_checksum_def lfn_fold_inj lfn_checksum_step_inj)

theorem lfn_checksum_detects_witness:
  "lfn_checksum (replicate 10 32 @ [65]) \<noteq> lfn_checksum (replicate 10 32 @ [66])"
  using lfn_checksum_detects [of "replicate 10 32" 65 "[]" 66] by simp

text \<open>
  The 8.3 form of an eleven-byte name is the name without its trailing blanks, a dot and the
  extension; a name of eight blanks writes the dot in front of the static buffer.
\<close>

theorem to_8dot3_trims:
  assumes "length p = 11"
  shows "(take 8 p = replicate 8 32 \<and> to_8dot3 p = Inl Bounds)
    \<or> (\<exists>t k. take 8 p = t @ replicate k 32 \<and> t \<noteq> [] \<and> last t \<noteq> 32
         \<and> to_8dot3 p = Inr (t @ [46] @ drop 8 p @ [0]))"
proof (cases "last_nonspace 8 (take 8 p)")
  case None
  then have "take 8 p = replicate 8 32"
    using assms by (intro nth_equalityI) (simp_all add: last_nonspace_None)
  then show ?thesis using None assms by (simp add: to_8dot3_def)
next
  case (Some k)
  note k = last_nonspace_Some [OF Some]
  let ?s = "take 8 p"
  have "?s = take k ?s @ drop k ?s" by (rule append_take_drop_id [symmetric])
  moreover have "drop k ?s = replicate (8 - k) 32"
    using k assms by (intro nth_equalityI) simp_all
  moreover have ne: "take k ?s \<noteq> []" using k assms by auto
  moreover have lst: "last (take k ?s) \<noteq> 32"
  proof -
    have "length (take k ?s) = k" using k assms by simp
    moreover have "?s ! (k - 1) = p ! (k - 1)" using k by (intro nth_take) linarith
    ultimately show ?thesis using k assms ne by (subst last_conv_nth) simp_all
  qed
  moreover have "take k p = take k ?s" using k by (simp add: min_def)
  ultimately show ?thesis
    using Some assms by (intro disjI2 exI [of _ "take k ?s"] exI [of _ "8 - k"]) (simp add: to_8dot3_def)
qed

theorem to_8dot3_trims_witness:
  "to_8dot3 (replicate 11 32) = Inl Bounds"
proof -
  have "\<not> (\<exists>t k. take 8 (replicate 11 (32 :: u8)) = t @ replicate k 32 \<and> t \<noteq> [] \<and> last t \<noteq> 32)"
  proof (intro notI, elim exE conjE)
    fix t :: bytes and k
    assume eq: "take 8 (replicate 11 (32 :: u8)) = t @ replicate k 32" and t: "t \<noteq> []" "last t \<noteq> 32"
    have "set t \<subseteq> {32}" using arg_cong [OF eq, of set] by auto
    moreover have "last t \<in> set t" using t(1) by (rule last_in_set)
    ultimately show False using t(2) by blast
  qed
  then show ?thesis using to_8dot3_trims [of "replicate 11 32"] by auto
qed

end
