(* ===== verification/Threads.thy ===== *)
theory Threads
  imports Prelude
begin

text \<open>
  The intrusive queue of \<^verbatim>\<open>labs/6-threads/2-threads.new/Q.h\<close> and the part of the threads
  package \<^verbatim>\<open>rpi-thread.c\<close> that is written: the cache of thread blocks and the internal check.
  \<open>Q.h\<close> is generic in the element type \<open>E\<close> and reads and writes only its \<open>next\<close> field, so the
  memory a queue works on is the \<open>next\<close> field of every element, by address; address 0 is the
  null pointer. The context switch, fork, exit and yield of the package are stubs of the source.
\<close>

section \<open>The queue of \<open>Q.h\<close>\<close>

type_synonym addr = u32
type_synonym links = "addr \<Rightarrow> addr"

record Q_t =
  q_head :: addr
  q_tail :: addr
  cnt :: u32

definition Q_start :: "Q_t \<Rightarrow> addr" where
  "Q_start q = q_head q"

definition Q_next :: "links \<Rightarrow> addr \<Rightarrow> addr" where
  "Q_next nx e = nx e"

definition Q_nelem :: "Q_t \<Rightarrow> u32" where
  "Q_nelem q = cnt q"

definition Q_empty :: "Q_t \<Rightarrow> bool result" where
  "Q_empty q =
     (if q_head q \<noteq> 0 then Inr False
      else rbind (c_assert (Q_nelem q = 0) ''Q_nelem(q) == 0'') (\<lambda>_.
        rbind (c_demand (q_tail q = 0) ''invalid Q'') (\<lambda>_. Inr True)))"

text \<open>The queues are static objects, so the \<open>demand(q, ...)\<close> on their address always holds.\<close>

definition Q_pop :: "links \<Rightarrow> Q_t \<Rightarrow> (addr \<times> Q_t) result" where
  "Q_pop nx q =
     (let e = q_head q in
      if e = 0 then
        rbind (Q_empty q) (\<lambda>b. rbind (c_assert b ''Q_empty(q)'') (\<lambda>_. Inr (0, q)))
      else
        (let q1 = q\<lparr>cnt := cnt q - 1, q_head := nx e\<rparr> in
         Inr (e, if q_head q1 = 0 then q1\<lparr>q_tail := 0\<rparr> else q1)))"

definition Q_append :: "links \<Rightarrow> Q_t \<Rightarrow> addr \<Rightarrow> links \<times> Q_t" where
  "Q_append nx q e =
     (let nx1 = nx(e := 0); q1 = q\<lparr>cnt := cnt q + 1\<rparr> in
      if q_tail q1 = 0 then (nx1, q1\<lparr>q_head := e, q_tail := e\<rparr>)
      else (nx1(q_tail q1 := e), q1\<lparr>q_tail := e\<rparr>))"

definition Q_push :: "links \<Rightarrow> Q_t \<Rightarrow> addr \<Rightarrow> links \<times> Q_t" where
  "Q_push nx q e =
     (let q1 = q\<lparr>cnt := cnt q + 1\<rparr>; nx1 = nx(e := q_head q1); q2 = q1\<lparr>q_head := e\<rparr> in
      (nx1, if q_tail q2 = 0 then q2\<lparr>q_tail := e\<rparr> else q2))"

definition Q_insert_after :: "links \<Rightarrow> Q_t \<Rightarrow> addr \<Rightarrow> addr \<Rightarrow> links \<times> Q_t" where
  "Q_insert_after nx q e e_new =
     (if e = 0 then Q_push nx q e_new
      else if q_tail q = e then Q_append nx q e_new
      else (let q1 = q\<lparr>cnt := cnt q + 1\<rparr>; nx1 = nx(e_new := nx e) in (nx1(e := e_new), q1)))"

subsection \<open>The chain a queue stands for\<close>

fun chain :: "links \<Rightarrow> addr \<Rightarrow> addr list \<Rightarrow> bool" where
  "chain nx p [] \<longleftrightarrow> p = 0"
| "chain nx p (x # xs) \<longleftrightarrow> p = x \<and> x \<noteq> 0 \<and> chain nx (nx x) xs"

definition Q_rep :: "links \<Rightarrow> Q_t \<Rightarrow> addr list \<Rightarrow> bool" where
  "Q_rep nx q xs \<longleftrightarrow> chain nx (q_head q) xs \<and> distinct xs
     \<and> q_tail q = (if xs = [] then 0 else last xs) \<and> cnt q = of_nat (length xs)"

lemma chain_nz: "chain nx p xs \<Longrightarrow> 0 \<notin> set xs"
  by (induction xs arbitrary: p) auto

lemma chain_frame: "chain nx p xs \<Longrightarrow> (\<And>x. x \<in> set xs \<Longrightarrow> nx' x = nx x) \<Longrightarrow> chain nx' p xs"
  by (induction xs arbitrary: p) auto

lemma chain_upd_other [simp]: "e \<notin> set xs \<Longrightarrow> chain (nx(e := v)) p xs \<longleftrightarrow> chain nx p xs"
  by (induction xs arbitrary: p) auto

lemma chain_append_last:
  assumes "chain nx p xs" "distinct xs" "xs \<noteq> []" "e \<notin> set xs" "e \<noteq> 0"
  shows "chain (nx(last xs := e, e := 0)) p (xs @ [e])"
  using assms
proof (induction xs arbitrary: p)
  case (Cons x xs)
  then show ?case by (cases xs) auto
qed simp

lemma chain_insert:
  assumes "chain nx p (ys @ x # zs)" "distinct (ys @ x # zs)" "e \<notin> set (ys @ x # zs)" "e \<noteq> 0"
  shows "chain (nx(e := nx x, x := e)) p (ys @ x # e # zs)"
  using assms by (induction ys arbitrary: p) auto

lemma Q_rep_nz: "Q_rep nx q xs \<Longrightarrow> 0 \<notin> set xs"
  by (auto simp: Q_rep_def dest: chain_nz)

lemma last_neq: "xs \<noteq> [] \<Longrightarrow> e \<notin> set xs \<Longrightarrow> last xs \<noteq> e"
  by (metis last_in_set)

lemma Q_rep_frame: "Q_rep nx q xs \<Longrightarrow> (\<And>x. x \<in> set xs \<Longrightarrow> nx' x = nx x) \<Longrightarrow> Q_rep nx' q xs"
  by (auto simp: Q_rep_def intro: chain_frame)

lemma Q_rep_empty: "Q_rep nx \<lparr>q_head = 0, q_tail = 0, cnt = 0\<rparr> []"
  by (simp add: Q_rep_def)

lemma Q_rep_head: "Q_rep nx q xs \<Longrightarrow> q_head q = (case xs of [] \<Rightarrow> 0 | x # _ \<Rightarrow> x)"
  by (cases xs) (auto simp: Q_rep_def)

lemma Q_nelem_rep: "Q_rep nx q xs \<Longrightarrow> Q_nelem q = of_nat (length xs)"
  by (simp add: Q_rep_def Q_nelem_def)

lemma Q_empty_rep: "Q_rep nx q xs \<Longrightarrow> Q_empty q = Inr (xs = [])"
  by (cases xs) (auto simp: Q_rep_def Q_empty_def Q_nelem_def)

lemma Q_pop_nil: "Q_rep nx q [] \<Longrightarrow> Q_pop nx q = Inr (0, q)"
  by (simp add: Q_rep_def Q_pop_def Q_empty_def Q_nelem_def)

lemma Q_pop_cons: "Q_rep nx q (x # xs) \<Longrightarrow> \<exists>q'. Q_pop nx q = Inr (x, q') \<and> Q_rep nx q' xs"
  by (cases xs) (auto simp: Q_rep_def Q_pop_def)

lemma Q_append_rep:
  assumes "Q_rep nx q xs" "e \<noteq> 0" "e \<notin> set xs"
  shows "\<exists>nx' q'. Q_append nx q e = (nx', q') \<and> Q_rep nx' q' (xs @ [e])
    \<and> (\<forall>a. a \<noteq> e \<longrightarrow> a \<notin> set xs \<longrightarrow> nx' a = nx a)"
proof (cases "xs = []")
  case True
  then show ?thesis using assms by (auto simp: Q_rep_def Q_append_def)
next
  case False
  then have m: "last xs \<in> set xs" by simp
  then have t: "q_tail q = last xs" "last xs \<noteq> 0" "e \<noteq> last xs"
    using False assms last_neq [OF False Q_rep_nz [OF assms(1)]] by (auto simp: Q_rep_def)
  have "nx(e := 0, last xs := e) = nx(last xs := e, e := 0)" using t by auto
  then show ?thesis
    using False assms t m chain_append_last [of nx "q_head q" xs e]
    by (auto simp: Q_rep_def Q_append_def)
qed

lemma Q_push_rep:
  assumes "Q_rep nx q xs" "e \<noteq> 0" "e \<notin> set xs"
  shows "\<exists>nx' q'. Q_push nx q e = (nx', q') \<and> Q_rep nx' q' (e # xs)
    \<and> (\<forall>a. a \<noteq> e \<longrightarrow> a \<notin> set xs \<longrightarrow> nx' a = nx a)"
proof -
  have "xs \<noteq> [] \<Longrightarrow> last xs \<noteq> 0" using last_neq [OF _ Q_rep_nz [OF assms(1)]] by simp
  then show ?thesis using assms by (auto simp: Q_rep_def Q_push_def Let_def)
qed

text \<open>What \<open>Q_insert_after\<close> does on the list: \<open>e_new\<close> right after \<open>e\<close>, at the head for null.\<close>

fun insert_after :: "addr \<Rightarrow> addr \<Rightarrow> addr list \<Rightarrow> addr list" where
  "insert_after e e_new [] = []"
| "insert_after e e_new (x # xs) = (if x = e then x # e_new # xs else x # insert_after e e_new xs)"

lemma insert_after_split: "e \<notin> set ys \<Longrightarrow> insert_after e e_new (ys @ e # zs) = ys @ e # e_new # zs"
  by (induction ys) auto

lemma Q_insert_after_rep:
  assumes "Q_rep nx q xs" "n \<noteq> 0" "n \<notin> set xs" "e = 0 \<or> e \<in> set xs"
  shows "\<exists>nx' q'. Q_insert_after nx q e n = (nx', q')
    \<and> Q_rep nx' q' (if e = 0 then n # xs else insert_after e n xs)"
proof -
  consider "e = 0" | "e \<noteq> 0" "q_tail q = e" | "e \<noteq> 0" "q_tail q \<noteq> e" by blast
  then show ?thesis
  proof cases
    case 1
    then show ?thesis using Q_push_rep [OF assms(1-3)] by (auto simp: Q_insert_after_def)
  next
    case 2
    obtain ys where ys: "xs = ys @ [e]"
      using 2 assms(1,4) by (auto simp: Q_rep_def split: if_splits) (metis append_butlast_last_id)
    then have "e \<notin> set ys" using assms(1) by (simp add: Q_rep_def)
    then have "insert_after e n xs = xs @ [n]" using insert_after_split [of e ys n "[]"] ys by simp
    then show ?thesis using 2 Q_append_rep [OF assms(1-3)] by (auto simp: Q_insert_after_def)
  next
    case 3
    obtain ys zs where s: "xs = ys @ e # zs" "e \<notin> set ys"
      using 3 assms(4) split_list_first [of e xs] by auto
    have z: "zs \<noteq> []" using 3 assms(1) s by (auto simp: Q_rep_def)
    have "chain (nx(n := nx e, e := n)) (q_head q) (ys @ e # n # zs)"
      using assms(1-3) s by (intro chain_insert) (auto simp: Q_rep_def)
    then have "Q_rep (nx(n := nx e, e := n)) (q\<lparr>cnt := cnt q + 1\<rparr>) (ys @ e # n # zs)"
      using assms(1-3) s z by (auto simp: Q_rep_def)
    then show ?thesis
      using 3 insert_after_split [OF s(2), of n zs] s(1) by (simp add: Q_insert_after_def Let_def)
  qed
qed

section \<open>The interface of a queue in shared memory\<close>

text \<open>
  What a client that keeps several queues over the same elements relies on: an element is on
  the list a queue stands for, \<open>pop\<close>, \<open>push\<close> and \<open>append\<close> act on that list, and an operation on
  one queue leaves alone the elements that are not on it. \<open>agree m m' A\<close> says that the memories
  hold the same links for the elements of \<open>A\<close>.
\<close>

locale heap_queue =
  fixes rep :: "'m \<Rightarrow> 'q \<Rightarrow> 'e list \<Rightarrow> bool"
    and agree :: "'m \<Rightarrow> 'm \<Rightarrow> 'e set \<Rightarrow> bool"
    and null :: 'e
    and pop :: "'m \<Rightarrow> 'q \<Rightarrow> ('e \<times> 'q) result"
    and push append :: "'m \<Rightarrow> 'q \<Rightarrow> 'e \<Rightarrow> 'm \<times> 'q"
  assumes rep_frame: "rep m q xs \<Longrightarrow> agree m m' (set xs) \<Longrightarrow> rep m' q xs"
    and rep_null: "rep m q xs \<Longrightarrow> null \<notin> set xs"
    and agree_mono: "agree m m' A \<Longrightarrow> B \<subseteq> A \<Longrightarrow> agree m m' B"
    and pop_nil: "rep m q [] \<Longrightarrow> pop m q = Inr (null, q)"
    and pop_cons: "rep m q (x # xs) \<Longrightarrow> \<exists>q'. pop m q = Inr (x, q') \<and> rep m q' xs"
    and push_rep: "rep m q xs \<Longrightarrow> e \<noteq> null \<Longrightarrow> e \<notin> set xs \<Longrightarrow>
      \<exists>m' q'. push m q e = (m', q') \<and> rep m' q' (e # xs) \<and> agree m m' (- insert e (set xs))"
    and append_rep: "rep m q xs \<Longrightarrow> e \<noteq> null \<Longrightarrow> e \<notin> set xs \<Longrightarrow>
      \<exists>m' q'. append m q e = (m', q') \<and> rep m' q' (xs @ [e]) \<and> agree m m' (- insert e (set xs))"
begin

lemma push_beside:
  assumes "rep m q xs" "rep m r ys" "set xs \<inter> set ys = {}" "e \<noteq> null" "e \<notin> set xs" "e \<notin> set ys"
  shows "\<exists>m' q'. push m q e = (m', q') \<and> rep m' q' (e # xs) \<and> rep m' r ys"
proof -
  obtain m' q' where p: "push m q e = (m', q')" "rep m' q' (e # xs)" "agree m m' (- insert e (set xs))"
    using push_rep assms by blast
  have "set ys \<subseteq> - insert e (set xs)" using assms by auto
  then have "agree m m' (set ys)" by (rule agree_mono [OF p(3)])
  then show ?thesis using p assms rep_frame by blast
qed

lemma append_beside:
  assumes "rep m q xs" "rep m r ys" "set xs \<inter> set ys = {}" "e \<noteq> null" "e \<notin> set xs" "e \<notin> set ys"
  shows "\<exists>m' q'. append m q e = (m', q') \<and> rep m' q' (xs @ [e]) \<and> rep m' r ys"
proof -
  obtain m' q' where p: "append m q e = (m', q')" "rep m' q' (xs @ [e])"
    "agree m m' (- insert e (set xs))"
    using append_rep assms by blast
  have "set ys \<subseteq> - insert e (set xs)" using assms by auto
  then have "agree m m' (set ys)" by (rule agree_mono [OF p(3)])
  then show ?thesis using p assms rep_frame by blast
qed

lemma move_front_to_back:
  assumes "rep m q (x # xs)" "rep m r ys" "distinct (x # xs)" "set (x # xs) \<inter> set ys = {}"
  shows "\<exists>q' m' r'. pop m q = Inr (x, q') \<and> append m r x = (m', r')
    \<and> rep m' q' xs \<and> rep m' r' (ys @ [x])"
proof -
  obtain q' where q': "pop m q = Inr (x, q')" "rep m q' xs" using pop_cons assms(1) by blast
  have "x \<noteq> null" using rep_null [OF assms(1)] by auto
  then show ?thesis
    using append_beside [OF assms(2) q'(2), of x] assms(3,4) q' by auto
qed

end

interpretation thq: heap_queue Q_rep "\<lambda>nx nx' A. \<forall>a \<in> A. nx' a = nx a" 0 Q_pop Q_push Q_append
proof
  show "Q_rep m q xs \<Longrightarrow> e \<noteq> 0 \<Longrightarrow> e \<notin> set xs \<Longrightarrow>
    \<exists>m' q'. Q_push m q e = (m', q') \<and> Q_rep m' q' (e # xs) \<and> (\<forall>a \<in> - insert e (set xs). m' a = m a)"
    for m q xs e using Q_push_rep [of m q xs e] by auto
  show "Q_rep m q xs \<Longrightarrow> e \<noteq> 0 \<Longrightarrow> e \<notin> set xs \<Longrightarrow>
    \<exists>m' q'. Q_append m q e = (m', q') \<and> Q_rep m' q' (xs @ [e]) \<and> (\<forall>a \<in> - insert e (set xs). m' a = m a)"
    for m q xs e using Q_append_rep [of m q xs e] by auto
qed (use Q_rep_frame Q_rep_nz Q_pop_nil Q_pop_cons in blast)+

section \<open>Sequences of queue operations\<close>

datatype q_op = QPush addr | QAppend addr | QInsertAfter addr addr | QPop

text \<open>One operation on the struct and the links; \<open>QPop\<close> outputs the element, the others null.\<close>

fun q_step :: "q_op \<Rightarrow> links \<times> Q_t \<Rightarrow> (addr \<times> links \<times> Q_t) result" where
  "q_step (QPush e) (nx, q) = Inr (0, Q_push nx q e)"
| "q_step (QAppend e) (nx, q) = Inr (0, Q_append nx q e)"
| "q_step (QInsertAfter e n) (nx, q) = Inr (0, Q_insert_after nx q e n)"
| "q_step QPop (nx, q) = rbind (Q_pop nx q) (\<lambda>(e, q'). Inr (e, nx, q'))"

fun q_run :: "q_op list \<Rightarrow> links \<times> Q_t \<Rightarrow> (addr list \<times> links \<times> Q_t) result" where
  "q_run [] s = Inr ([], s)"
| "q_run (op # ops) s =
     rbind (q_step op s) (\<lambda>(e, s'). rbind (q_run ops s') (\<lambda>(es, s''). Inr (e # es, s'')))"

text \<open>The same on lists.\<close>

fun list_step :: "q_op \<Rightarrow> addr list \<Rightarrow> addr \<times> addr list" where
  "list_step (QPush e) xs = (0, e # xs)"
| "list_step (QAppend e) xs = (0, xs @ [e])"
| "list_step (QInsertAfter e n) xs = (0, if e = 0 then n # xs else insert_after e n xs)"
| "list_step QPop [] = (0, [])"
| "list_step QPop (x # xs) = (x, xs)"

fun list_run :: "q_op list \<Rightarrow> addr list \<Rightarrow> addr list \<times> addr list" where
  "list_run [] xs = ([], xs)"
| "list_run (op # ops) xs =
     (let (e, xs') = list_step op xs; (es, xs'') = list_run ops xs' in (e # es, xs''))"

text \<open>
  What a client must respect: an inserted element is not null and not on the queue already,
  and the element it is inserted after is on the queue.
\<close>

fun q_op_ok :: "q_op \<Rightarrow> addr list \<Rightarrow> bool" where
  "q_op_ok (QPush e) xs \<longleftrightarrow> e \<noteq> 0 \<and> e \<notin> set xs"
| "q_op_ok (QAppend e) xs \<longleftrightarrow> e \<noteq> 0 \<and> e \<notin> set xs"
| "q_op_ok (QInsertAfter e n) xs \<longleftrightarrow> n \<noteq> 0 \<and> n \<notin> set xs \<and> (e = 0 \<or> e \<in> set xs)"
| "q_op_ok QPop xs \<longleftrightarrow> True"

fun q_ops_ok :: "q_op list \<Rightarrow> addr list \<Rightarrow> bool" where
  "q_ops_ok [] xs \<longleftrightarrow> True"
| "q_ops_ok (op # ops) xs \<longleftrightarrow> q_op_ok op xs \<and> q_ops_ok ops (snd (list_step op xs))"

lemma q_step_rep:
  assumes "Q_rep nx q xs" "q_op_ok op xs"
  shows "\<exists>nx' q'. q_step op (nx, q) = Inr (fst (list_step op xs), nx', q')
    \<and> Q_rep nx' q' (snd (list_step op xs))"
proof (cases op)
  case (QPush e)
  then show ?thesis using assms Q_push_rep [of nx q xs e] by auto
next
  case (QAppend e)
  then show ?thesis using assms Q_append_rep [of nx q xs e] by auto
next
  case (QInsertAfter e n)
  then show ?thesis using assms Q_insert_after_rep [of nx q xs n e] by auto
next
  case QPop
  then show ?thesis using assms Q_pop_nil [of nx q] Q_pop_cons [of nx q] by (cases xs) fastforce+
qed

lemma q_run_rep:
  assumes "Q_rep nx q xs" "q_ops_ok ops xs"
  shows "\<exists>nx' q'. q_run ops (nx, q) = Inr (fst (list_run ops xs), nx', q')
    \<and> Q_rep nx' q' (snd (list_run ops xs))"
  using assms
proof (induction ops arbitrary: nx q xs)
  case (Cons op ops)
  then obtain nx1 q1 where s: "q_step op (nx, q) = Inr (fst (list_step op xs), nx1, q1)"
    "Q_rep nx1 q1 (snd (list_step op xs))"
    using q_step_rep [of nx q xs op] by auto
  then obtain nx2 q2 where "q_run ops (nx1, q1) = Inr (fst (list_run ops (snd (list_step op xs))), nx2, q2)"
    "Q_rep nx2 q2 (snd (list_run ops (snd (list_step op xs))))"
    using Cons by (metis q_ops_ok.simps(2))
  then show ?case using s by (simp add: split_beta Let_def)
qed simp

text \<open>
  (C4) From the zeroed struct, every sequence of \<open>Q_push\<close>, \<open>Q_append\<close>, \<open>Q_insert_after\<close> and
  \<open>Q_pop\<close> whose inserted elements are not null and not queued already runs without a failed
  assertion, returns what the same operations on a list return, and leaves a chain of \<open>next\<close>
  fields, a tail pointer and a count that stand for that list.
\<close>

theorem Q_refines_list:
  assumes "q_ops_ok ops []"
  shows "\<exists>nx' q'. q_run ops (nx, \<lparr>q_head = 0, q_tail = 0, cnt = 0\<rparr>) = Inr (fst (list_run ops []), nx', q')
    \<and> Q_rep nx' q' (snd (list_run ops []))"
  using q_run_rep [OF Q_rep_empty assms] .

theorem Q_refines_list_witness:
  "\<exists>nx' q'. q_run [QAppend 8, QPush 16, QInsertAfter 16 24, QPop, QPop]
      (\<lambda>_. 7, \<lparr>q_head = 0, q_tail = 0, cnt = 0\<rparr>) = Inr ([0, 0, 0, 16, 24], nx', q')
    \<and> Q_rep nx' q' [8]"
  using Q_refines_list [of "[QAppend 8, QPush 16, QInsertAfter 16 24, QPop, QPop]" "\<lambda>_. 7"] by simp

section \<open>Thread blocks\<close>

text \<open>
  \<open>rpi_thread_t\<close> has the register save area at offset 0 (16 words), \<open>next\<close>, \<open>tid\<close>, \<open>fn\<close> and
  \<open>arg\<close>, then the stack of \<open>THREAD_MAXSTACK\<close> words.
\<close>

definition THREAD_MAXSTACK :: u32 where
  "THREAD_MAXSTACK = 1024 * 8 div 4"

definition thread_stack_off :: u32 where
  "thread_stack_off = 16 * 4 + 4 + 4 + 4 + 4"

definition sizeof_rpi_thread_t :: u32 where
  "sizeof_rpi_thread_t = thread_stack_off + 4 * THREAD_MAXSTACK"

text \<open>
  The statics of \<^verbatim>\<open>rpi-thread.c\<close>, the \<open>next\<close> and \<open>tid\<close> fields of the thread blocks, and the
  state of the allocator, whose code is an object file of the library.
\<close>

record 'k threads_t =
  runq :: Q_t
  freeq :: Q_t
  th_next :: links
  th_tid :: "addr \<Rightarrow> u32"
  cur_thread :: addr
  scheduler_thread :: addr
  tid :: u32
  nalloced :: u32
  heap :: 'k

type_synonym 'k kmalloc_t = "'k \<Rightarrow> u32 \<Rightarrow> u32 \<Rightarrow> (addr \<times> 'k) result"

definition threads_init :: "links \<Rightarrow> (addr \<Rightarrow> u32) \<Rightarrow> 'k \<Rightarrow> 'k threads_t" where
  "threads_init nx ti h =
     \<lparr>runq = \<lparr>q_head = 0, q_tail = 0, cnt = 0\<rparr>, freeq = \<lparr>q_head = 0, q_tail = 0, cnt = 0\<rparr>,
      th_next = nx, th_tid = ti, cur_thread = 0, scheduler_thread = 0, tid = 1, nalloced = 0,
      heap = h\<rparr>"

definition rpi_cur_thread :: "'k threads_t \<Rightarrow> addr" where
  "rpi_cur_thread s = cur_thread s"

definition th_is_aligned :: "u32 \<Rightarrow> u32 \<Rightarrow> bool" where
  "th_is_aligned p n \<longleftrightarrow> p mod n = 0"

definition th_alloc :: "'k kmalloc_t \<Rightarrow> 'k threads_t \<Rightarrow> (addr \<times> 'k threads_t) result" where
  "th_alloc kmalloc_aligned s =
     rbind (Q_pop (th_next s) (freeq s)) (\<lambda>(t, fq).
     rbind (if t = 0
            then rbind (kmalloc_aligned (heap s) sizeof_rpi_thread_t 8) (\<lambda>(p, h).
              Inr (p, s\<lparr>freeq := fq, heap := h, nalloced := nalloced s + 1\<rparr>))
            else Inr (t, s\<lparr>freeq := fq\<rparr>)) (\<lambda>(t, s1).
     rbind (c_demand (th_is_aligned (t + thread_stack_off) 8) ''stack must be 8-byte aligned!'') (\<lambda>_.
       Inr (t, s1\<lparr>th_tid := (th_tid s1)(t := tid s1), tid := tid s1 + 1\<rparr>))))"

definition th_free :: "'k threads_t \<Rightarrow> addr \<Rightarrow> 'k threads_t" where
  "th_free s th = (let (nx, fq) = Q_push (th_next s) (freeq s) th in s\<lparr>th_next := nx, freeq := fq\<rparr>)"

definition rpi_fork :: "'k kmalloc_t \<Rightarrow> 'k threads_t \<Rightarrow> (addr \<times> 'k threads_t) result" where
  "rpi_fork kmalloc_aligned s = rbind (th_alloc kmalloc_aligned s) (\<lambda>_. Inl Unimplemented)"

definition rpi_internal_check :: "'k threads_t \<Rightarrow> unit result" where
  "rpi_internal_check s =
     (let n_free = Q_nelem (freeq s); n_run = Q_nelem (runq s); n = n_free + n_run in
      if nalloced s \<noteq> n then Inl (Panic ''storage leak'')
      else rbind (Q_empty (runq s)) (\<lambda>b. if \<not> b then Inl Unimplemented else Inr ()))"

definition rpi_thread_start :: "'k threads_t \<Rightarrow> unit result" where
  "rpi_thread_start s =
     rbind (Q_empty (runq s)) (\<lambda>b.
       if b then Inr () else rbind (rpi_internal_check s) (\<lambda>_. Inl Unimplemented))"

section \<open>The block cache over a run\<close>

text \<open>
  What \<^verbatim>\<open>kmalloc.c\<close> documents of \<open>kmalloc_aligned\<close>: the block starts at a multiple of the
  alignment, and the address of every block handed out lies below \<open>kmalloc_heap_ptr()\<close>, so a
  new block starts at or above the old heap pointer and ends at or below the new one.
\<close>

definition kmalloc_doc :: "'k kmalloc_t \<Rightarrow> ('k \<Rightarrow> nat) \<Rightarrow> bool" where
  "kmalloc_doc kmalloc_aligned heap_ptr \<longleftrightarrow>
     (\<forall>h n a p h'. kmalloc_aligned h n a = Inr (p, h') \<longrightarrow>
        p \<noteq> 0 \<and> p mod a = 0 \<and> heap_ptr h \<le> unat p \<and> unat p + unat n \<le> heap_ptr h')"

text \<open>
  The runs of the block cache: \<open>live\<close> are the blocks handed out and not yet freed, \<open>k\<close> counts
  the allocations.
\<close>

inductive th_reach :: "'k kmalloc_t \<Rightarrow> 'k threads_t \<Rightarrow> nat \<Rightarrow> 'k threads_t \<Rightarrow> addr list \<Rightarrow> bool"
  for km :: "'k kmalloc_t" and s0 :: "'k threads_t" where
  th_reach_init: "th_reach km s0 0 s0 []"
| th_reach_alloc: "th_reach km s0 k s live \<Longrightarrow> th_alloc km s = Inr (t, s') \<Longrightarrow>
    th_reach km s0 (Suc k) s' (t # live)"
| th_reach_free: "th_reach km s0 k s live \<Longrightarrow> t \<in> set live \<Longrightarrow>
    th_reach km s0 k (th_free s t) (remove1 t live)"

definition blocks_ok :: "addr list \<Rightarrow> nat \<Rightarrow> bool" where
  "blocks_ok bs lim \<longleftrightarrow> distinct bs \<and> (\<forall>b \<in> set bs. b \<noteq> 0 \<and> b mod 8 = 0 \<and>
       unat b + unat sizeof_rpi_thread_t \<le> lim)
     \<and> (\<forall>b \<in> set bs. \<forall>c \<in> set bs. b \<noteq> c \<longrightarrow>
          unat b + unat sizeof_rpi_thread_t \<le> unat c \<or> unat c + unat sizeof_rpi_thread_t \<le> unat b)"

definition th_inv :: "('k \<Rightarrow> nat) \<Rightarrow> nat \<Rightarrow> 'k threads_t \<Rightarrow> addr list \<Rightarrow> addr list \<Rightarrow> bool" where
  "th_inv hp k s live free \<longleftrightarrow>
     Q_rep (th_next s) (freeq s) free \<and> Q_rep (th_next s) (runq s) []
     \<and> blocks_ok (live @ free) (hp (heap s)) \<and> nalloced s = of_nat (length (live @ free))
     \<and> tid s = of_nat (Suc k)
     \<and> (\<exists>f. (\<forall>b \<in> set live. th_tid s b = of_nat (f b) \<and> 1 \<le> f b \<and> f b \<le> k) \<and> inj_on f (set live))"

lemma sizeof_rpi_thread_t_unat [simp]: "unat sizeof_rpi_thread_t = 8272"
  by (simp add: sizeof_rpi_thread_t_def thread_stack_off_def THREAD_MAXSTACK_def)

lemma stack_aligned: "t mod 8 = 0 \<Longrightarrow> th_is_aligned (t + thread_stack_off) 8"
proof -
  assume "t mod 8 = 0"
  then have "unat t mod 8 = 0" by (simp add: word_unat_eq_iff unat_mod_distrib)
  then have "unat (t + 80) mod 8 = 0"
    by (simp add: unat_word_ariths mod_mod_cancel) presburger
  then show ?thesis
    by (simp add: th_is_aligned_def thread_stack_off_def word_unat_eq_iff unat_mod_distrib)
qed

lemma blocks_ok_perm: "blocks_ok xs lim \<Longrightarrow> set ys = set xs \<Longrightarrow> distinct ys \<Longrightarrow> blocks_ok ys lim"
  by (simp add: blocks_ok_def)

lemma blocks_ok_new:
  assumes "blocks_ok bs lim" "p \<noteq> 0" "p mod 8 = 0" "lim \<le> unat p" "unat p + 8272 \<le> lim'"
  shows "blocks_ok (p # bs) lim'"
proof -
  have below: "unat b + 8272 \<le> unat p" "unat b + 8272 \<le> lim'" if "b \<in> set bs" for b
    using assms that by (auto simp: blocks_ok_def)
  then have "p \<notin> set bs" by fastforce
  then show ?thesis using assms below by (simp add: blocks_ok_def)
qed

lemma th_inv_init: "th_inv hp 0 (threads_init nx ti h) [] []"
  by (simp add: th_inv_def threads_init_def blocks_ok_def Q_rep_empty)

lemma tid_fun_extend:
  assumes "\<forall>b \<in> set live. ti b = of_nat (f b) \<and> 1 \<le> f b \<and> f b \<le> k" "inj_on f (set live)" "t \<notin> set live"
  shows "\<exists>g. (\<forall>b \<in> set (t # live). (ti(t := of_nat (Suc k))) b = of_nat (g b) \<and> 1 \<le> g b \<and> g b \<le> Suc k)
    \<and> inj_on g (set (t # live))"
  using assms by (intro exI [where x = "f(t := Suc k)"]) (auto simp: inj_on_def)

lemma th_inv_alloc:
  assumes km: "kmalloc_doc km hp" and inv: "th_inv hp k s live free"
    and a: "th_alloc km s = Inr (t, s')"
  shows "\<exists>free'. th_inv hp (Suc k) s' (t # live) free'"
proof -
  obtain f where f: "\<forall>b \<in> set live. th_tid s b = of_nat (f b) \<and> 1 \<le> f b \<and> f b \<le> k" "inj_on f (set live)"
    using inv by (auto simp: th_inv_def)
  have t: "tid s = of_nat (Suc k)" using inv by (simp add: th_inv_def)
  show ?thesis
  proof (cases free)
    case Nil
    then have q: "Q_pop (th_next s) (freeq s) = Inr (0, freeq s)"
      using inv thq.pop_nil by (auto simp: th_inv_def)
    obtain p h where kp: "km (heap s) sizeof_rpi_thread_t 8 = Inr (p, h)" "t = p"
      and s': "s' = s\<lparr>heap := h, nalloced := nalloced s + 1, th_tid := (th_tid s)(p := tid s), tid := tid s + 1\<rparr>"
      using a q by (auto simp: th_alloc_def rbind_eq_Inr)
    have p: "p \<noteq> 0" "p mod 8 = 0" "hp (heap s) \<le> unat p" "unat p + 8272 \<le> hp h"
      using km kp(1) sizeof_rpi_thread_t_unat by (metis kmalloc_doc_def)+
    have b: "blocks_ok (p # live) (hp h)"
      using inv p Nil by (intro blocks_ok_new [where lim = "hp (heap s)"]) (simp_all add: th_inv_def)
    then have "p \<notin> set live" by (simp add: blocks_ok_def)
    then show ?thesis
      using inv Nil b s' kp t tid_fun_extend [OF f, of p]
      by (intro exI [where x = "[]"]) (simp add: th_inv_def)
  next
    case (Cons x xs)
    then obtain q where q: "Q_pop (th_next s) (freeq s) = Inr (x, q)" "Q_rep (th_next s) q xs"
      using inv Q_pop_cons by (fastforce simp: th_inv_def)
    have x0: "x \<noteq> 0" using inv Cons Q_rep_nz by (fastforce simp: th_inv_def)
    have s': "t = x" "s' = s\<lparr>freeq := q, th_tid := (th_tid s)(x := tid s), tid := tid s + 1\<rparr>"
      using a q x0 by (auto simp: th_alloc_def rbind_eq_Inr)
    have b: "blocks_ok ((x # live) @ xs) (hp (heap s))"
      using inv Cons by (auto simp: th_inv_def blocks_ok_def)
    have "x \<notin> set live" using b by (simp add: blocks_ok_def)
    then show ?thesis
      using inv Cons b s' q t tid_fun_extend [OF f, of x]
      by (intro exI [where x = xs]) (simp add: th_inv_def)
  qed
qed

lemma th_inv_free:
  assumes "th_inv hp k s live free" "t \<in> set live"
  shows "th_inv hp k (th_free s t) (remove1 t live) (t # free)"
proof -
  have d: "distinct (live @ free)" "t \<noteq> 0" using assms by (auto simp: th_inv_def blocks_ok_def)
  obtain nx q where q: "Q_push (th_next s) (freeq s) t = (nx, q)" "Q_rep nx q (t # free)"
    "Q_rep nx (runq s) []"
    using assms d thq.push_beside [of "th_next s" "freeq s" free "runq s" "[]" t]
    by (auto simp: th_inv_def)
  have set: "set (remove1 t live) = set live - {t}" using d by simp
  have "blocks_ok (remove1 t live @ t # free) (hp (heap s))"
  proof (rule blocks_ok_perm [where xs = "live @ free"])
    show "blocks_ok (live @ free) (hp (heap s))" using assms(1) by (simp add: th_inv_def)
    show "set (remove1 t live @ t # free) = set (live @ free)" using set assms(2) by auto
    show "distinct (remove1 t live @ t # free)" using d(1) set assms(2) by auto
  qed
  moreover have "length live = Suc (length (remove1 t live))"
    using assms(2) length_pos_if_in_set [OF assms(2)] by (simp add: length_remove1)
  ultimately show ?thesis
    using assms(1) q set unfolding th_inv_def th_free_def
    by (simp add: ac_simps) (metis Diff_iff Diff_subset inj_on_subset)
qed

lemma th_reach_inv:
  assumes "th_reach km (threads_init nx ti h) k s live" "kmalloc_doc km hp"
  shows "\<exists>free. th_inv hp k s live free"
  using assms
proof (induction rule: th_reach.induct)
  case (th_reach_alloc k s live t s')
  then show ?case using th_inv_alloc by blast
next
  case (th_reach_free k s live t)
  then show ?case using th_inv_free by blast
qed (blast intro: th_inv_init)

lemma distinct_u32_length:
  assumes "distinct (xs :: u32 list)" "0 \<notin> set xs"
  shows "length xs < 2 ^ 32"
proof -
  have "inj_on unat (set xs)" by (simp add: inj_on_def word_unat_eq_iff)
  then have "length xs = card (unat ` set xs)"
    using assms(1) by (simp add: card_image distinct_card)
  also have "unat ` set xs \<subseteq> {1..<2 ^ 32}"
  proof
    fix n
    assume "n \<in> unat ` set xs"
    then obtain x where "x \<in> set xs" "n = unat x" by blast
    then show "n \<in> {1..<2 ^ 32}" using assms(2) unat_lt_2p32 [of x] unat_gt_0 [of x] by (auto simp: Suc_le_eq)
  qed
  then have "card (unat ` set xs) \<le> card {1..<2 ^ 32 :: nat}" by (intro card_mono) simp_all
  finally show ?thesis by simp
qed

lemma of_nat_u32_eq_iff:
  "m < 2 ^ 32 \<Longrightarrow> n < 2 ^ 32 \<Longrightarrow> (of_nat m :: u32) = of_nat n \<longleftrightarrow> m = n"
  by (metis unat_of_nat_u32)

lemma th_alloc_progress:
  assumes "th_inv hp k s live free" "kmalloc_doc km hp"
  shows "(\<exists>e. free = [] \<and> km (heap s) sizeof_rpi_thread_t 8 = Inl e \<and> th_alloc km s = Inl e)
    \<or> (\<exists>t s'. th_alloc km s = Inr (t, s'))"
proof (cases free)
  case Nil
  then have q: "Q_pop (th_next s) (freeq s) = Inr (0, freeq s)"
    using assms(1) Q_pop_nil by (auto simp: th_inv_def)
  show ?thesis
  proof (cases "km (heap s) sizeof_rpi_thread_t 8")
    case (Inl e)
    then show ?thesis using Nil q by (simp add: th_alloc_def)
  next
    case (Inr r)
    then obtain p h where r: "km (heap s) sizeof_rpi_thread_t 8 = Inr (p, h)" by (cases r) simp
    then have "p mod 8 = 0" using assms(2) by (metis kmalloc_doc_def)
    then show ?thesis using q r stack_aligned by (simp add: th_alloc_def)
  qed
next
  case (Cons x xs)
  then obtain q where q: "Q_pop (th_next s) (freeq s) = Inr (x, q)"
    using assms(1) Q_pop_cons by (fastforce simp: th_inv_def)
  have "x \<noteq> 0" "x mod 8 = 0" using assms(1) Cons by (auto simp: th_inv_def blocks_ok_def)
  then show ?thesis using q stack_aligned by (simp add: th_alloc_def)
qed

lemma th_inv_tids:
  assumes "th_inv hp k s live free" "k < 2 ^ 32 - 1"
  shows "inj_on (th_tid s) (set live)"
proof -
  obtain f where f: "\<forall>b \<in> set live. th_tid s b = of_nat (f b) \<and> 1 \<le> f b \<and> f b \<le> k" "inj_on f (set live)"
    using assms(1) by (auto simp: th_inv_def)
  show ?thesis
  proof (rule inj_onI)
    fix b c
    assume m: "b \<in> set live" "c \<in> set live" "th_tid s b = th_tid s c"
    then have "(of_nat (f b) :: u32) = of_nat (f c)" "f b \<le> k" "f c \<le> k" using f(1) by simp_all
    then have "f b = f c" using assms(2) of_nat_u32_eq_iff [of "f b" "f c"] by simp
    then show "b = c" using inj_onD [OF f(2)] m by blast
  qed
qed

text \<open>
  (C17) Over every run of \<open>th_alloc\<close> and \<open>th_free\<close> (of blocks that are live), with an allocator
  that behaves as documented: the live blocks are distinct, not null, 8-byte aligned and do not
  overlap; their thread ids are unique until the counter wraps; and \<open>th_alloc\<close> fails only when
  the allocator does, and otherwise hands out a block that is not live.
\<close>

theorem th_blocks_safe:
  assumes "kmalloc_doc km hp" "th_reach km (threads_init nx ti h) k s live"
  shows "blocks_ok live (hp (heap s))
    \<and> (k < 2 ^ 32 - 1 \<longrightarrow> inj_on (th_tid s) (set live))
    \<and> ((\<exists>e. km (heap s) sizeof_rpi_thread_t 8 = Inl e \<and> th_alloc km s = Inl e)
        \<or> (\<exists>t s'. th_alloc km s = Inr (t, s') \<and> t \<notin> set live))"
proof -
  obtain free where inv: "th_inv hp k s live free" using th_reach_inv [OF assms(2,1)] by blast
  have "blocks_ok live (hp (heap s))" using inv by (simp add: th_inv_def blocks_ok_def)
  moreover have "t \<notin> set live" if "th_alloc km s = Inr (t, s')" for t s'
    using th_inv_alloc [OF assms(1) inv that] by (auto simp: th_inv_def blocks_ok_def)
  ultimately show ?thesis
    using th_alloc_progress [OF inv assms(1)] th_inv_tids [OF inv] by blast
qed

text \<open>
  \<open>rpi_internal_check\<close> is exact on such runs: it passes when every block was given back,
  and panics with a storage leak when some block is still live.
\<close>

theorem rpi_internal_check_exact:
  assumes "kmalloc_doc km hp" "th_reach km (threads_init nx ti h) k s live"
  shows "rpi_internal_check s = (if live = [] then Inr () else Inl (Panic ''storage leak''))"
proof -
  obtain free where inv: "th_inv hp k s live free" using th_reach_inv [OF assms(2,1)] by blast
  then have "distinct (live @ free)" "0 \<notin> set (live @ free)" by (auto simp: th_inv_def blocks_ok_def)
  then have "length (live @ free) < 2 ^ 32" by (rule distinct_u32_length)
  then have "nalloced s = of_nat (length free) \<longleftrightarrow> live = []"
    using inv of_nat_u32_eq_iff [of "length (live @ free)" "length free"] by (auto simp: th_inv_def)
  moreover have "Q_nelem (freeq s) = of_nat (length free)" "Q_nelem (runq s) = 0" "Q_empty (runq s) = Inr True"
    using inv Q_nelem_rep Q_empty_rep by (fastforce simp: th_inv_def)+
  ultimately show ?thesis by (simp add: rpi_internal_check_def)
qed

text \<open>
  A freed block is the next one handed out, with a new thread id and without calling the
  allocator, and the internal check still balances: \<open>nalloced\<close> does not change.
\<close>

theorem th_alloc_reuses:
  assumes "kmalloc_doc km hp" "th_reach km (threads_init nx ti h) k s live" "t \<in> set live"
  shows "\<exists>s'. th_alloc km (th_free s t) = Inr (t, s') \<and> heap s' = heap s
    \<and> nalloced s' = nalloced s \<and> th_tid s' t = tid s \<and> tid s' = tid s + 1"
proof -
  obtain free where inv: "th_inv hp k s live free" using th_reach_inv [OF assms(2,1)] by blast
  then have t: "t \<noteq> 0" "t mod 8 = 0" "t \<notin> set free" "Q_rep (th_next s) (freeq s) free"
    using assms(3) by (auto simp: th_inv_def blocks_ok_def)
  obtain nx q where q: "Q_push (th_next s) (freeq s) t = (nx, q)" "Q_rep nx q (t # free)"
    using thq.push_rep [OF t(4,1,3)] by blast
  obtain q' where "Q_pop nx q = Inr (t, q')" using thq.pop_cons [OF q(2)] by blast
  then show ?thesis using q(1) t stack_aligned by (simp add: th_alloc_def th_free_def)
qed

section \<open>Witnesses\<close>

text \<open>A bump allocator over 64 kB from \<open>0x8000\<close> on, as the library documents it.\<close>

definition bump :: "nat kmalloc_t" where
  "bump h n a =
     (let p = 0x8000 + (h + unat a - 1) div unat a * unat a in
      if a = 0 \<or> (0x8000 :: nat) mod unat a \<noteq> 0 \<or> 0x18000 < p + unat n then Inl (Panic ''out of memory'')
      else Inr (of_nat p, p + unat n - 0x8000))"

lemma kmalloc_doc_bump: "kmalloc_doc bump (\<lambda>h. 0x8000 + h)"
proof -
  have "p \<noteq> 0 \<and> p mod a = 0 \<and> 0x8000 + h \<le> unat p \<and> unat p + unat n \<le> 0x8000 + h'"
    if b: "bump h n a = Inr (p, h')" for h n a p h'
  proof -
    define r where "r = (h + unat a - 1) div unat a * unat a"
    have c: "a \<noteq> 0" "(0x8000 :: nat) mod unat a = 0" "0x8000 + r + unat n \<le> 0x18000"
      "p = of_nat (0x8000 + r)" "h' = r + unat n"
      using b by (simp_all add: bump_def Let_def r_def split: if_splits)
    have u: "unat p = 0x8000 + r" unfolding c(4) by (rule unat_of_nat_u32) (use c(3) in simp)
    have "0 < unat a" using c(1) by (simp add: unat_gt_0)
    then have "h \<le> r"
      unfolding r_def using div_mult_mod_eq [of "h + unat a - 1" "unat a"]
        mod_less_divisor [of "unat a" "h + unat a - 1"] by linarith
    moreover have "unat p mod unat a = 0"
      unfolding u r_def using c(2) by (metis mod_add_left_eq add_0 mod_mult_self2_is_0)
    moreover have "p \<noteq> 0" using u by auto
    ultimately show ?thesis using u c by (simp add: word_unat_eq_iff unat_mod_distrib)
  qed
  then show ?thesis by (simp add: kmalloc_doc_def)
qed

definition demo0 :: "nat threads_t" where
  "demo0 = threads_init (\<lambda>_. 0) (\<lambda>_. 0) 0"

definition demo2 :: "nat threads_t" where
  "demo2 = (case th_alloc bump demo0 of Inr (t, s) \<Rightarrow>
     (case th_alloc bump s of Inr (u, s') \<Rightarrow> s' | Inl e \<Rightarrow> s) | Inl e \<Rightarrow> demo0)"

lemma demo_runs:
  "\<exists>s1. th_alloc bump demo0 = Inr (0x8000, s1) \<and> th_alloc bump s1 = Inr (0xA050, demo2)"
  by (simp add: demo2_def th_alloc_def demo0_def threads_init_def Q_pop_def Q_empty_def Q_nelem_def
      bump_def sizeof_rpi_thread_t_def thread_stack_off_def THREAD_MAXSTACK_def th_is_aligned_def)

lemma demo2_reach: "th_reach bump (threads_init (\<lambda>_. 0) (\<lambda>_. 0) 0) 2 demo2 [0xA050, 0x8000]"
proof -
  obtain s1 where s: "th_alloc bump demo0 = Inr (0x8000, s1)" "th_alloc bump s1 = Inr (0xA050, demo2)"
    using demo_runs by blast
  have "th_reach bump demo0 (Suc (Suc 0)) demo2 [0xA050, 0x8000]"
    by (rule th_reach_alloc [OF th_reach_alloc [OF th_reach_init s(1)] s(2)])
  then show ?thesis by (simp add: demo0_def numeral_2_eq_2)
qed

theorem th_blocks_safe_witness:
  "blocks_ok [0xA050, 0x8000] (0x8000 + heap demo2) \<and> inj_on (th_tid demo2) {0xA050, 0x8000}"
  using th_blocks_safe [OF kmalloc_doc_bump demo2_reach] by simp

theorem rpi_internal_check_exact_witness:
  "rpi_internal_check demo2 = Inl (Panic ''storage leak'')"
  using rpi_internal_check_exact [OF kmalloc_doc_bump demo2_reach] by simp

theorem th_alloc_reuses_witness:
  "\<exists>s'. th_alloc bump (th_free demo2 0x8000) = Inr (0x8000, s') \<and> heap s' = heap demo2
    \<and> nalloced s' = nalloced demo2 \<and> th_tid s' 0x8000 = tid demo2 \<and> tid s' = tid demo2 + 1"
  using th_alloc_reuses [OF kmalloc_doc_bump demo2_reach, of "0x8000"] by simp

end
