(* ===== verification/Ring_Ckpt.thy ===== *)
theory Ring_Ckpt
  imports Circular
begin

text \<open>
  Checkpoints of the ring buffer. The lexers of \<^verbatim>\<open>labs/9-esp8266\<close> and \<^verbatim>\<open>labs/10-esp8266\<close> undo a
  failed match by writing an old value back into the \<open>tail\<close> of their ring: this is right as long as
  the bytes consumed since then are still in it.
\<close>

text \<open>
  \<open>ring_holds N b p q xs\<close>: since the position \<open>b\<close> the bytes \<open>p\<close> were consumed, \<open>xs\<close> are still to be
  read, and the ring holds them all. Moving the tail back to \<open>b\<close> makes \<open>p\<close> unread again.
\<close>

definition ring_holds :: "u32 \<Rightarrow> nat \<Rightarrow> bytes \<Rightarrow> cq_t \<Rightarrow> bytes \<Rightarrow> bool" where
  "ring_holds N b p q xs \<longleftrightarrow> b < unat N \<and> cq_inv N q
     \<and> tail q = of_nat ((b + length p) mod unat N)
     \<and> cq_list N q = xs \<and> cq_list N (q\<lparr>tail := of_nat b\<rparr>) = p @ xs"

definition ring_fits :: "u32 \<Rightarrow> nat \<Rightarrow> cq_t \<Rightarrow> nat \<Rightarrow> bool" where
  "ring_fits N b q k \<longleftrightarrow> length (cq_list N (q\<lparr>tail := of_nat b\<rparr>)) + k < unat N"

definition ring_pos :: "u32 \<Rightarrow> nat \<Rightarrow> nat \<Rightarrow> u32" where
  "ring_pos N b k = of_nat ((b + k) mod unat N)"

lemma cq_inv_tail: "cq_inv N q \<Longrightarrow> t < N \<Longrightarrow> cq_inv N (q\<lparr>tail := t\<rparr>)"
  by (simp add: cq_inv_def)

lemma of_nat_less_N: "b < unat N \<Longrightarrow> (of_nat b :: u32) < N"
  using unat_lt_2p32 [of N] by (simp add: word_less_nat_alt unat_of_nat_u32)

lemma unat_ring_pos: "2 \<le> unat N \<Longrightarrow> unat (ring_pos N b k) = (b + k) mod unat N"
  unfolding ring_pos_def
  by (rule unat_of_nat_u32, rule less_trans [OF mod_less_divisor]) (use unat_lt_2p32 [of N] in simp_all)

lemma ring_holds_empty: "ring_holds N b p q xs \<Longrightarrow> cq_empty q \<longleftrightarrow> xs = []"
  using cq_empty_iff [of N q] by (auto simp: ring_holds_def)

lemma ring_holds_nelem: "ring_holds N b p q xs \<Longrightarrow> cq_nelem N q = of_nat (length xs) \<and> length xs < unat N"
  using unat_cq_nelem [of N q] cq_list_bound [of N q] unat_lt_2p32 [of N]
  by (auto simp: ring_holds_def word_unat_eq_iff unat_of_nat_u32)

lemma cq_push_loop_tail:
  "cq_inv N q \<Longrightarrow> t < N \<Longrightarrow> length (cq_list N q) + length xs < unat N \<Longrightarrow>
   length (cq_list N (q\<lparr>tail := t\<rparr>)) + length xs < unat N \<Longrightarrow>
   \<exists>q'. cq_push_loop N q xs = Inr q' \<and> cq_push_loop N (q\<lparr>tail := t\<rparr>) xs = Inr (q'\<lparr>tail := t\<rparr>)"
proof (induction xs arbitrary: q)
  case (Cons x xs)
  let ?t = "\<lambda>q. q\<lparr>tail := t\<rparr>"
  note it = cq_inv_tail [OF Cons.prems(1,2)]
  have nf: "\<not> cq_full N q" "\<not> cq_full N (?t q)"
    using Cons.prems cq_full_iff [OF Cons.prems(1)] cq_full_iff [OF it] by auto
  obtain q1 where q1: "cq_push N q x = Inr (True, q1)" "cq_inv N q1" "cq_list N q1 = cq_list N q @ [x]"
    using cq_push_ok [OF Cons.prems(1) nf(1)] by blast
  obtain q2 where q2: "cq_push N (?t q) x = Inr (True, q2)" "cq_list N q2 = cq_list N (?t q) @ [x]"
    using cq_push_ok [OF it nf(2)] by blast
  have "q2 = ?t q1"
    using q1(1) q2(1) nf cq_inv_nat [OF Cons.prems(1)] by (auto simp: cq_push_def)
  then show ?case using Cons.IH [OF q1(2) Cons.prems(2)] Cons.prems(3,4) q1 q2 by auto
qed simp

lemma ring_holds_push:
  assumes "ring_holds N b p q xs" "ys \<noteq> []" "length ys \<le> 1024" "ring_fits N b q (length ys + k)"
  shows "\<exists>q'. cq_push_n N q ys (of_nat (length ys)) = Inr (True, q') \<and> ring_holds N b p q' (xs @ ys)
    \<and> ring_fits N b q' k"
proof -
  let ?t = "\<lambda>q. q\<lparr>tail := of_nat b :: u32\<rparr>"
  have h: "b < unat N" "cq_inv N q" "cq_list N q = xs" "cq_list N (?t q) = p @ xs"
    using assms(1) by (simp_all add: ring_holds_def)
  have room: "length (p @ xs) + length ys < unat N" using assms(4) h by (simp add: ring_fits_def)
  obtain q' where q': "cq_push_loop N q ys = Inr q'" "cq_push_loop N (?t q) ys = Inr (?t q')"
    using cq_push_loop_tail [OF h(2) of_nat_less_N [OF h(1)], of ys] h room by auto
  have l1: "cq_inv N q'" "cq_list N q' = xs @ ys" "tail q' = tail q"
    using cq_push_loop_ok [OF h(2), of ys] q'(1) h room by auto
  have l2: "cq_list N (?t q') = (p @ xs) @ ys"
    using cq_push_loop_ok [OF cq_inv_tail [OF h(2) of_nat_less_N [OF h(1)]], of ys] q'(2) h room by auto
  have u: "unat (of_nat (length ys) :: u32) = length ys" using assms(3) by (simp add: unat_of_nat_u32)
  have "\<not> cq_nspace N q < of_nat (length ys)"
    using u unat_cq_nspace [OF h(2)] h(3) room by (simp add: word_less_nat_alt)
  moreover have "\<not> cq_empty q'" using l1 assms(2) by (simp add: cq_empty_iff)
  ultimately have "cq_push_n N q ys (of_nat (length ys)) = Inr (True, q')"
    using q'(1) u by (simp add: cq_push_n_def)
  then show ?thesis
    using l1 l2 assms h by (auto simp: ring_holds_def ring_fits_def)
qed

lemma ring_holds_pop:
  assumes "ring_holds N b p q (c # xs)"
  shows "\<exists>q'. cq_pop N q = Inr (c, q') \<and> ring_holds N b (p @ [c]) q' xs \<and> (\<exists>t. q' = q\<lparr>tail := t\<rparr>)"
proof -
  have h: "cq_inv N q" "cq_list N q = c # xs" "tail q = ring_pos N b (length p)"
    using assms by (simp_all add: ring_holds_def ring_pos_def)
  have h4: "2 \<le> unat N" using cq_inv_nat [OF h(1)] by simp
  obtain q' where q': "cq_pop N q = Inr (c, q')" "cq_inv N q'" "cq_list N q' = xs"
    "q' = q\<lparr>tail := (tail q + 1) mod N\<rparr>"
    using cq_pop_Cons [OF h(1,2)] by blast
  have "unat (tail q) < unat N" using cq_inv_nat [OF h(1)] by simp
  from unat_succ_mod [OF this] have "unat (tail q') = unat (ring_pos N b (length (p @ [c])))"
    using q'(4) h(3) unat_ring_pos [OF h4, of b "length p"] unat_ring_pos [OF h4, of b "length (p @ [c])"]
    by (simp add: mod_Suc_eq)
  then have "tail q' = of_nat ((b + length (p @ [c])) mod unat N)" by (simp add: word_unat_eq_iff ring_pos_def)
  then show ?thesis using assms q' by (auto simp: ring_holds_def)
qed

lemma ring_holds_advance:
  "ring_holds N b p r (q @ xs) \<Longrightarrow> ring_holds N b (p @ q) (r\<lparr>tail := ring_pos N b (length (p @ q))\<rparr>) xs"
proof (induction q arbitrary: p r)
  case Nil
  then have "r\<lparr>tail := ring_pos N b (length p)\<rparr> = r"
    by (simp add: ring_holds_def ring_pos_def)
  then show ?case using Nil by simp
next
  case (Cons c q)
  have "ring_holds N b p r (c # (q @ xs))" using Cons.prems by simp
  then obtain r' where r': "ring_holds N b (p @ [c]) r' (q @ xs)" "\<exists>t. r' = r\<lparr>tail := t\<rparr>"
    using ring_holds_pop by blast
  then show ?case using Cons.IH [OF r'(1)] by auto
qed

lemma ring_holds_restore:
  assumes "ring_holds N b (p @ q) r xs"
  shows "ring_holds N b p (r\<lparr>tail := ring_pos N b (length p)\<rparr>) (q @ xs)"
proof -
  have "ring_holds N b [] (r\<lparr>tail := of_nat b\<rparr>) (p @ (q @ xs))"
    using assms cq_inv_tail of_nat_less_N by (simp add: ring_holds_def)
  from ring_holds_advance [OF this] show ?thesis by simp
qed

lemma ring_holds_rebase:
  assumes "ring_holds N b p q xs"
  shows "\<exists>b'. ring_holds N b' [] q xs"
proof -
  have e: "q\<lparr>tail := of_nat ((b + length p) mod unat N)\<rparr> = q" using assms by (simp add: ring_holds_def)
  have "ring_holds N ((b + length p) mod unat N) [] q xs"
    unfolding ring_holds_def e using assms by (simp add: ring_holds_def)
  then show ?thesis by blast
qed

lemma ring_holds_init:
  assumes "cq_size_ok N"
  shows "\<exists>q. cq_init N e = Inr q \<and> tail q = 0 \<and> ring_holds N 0 [] q []"
proof -
  obtain q where q: "cq_init N e = Inr q" "cq_inv N q" "cq_list N q = []" using cq_init_ok [OF assms] by blast
  have t: "tail q = 0" using q(1)
    by (auto simp: cq_init_def Let_def rbind_eq_Inr c_assert_eq_Inr cq_pop_nonblock_def cq_empty_def)
  then have "q\<lparr>tail := of_nat 0\<rparr> = q" by simp
  then have "cq_list N (q\<lparr>tail := of_nat 0\<rparr>) = []" using q(3) by (simp only:)
  then show ?thesis using q t cq_inv_nat [OF q(2)] by (simp add: ring_holds_def)
qed

end
