(* ===== verification/Esp_Lex.thy ===== *)
theory Esp_Lex
  imports Ring_Ckpt
begin

text \<open>
  The lexers of \<^verbatim>\<open>labs/10-esp8266/libesp\<close>: \<^verbatim>\<open>esp-lex.c\<close> and its two buffers, the circular one of
  \<^verbatim>\<open>esp-lex-circ.[ch]\<close> and the flat one of \<^verbatim>\<open>esp-lex-simple.[ch]\<close>, over the read and write
  routines of \<^verbatim>\<open>unix-support.c\<close>. The source picks the buffer with a macro; here the operations
  of a lexer are a record, and a locale states what the parser relies on. It is interpreted on
  both lexers.
\<close>

section \<open>The serial line\<close>

text \<open>
  What arrives on the handle \<open>l->h\<close>, in order: bytes that one \<open>read\<close> may return (fewer if its
  buffer is smaller), or a poll of \<open>select\<close> that times out because nothing is there. \<open>tx\<close> is
  what was written to the handle.
\<close>

datatype ev = Bytes bytes | Quiet

record esp_h =
  rx :: "ev list"
  tx :: bytes

definition esp_has_data_timeout :: "esp_h \<Rightarrow> bool \<times> esp_h" where
  "esp_has_data_timeout w =
     (case rx w of
        [] \<Rightarrow> (False, w)
      | Quiet # r \<Rightarrow> (False, w\<lparr>rx := r\<rparr>)
      | Bytes b # r \<Rightarrow> (True, w))"

text \<open>
  \<open>esp_read\<close> returns the number of bytes read, here the bytes themselves; \<open>read\<close> returning 0 is
  an end of file, on which \<open>sys_die\<close> exits.
\<close>

definition esp_read :: "esp_h \<Rightarrow> nat \<Rightarrow> (bytes \<times> esp_h) result" where
  "esp_read w maxbytes =
     (case esp_has_data_timeout w of (ok, w1) \<Rightarrow>
      if \<not> ok then Inr ([], w1)
      else (case rx w1 of
              Bytes b # r \<Rightarrow>
                if b = [] then Inl (Panic ''read failed'')
                else Inr (take maxbytes b,
                  w1\<lparr>rx := (if length b \<le> maxbytes then r else Bytes (drop maxbytes b) # r)\<rparr>)
            | _ \<Rightarrow> Inr ([], w1)))"

definition esp_write_exact :: "esp_h \<Rightarrow> bytes \<Rightarrow> esp_h" where
  "esp_write_exact w buf = w\<lparr>tx := tx w @ buf\<rparr>"

fun ev_bytes :: "ev list \<Rightarrow> bytes" where
  "ev_bytes [] = []"
| "ev_bytes (Quiet # r) = ev_bytes r"
| "ev_bytes (Bytes b # r) = b @ ev_bytes r"

lemma esp_has_data_timeout_iff:
  "fst (esp_has_data_timeout w) \<Longrightarrow> snd (esp_has_data_timeout w) = w \<and> (\<exists>b r. rx w = Bytes b # r)"
  by (auto simp: esp_has_data_timeout_def split: list.splits ev.splits)

lemma esp_has_data_timeout_Bytes [simp]:
  "rx w = Bytes b # r \<Longrightarrow> esp_has_data_timeout w = (True, w)"
  by (simp add: esp_has_data_timeout_def)

lemma esp_read_shrinks:
  assumes "esp_read w n = Inr (bs, w')" "bs \<noteq> []"
  shows "length (ev_bytes (rx w')) < length (ev_bytes (rx w))"
  using assms
  by (auto simp: esp_read_def esp_has_data_timeout_def split: if_splits list.splits ev.splits)

section \<open>The operations of a lexer\<close>

record 'l lex_base =
  lex_empty :: "'l \<Rightarrow> bool result"
  lex_nstream :: "'l \<Rightarrow> u32 result"
  lex_push_n :: "'l \<Rightarrow> bytes \<Rightarrow> 'l result"

record ('l, 'c) lex_ops = "'l lex_base" +
  lex_getc :: "'l \<times> esp_h \<Rightarrow> (u8 \<times> 'l \<times> esp_h) result"
  lex_peek :: "'l \<times> esp_h \<Rightarrow> (u8 \<times> 'l \<times> esp_h) result"
  lex_get_ckpt :: "'l \<times> esp_h \<Rightarrow> 'c"
  lex_restore_ckpt :: "'c \<Rightarrow> 'l \<times> esp_h \<Rightarrow> 'l \<times> esp_h"
  lex_left :: "'l \<times> esp_h \<Rightarrow> nat"

text \<open>
  \<open>lex_left\<close> is not in the source: the number of bytes buffered or still to arrive, from which
  the loops of the parser take their fuel. The first loop of \<open>lex_readin\<close> polls until there is
  data, and never ends when nothing arrives any more.
\<close>

fun lex_wait :: "ev list \<Rightarrow> ev list result" where
  "lex_wait [] = Inl OutOfInput"
| "lex_wait (Quiet # r) = lex_wait r"
| "lex_wait (Bytes b # r) = Inr (Bytes b # r)"

text \<open>The \<open>do ... while\<close> of \<open>lex_readin\<close>: read, push, check the count, until a poll finds nothing.\<close>

function lex_readin_loop ::
  "('l, 'x) lex_base_scheme \<Rightarrow> 'l \<Rightarrow> esp_h \<Rightarrow> u32 \<Rightarrow> (u32 \<times> 'l \<times> esp_h) result" where
  "lex_readin_loop L l w nbytes =
     rbind (esp_read w 1024) (\<lambda>(buf, w1).
       if buf = [] then Inl (Panic ''server_read failed'')
       else rbind (lex_push_n L l buf) (\<lambda>l1.
         let n1 = nbytes + of_nat (length buf) in
         rbind (lex_nstream L l1) (\<lambda>k.
         rbind (c_assert (k = n1) ''lex_nstream(l) == nbytes'') (\<lambda>_.
           case esp_has_data_timeout w1 of (again, w2) \<Rightarrow>
           if again then lex_readin_loop L l1 w1 n1 else Inr (n1, l1, w2)))))"
  by pat_completeness auto
termination
  by (relation "measure (\<lambda>(L, l, w, n). length (ev_bytes (rx w)))") (auto intro: esp_read_shrinks)

declare lex_readin_loop.simps [simp del]

definition lex_readin ::
  "('l, 'x) lex_base_scheme \<Rightarrow> 'l \<times> esp_h \<Rightarrow> (u32 \<times> 'l \<times> esp_h) result" where
  "lex_readin L s =
     (let (l, w) = s in
      rbind (lex_empty L l) (\<lambda>e.
      rbind (c_assert e ''lex_empty(l)'') (\<lambda>_.
      rbind (lex_nstream L l) (\<lambda>n.
      rbind (c_assert (n = 0) ''lex_nstream(l) == 0'') (\<lambda>_.
      rbind (lex_wait (rx w)) (\<lambda>r.
        lex_readin_loop L l (w\<lparr>rx := r\<rparr>) 0))))))"

definition lex_has_data ::
  "('l, 'x) lex_base_scheme \<Rightarrow> 'l \<times> esp_h \<Rightarrow> (bool \<times> 'l \<times> esp_h) result" where
  "lex_has_data L s =
     (let (l, w) = s in
      rbind (lex_nstream L l) (\<lambda>n.
        if n \<noteq> 0 then Inr (True, l, w)
        else (case esp_has_data_timeout w of (b, w1) \<Rightarrow> Inr (b, l, w1))))"

section \<open>Bursts\<close>

text \<open>
  One call of \<open>lex_readin\<close> takes everything that arrives before the next quiet poll: a burst.
  \<open>bursts_ok M\<close> says that no \<open>read\<close> reports an end of file and no burst is longer than \<open>M\<close>.
\<close>

fun burst_len :: "ev list \<Rightarrow> nat" where
  "burst_len (Bytes b # r) = length b + burst_len r"
| "burst_len _ = 0"

fun bursts_ok :: "nat \<Rightarrow> ev list \<Rightarrow> bool" where
  "bursts_ok M [] \<longleftrightarrow> True"
| "bursts_ok M (Quiet # r) \<longleftrightarrow> bursts_ok M r"
| "bursts_ok M (Bytes b # r) \<longleftrightarrow> b \<noteq> [] \<and> length b + burst_len r \<le> M \<and> bursts_ok M r"

lemma burst_len_le_bytes: "burst_len r \<le> length (ev_bytes r)"
  by (induction r rule: ev_bytes.induct) auto

lemma bursts_ok_total: "bursts_ok M r \<Longrightarrow> bursts_ok (length (ev_bytes r)) r"
proof -
  have "bursts_ok M r \<Longrightarrow> length (ev_bytes r) \<le> K \<Longrightarrow> bursts_ok K r" for K
  proof (induction r rule: ev_bytes.induct)
    case (3 b r)
    then show ?case using burst_len_le_bytes [of r] by simp
  qed simp_all
  then show "bursts_ok M r \<Longrightarrow> bursts_ok (length (ev_bytes r)) r" by simp
qed

lemma lex_wait_ok:
  assumes "bursts_ok M r"
  shows "case lex_wait r of
      Inl e \<Rightarrow> e = OutOfInput \<and> ev_bytes r = []
    | Inr r' \<Rightarrow> (\<exists>b t. r' = Bytes b # t) \<and> ev_bytes r' = ev_bytes r \<and> bursts_ok M r' \<and> burst_len r' \<le> M
        \<and> ev_bytes r \<noteq> []"
  using assms by (induction r rule: lex_wait.induct) (auto split: sum.splits)

lemma esp_read_ok:
  assumes "rx w = Bytes b # r" "bursts_ok M (rx w)"
  shows "\<exists>buf w'. esp_read w 1024 = Inr (buf, w') \<and> buf \<noteq> [] \<and> length buf \<le> 1024 \<and> tx w' = tx w
    \<and> ev_bytes (rx w) = buf @ ev_bytes (rx w') \<and> burst_len (rx w) = length buf + burst_len (rx w')
    \<and> bursts_ok M (rx w')"
  using assms by (auto simp: esp_read_def)

lemma has_data_ok:
  assumes "bursts_ok M (rx w)" "esp_has_data_timeout w = (a, w')"
  shows "ev_bytes (rx w') = ev_bytes (rx w) \<and> bursts_ok M (rx w') \<and> tx w' = tx w
    \<and> (a \<longrightarrow> w' = w \<and> (\<exists>b r. rx w = Bytes b # r)) \<and> (\<not> a \<longrightarrow> burst_len (rx w) = 0)"
  using assms by (auto simp: esp_has_data_timeout_def split: list.splits ev.splits)

section \<open>Reading a burst into a buffer\<close>

text \<open>
  What \<open>lex_readin\<close> relies on: \<open>holds l xs\<close> says that the unread bytes of the buffer are \<open>xs\<close>,
  \<open>fits l k\<close> that \<open>k\<close> more bytes can be pushed.
\<close>

locale lex_buffer =
  fixes L :: "('l, 'x) lex_base_scheme"
    and holds :: "'l \<Rightarrow> bytes \<Rightarrow> bool"
    and fits :: "'l \<Rightarrow> nat \<Rightarrow> bool"
  assumes empty_ok: "holds l xs \<Longrightarrow> lex_empty L l = Inr (xs = [])"
    and nstream_ok: "holds l xs \<Longrightarrow> lex_nstream L l = Inr (of_nat (length xs)) \<and> length xs < 2 ^ 32"
    and push_ok: "holds l xs \<Longrightarrow> ys \<noteq> [] \<Longrightarrow> length ys \<le> 1024 \<Longrightarrow> fits l (length ys + k) \<Longrightarrow>
      \<exists>l'. lex_push_n L l ys = Inr l' \<and> holds l' (xs @ ys) \<and> fits l' k"
begin

lemma readin_loop_ok:
  assumes "rx w = Bytes b # r" "bursts_ok M (rx w)" "holds l xs" "fits l (burst_len (rx w))"
  shows "\<exists>ys l' w'. lex_readin_loop L l w (of_nat (length xs)) = Inr (of_nat (length (xs @ ys)), l', w')
    \<and> ys \<noteq> [] \<and> holds l' (xs @ ys) \<and> ev_bytes (rx w) = ys @ ev_bytes (rx w') \<and> tx w' = tx w
    \<and> bursts_ok M (rx w')"
  using assms
proof (induction "length (ev_bytes (rx w))" arbitrary: w l xs b r rule: less_induct)
  case less
  obtain buf w1 where rd: "esp_read w 1024 = Inr (buf, w1)" "buf \<noteq> []" "length buf \<le> 1024"
    "tx w1 = tx w" "ev_bytes (rx w) = buf @ ev_bytes (rx w1)"
    "burst_len (rx w) = length buf + burst_len (rx w1)" "bursts_ok M (rx w1)"
    using esp_read_ok [OF less.prems(1,2)] by blast
  obtain l1 where l1: "lex_push_n L l buf = Inr l1" "holds l1 (xs @ buf)" "fits l1 (burst_len (rx w1))"
    using push_ok [OF less.prems(3) rd(2,3), of "burst_len (rx w1)"] less.prems(4) rd(6) by auto
  obtain a w2 where hd: "esp_has_data_timeout w1 = (a, w2)" by fastforce
  have step: "lex_readin_loop L l w (of_nat (length xs)) =
    (if a then lex_readin_loop L l1 w1 (of_nat (length (xs @ buf)))
     else Inr (of_nat (length (xs @ buf)), l1, w2))"
    using rd l1 hd nstream_ok [OF l1(2)] by (subst lex_readin_loop.simps) (simp add: Let_def)
  show ?case
  proof (cases a)
    case True
    then obtain b' r' where "rx w1 = Bytes b' # r'" using has_data_ok [OF rd(7) hd] by auto
    moreover have "length (ev_bytes (rx w1)) < length (ev_bytes (rx w))" using rd by simp
    ultimately obtain ys l' w' where "lex_readin_loop L l1 w1 (of_nat (length (xs @ buf)))
        = Inr (of_nat (length ((xs @ buf) @ ys)), l', w')" "holds l' ((xs @ buf) @ ys)"
      "ev_bytes (rx w1) = ys @ ev_bytes (rx w')" "tx w' = tx w1" "bursts_ok M (rx w')"
      using less.hyps [of w1 _ _ l1 "xs @ buf"] rd(7) l1 by blast
    then show ?thesis using True step rd by (intro exI [where x = "buf @ ys"]) auto
  next
    case False
    then show ?thesis
      using step rd l1 has_data_ok [OF rd(7) hd] by (intro exI [where x = buf]) auto
  qed
qed

lemma readin_ok:
  assumes "bursts_ok M (rx w)" "holds l []" "fits l M" "\<And>j k. fits l j \<Longrightarrow> k \<le> j \<Longrightarrow> fits l k"
    "ev_bytes (rx w) \<noteq> []"
  shows "\<exists>n ys l' w'. lex_readin L (l, w) = Inr (n, l', w')
    \<and> ys \<noteq> [] \<and> holds l' ys \<and> ev_bytes (rx w) = ys @ ev_bytes (rx w') \<and> tx w' = tx w
    \<and> bursts_ok M (rx w')"
proof -
  obtain r' b t where wt: "lex_wait (rx w) = Inr r'" "r' = Bytes b # t" "ev_bytes r' = ev_bytes (rx w)"
    "bursts_ok M r'" "burst_len r' \<le> M"
    using lex_wait_ok [OF assms(1)] assms(5) by (auto split: sum.splits)
  have "lex_readin L (l, w) = lex_readin_loop L l (w\<lparr>rx := r'\<rparr>) 0"
    using wt empty_ok [OF assms(2)] nstream_ok [OF assms(2)] by (simp add: lex_readin_def)
  then show ?thesis
    using readin_loop_ok [of "w\<lparr>rx := r'\<rparr>" b t M l "[]"] wt assms(2-4) by auto
qed

lemma readin_end:
  assumes "bursts_ok M (rx w)" "holds l []" "ev_bytes (rx w) = []"
  shows "lex_readin L (l, w) = Inl OutOfInput"
  using lex_wait_ok [OF assms(1)] empty_ok [OF assms(2)] nstream_ok [OF assms(2)] assms(3)
  by (auto simp: lex_readin_def split: sum.splits)

text \<open>Reading in when the buffer is empty leaves the next byte in the buffer.\<close>

lemma fill_ok:
  assumes h: "holds l xs" "c # f = xs @ ev_bytes (rx w)" "bursts_ok M (rx w)"
    and fits: "xs = [] \<Longrightarrow> fits l M" "\<And>j k. fits l j \<Longrightarrow> k \<le> j \<Longrightarrow> fits l k"
  shows "\<exists>l2 w2 ys. (if xs = [] then rbind (lex_readin L (l, w)) (\<lambda>(_, s1). Inr s1) else Inr (l, w)) = Inr (l2, w2)
    \<and> holds l2 (c # ys) \<and> f = ys @ ev_bytes (rx w2) \<and> bursts_ok M (rx w2) \<and> tx w2 = tx w"
proof (cases xs)
  case Nil
  have ne: "ev_bytes (rx w) \<noteq> []" using h(2) Nil by auto
  obtain n ys l2 w2 where r: "lex_readin L (l, w) = Inr (n, l2, w2)" "ys \<noteq> []"
    "holds l2 ys" "ev_bytes (rx w) = ys @ ev_bytes (rx w2)" "tx w2 = tx w" "bursts_ok M (rx w2)"
    using readin_ok [OF h(3) _ _ _ ne] h(1) fits Nil by blast
  moreover have "ys = c # tl ys" "f = tl ys @ ev_bytes (rx w2)" using r h Nil by (cases ys; auto)+
  ultimately show ?thesis using Nil by (metis case_prod_conv rbind_Inr)
qed (use h in auto)


end

section \<open>The circular lexer\<close>

definition LEX_CQ_N :: u32 where
  "LEX_CQ_N = 1024"

record lex_circ_t =
  lc_tail :: u32
  lc_n :: u32
  lc_stream :: cq_t

definition lex_push_n_circ :: "lex_circ_t \<Rightarrow> bytes \<Rightarrow> lex_circ_t result" where
  "lex_push_n_circ l buf =
     rbind (cq_push_n LEX_CQ_N (lc_stream l) buf (of_nat (length buf))) (\<lambda>(ok, q).
       if ok then Inr (l\<lparr>lc_stream := q\<rparr>) else Inl (Panic ''push failed!''))"

definition circ_base :: "lex_circ_t lex_base" where
  "circ_base =
     \<lparr>lex_empty = \<lambda>l. Inr (cq_empty (lc_stream l)),
      lex_nstream = \<lambda>l. Inr (cq_nelem LEX_CQ_N (lc_stream l)),
      lex_push_n = lex_push_n_circ\<rparr>"

definition lex_getc_circ :: "lex_circ_t \<times> esp_h \<Rightarrow> (u8 \<times> lex_circ_t \<times> esp_h) result" where
  "lex_getc_circ s =
     (let (l, w) = s; l1 = l\<lparr>lc_n := lc_n l + 1\<rparr> in
      rbind (if cq_empty (lc_stream l1) then rbind (lex_readin circ_base (l1, w)) (\<lambda>(_, s1). Inr s1)
             else Inr (l1, w)) (\<lambda>(l2, w2).
      rbind (c_assert (\<not> cq_empty (lc_stream l2)) ''!cq_empty(&l->stream)'') (\<lambda>_.
      rbind (cq_pop LEX_CQ_N (lc_stream l2)) (\<lambda>(c, q).
        Inr (c, l2\<lparr>lc_stream := q\<rparr>, w2)))))"

definition lex_peek_circ :: "lex_circ_t \<times> esp_h \<Rightarrow> (u8 \<times> lex_circ_t \<times> esp_h) result" where
  "lex_peek_circ s =
     (let (l, w) = s in
      rbind (if cq_empty (lc_stream l) then rbind (lex_readin circ_base (l, w)) (\<lambda>(_, s1). Inr s1)
             else Inr (l, w)) (\<lambda>(l2, w2).
      rbind (c_assert (\<not> cq_empty (lc_stream l2)) ''!cq_empty(&l->stream)'') (\<lambda>_.
      rbind (cq_peek (lc_stream l2)) (\<lambda>r.
        case r of
          None \<Rightarrow> Inl (Panic ''impossible'')
        | Some uc \<Rightarrow> Inr (uc, l2, w2)))))"

definition lex_init_circ :: "lex_circ_t result" where
  "lex_init_circ =
     rbind (cq_init LEX_CQ_N 1) (\<lambda>q. Inr \<lparr>lc_tail = tail q, lc_n = 0, lc_stream = q\<rparr>)"

definition lex_get_ckpt_circ :: "lex_circ_t \<times> esp_h \<Rightarrow> u32" where
  "lex_get_ckpt_circ s = tail (lc_stream (fst s))"

definition lex_restore_ckpt_circ :: "u32 \<Rightarrow> lex_circ_t \<times> esp_h \<Rightarrow> lex_circ_t \<times> esp_h" where
  "lex_restore_ckpt_circ ck s =
     (let (l, w) = s in (l\<lparr>lc_stream := (lc_stream l)\<lparr>tail := ck\<rparr>\<rparr>, w))"

definition lex_circ :: "(lex_circ_t, u32) lex_ops" where
  "lex_circ =
     \<lparr>lex_empty = lex_empty circ_base, lex_nstream = lex_nstream circ_base,
      lex_push_n = lex_push_n circ_base, lex_getc = lex_getc_circ, lex_peek = lex_peek_circ,
      lex_get_ckpt = lex_get_ckpt_circ, lex_restore_ckpt = lex_restore_ckpt_circ,
      lex_left = \<lambda>(l, w). unat (cq_nelem LEX_CQ_N (lc_stream l)) + length (ev_bytes (rx w))\<rparr>"

section \<open>The flat lexer\<close>

text \<open>
  \<open>l->stream\<close> points to \<open>LEX_MAXBUF\<close> bytes from \<open>malloc\<close>; the asserts keep every access below
  \<open>n\<close>, and \<open>n\<close> below \<open>LEX_MAXBUF\<close>, so the buffer is a function of the index.
\<close>

definition LEX_MAXBUF :: u32 where
  "LEX_MAXBUF = 1024 * 1024"

record lex_simple_t =
  ls_pos :: u32
  ls_n :: u32
  ls_stream :: "u32 \<Rightarrow> u8"

definition lex_empty_simple :: "lex_simple_t \<Rightarrow> bool result" where
  "lex_empty_simple l =
     rbind (c_assert (ls_pos l \<le> ls_n l) ''l->pos <= l->n'') (\<lambda>_. Inr (ls_pos l = ls_n l))"

definition lex_nstream_simple :: "lex_simple_t \<Rightarrow> u32 result" where
  "lex_nstream_simple l =
     rbind (c_assert (ls_pos l \<le> ls_n l) ''l->pos <= l->n'') (\<lambda>_. Inr (ls_n l - ls_pos l))"

fun lex_memcpy :: "(u32 \<Rightarrow> u8) \<Rightarrow> u32 \<Rightarrow> bytes \<Rightarrow> u32 \<Rightarrow> u8" where
  "lex_memcpy m d [] = m"
| "lex_memcpy m d (x # xs) = lex_memcpy (m(d := x)) (d + 1) xs"

definition lex_push_n_simple :: "lex_simple_t \<Rightarrow> bytes \<Rightarrow> lex_simple_t result" where
  "lex_push_n_simple l buf =
     (let n = of_nat (length buf) in
      rbind (c_assert (0 < n) ''n>0'') (\<lambda>_.
      rbind (c_assert (ls_n l + n < LEX_MAXBUF) ''(l->n+n) < LEX_MAXBUF'') (\<lambda>_.
        Inr (l\<lparr>ls_stream := lex_memcpy (ls_stream l) (ls_n l) buf, ls_n := ls_n l + n\<rparr>))))"

definition simple_base :: "lex_simple_t lex_base" where
  "simple_base =
     \<lparr>lex_empty = lex_empty_simple, lex_nstream = lex_nstream_simple, lex_push_n = lex_push_n_simple\<rparr>"

text \<open>The common head of \<open>lex_getc_simple\<close> and \<open>lex_peek_simple\<close>: read in when empty, then assert.\<close>

definition lex_fill_simple :: "lex_simple_t \<times> esp_h \<Rightarrow> (lex_simple_t \<times> esp_h) result" where
  "lex_fill_simple s =
     (let (l, w) = s in
      rbind (lex_empty_simple l) (\<lambda>e.
      rbind (if e then rbind (lex_readin simple_base (l, w)) (\<lambda>(_, s1). Inr s1) else Inr (l, w)) (\<lambda>(l2, w2).
      rbind (lex_empty_simple l2) (\<lambda>e2.
      rbind (c_assert (\<not> e2) ''!lex_empty(l)'') (\<lambda>_. Inr (l2, w2))))))"

definition lex_getc_simple :: "lex_simple_t \<times> esp_h \<Rightarrow> (u8 \<times> lex_simple_t \<times> esp_h) result" where
  "lex_getc_simple s =
     rbind (lex_fill_simple s) (\<lambda>(l, w).
       Inr (ls_stream l (ls_pos l), l\<lparr>ls_pos := ls_pos l + 1\<rparr>, w))"

definition lex_peek_simple :: "lex_simple_t \<times> esp_h \<Rightarrow> (u8 \<times> lex_simple_t \<times> esp_h) result" where
  "lex_peek_simple s = rbind (lex_fill_simple s) (\<lambda>(l, w). Inr (ls_stream l (ls_pos l), l, w))"

definition lex_init_simple :: "(u32 \<Rightarrow> u8) \<Rightarrow> lex_simple_t" where
  "lex_init_simple m = \<lparr>ls_pos = 0, ls_n = 0, ls_stream = m\<rparr>"

definition lex_get_ckpt_simple :: "lex_simple_t \<times> esp_h \<Rightarrow> u32" where
  "lex_get_ckpt_simple s = ls_pos (fst s)"

definition lex_restore_ckpt_simple :: "u32 \<Rightarrow> lex_simple_t \<times> esp_h \<Rightarrow> lex_simple_t \<times> esp_h" where
  "lex_restore_ckpt_simple ck s = (let (l, w) = s in (l\<lparr>ls_pos := ck\<rparr>, w))"

definition lex_simple :: "(lex_simple_t, u32) lex_ops" where
  "lex_simple =
     \<lparr>lex_empty = lex_empty_simple, lex_nstream = lex_nstream_simple,
      lex_push_n = lex_push_n_simple, lex_getc = lex_getc_simple, lex_peek = lex_peek_simple,
      lex_get_ckpt = lex_get_ckpt_simple, lex_restore_ckpt = lex_restore_ckpt_simple,
      lex_left = \<lambda>(l, w). unat (ls_n l - ls_pos l) + length (ev_bytes (rx w))\<rparr>"

section \<open>The circular lexer holds the bytes since a checkpoint\<close>

text \<open>The ring of the lexer holds the bytes \<open>p\<close> consumed since the position \<open>b\<close> and the unread \<open>xs\<close>.\<close>

definition circ_holds :: "nat \<Rightarrow> bytes \<Rightarrow> lex_circ_t \<Rightarrow> bytes \<Rightarrow> bool" where
  "circ_holds b p l xs \<longleftrightarrow> ring_holds LEX_CQ_N b p (lc_stream l) xs"

definition circ_fits :: "nat \<Rightarrow> lex_circ_t \<Rightarrow> nat \<Rightarrow> bool" where
  "circ_fits b l k \<longleftrightarrow> ring_fits LEX_CQ_N b (lc_stream l) k"

lemma unat_LEX_CQ_N [simp]: "unat LEX_CQ_N = 1024"
  by (simp add: LEX_CQ_N_def)

lemma circ_push:
  assumes "circ_holds b p l xs" "ys \<noteq> []" "length ys \<le> 1024" "circ_fits b l (length ys + k)"
  shows "\<exists>l'. lex_push_n_circ l ys = Inr l' \<and> circ_holds b p l' (xs @ ys) \<and> circ_fits b l' k"
  using ring_holds_push [of LEX_CQ_N b p "lc_stream l" xs ys k] assms
  by (auto simp: lex_push_n_circ_def circ_holds_def circ_fits_def)

interpretation circ_buffer: lex_buffer circ_base "circ_holds b p" "circ_fits b" for b p
proof
  show "circ_holds b p l xs \<Longrightarrow> lex_empty circ_base l = Inr (xs = [])" for l xs
    using ring_holds_empty by (auto simp: circ_base_def circ_holds_def)
  show "circ_holds b p l xs \<Longrightarrow>
    lex_nstream circ_base l = Inr (of_nat (length xs)) \<and> length xs < 2 ^ 32" for l xs
    using ring_holds_nelem [of LEX_CQ_N b p "lc_stream l" xs] by (simp add: circ_base_def circ_holds_def)
  show "circ_holds b p l xs \<Longrightarrow> ys \<noteq> [] \<Longrightarrow> length ys \<le> 1024 \<Longrightarrow> circ_fits b l (length ys + k) \<Longrightarrow>
    \<exists>l'. lex_push_n circ_base l ys = Inr l' \<and> circ_holds b p l' (xs @ ys) \<and> circ_fits b l' k"
    for l xs ys k using circ_push [of b p l xs ys k] by (simp add: circ_base_def)
qed

section \<open>What the parser relies on\<close>

text \<open>
  \<open>rep b t s p f\<close>: in the state \<open>s\<close> the bytes \<open>p\<close> were consumed since the position \<open>b\<close>, the bytes
  \<open>f\<close> are still to come (buffered or on the line, however they are split into reads), and \<open>t\<close> was
  sent. \<open>room k\<close> says that \<open>k\<close> consumed bytes survive one more read-in.
\<close>

locale lexer =
  fixes L :: "('l, 'c) lex_ops"
    and rep :: "nat \<Rightarrow> bytes \<Rightarrow> 'l \<times> esp_h \<Rightarrow> bytes \<Rightarrow> bytes \<Rightarrow> bool"
    and pos :: "nat \<Rightarrow> nat \<Rightarrow> 'c"
    and room :: "nat \<Rightarrow> bool"
  assumes room_mono: "room k \<Longrightarrow> j \<le> k \<Longrightarrow> room j"
    and getc_ok: "rep b t s p (c # f) \<Longrightarrow> room (length p) \<Longrightarrow>
      \<exists>s'. lex_getc L s = Inr (c, s') \<and> rep b t s' (p @ [c]) f"
    and getc_end: "rep b t s p [] \<Longrightarrow> lex_getc L s = Inl OutOfInput"
    and peek_ok: "rep b t s p (c # f) \<Longrightarrow> room (length p) \<Longrightarrow>
      \<exists>s'. lex_peek L s = Inr (c, s') \<and> rep b t s' p (c # f)"
    and peek_end: "rep b t s p [] \<Longrightarrow> lex_peek L s = Inl OutOfInput"
    and nstream_ok: "rep b t s p f \<Longrightarrow> \<exists>n. lex_nstream L (fst s) = Inr n \<and> (n \<noteq> 0 \<longrightarrow> f \<noteq> [])"
    and left_ok: "rep b t s p f \<Longrightarrow> lex_left L s = length f"
    and ckpt_ok: "rep b t s p f \<Longrightarrow> lex_get_ckpt L s = pos b (length p)"
    and restore_ok: "rep b t s (p @ q) f \<Longrightarrow> rep b t (lex_restore_ckpt L (pos b (length p)) s) p (q @ f)"
    and rebase: "rep b t s p f \<Longrightarrow> \<exists>b'. rep b' t s [] f"
    and write_ok: "rep b t s p f \<Longrightarrow> rep b (t @ x) (fst s, esp_write_exact (snd s) x) p f"
    and sent_ok: "rep b t s p f \<Longrightarrow> tx (snd s) = t"

definition circ_rep :: "nat \<Rightarrow> nat \<Rightarrow> bytes \<Rightarrow> lex_circ_t \<times> esp_h \<Rightarrow> bytes \<Rightarrow> bytes \<Rightarrow> bool" where
  "circ_rep M b t s p f \<longleftrightarrow> (\<exists>xs. circ_holds b p (fst s) xs \<and> f = xs @ ev_bytes (rx (snd s))
     \<and> bursts_ok M (rx (snd s)) \<and> tx (snd s) = t)"

definition circ_pos :: "nat \<Rightarrow> nat \<Rightarrow> u32" where
  "circ_pos b k = ring_pos LEX_CQ_N b k"

definition circ_room :: "nat \<Rightarrow> nat \<Rightarrow> bool" where
  "circ_room M k \<longleftrightarrow> k + M < 1024"

lemma circ_holds_empty: "circ_holds b p l xs \<Longrightarrow> cq_empty (lc_stream l) \<longleftrightarrow> xs = []"
  using ring_holds_empty by (auto simp: circ_holds_def)

lemma circ_holds_n [simp]: "circ_holds b p (l\<lparr>lc_n := k\<rparr>) xs \<longleftrightarrow> circ_holds b p l xs"
  by (simp add: circ_holds_def)

lemma circ_fill:
  assumes "circ_rep M b t (l, w) p (c # f)" "circ_room M (length p)"
  shows "\<exists>l2 w2 xs. (if cq_empty (lc_stream l)
      then rbind (lex_readin circ_base (l, w)) (\<lambda>(_, s1). Inr s1) else Inr (l, w)) = Inr (l2, w2)
    \<and> circ_holds b p l2 (c # xs) \<and> f = xs @ ev_bytes (rx w2) \<and> bursts_ok M (rx w2) \<and> tx w2 = t"
proof -
  obtain xs where h: "circ_holds b p l xs" "c # f = xs @ ev_bytes (rx w)" "bursts_ok M (rx w)" "tx w = t"
    using assms(1) by (auto simp: circ_rep_def)
  have "circ_fits b l M" if "xs = []"
    using that h(1) assms(2) by (simp add: circ_holds_def ring_holds_def circ_fits_def ring_fits_def circ_room_def)
  then show ?thesis
    using circ_buffer.fill_ok [OF h(1-3)] circ_holds_empty [OF h(1)] h(4)
    by (simp add: circ_fits_def ring_fits_def)
qed

lemma circ_fill_end:
  assumes "circ_rep M b t (l, w) p []"
  shows "cq_empty (lc_stream l) \<and> lex_readin circ_base (l, w) = Inl OutOfInput"
  using assms circ_holds_empty [of b p l] circ_buffer.readin_end [of M w b p l]
  by (auto simp: circ_rep_def)

lemma circ_pop:
  assumes "circ_holds b p l (c # xs)"
  shows "\<exists>q. cq_pop LEX_CQ_N (lc_stream l) = Inr (c, q) \<and> circ_holds b (p @ [c]) (l\<lparr>lc_stream := q\<rparr>) xs"
  using ring_holds_pop [of LEX_CQ_N b p "lc_stream l" c xs] assms by (auto simp: circ_holds_def)

lemma circ_restore:
  assumes "circ_holds b (p @ q) l xs"
  shows "circ_holds b p (l\<lparr>lc_stream := (lc_stream l)\<lparr>tail := circ_pos b (length p)\<rparr>\<rparr>) (q @ xs)"
  using ring_holds_restore [of LEX_CQ_N b p q "lc_stream l" xs] assms by (simp add: circ_holds_def circ_pos_def)

lemma circ_rebase:
  assumes "circ_holds b p l xs"
  shows "\<exists>b'. circ_holds b' [] l xs"
  using ring_holds_rebase assms by (simp add: circ_holds_def)

lemma circ_nstream:
  assumes "circ_rep M b t s p f"
  shows "\<exists>xs. lex_nstream lex_circ (fst s) = Inr (of_nat (length xs)) \<and> length xs < 2 ^ 32
    \<and> f = xs @ ev_bytes (rx (snd s)) \<and> unat (cq_nelem LEX_CQ_N (lc_stream (fst s))) = length xs"
  using assms circ_buffer.nstream_ok [of b p "fst s"] unat_cq_nelem [of LEX_CQ_N "lc_stream (fst s)"]
  by (auto simp: circ_rep_def lex_circ_def circ_holds_def ring_holds_def)

interpretation circ: lexer lex_circ "circ_rep M" circ_pos "circ_room M" for M
proof
  fix b t p f and s :: "lex_circ_t \<times> esp_h" and c
  obtain l w where s: "s = (l, w)" by (cases s)
  show "\<exists>s'. lex_getc lex_circ s = Inr (c, s') \<and> circ_rep M b t s' (p @ [c]) f"
    if "circ_rep M b t s p (c # f)" "circ_room M (length p)"
  proof -
    have "circ_rep M b t (l\<lparr>lc_n := lc_n l + 1\<rparr>, w) p (c # f)" using that s by (simp add: circ_rep_def)
    from circ_fill [OF this that(2)] obtain l2 w2 xs where f:
      "(if cq_empty (lc_stream l) then rbind (lex_readin circ_base (l\<lparr>lc_n := lc_n l + 1\<rparr>, w)) (\<lambda>(_, s1). Inr s1)
        else Inr (l\<lparr>lc_n := lc_n l + 1\<rparr>, w)) = Inr (l2, w2)"
      "circ_holds b p l2 (c # xs)" "f = xs @ ev_bytes (rx w2)" "bursts_ok M (rx w2)" "tx w2 = t" by auto
    then show ?thesis
      using circ_pop [OF f(2)] circ_holds_empty [OF f(2)] s
      by (auto simp: lex_circ_def lex_getc_circ_def circ_rep_def)
  qed
  show "\<exists>s'. lex_peek lex_circ s = Inr (c, s') \<and> circ_rep M b t s' p (c # f)"
    if "circ_rep M b t s p (c # f)" "circ_room M (length p)"
  proof -
    from circ_fill that s obtain l2 w2 xs where f:
      "(if cq_empty (lc_stream l) then rbind (lex_readin circ_base (l, w)) (\<lambda>(_, s1). Inr s1)
        else Inr (l, w)) = Inr (l2, w2)"
      "circ_holds b p l2 (c # xs)" "f = xs @ ev_bytes (rx w2)" "bursts_ok M (rx w2)" "tx w2 = t" by blast
    then show ?thesis
      using cq_peek_list [of LEX_CQ_N "lc_stream l2"] circ_holds_empty [OF f(2)] s
      by (auto simp: lex_circ_def lex_peek_circ_def circ_rep_def circ_holds_def ring_holds_def)
  qed
  show "lex_getc lex_circ s = Inl OutOfInput" if "circ_rep M b t s p []"
  proof -
    have "circ_rep M b t (l\<lparr>lc_n := lc_n l + 1\<rparr>, w) p []" using that s by (simp add: circ_rep_def)
    from circ_fill_end [OF this] show ?thesis using s by (simp add: lex_circ_def lex_getc_circ_def)
  qed
  show "lex_peek lex_circ s = Inl OutOfInput" if "circ_rep M b t s p []"
    using that circ_fill_end s by (auto simp: lex_circ_def lex_peek_circ_def)
  show "\<exists>n. lex_nstream lex_circ (fst s) = Inr n \<and> (n \<noteq> 0 \<longrightarrow> f \<noteq> [])" if "circ_rep M b t s p f"
    using circ_nstream [OF that] by auto
  show "lex_left lex_circ s = length f" if "circ_rep M b t s p f"
    using circ_nstream [OF that] s by (auto simp: lex_circ_def)
  show "circ_rep M b t (lex_restore_ckpt lex_circ (circ_pos b (length p)) s) p (q @ f)"
    if "circ_rep M b t s (p @ q) f" for q
    using that circ_restore s by (fastforce simp: circ_rep_def lex_circ_def lex_restore_ckpt_circ_def)
  show "\<exists>b'. circ_rep M b' t s [] f" if "circ_rep M b t s p f"
    using that circ_rebase by (fastforce simp: circ_rep_def)
qed (auto simp: circ_rep_def lex_circ_def lex_get_ckpt_circ_def circ_holds_def ring_holds_def circ_pos_def
    ring_pos_def circ_room_def esp_write_exact_def)

section \<open>The flat lexer holds everything it ever read\<close>

definition seg :: "(u32 \<Rightarrow> u8) \<Rightarrow> nat \<Rightarrow> nat \<Rightarrow> bytes" where
  "seg m b k = map (\<lambda>i. m (of_nat (b + i))) [0..<k]"

definition simple_holds :: "nat \<Rightarrow> bytes \<Rightarrow> lex_simple_t \<Rightarrow> bytes \<Rightarrow> bool" where
  "simple_holds b p l xs \<longleftrightarrow> unat (ls_pos l) = b + length p
     \<and> unat (ls_n l) = b + length p + length xs \<and> unat (ls_n l) < 2 ^ 20
     \<and> seg (ls_stream l) b (length (p @ xs)) = p @ xs"

definition simple_fits :: "lex_simple_t \<Rightarrow> nat \<Rightarrow> bool" where
  "simple_fits l k \<longleftrightarrow> unat (ls_n l) + k < 2 ^ 20"

definition simple_rep :: "nat \<Rightarrow> bytes \<Rightarrow> lex_simple_t \<times> esp_h \<Rightarrow> bytes \<Rightarrow> bytes \<Rightarrow> bool" where
  "simple_rep b t s p f \<longleftrightarrow> (\<exists>xs. simple_holds b p (fst s) xs \<and> f = xs @ ev_bytes (rx (snd s))
     \<and> bursts_ok (length (ev_bytes (rx (snd s)))) (rx (snd s)) \<and> tx (snd s) = t
     \<and> b + length p + length f < 2 ^ 20)"

lemma seg_nth: "seg m b k = xs \<Longrightarrow> i < k \<Longrightarrow> m (of_nat (b + i)) = xs ! i"
  by (auto simp: seg_def)

lemma u32_of_unat: "unat x = k \<Longrightarrow> (x :: u32) = of_nat k"
  by auto

lemma lex_memcpy_seg:
  "b + j + length ys < 2 ^ 32 \<Longrightarrow>
   seg (lex_memcpy m (of_nat (b + j)) ys) b (j + length ys) = seg m b j @ ys"
proof (induction ys arbitrary: m j)
  case (Cons y ys)
  have d: "(of_nat (b + i) :: u32) \<noteq> of_nat (b + j)" if "i < j" for i
  proof
    assume "(of_nat (b + i) :: u32) = of_nat (b + j)"
    then have "unat (of_nat (b + i) :: u32) = unat (of_nat (b + j) :: u32)" by (rule arg_cong)
    then show False using that Cons.prems by (simp only: unat_of_nat_u32)
  qed
  have s: "seg (m(of_nat (b + j) := y)) b (Suc j) = seg m b j @ [y]"
    using d by (simp add: seg_def)
  have "seg (lex_memcpy (m(of_nat (b + j) := y)) (of_nat (b + Suc j)) ys) b (Suc j + length ys) = seg m b j @ y # ys"
    using Cons.IH [of "Suc j" "m(of_nat (b + j) := y)"] Cons.prems unfolding s by (simp del: fun_upd_apply)
  then show ?case by (simp add: add.commute add.left_commute)
qed simp

lemma simple_push:
  assumes "simple_holds b p l xs" "ys \<noteq> []" "length ys \<le> 1024" "simple_fits l (length ys + k)"
  shows "\<exists>l'. lex_push_n_simple l ys = Inr l' \<and> simple_holds b p l' (xs @ ys) \<and> simple_fits l' k"
proof -
  let ?n = "of_nat (length ys) :: u32"
  have u: "unat ?n = length ys" using assms(3) by (simp add: unat_of_nat_u32)
  have h: "unat (ls_n l) = b + length (p @ xs)" "unat (ls_n l) + length ys + k < 2 ^ 20"
    "seg (ls_stream l) b (length (p @ xs)) = p @ xs"
    using assms by (simp_all add: simple_holds_def simple_fits_def)
  have n1: "unat (ls_n l + ?n) = unat (ls_n l) + length ys" using u h by (simp add: unat_add_u32)
  have ln: "ls_n l = of_nat (b + length (p @ xs))" by (rule u32_of_unat [OF h(1)])
  have "0 < ?n" using u assms(2) by (simp add: word_less_nat_alt)
  moreover have "ls_n l + ?n < LEX_MAXBUF" using n1 h by (simp add: word_less_nat_alt LEX_MAXBUF_def)
  ultimately have "lex_push_n_simple l ys = Inr (l\<lparr>ls_stream := lex_memcpy (ls_stream l) (ls_n l) ys, ls_n := ls_n l + ?n\<rparr>)"
    by (simp add: lex_push_n_simple_def)
  moreover have "seg (lex_memcpy (ls_stream l) (ls_n l) ys) b (length (p @ xs) + length ys) = (p @ xs) @ ys"
    unfolding ln using lex_memcpy_seg [of b "length (p @ xs)" ys "ls_stream l"] h by simp
  ultimately show ?thesis
    using assms(1) n1 h by (simp add: simple_holds_def simple_fits_def add.assoc)
qed

interpretation simple_buffer: lex_buffer simple_base "simple_holds b p" simple_fits for b p
proof
  show "simple_holds b p l xs \<Longrightarrow> lex_empty simple_base l = Inr (xs = [])" for l xs
    by (auto simp: simple_base_def lex_empty_simple_def simple_holds_def word_le_nat_alt word_unat_eq_iff)
  show "simple_holds b p l xs \<Longrightarrow>
    lex_nstream simple_base l = Inr (of_nat (length xs)) \<and> length xs < 2 ^ 32" for l xs
    by (auto simp: simple_base_def lex_nstream_simple_def simple_holds_def word_le_nat_alt
        word_unat_eq_iff unat_of_nat_u32 unat_sub_u32)
  show "simple_holds b p l xs \<Longrightarrow> ys \<noteq> [] \<Longrightarrow> length ys \<le> 1024 \<Longrightarrow> simple_fits l (length ys + k) \<Longrightarrow>
    \<exists>l'. lex_push_n simple_base l ys = Inr l' \<and> simple_holds b p l' (xs @ ys) \<and> simple_fits l' k"
    for l xs ys k using simple_push [of b p l xs ys k] by (simp add: simple_base_def)
qed

lemma lex_empty_simple_ok: "simple_holds b p l xs \<Longrightarrow> lex_empty_simple l = Inr (xs = [])"
  using simple_buffer.empty_ok [of b p l xs] by (simp add: simple_base_def)

lemma simple_fill:
  assumes "simple_rep b t (l, w) p (c # f)"
  shows "\<exists>l2 w2 xs. lex_fill_simple (l, w) = Inr (l2, w2) \<and> simple_holds b p l2 (c # xs)
    \<and> f = xs @ ev_bytes (rx w2) \<and> simple_rep b t (l2, w2) p (c # f)"
proof -
  obtain xs where h: "simple_holds b p l xs" "c # f = xs @ ev_bytes (rx w)"
    "bursts_ok (length (ev_bytes (rx w))) (rx w)" "tx w = t" "b + length p + length (c # f) < 2 ^ 20"
    using assms by (auto simp only: simple_rep_def fst_conv snd_conv)
  show ?thesis
  proof (cases xs)
    case Nil
    have ne: "ev_bytes (rx w) \<noteq> []" using h(2) Nil by auto
    have "simple_fits l (length (ev_bytes (rx w)))"
      using h Nil by (simp add: simple_holds_def simple_fits_def)
    then obtain n ys l2 w2 where r: "lex_readin simple_base (l, w) = Inr (n, l2, w2)" "ys \<noteq> []"
      "simple_holds b p l2 ys" "ev_bytes (rx w) = ys @ ev_bytes (rx w2)" "tx w2 = tx w"
      "bursts_ok (length (ev_bytes (rx w))) (rx w2)"
      using simple_buffer.readin_ok [of "length (ev_bytes (rx w))" w b p l, OF _ _ _ _ ne] h Nil
      by (auto simp: simple_fits_def)
    have y: "ys = c # tl ys" "f = tl ys @ ev_bytes (rx w2)" using r h Nil by (cases ys; auto)+
    have "simple_rep b t (l2, w2) p (c # f)"
      using r h Nil bursts_ok_total [OF r(6)] by (auto simp: simple_rep_def)
    then show ?thesis
      using Nil r y h lex_empty_simple_ok [OF h(1)] lex_empty_simple_ok [OF r(3)]
      by (intro exI [where x = l2] exI [where x = w2] exI [where x = "tl ys"]) (auto simp: lex_fill_simple_def)
  next
    case (Cons x xs')
    then show ?thesis using h assms lex_empty_simple_ok [OF h(1)] by (auto simp: lex_fill_simple_def)
  qed
qed

lemma simple_fill_end: "simple_rep b t (l, w) p [] \<Longrightarrow> lex_fill_simple (l, w) = Inl OutOfInput"
  using simple_buffer.readin_end [of _ w b p l] lex_empty_simple_ok [of b p l "[]"]
  by (auto simp: lex_fill_simple_def simple_rep_def)

lemma simple_at:
  assumes "simple_holds b p l (c # xs)"
  shows "ls_stream l (ls_pos l) = c" "simple_holds b (p @ [c]) (l\<lparr>ls_pos := ls_pos l + 1\<rparr>) xs"
proof -
  have h: "unat (ls_pos l) = b + length p" "unat (ls_pos l) + 1 < 2 ^ 32"
    "seg (ls_stream l) b (length (p @ c # xs)) = p @ c # xs" using assms by (simp_all add: simple_holds_def)
  have "ls_pos l = of_nat (b + length p)" by (rule u32_of_unat [OF h(1)])
  then show "ls_stream l (ls_pos l) = c" using seg_nth [OF h(3), of "length p"] by simp
  show "simple_holds b (p @ [c]) (l\<lparr>ls_pos := ls_pos l + 1\<rparr>) xs"
    using assms h(2) unat_Suc_lt [OF h(2)] by (simp add: simple_holds_def)
qed

lemma simple_restore:
  assumes "simple_holds b (p @ q) l xs"
  shows "simple_holds b p (l\<lparr>ls_pos := of_nat (b + length p)\<rparr>) (q @ xs)"
proof -
  have "unat (of_nat (b + length p) :: u32) = b + length p"
    using assms by (intro unat_of_nat_u32) (simp add: simple_holds_def)
  then show ?thesis using assms by (simp add: simple_holds_def add.assoc)
qed

lemma simple_rebase:
  assumes "simple_holds b p l xs"
  shows "simple_holds (b + length p) [] l xs"
proof -
  have "seg (ls_stream l) (b + length p) (length xs) = xs"
  proof (rule nth_equalityI)
    fix i
    assume "i < length (seg (ls_stream l) (b + length p) (length xs))"
    then have i: "i < length xs" by (simp add: seg_def)
    then show "seg (ls_stream l) (b + length p) (length xs) ! i = xs ! i"
      using assms seg_nth [of "ls_stream l" b "length (p @ xs)" "p @ xs" "length p + i"]
      by (simp add: simple_holds_def seg_def nth_append add.assoc)
  qed (simp add: seg_def)
  then show ?thesis using assms by (simp add: simple_holds_def)
qed

interpretation simple: lexer lex_simple simple_rep "\<lambda>b k. of_nat (b + k)" "\<lambda>_. True"
proof
  fix b t p f and s :: "lex_simple_t \<times> esp_h" and c
  obtain l w where s: "s = (l, w)" by (cases s)
  show "\<exists>s'. lex_getc lex_simple s = Inr (c, s') \<and> simple_rep b t s' (p @ [c]) f"
    if rep: "simple_rep b t s p (c # f)"
  proof -
    obtain l2 w2 xs where f: "lex_fill_simple (l, w) = Inr (l2, w2)" "simple_holds b p l2 (c # xs)"
      "f = xs @ ev_bytes (rx w2)" "simple_rep b t (l2, w2) p (c # f)"
      using simple_fill rep s by blast
    then show ?thesis using simple_at [OF f(2)] s
      by (auto simp: lex_simple_def lex_getc_simple_def simple_rep_def)
  qed
  show "\<exists>s'. lex_peek lex_simple s = Inr (c, s') \<and> simple_rep b t s' p (c # f)"
    if "simple_rep b t s p (c # f)"
    using simple_fill [of b t l w p c f] that s simple_at
    by (fastforce simp: lex_simple_def lex_peek_simple_def)
  show "lex_getc lex_simple s = Inl OutOfInput" if "simple_rep b t s p []"
    using that simple_fill_end s by (simp add: lex_simple_def lex_getc_simple_def)
  show "lex_peek lex_simple s = Inl OutOfInput" if "simple_rep b t s p []"
    using that simple_fill_end s by (simp add: lex_simple_def lex_peek_simple_def)
  show "\<exists>n. lex_nstream lex_simple (fst s) = Inr n \<and> (n \<noteq> 0 \<longrightarrow> f \<noteq> [])" if "simple_rep b t s p f"
    using that simple_buffer.nstream_ok [of b p l] s
    by (fastforce simp: simple_rep_def lex_simple_def simple_base_def)
  show "lex_left lex_simple s = length f" if "simple_rep b t s p f"
    using that s by (auto simp: simple_rep_def simple_holds_def lex_simple_def unat_sub_u32 word_le_nat_alt)
  show "simple_rep b t (lex_restore_ckpt lex_simple (of_nat (b + length p)) s) p (q @ f)"
    if "simple_rep b t s (p @ q) f" for q
    using that simple_restore s by (fastforce simp: simple_rep_def lex_simple_def lex_restore_ckpt_simple_def)
  show "\<exists>b'. simple_rep b' t s [] f" if "simple_rep b t s p f"
    using that simple_rebase [of b p l] s by (intro exI [where x = "b + length p"]) (auto simp: simple_rep_def)
  show "lex_get_ckpt lex_simple s = of_nat (b + length p)" if "simple_rep b t s p f"
    using that s u32_of_unat
    by (fastforce simp: simple_rep_def simple_holds_def lex_simple_def lex_get_ckpt_simple_def)
qed (auto simp: simple_rep_def esp_write_exact_def)

section \<open>Reading, and reading again after a checkpoint\<close>

fun lex_getn :: "('l, 'c) lex_ops \<Rightarrow> nat \<Rightarrow> 'l \<times> esp_h \<Rightarrow> (bytes \<times> 'l \<times> esp_h) result" where
  "lex_getn L 0 s = Inr ([], s)"
| "lex_getn L (Suc k) s =
     rbind (lex_getc L s) (\<lambda>(c, s1). rbind (lex_getn L k s1) (\<lambda>(cs, s2). Inr (c # cs, s2)))"

context lexer
begin

lemma getn_ok:
  "rep b t s p (q @ f) \<Longrightarrow> room (length p + length q) \<Longrightarrow>
   \<exists>s'. lex_getn L (length q) s = Inr (q, s') \<and> rep b t s' (p @ q) f"
proof (induction q arbitrary: s p)
  case (Cons c q)
  have "room (length p)" using Cons.prems(2) by (rule room_mono) simp
  then obtain s1 where s1: "lex_getc L s = Inr (c, s1)" "rep b t s1 (p @ [c]) (q @ f)"
    using getc_ok Cons.prems(1) by fastforce
  then show ?case using Cons.IH [OF s1(2)] Cons.prems(2) by auto
qed simp

text \<open>Without a checkpoint to keep, any number of bytes can be read: only a read-in must find room.\<close>

lemma getn_any:
  "rep b t s p (q @ f) \<Longrightarrow> room 0 \<Longrightarrow> \<exists>b' s'. lex_getn L (length q) s = Inr (q, s') \<and> rep b' t s' [] f"
proof (induction q arbitrary: b s p)
  case Nil
  then show ?case using rebase by fastforce
next
  case (Cons c q)
  obtain b1 where b1: "rep b1 t s [] (c # (q @ f))" using rebase Cons.prems(1) by fastforce
  obtain s1 where s1: "lex_getc L s = Inr (c, s1)" "rep b1 t s1 [c] (q @ f)"
    using getc_ok [OF b1] Cons.prems(2) by auto
  then show ?case using Cons.IH [OF s1(2) Cons.prems(2)] by auto
qed

lemma getn_again:
  assumes "rep b t s p (q @ f)" "room (length p + length q)"
  shows "\<exists>s1 s2. lex_getn L (length q) s = Inr (q, s1)
    \<and> lex_getn L (length q) (lex_restore_ckpt L (lex_get_ckpt L s) s1) = Inr (q, s2)
    \<and> rep b t s2 (p @ q) f"
proof -
  obtain s1 where s1: "lex_getn L (length q) s = Inr (q, s1)" "rep b t s1 (p @ q) f"
    using getn_ok [OF assms] by blast
  have "rep b t (lex_restore_ckpt L (lex_get_ckpt L s) s1) p (q @ f)"
    unfolding ckpt_ok [OF assms(1)] by (rule restore_ok [OF s1(2)])
  then show ?thesis using getn_ok [OF _ assms(2)] s1 by blast
qed

lemma replays_ok:
  assumes "rep b t s [] (us @ vs @ ws)" "room (length vs)"
  shows "\<exists>s0 s1 s2 s3. lex_getn L (length us) s = Inr (us, s0) \<and> lex_getn L (length vs) s0 = Inr (vs, s1)
    \<and> lex_getn L (length vs) (lex_restore_ckpt L (lex_get_ckpt L s0) s1) = Inr (vs, s2)
    \<and> lex_getn L (length ws) s2 = Inr (ws, s3) \<and> lex_getc L s3 = Inl OutOfInput"
proof -
  have room: "room 0" using assms(2) by (rule room_mono) simp
  obtain b0 s0 where s0: "lex_getn L (length us) s = Inr (us, s0)" "rep b0 t s0 [] (vs @ ws)"
    using getn_any [OF assms(1) room] by blast
  obtain s1 s2 where s1: "lex_getn L (length vs) s0 = Inr (vs, s1)"
    "lex_getn L (length vs) (lex_restore_ckpt L (lex_get_ckpt L s0) s1) = Inr (vs, s2)" "rep b0 t s2 vs ws"
    using getn_again [OF s0(2)] assms(2) by auto
  obtain b3 s3 where "lex_getn L (length ws) s2 = Inr (ws, s3)" "rep b3 t s3 [] []"
    using getn_any [of b0 t s2 vs ws "[]"] s1(3) room by auto
  then show ?thesis using s0(1) s1(1,2) getc_end by blast
qed

end

lemma lex_init_circ_rep:
  assumes "bursts_ok M evs"
  shows "\<exists>l. lex_init_circ = Inr l \<and> circ_rep M 0 t (l, \<lparr>rx = evs, tx = t\<rparr>) [] (ev_bytes evs)"
proof -
  have "cq_size_ok LEX_CQ_N" by (simp add: cq_size_ok_def)
  from ring_holds_init [OF this, of 1] assms show ?thesis
    by (auto simp: lex_init_circ_def circ_rep_def circ_holds_def)
qed

lemma lex_init_simple_rep:
  assumes "bursts_ok M evs" "length (ev_bytes evs) < 2 ^ 20"
  shows "simple_rep 0 t (lex_init_simple m, \<lparr>rx = evs, tx = t\<rparr>) [] (ev_bytes evs)"
  using assms bursts_ok_total [OF assms(1)]
  by (simp add: simple_rep_def lex_init_simple_def simple_holds_def seg_def)

text \<open>
  (C12) Both lexers deliver the bytes \<open>us @ vs @ ws\<close> of a line in order and then block, for any number of
  bytes and however they arrive in reads and bursts; and when a checkpoint is taken behind \<open>us\<close>, at any
  place of the line, and restored after \<open>vs\<close> was read, they deliver \<open>vs\<close> again and go on with \<open>ws\<close>.
  Nothing the line carries before the checkpoint or after it counts for the ring, which goes around as
  often as the line is long: its 1023 bytes must only hold \<open>vs\<close> and one burst of at most \<open>M\<close> bytes. The
  flat lexer needs no such bound, but its buffer must last for the line.
\<close>

theorem lex_checkpoint_replays:
  assumes "bursts_ok M evs" "ev_bytes evs = us @ vs @ ws" "w = \<lparr>rx = evs, tx = t\<rparr>"
  shows "(length vs + M < 1024 \<longrightarrow> (\<exists>l s0 s1 s2 s3. lex_init_circ = Inr l
      \<and> lex_getn lex_circ (length us) (l, w) = Inr (us, s0) \<and> lex_getn lex_circ (length vs) s0 = Inr (vs, s1)
      \<and> lex_getn lex_circ (length vs) (lex_restore_ckpt lex_circ (lex_get_ckpt lex_circ s0) s1) = Inr (vs, s2)
      \<and> lex_getn lex_circ (length ws) s2 = Inr (ws, s3) \<and> lex_getc lex_circ s3 = Inl OutOfInput))
    \<and> (length (us @ vs @ ws) < 2 ^ 20 \<longrightarrow> (\<exists>s0 s1 s2 s3.
        lex_getn lex_simple (length us) (lex_init_simple m, w) = Inr (us, s0)
      \<and> lex_getn lex_simple (length vs) s0 = Inr (vs, s1)
      \<and> lex_getn lex_simple (length vs) (lex_restore_ckpt lex_simple (lex_get_ckpt lex_simple s0) s1) = Inr (vs, s2)
      \<and> lex_getn lex_simple (length ws) s2 = Inr (ws, s3) \<and> lex_getc lex_simple s3 = Inl OutOfInput))"
proof (intro conjI impI)
  assume room: "length vs + M < 1024"
  obtain l where l: "lex_init_circ = Inr l" "circ_rep M 0 t (l, w) [] (us @ vs @ ws)"
    using lex_init_circ_rep [OF assms(1)] assms(2,3) by auto
  have "circ_room M (length vs)" using room by (simp add: circ_room_def)
  from circ.replays_ok [OF l(2) this] l(1) show "\<exists>l s0 s1 s2 s3. lex_init_circ = Inr l
      \<and> lex_getn lex_circ (length us) (l, w) = Inr (us, s0) \<and> lex_getn lex_circ (length vs) s0 = Inr (vs, s1)
      \<and> lex_getn lex_circ (length vs) (lex_restore_ckpt lex_circ (lex_get_ckpt lex_circ s0) s1) = Inr (vs, s2)
      \<and> lex_getn lex_circ (length ws) s2 = Inr (ws, s3) \<and> lex_getc lex_circ s3 = Inl OutOfInput" by blast
next
  assume "length (us @ vs @ ws) < 2 ^ 20"
  then have "simple_rep 0 t (lex_init_simple m, w) [] (us @ vs @ ws)"
    using lex_init_simple_rep [OF assms(1)] assms(2,3) by simp
  from simple.replays_ok [OF this TrueI] show "\<exists>s0 s1 s2 s3.
        lex_getn lex_simple (length us) (lex_init_simple m, w) = Inr (us, s0)
      \<and> lex_getn lex_simple (length vs) s0 = Inr (vs, s1)
      \<and> lex_getn lex_simple (length vs) (lex_restore_ckpt lex_simple (lex_get_ckpt lex_simple s0) s1) = Inr (vs, s2)
      \<and> lex_getn lex_simple (length ws) s2 = Inr (ws, s3) \<and> lex_getc lex_simple s3 = Inl OutOfInput" .
qed

text \<open>A line longer than the ring: the checkpoint is taken at byte 1400 and 200 bytes are read twice.\<close>

definition demo_evs :: "ev list" where
  "demo_evs = [Quiet, Bytes (replicate 700 79), Quiet, Bytes (replicate 300 75 @ replicate 400 13), Quiet,
     Bytes (replicate 200 10), Quiet, Bytes [79]]"

theorem lex_checkpoint_replays_witness:
  "\<exists>l s0 s1 s2. lex_init_circ = Inr l
      \<and> lex_getn lex_circ 1400 (l, \<lparr>rx = demo_evs, tx = []\<rparr>)
          = Inr (replicate 700 79 @ replicate 300 75 @ replicate 400 13, s0)
      \<and> lex_getn lex_circ 200 s0 = Inr (replicate 200 10, s1)
      \<and> lex_getn lex_circ 200 (lex_restore_ckpt lex_circ (lex_get_ckpt lex_circ s0) s1) = Inr (replicate 200 10, s2)"
proof -
  let ?us = "replicate 700 79 @ replicate 300 75 @ replicate 400 13 :: bytes" and ?vs = "replicate 200 10 :: bytes"
  have b: "bursts_ok 700 demo_evs" by (simp add: demo_evs_def)
  have e: "ev_bytes demo_evs = ?us @ ?vs @ [79]" by (simp add: demo_evs_def)
  have n: "length ?vs + 700 < 1024" "length ?us = 1400" "length ?vs = 200" by simp_all
  from conjunct1 [OF lex_checkpoint_replays [OF b e refl, of "[]"], rule_format, OF n(1)]
  show ?thesis unfolding n(2,3) by blast
qed

text \<open>
  The read buffer of \<open>lex_readin\<close> is as large as the ring, but the ring holds one byte less:
  when a read fills the buffer, \<open>lex_getc\<close> on the circular lexer panics.
\<close>

theorem lex_full_read_panics:
  assumes "lex_init_circ = Inr l" "1024 \<le> length b"
  shows "lex_getc lex_circ (l, \<lparr>rx = Bytes b # r, tx = t\<rparr>) = Inl (Panic ''not handling this'')"
proof -
  obtain l' where l': "lex_init_circ = Inr l'" "circ_rep 0 0 [] (l', \<lparr>rx = [], tx = []\<rparr>) [] (ev_bytes [])"
    using lex_init_circ_rep [of 0 "[]" "[]"] by auto
  have "l' = l" using l'(1) assms(1) by (metis sum.inject(2))
  then have h: "circ_holds 0 [] l []" using l'(2) by (simp add: circ_rep_def)
  let ?q = "lc_stream l"
  have q: "cq_inv LEX_CQ_N ?q" "cq_list LEX_CQ_N ?q = []" "cq_empty ?q"
    using h circ_holds_empty [OF h] by (simp_all add: circ_holds_def ring_holds_def)
  have e: "cq_nelem LEX_CQ_N ?q = 0" using unat_cq_nelem [OF q(1)] q(2) by (simp add: word_unat_eq_iff)
  have "\<not> cq_nspace LEX_CQ_N ?q < 1024"
    using unat_cq_nspace [OF q(1)] q(2) by (simp add: word_less_nat_alt)
  then have "cq_push_n LEX_CQ_N ?q (take 1024 b) 1024 = Inl (Panic ''not handling this'')"
    using cq_push_loop_overflow [OF q(1), of "take 1024 b"] q(2) assms(2) by (simp add: cq_push_n_def)
  moreover have len: "length (take 1024 b) = 1024" using assms(2) by simp
  ultimately have p: "lex_push_n_circ l' (take 1024 b) = Inl (Panic ''not handling this'')"
    if "lc_stream l' = ?q" for l' unfolding lex_push_n_circ_def len using that by simp
  have "esp_read \<lparr>rx = Bytes b # r, tx = t\<rparr> 1024 = Inr (take 1024 b,
      \<lparr>rx = (if length b \<le> 1024 then r else Bytes (drop 1024 b) # r), tx = t\<rparr>)"
    using assms(2) by (auto simp: esp_read_def)
  moreover have "take 1024 b \<noteq> []" using assms(2) by (cases b) auto
  ultimately show ?thesis
    using p q(3) e
    by (simp add: lex_circ_def lex_getc_circ_def lex_readin_def circ_base_def lex_readin_loop.simps)
qed

theorem lex_full_read_panics_witness:
  "\<exists>l. lex_init_circ = Inr l \<and> lex_getc lex_circ (l, \<lparr>rx = [Bytes (replicate 1024 65)], tx = []\<rparr>)
    = Inl (Panic ''not handling this'')"
proof -
  obtain l where l: "lex_init_circ = Inr l" using lex_init_circ_rep [of 0 "[]" "[]"] by auto
  then show ?thesis using lex_full_read_panics [OF l, of "replicate 1024 65" "[]" "[]"] by auto
qed

end
