(* ===== verification/Esp_Parse.thy ===== *)
theory Esp_Parse
  imports Esp_Lex Printk
begin

text \<open>
  The parser of \<^verbatim>\<open>labs/10-esp8266/libesp/esp-parse.c\<close>, over the operations of a lexer. Its loops
  take as fuel the number of bytes that can still arrive: every round consumes one. Characters
  are unsigned, as on the Pi. The proofs are in the locale of lexers, against a reference
  scanner on byte lists, and hold for both lexers.
\<close>

section \<open>Helpers that look at the next character\<close>

definition is_eol_ch :: "u8 \<Rightarrow> bool" where
  "is_eol_ch c \<longleftrightarrow> c = 13 \<or> c = 10"

definition is_space_ch :: "u8 \<Rightarrow> bool" where
  "is_space_ch c \<longleftrightarrow> c = 32 \<or> c = 9"

definition c_isdigit :: "u8 \<Rightarrow> bool" where
  "c_isdigit c \<longleftrightarrow> 48 \<le> c \<and> c \<le> 57"

definition c_isalpha :: "u8 \<Rightarrow> bool" where
  "c_isalpha c \<longleftrightarrow> (65 \<le> c \<and> c \<le> 90) \<or> (97 \<le> c \<and> c \<le> 122)"

type_synonym 'l lstate = "'l \<times> esp_h"

definition is_eol :: "('l, 'c) lex_ops \<Rightarrow> 'l lstate \<Rightarrow> (bool \<times> 'l lstate) result" where
  "is_eol L s = rbind (lex_peek L s) (\<lambda>(c, s1). Inr (is_eol_ch c, s1))"

definition is_space :: "('l, 'c) lex_ops \<Rightarrow> 'l lstate \<Rightarrow> (bool \<times> 'l lstate) result" where
  "is_space L s = rbind (lex_peek L s) (\<lambda>(c, s1). Inr (is_space_ch c, s1))"

text \<open>A call of \<open>lex_getc\<close> whose result is not used.\<close>

definition lex_drop :: "('l, 'c) lex_ops \<Rightarrow> 'l lstate \<Rightarrow> 'l lstate result" where
  "lex_drop L s = rbind (lex_getc L s) (\<lambda>(_, s1). Inr s1)"

definition skip_blank_space :: "('l, 'c) lex_ops \<Rightarrow> 'l lstate \<Rightarrow> 'l lstate result" where
  "skip_blank_space L s = c_while (Suc (lex_left L s)) (is_space L) (lex_drop L) s"

text \<open>The condition \<open>lex_nstream(l) && is_eol(l)\<close>: look only if a character is buffered.\<close>

definition buffered_eol :: "('l, 'c) lex_ops \<Rightarrow> 'l lstate \<Rightarrow> (bool \<times> 'l lstate) result" where
  "buffered_eol L s =
     rbind (lex_nstream L (fst s)) (\<lambda>n. if n = 0 then Inr (False, s) else is_eol L s)"

definition match_eol :: "('l, 'c) lex_ops \<Rightarrow> 'l lstate \<Rightarrow> (bool \<times> 'l lstate) result" where
  "match_eol L s =
     (let ck = lex_get_ckpt L s in
      rbind (skip_blank_space L s) (\<lambda>s1.
      rbind (is_eol L s1) (\<lambda>(e, s2).
        if \<not> e then Inr (False, lex_restore_ckpt L ck s2)
        else rbind (lex_drop L s2) (\<lambda>s3.
          rbind (c_while (Suc (lex_left L s3)) (buffered_eol L) (lex_drop L) s3) (\<lambda>s4.
            Inr (True, s4))))))"

definition match_blank_line :: "('l, 'c) lex_ops \<Rightarrow> 'l lstate \<Rightarrow> (bool \<times> 'l lstate) result" where
  "match_blank_line L s =
     (let ck = lex_get_ckpt L s in
      rbind (skip_blank_space L s) (\<lambda>s1.
      rbind (match_eol L s1) (\<lambda>(e, s2).
        if e then Inr (True, s2) else Inr (False, lex_restore_ckpt L ck s2))))"

definition skip_blank_lines :: "('l, 'c) lex_ops \<Rightarrow> 'l lstate \<Rightarrow> 'l lstate result" where
  "skip_blank_lines L s = c_while (Suc (lex_left L s)) (match_blank_line L) Inr s"

section \<open>Lines, numbers and strings\<close>

text \<open>
  The loop of \<open>get_nonblank_line\<close> with the room left in the buffer; the result of
  \<open>get_nonblank_line\<close> is the line, empty when the routine returns 0.
\<close>

fun line_loop :: "('l, 'c) lex_ops \<Rightarrow> nat \<Rightarrow> 'l lstate \<Rightarrow> (bytes \<times> 'l lstate) result" where
  "line_loop L 0 s = Inl (Panic ''buffer too small'')"
| "line_loop L (Suc k) s =
     rbind (match_eol L s) (\<lambda>(e, s1).
       if e then Inr ([], s1)
       else rbind (lex_getc L s1) (\<lambda>(c, s2).
         rbind (line_loop L k s2) (\<lambda>(cs, s3). Inr (c # cs, s3))))"

definition get_nonblank_line :: "('l, 'c) lex_ops \<Rightarrow> nat \<Rightarrow> 'l lstate \<Rightarrow> (bytes \<times> 'l lstate) result" where
  "get_nonblank_line L nbytes s =
     rbind (match_blank_line L s) (\<lambda>(blank, s1).
       if blank then Inr ([], s1)
       else rbind (skip_blank_space L s1) (line_loop L nbytes))"

fun uint_loop :: "('l, 'c) lex_ops \<Rightarrow> nat \<Rightarrow> u32 \<Rightarrow> nat \<Rightarrow> 'l lstate \<Rightarrow> ((u32 \<times> nat) \<times> 'l lstate) result" where
  "uint_loop L 0 x i s = Inl Diverges"
| "uint_loop L (Suc k) x i s =
     rbind (lex_peek L s) (\<lambda>(c, s1).
       if \<not> c_isdigit c then Inr ((x, i), s1)
       else rbind (lex_getc L s1) (\<lambda>(d, s2).
         uint_loop L k (x * 10 + ucast d - 48) (Suc i) s2))"

definition match_uint :: "('l, 'c) lex_ops \<Rightarrow> 'l lstate \<Rightarrow> ((bool \<times> u32) \<times> 'l lstate) result" where
  "match_uint L s =
     rbind (skip_blank_space L s) (\<lambda>s1.
     rbind (uint_loop L (Suc (lex_left L s1)) 0 0 s1) (\<lambda>((x, i), s2).
       Inr ((i \<noteq> 0, x), s2)))"

fun string_loop :: "('l, 'c) lex_ops \<Rightarrow> nat \<Rightarrow> 'l lstate \<Rightarrow> (bytes \<times> 'l lstate) result" where
  "string_loop L 0 s = Inl (Panic ''malformed string, exceeded size'')"
| "string_loop L (Suc k) s =
     rbind (lex_getc L s) (\<lambda>(c, s1).
       if c = 34 then Inr ([], s1)
       else rbind (string_loop L k s1) (\<lambda>(cs, s2). Inr (c # cs, s2)))"

definition match_literal_string ::
  "('l, 'c) lex_ops \<Rightarrow> nat \<Rightarrow> 'l lstate \<Rightarrow> (bytes option \<times> 'l lstate) result" where
  "match_literal_string L nbytes s =
     rbind (skip_blank_space L s) (\<lambda>s1.
     rbind (lex_peek L s1) (\<lambda>(c, s2).
       if c \<noteq> 34 then Inr (None, s2)
       else rbind (lex_drop L s2) (\<lambda>s3.
         rbind (string_loop L nbytes s3) (\<lambda>(str, s4). Inr (Some str, s4)))))"

definition expect_literal_string :: "('l, 'c) lex_ops \<Rightarrow> nat \<Rightarrow> 'l lstate \<Rightarrow> (bytes \<times> 'l lstate) result" where
  "expect_literal_string L nbytes s =
     rbind (match_literal_string L nbytes s) (\<lambda>(r, s1).
       case r of None \<Rightarrow> Inl (Panic ''expected a string!'') | Some str \<Rightarrow> Inr (str, s1))"

definition expect_uint :: "('l, 'c) lex_ops \<Rightarrow> 'l lstate \<Rightarrow> (u32 \<times> 'l lstate) result" where
  "expect_uint L s =
     rbind (match_uint L s) (\<lambda>((ok, x), s1).
       if ok then Inr (x, s1) else Inl (Panic ''expected uint, have something else''))"

definition expect_blank_line :: "('l, 'c) lex_ops \<Rightarrow> 'l lstate \<Rightarrow> 'l lstate result" where
  "expect_blank_line L s =
     rbind (match_blank_line L s) (\<lambda>(ok, s1).
       if ok then Inr s1 else Inl (Panic ''expected blank line!''))"

section \<open>Tokens and format strings\<close>

text \<open>The \<open>while(*p)\<close> of \<open>match_tok\<close>: whether the whole token was read.\<close>

fun tok_loop :: "('l, 'c) lex_ops \<Rightarrow> bytes \<Rightarrow> 'l lstate \<Rightarrow> (bool \<times> 'l lstate) result" where
  "tok_loop L [] s = Inr (True, s)"
| "tok_loop L (x # xs) s =
     rbind (lex_getc L s) (\<lambda>(c, s1). if x \<noteq> c then Inr (False, s1) else tok_loop L xs s1)"

definition match_tok :: "('l, 'c) lex_ops \<Rightarrow> bytes \<Rightarrow> 'l lstate \<Rightarrow> (bool \<times> 'l lstate) result" where
  "match_tok L tok s =
     (let ckpt = lex_get_ckpt L s in
      rbind (skip_blank_lines L s) (\<lambda>s1.
      rbind (skip_blank_space L s1) (\<lambda>s2.
      rbind (c_assert (tok \<noteq> []) ''*p'') (\<lambda>_.
      rbind (tok_loop L tok s2) (\<lambda>(ok, s3).
        if \<not> ok then Inr (False, lex_restore_ckpt L ckpt s3)
        else if c_isalpha (last tok)
        then rbind (lex_peek L s3) (\<lambda>(c, s4).
          if c_isalpha c then Inr (False, lex_restore_ckpt L ckpt s4) else Inr (True, s4))
        else Inr (True, s3))))))"

definition expect_tok :: "('l, 'c) lex_ops \<Rightarrow> bytes \<Rightarrow> 'l lstate \<Rightarrow> 'l lstate result" where
  "expect_tok L tok s =
     rbind (match_tok L tok s) (\<lambda>(ok, s1).
       if ok then Inr s1 else Inl (Panic ''expected token, received other''))"

text \<open>
  The values written through the \<open>va_list\<close>: the result lists what was stored, in order, also
  when the match then fails. \<open>nargs\<close> is the number of pointers the caller passed; fetching one
  more is undefined in C and a \<open>Bounds\<close> fault here. \<open>first\<close> is \<open>fmt == fmt_string\<close>.
\<close>

datatype mval = MStr bytes | MUint u32

record scan_res =
  matched :: bool
  must_match :: bool
  stored :: "mval list"

text \<open>The two conversions of the \<open>switch\<close>, \<open>%s\<close> and \<open>%u\<close>: success and what was stored.\<close>

definition match_conv :: "('l, 'c) lex_ops \<Rightarrow> u8 \<Rightarrow> 'l lstate \<Rightarrow> ((bool \<times> mval list) \<times> 'l lstate) result" where
  "match_conv L k s =
     (if k = 115 then
        rbind (match_literal_string L 32 s) (\<lambda>(r, s1).
          Inr (case r of None \<Rightarrow> (False, []) | Some str \<Rightarrow> (True, [MStr str]), s1))
      else rbind (match_uint L s) (\<lambda>((ok, x), s1). Inr ((ok, [MUint x]), s1)))"

fun matchv_loop :: "('l, 'c) lex_ops \<Rightarrow> bytes \<Rightarrow> bool \<Rightarrow> nat \<Rightarrow> scan_res \<Rightarrow> 'l lstate
    \<Rightarrow> (scan_res \<times> 'l lstate) result" where
  "matchv_loop L [] first nargs a s = Inr (a\<lparr>matched := True\<rparr>, s)"
| "matchv_loop L (c # fmt) first nargs a s =
     rbind (c_assert (\<not> is_eol_ch c) ''!is_eol_ch(*fmt)'') (\<lambda>_.
     rbind (lex_peek L s) (\<lambda>(d, s1).
       if is_eol_ch d then Inr (a, s1)
       else if c \<noteq> 37 then
         (if c \<noteq> 32 then
            rbind (skip_blank_space L s1) (\<lambda>s2.
            rbind (lex_getc L s2) (\<lambda>(e, s3).
              if e \<noteq> c then Inr (a, s3) else matchv_loop L fmt False nargs a s3))
          else matchv_loop L fmt False nargs a s1)
       else
         (let a1 = (if first then a else a\<lparr>must_match := True\<rparr>) in
          case fmt of
            [] \<Rightarrow> Inl (Panic ''illegal format string'')
          | k # fmt1 \<Rightarrow>
              if k \<noteq> 115 \<and> k \<noteq> 117 then Inl (Panic ''illegal format string'')
              else (case nargs of
                  0 \<Rightarrow> Inl Bounds
                | Suc n \<Rightarrow>
                    rbind (match_conv L k s1) (\<lambda>((ok, vs), s2).
                      let a2 = a1\<lparr>stored := stored a1 @ vs\<rparr> in
                      if ok then matchv_loop L fmt1 False n a2 s2 else Inr (a2, s2))))))"

definition matchv :: "('l, 'c) lex_ops \<Rightarrow> bytes \<Rightarrow> nat \<Rightarrow> 'l lstate
    \<Rightarrow> ((bool \<times> mval list) \<times> 'l lstate) result" where
  "matchv L fmt nargs s =
     (let ckpt = lex_get_ckpt L s in
      rbind (skip_blank_lines L s) (\<lambda>s1.
      rbind (skip_blank_space L s1) (\<lambda>s2.
      rbind (matchv_loop L fmt True nargs \<lparr>matched = False, must_match = False, stored = []\<rparr> s2) (\<lambda>(a, s3).
        if matched a then Inr ((True, stored a), s3)
        else if must_match a then Inl (Panic ''must match failed: malformed value'')
        else Inr ((False, stored a), lex_restore_ckpt L ckpt s3)))))"

definition match_linev :: "('l, 'c) lex_ops \<Rightarrow> bytes \<Rightarrow> nat \<Rightarrow> 'l lstate
    \<Rightarrow> ((bool \<times> mval list) \<times> 'l lstate) result" where
  "match_linev L fmt nargs s =
     rbind (matchv L fmt nargs s) (\<lambda>((res, vs), s1).
       if \<not> res then Inr ((res, vs), s1)
       else rbind (match_eol L s1) (\<lambda>(e, s2).
         if \<not> e then Inl (Panic ''did not match end of line'') else Inr ((res, vs), s2)))"

definition match_line :: "('l, 'c) lex_ops \<Rightarrow> bytes \<Rightarrow> nat \<Rightarrow> 'l lstate
    \<Rightarrow> ((bool \<times> mval list) \<times> 'l lstate) result" where
  "match_line L fmt nargs s = match_linev L fmt nargs s"

definition match_partial :: "('l, 'c) lex_ops \<Rightarrow> bytes \<Rightarrow> nat \<Rightarrow> 'l lstate
    \<Rightarrow> ((bool \<times> mval list) \<times> 'l lstate) result" where
  "match_partial L fmt nargs s = matchv L fmt nargs s"

section \<open>The reference scanner on byte lists\<close>

definition ws_ch :: "u8 \<Rightarrow> bool" where
  "ws_ch c \<longleftrightarrow> is_space_ch c \<or> is_eol_ch c"

text \<open>Each scanner is undefined (\<open>None\<close>) when it would have to look past the end of the bytes.\<close>

definition scan_space :: "bytes \<Rightarrow> bytes option" where
  "scan_space f = (let r = dropWhile is_space_ch f in if r = [] then None else Some r)"

definition scan_ws :: "bytes \<Rightarrow> bytes option" where
  "scan_ws f = (let r = dropWhile ws_ch f in if r = [] then None else Some r)"

definition dec_val :: "u32 \<Rightarrow> bytes \<Rightarrow> u32" where
  "dec_val = foldl (\<lambda>x c. x * 10 + ucast c - 48)"

definition scan_uint :: "bytes \<Rightarrow> ((bool \<times> u32) \<times> bytes) option" where
  "scan_uint f =
     (case scan_space f of
        None \<Rightarrow> None
      | Some r \<Rightarrow>
          (let ds = takeWhile c_isdigit r; r' = dropWhile c_isdigit r in
           if r' = [] then None else Some ((ds \<noteq> [], dec_val 0 ds), r')))"

definition scan_string :: "nat \<Rightarrow> bytes \<Rightarrow> (bytes option \<times> bytes) option" where
  "scan_string n f =
     (case scan_space f of
        None \<Rightarrow> None
      | Some r \<Rightarrow>
          if hd r \<noteq> 34 then Some (None, r)
          else (let str = takeWhile (\<lambda>c. c \<noteq> 34) (tl r); r' = dropWhile (\<lambda>c. c \<noteq> 34) (tl r) in
                if r' = [] \<or> n \<le> length str then None else Some (Some str, tl r')))"

lemma suffix_dropWhile': "\<exists>q. f = q @ dropWhile P f"
  by (metis takeWhile_dropWhile_id)

section \<open>The parser follows the scanner\<close>

context lexer
begin

lemma drop_ok: "rep b t s p (c # f) \<Longrightarrow> room (length p) \<Longrightarrow>
    \<exists>s'. lex_drop L s = Inr s' \<and> rep b t s' (p @ [c]) f"
  using getc_ok [of b t s p c f] by (auto simp: lex_drop_def)

lemma is_space_ok: "rep b t s p (c # f) \<Longrightarrow> room (length p) \<Longrightarrow>
    \<exists>s'. is_space L s = Inr (is_space_ch c, s') \<and> rep b t s' p (c # f)"
  using peek_ok [of b t s p c f] by (auto simp: is_space_def)

lemma is_eol_ok: "rep b t s p (c # f) \<Longrightarrow> room (length p) \<Longrightarrow>
    \<exists>s'. is_eol L s = Inr (is_eol_ch c, s') \<and> rep b t s' p (c # f)"
  using peek_ok [of b t s p c f] by (auto simp: is_eol_def)

lemma skip_loop_ok:
  "rep b t s p (q @ c # f) \<Longrightarrow> \<forall>x \<in> set q. is_space_ch x \<Longrightarrow> \<not> is_space_ch c \<Longrightarrow>
   room (length p + length q) \<Longrightarrow> length q < k \<Longrightarrow>
   \<exists>s'. c_while k (is_space L) (lex_drop L) s = Inr s' \<and> rep b t s' (p @ q) (c # f)"
proof (induction q arbitrary: s p k)
  case Nil
  then obtain j where "k = Suc j" by (cases k) auto
  then show ?case using is_space_ok [of b t s p c f] Nil by auto
next
  case (Cons x q)
  obtain j where k: "k = Suc j" "length q < j" using Cons.prems(5) by (cases k) auto
  have r: "room (length p)" using Cons.prems(4) by (rule room_mono) simp
  obtain s1 where s1: "is_space L s = Inr (True, s1)" "rep b t s1 p (x # q @ c # f)"
    using is_space_ok [of b t s p x "q @ c # f"] Cons.prems r by auto
  obtain s2 where s2: "lex_drop L s1 = Inr s2" "rep b t s2 (p @ [x]) (q @ c # f)"
    using drop_ok [OF s1(2) r] by blast
  show ?case using Cons.IH [OF s2(2), of j] Cons.prems(2-4) k s1 s2 by auto
qed

lemma skip_blank_space_ok:
  assumes "rep b t s p (q @ c # f)" "\<forall>x \<in> set q. is_space_ch x" "\<not> is_space_ch c"
    "room (length p + length q)"
  shows "\<exists>s'. skip_blank_space L s = Inr s' \<and> rep b t s' (p @ q) (c # f)"
  using skip_loop_ok [OF assms, of "Suc (lex_left L s)"] left_ok [OF assms(1)]
  by (simp add: skip_blank_space_def)

lemma scan_space_split:
  assumes "scan_space f = Some r"
  shows "\<exists>q c r'. f = q @ c # r' \<and> r = c # r' \<and> (\<forall>x \<in> set q. is_space_ch x) \<and> \<not> is_space_ch c"
proof -
  have r: "r = dropWhile is_space_ch f" "r \<noteq> []" using assms by (auto simp: scan_space_def Let_def split: if_splits)
  then show ?thesis
    using takeWhile_dropWhile_id [of is_space_ch f] hd_dropWhile [of is_space_ch f]
    by (intro exI [where x = "takeWhile is_space_ch f"] exI [where x = "hd r"] exI [where x = "tl r"])
      (auto dest: set_takeWhileD)
qed

lemma skip_scan_ok:
  assumes "rep b t s p f" "scan_space f = Some r" "room (length p + (length f - length r))"
  shows "\<exists>q s'. f = q @ r \<and> skip_blank_space L s = Inr s' \<and> rep b t s' (p @ q) r"
proof -
  obtain q c r' where q: "f = q @ c # r'" "r = c # r'" "\<forall>x \<in> set q. is_space_ch x" "\<not> is_space_ch c"
    using scan_space_split [OF assms(2)] by blast
  then show ?thesis using skip_blank_space_ok [of b t s p q c r'] assms by auto
qed

lemma eol_loop_ok:
  "rep b t s p f \<Longrightarrow> room (length p + length (takeWhile is_eol_ch f)) \<Longrightarrow> length f < k \<Longrightarrow>
   \<exists>s' es f'. c_while k (buffered_eol L) (lex_drop L) s = Inr s' \<and> f = es @ f'
     \<and> (\<forall>x \<in> set es. is_eol_ch x) \<and> rep b t s' (p @ es) f'"
proof (induction f arbitrary: s p k)
  case Nil
  then obtain j where k: "k = Suc j" by (cases k) auto
  obtain n where "lex_nstream L (fst s) = Inr n" "n = 0" using nstream_ok [OF Nil(1)] by auto
  then show ?case using Nil k by (auto simp: buffered_eol_def)
next
  case (Cons c f)
  obtain j where k: "k = Suc j" "length f < j" using Cons.prems(3) by (cases k) auto
  have r: "room (length p)" using Cons.prems(2) by (rule room_mono) simp
  obtain n where n: "lex_nstream L (fst s) = Inr n" using nstream_ok [OF Cons.prems(1)] by auto
  obtain s1 where s1: "is_eol L s = Inr (is_eol_ch c, s1)" "rep b t s1 p (c # f)"
    using is_eol_ok [OF Cons.prems(1) r] by blast
  obtain s2 where s2: "lex_drop L s1 = Inr s2" "rep b t s2 (p @ [c]) f"
    using drop_ok [OF s1(2) r] by blast
  show ?case
  proof (cases "n \<noteq> 0 \<and> is_eol_ch c")
    case True
    then obtain s' es f' where "c_while j (buffered_eol L) (lex_drop L) s2 = Inr s'" "f = es @ f'"
      "\<forall>x \<in> set es. is_eol_ch x" "rep b t s' ((p @ [c]) @ es) f'"
      using Cons.IH [OF s2(2) _ k(2)] Cons.prems(2) by auto
    moreover have "buffered_eol L s = Inr (True, s1)" using True n s1 by (simp add: buffered_eol_def)
    ultimately show ?thesis
      using True s2 k by (intro exI [where x = s'] exI [where x = "c # es"] exI [where x = f']) auto
  next
    case False
    then have "buffered_eol L s = Inr (False, if n = 0 then s else s1)"
      using n s1 by (auto simp: buffered_eol_def)
    then show ?thesis
      using s1 k Cons.prems(1)
      by (intro exI [where x = "if n = 0 then s else s1"] exI [where x = "[]"] exI [where x = "c # f"]) auto
  qed
qed

text \<open>After blanks, an end of line is consumed with some of the ends of line that follow it.\<close>

lemma match_eol_yes:
  assumes "rep b t s p (q @ e # f)" "\<forall>x \<in> set q. is_space_ch x" "is_eol_ch e"
    "room (length p + length q + 1 + length (takeWhile is_eol_ch f))"
  shows "\<exists>s' es f'. match_eol L s = Inr (True, s') \<and> f = es @ f' \<and> (\<forall>x \<in> set es. is_eol_ch x)
    \<and> rep b t s' (p @ q @ e # es) f'"
proof -
  have r: "room (length p + length q)" "room (length (p @ q))"
    using assms(4) by (rule room_mono, simp)+
  have "\<not> is_space_ch e" using assms(3) by (auto simp: is_eol_ch_def is_space_ch_def)
  then obtain s1 where s1: "skip_blank_space L s = Inr s1" "rep b t s1 (p @ q) (e # f)"
    using skip_blank_space_ok [OF assms(1,2) _ r(1)] by blast
  obtain s2 where s2: "is_eol L s1 = Inr (True, s2)" "rep b t s2 (p @ q) (e # f)"
    using is_eol_ok [OF s1(2) r(2)] assms(3) by auto
  obtain s3 where s3: "lex_drop L s2 = Inr s3" "rep b t s3 ((p @ q) @ [e]) f"
    using drop_ok [OF s2(2) r(2)] by blast
  obtain s' es f' where l: "c_while (Suc (lex_left L s3)) (buffered_eol L) (lex_drop L) s3 = Inr s'"
    "f = es @ f'" "\<forall>x \<in> set es. is_eol_ch x" "rep b t s' (((p @ q) @ [e]) @ es) f'"
  proof -
    have "room (length ((p @ q) @ [e]) + length (takeWhile is_eol_ch f))" using assms(4) by simp
    moreover have "length f < Suc (lex_left L s3)" using left_ok [OF s3(2)] by simp
    ultimately show thesis using eol_loop_ok [OF s3(2)] that by blast
  qed
  then have "match_eol L s = Inr (True, s')"
    using s1(1) s2(1) s3(1) by (simp add: match_eol_def del: c_while.simps)
  then show ?thesis using l by auto
qed

lemma match_eol_no:
  assumes "rep b t s p (q @ c # f)" "\<forall>x \<in> set q. is_space_ch x" "\<not> ws_ch c" "room (length p + length q)"
  shows "\<exists>s'. match_eol L s = Inr (False, s') \<and> rep b t s' p (q @ c # f)"
proof -
  have c: "\<not> is_space_ch c" "\<not> is_eol_ch c" using assms(3) by (simp_all add: ws_ch_def)
  obtain s1 where s1: "skip_blank_space L s = Inr s1" "rep b t s1 (p @ q) (c # f)"
    using skip_blank_space_ok [OF assms(1,2) c(1) assms(4)] by blast
  obtain s2 where s2: "is_eol L s1 = Inr (False, s2)" "rep b t s2 (p @ q) (c # f)"
    using is_eol_ok [OF s1(2)] assms(4) c(2) by auto
  show ?thesis
    using s1 s2 ckpt_ok [OF assms(1)] restore_ok [OF s2(2)] by (simp add: match_eol_def)
qed

lemma match_blank_line_yes:
  assumes "rep b t s p (q @ e # f)" "\<forall>x \<in> set q. is_space_ch x" "is_eol_ch e"
    "room (length p + length q + 1 + length (takeWhile is_eol_ch f))"
  shows "\<exists>s' es f'. match_blank_line L s = Inr (True, s') \<and> f = es @ f' \<and> (\<forall>x \<in> set es. is_eol_ch x)
    \<and> rep b t s' (p @ q @ e # es) f'"
proof -
  have r: "room (length p + length q)" using assms(4) by (rule room_mono) simp
  have "\<not> is_space_ch e" using assms(3) by (auto simp: is_eol_ch_def is_space_ch_def)
  then obtain s1 where s1: "skip_blank_space L s = Inr s1" "rep b t s1 (p @ q) ([] @ e # f)"
    using skip_blank_space_ok [OF assms(1,2) _ r(1)] by auto
  obtain s' es f' where m: "match_eol L s1 = Inr (True, s')" "f = es @ f'" "\<forall>x \<in> set es. is_eol_ch x"
    "rep b t s' ((p @ q) @ [] @ e # es) f'"
    using match_eol_yes [OF s1(2) _ assms(3)] assms(4) by auto
  then have "match_blank_line L s = Inr (True, s')" using s1(1) by (simp add: match_blank_line_def)
  then show ?thesis using m by auto
qed

lemma match_blank_line_no:
  assumes "rep b t s p (q @ c # f)" "\<forall>x \<in> set q. is_space_ch x" "\<not> ws_ch c" "room (length p + length q)"
  shows "\<exists>s'. match_blank_line L s = Inr (False, s') \<and> rep b t s' p (q @ c # f)"
proof -
  have c: "\<not> is_space_ch c" using assms(3) by (simp add: ws_ch_def)
  obtain s1 where s1: "skip_blank_space L s = Inr s1" "rep b t s1 (p @ q) ([] @ c # f)"
    using skip_blank_space_ok [OF assms(1,2) c(1) assms(4)] by auto
  obtain s2 where s2: "match_eol L s1 = Inr (False, s2)" "rep b t s2 (p @ q) (c # f)"
    using match_eol_no [OF s1(2) _ assms(3)] assms(4) by auto
  show ?thesis
    using s1 s2 ckpt_ok [OF assms(1)] restore_ok [OF s2(2)] by (simp add: match_blank_line_def)
qed

end

declare split_paired_Ex [simp del] split_paired_All [simp del]

lemma takeWhile_before: "\<not> P c \<Longrightarrow> length (takeWhile P (q @ c # f)) \<le> length q"
  by (induction q) auto

lemma prefix_before:
  assumes "q @ c # f = es @ f'" "\<forall>x \<in> set es. P x" "\<not> P c"
  shows "\<exists>q'. q = es @ q' \<and> f' = q' @ c # f"
proof -
  obtain us where "q = es @ us \<and> us @ c # f = f' \<or> q @ us = es \<and> c # f = us @ f'"
    using assms(1) by (auto simp: append_eq_append_conv2)
  moreover have "us = []" if "q @ us = es" "c # f = us @ f'"
    using that assms(2,3) by (cases us) auto
  ultimately show ?thesis by (metis append_Nil append_Nil2)
qed

text \<open>What \<open>match_tok\<close> answers and leaves unread, as a function of the bytes to come.\<close>

fun tok_cmp :: "bytes \<Rightarrow> bytes \<Rightarrow> (bool \<times> bytes) option" where
  "tok_cmp [] f = Some (True, f)"
| "tok_cmp (x # xs) [] = None"
| "tok_cmp (x # xs) (c # f) = (if x \<noteq> c then Some (False, f) else tok_cmp xs f)"

definition tok_scan :: "bytes \<Rightarrow> bytes \<Rightarrow> (bool \<times> bytes) option" where
  "tok_scan tok f =
     (case scan_ws f of
        None \<Rightarrow> None
      | Some r \<Rightarrow>
          (case tok_cmp tok r of
             None \<Rightarrow> None
           | Some (ok, r') \<Rightarrow>
               if \<not> ok then Some (False, f)
               else if c_isalpha (last tok)
               then (if r' = [] then None else if c_isalpha (hd r') then Some (False, f) else Some (True, r'))
               else Some (True, r')))"

lemma tok_cmp_suffix: "tok_cmp tok f = Some (ok, r) \<Longrightarrow> \<exists>q. f = q @ r \<and> length q \<le> length tok"
proof (induction tok f rule: tok_cmp.induct)
  case (3 x xs c f)
  show ?case
  proof (cases "x = c")
    case True
    then obtain q where "f = q @ r" "length q \<le> length xs" using 3 by auto
    then show ?thesis by (intro exI [where x = "c # q"]) simp
  next
    case False
    then show ?thesis using 3 by (intro exI [where x = "[c]"]) simp
  qed
qed auto

lemma scan_ws_split:
  assumes "scan_ws f = Some r"
  shows "\<exists>q c r'. f = q @ c # r' \<and> r = c # r' \<and> (\<forall>x \<in> set q. ws_ch x) \<and> \<not> ws_ch c"
proof -
  have r: "r = dropWhile ws_ch f" "r \<noteq> []" using assms by (auto simp: scan_ws_def Let_def split: if_splits)
  then show ?thesis
    using takeWhile_dropWhile_id [of ws_ch f] hd_dropWhile [of ws_ch f]
    by (intro exI [where x = "takeWhile ws_ch f"] exI [where x = "hd r"] exI [where x = "tl r"])
      (auto dest: set_takeWhileD)
qed

context lexer
begin

text \<open>Skipping blank lines with any routine that consumes one blank line or nothing.\<close>

lemma skip_lines_by:
  assumes yes: "\<And>b t s p q e f. rep b t s p (q @ e # f) \<Longrightarrow> \<forall>x \<in> set q. is_space_ch x \<Longrightarrow> is_eol_ch e \<Longrightarrow>
      room (length p + length q + 1 + length (takeWhile is_eol_ch f)) \<Longrightarrow>
      \<exists>s' es f'. blank s = Inr (True, s') \<and> f = es @ f' \<and> (\<forall>x \<in> set es. is_eol_ch x)
        \<and> rep b t s' (p @ q @ e # es) f'"
    and no: "\<And>b t s p q c f. rep b t s p (q @ c # f) \<Longrightarrow> \<forall>x \<in> set q. is_space_ch x \<Longrightarrow> \<not> ws_ch c \<Longrightarrow>
      room (length p + length q) \<Longrightarrow> \<exists>s'. blank s = Inr (False, s') \<and> rep b t s' p (q @ c # f)"
  shows "rep b t s p (q @ c # f) \<Longrightarrow> \<forall>x \<in> set q. ws_ch x \<Longrightarrow> \<not> ws_ch c \<Longrightarrow> room (length p + length q) \<Longrightarrow>
   length q < k \<Longrightarrow>
   \<exists>s' q1 q2. c_while k blank Inr s = Inr s' \<and> q = q1 @ q2 \<and> (\<forall>x \<in> set q2. is_space_ch x)
     \<and> rep b t s' (p @ q1) (q2 @ c # f)"
proof (induction "length q" arbitrary: s p q k rule: less_induct)
  case less
  obtain j where k: "k = Suc j" "length q \<le> j" using less.prems(5) by (cases k) auto
  show ?case
  proof (cases "\<forall>x \<in> set q. is_space_ch x")
    case True
    then obtain s' where "blank s = Inr (False, s')" "rep b t s' p (q @ c # f)"
      using no [OF less.prems(1) _ less.prems(3,4)] by blast
    then show ?thesis
      using True k by (intro exI [where x = s'] exI [where x = "[]"] exI [where x = q]) auto
  next
    case False
    then obtain u e v where q: "q = u @ e # v" "\<not> is_space_ch e" "\<forall>x \<in> set u. is_space_ch x"
      using split_list_first_prop [of q "\<lambda>x. \<not> is_space_ch x"] by auto
    have e: "is_eol_ch e" using q less.prems(2) by (auto simp: ws_ch_def)
    have c: "\<not> is_eol_ch c" using less.prems(3) by (simp add: ws_ch_def)
    have "room (length p + length u + 1 + length (takeWhile is_eol_ch (v @ c # f)))"
      using less.prems(4) takeWhile_before [of is_eol_ch c v f, OF c] q(1) by (elim room_mono) simp
    then obtain s1 es f' where m: "blank s = Inr (True, s1)" "v @ c # f = es @ f'"
      "\<forall>x \<in> set es. is_eol_ch x" "rep b t s1 (p @ u @ e # es) f'"
      using yes [of b t s p u e "v @ c # f"] less.prems(1) q e by auto
    obtain v' where v: "v = es @ v'" "f' = v' @ c # f" using prefix_before [OF m(2,3) c] by blast
    have "length v' < length q" "length v' < j" using q v k by simp_all
    moreover have "\<forall>x \<in> set v'. ws_ch x" using less.prems(2) q v by auto
    moreover have "room (length (p @ u @ e # es) + length v')" using less.prems(4) q v by (simp add: add.assoc)
    ultimately obtain s' q1 q2 where "c_while j blank Inr s1 = Inr s'" "v' = q1 @ q2"
      "\<forall>x \<in> set q2. is_space_ch x" "rep b t s' ((p @ u @ e # es) @ q1) (q2 @ c # f)"
      using less.hyps [of v' s1 "p @ u @ e # es" j] m(4) v(2) less.prems(3) by blast
    then show ?thesis
      using m(1) k q v by (intro exI [where x = s'] exI [where x = "u @ e # es @ q1"] exI [where x = q2]) auto
  qed
qed

lemma skip_lines_ok:
  assumes "rep b t s p (q @ c # f)" "\<forall>x \<in> set q. ws_ch x" "\<not> ws_ch c" "room (length p + length q)" "length q < k"
  shows "\<exists>s' q1 q2. c_while k (match_blank_line L) Inr s = Inr s' \<and> q = q1 @ q2 \<and> (\<forall>x \<in> set q2. is_space_ch x)
     \<and> rep b t s' (p @ q1) (q2 @ c # f)"
  by (rule skip_lines_by [OF _ _ assms]) (fact match_blank_line_yes match_blank_line_no)+

text \<open>\<open>skip_blank_lines\<close> and \<open>skip_blank_space\<close> together skip all blanks and ends of line.\<close>

lemma skip_ws_ok:
  assumes "rep b t s p f" "scan_ws f = Some r" "room (length p + (length f - length r))"
  shows "\<exists>q s1 s'. f = q @ r \<and> skip_blank_lines L s = Inr s1 \<and> skip_blank_space L s1 = Inr s' \<and> rep b t s' (p @ q) r"
proof -
  obtain q c r' where q: "f = q @ c # r'" "r = c # r'" "\<forall>x \<in> set q. ws_ch x" "\<not> ws_ch c"
    using scan_ws_split [OF assms(2)] by blast
  have r: "room (length p + length q)" using assms(3) q by simp
  have k: "length q < Suc (lex_left L s)" using left_ok [OF assms(1)] q by simp
  obtain s1 q1 q2 where s1: "skip_blank_lines L s = Inr s1" "q = q1 @ q2" "\<forall>x \<in> set q2. is_space_ch x"
    "rep b t s1 (p @ q1) (q2 @ c # r')"
    using skip_lines_ok [OF _ q(3,4) r k] assms(1) q(1) unfolding skip_blank_lines_def by blast
  have "\<not> is_space_ch c" using q(4) by (simp add: ws_ch_def)
  then obtain s' where "skip_blank_space L s1 = Inr s'" "rep b t s' ((p @ q1) @ q2) (c # r')"
    using skip_blank_space_ok [OF s1(4,3)] r s1(2) by (auto simp: add.assoc)
  then show ?thesis
    using s1 q by (intro exI [where x = q] exI [where x = s1] exI [where x = s']) auto
qed

lemma tok_loop_ok:
  "rep b t s p f \<Longrightarrow> tok_cmp tok f = Some (ok, r) \<Longrightarrow> room (length p + length tok) \<Longrightarrow>
   \<exists>q s'. f = q @ r \<and> tok_loop L tok s = Inr (ok, s') \<and> rep b t s' (p @ q) r"
proof (induction tok f arbitrary: s p rule: tok_cmp.induct)
  case (3 x xs c f)
  have "room (length p)" using 3(4) by (rule room_mono) simp
  then obtain s1 where s1: "lex_getc L s = Inr (c, s1)" "rep b t s1 (p @ [c]) f" using getc_ok 3(2) by blast
  show ?case
  proof (cases "x = c")
    case True
    then have "tok_cmp xs f = Some (ok, r)" "room (length (p @ [c]) + length xs)" using 3(3,4) by simp_all
    with True 3(1) [OF _ s1(2)] obtain q s' where "f = q @ r" "tok_loop L xs s1 = Inr (ok, s')"
      "rep b t s' ((p @ [c]) @ q) r" by blast
    then show ?thesis using True s1 by (intro exI [where x = "c # q"]) auto
  next
    case False
    then show ?thesis using 3(3) s1 by (intro exI [where x = "[c]"]) auto
  qed
qed auto

lemma match_tok_scan:
  assumes "rep b t s p f" "tok_scan tok f = Some (ok, r)" "tok \<noteq> []"
    "room (length p + length (takeWhile ws_ch f) + length tok)"
  shows "\<exists>q s'. f = q @ r \<and> match_tok L tok s = Inr (ok, s') \<and> rep b t s' (p @ q) r"
proof -
  obtain r1 ok1 r2 where sc: "scan_ws f = Some r1" "tok_cmp tok r1 = Some (ok1, r2)"
    using assms(2) by (auto simp: tok_scan_def split: option.splits)
  have l: "length f - length r1 = length (takeWhile ws_ch f)"
  proof -
    have "r1 = dropWhile ws_ch f" using sc(1) by (auto simp: scan_ws_def Let_def split: if_splits)
    then show ?thesis using takeWhile_dropWhile_id [of ws_ch f] by (metis add_diff_cancel_right' length_append)
  qed
  have r1: "room (length p + (length f - length r1))" using assms(4) unfolding l by (rule room_mono) simp
  obtain q1 s1 s2 where k: "f = q1 @ r1" "skip_blank_lines L s = Inr s1" "skip_blank_space L s1 = Inr s2"
    "rep b t s2 (p @ q1) r1" using skip_ws_ok [OF assms(1) sc(1) r1] by blast
  have q1: "length q1 = length (takeWhile ws_ch f)" using l k(1) by simp
  then have "room (length (p @ q1) + length tok)" using assms(4) by (simp add: add.assoc)
  then obtain q2 s3 where tl: "r1 = q2 @ r2" "tok_loop L tok s2 = Inr (ok1, s3)" "rep b t s3 (p @ q1 @ q2) r2"
    using tok_loop_ok [OF k(4) sc(2)] by auto
  have m: "match_tok L tok s = (if \<not> ok1 then Inr (False, lex_restore_ckpt L (lex_get_ckpt L s) s3)
      else if c_isalpha (last tok)
      then rbind (lex_peek L s3) (\<lambda>(c, s4).
        if c_isalpha c then Inr (False, lex_restore_ckpt L (lex_get_ckpt L s) s4) else Inr (True, s4))
      else Inr (True, s3))"
    using k tl(2) assms(3) by (simp add: match_tok_def)
  have rew: "rep b t (lex_restore_ckpt L (lex_get_ckpt L s) s') p f" if "rep b t s' (p @ q1 @ q2) r2" for s'
    using restore_ok [OF that] ckpt_ok [OF assms(1)] k(1) tl(1) by simp
  show ?thesis
  proof (cases "ok1 \<and> c_isalpha (last tok)")
    case False
    then show ?thesis
      using m rew [OF tl(3)] tl k assms(2) sc
      by (auto simp: tok_scan_def intro: exI [where x = "q1 @ q2"] split: if_splits)
  next
    case True
    then obtain c r3 where r2: "r2 = c # r3" using assms(2) sc by (cases r2) (auto simp: tok_scan_def)
    have "length q2 \<le> length tok" using tok_cmp_suffix [OF sc(2)] tl(1) by auto
    then have "room (length (p @ q1 @ q2))" using assms(4) q1 by (elim room_mono) simp
    then obtain s4 where s4: "lex_peek L s3 = Inr (c, s4)" "rep b t s4 (p @ q1 @ q2) (c # r3)"
      using peek_ok tl(3) r2 by blast
    then show ?thesis
      using True m rew [of s4] tl k assms(2) sc r2
      by (auto simp: tok_scan_def intro: exI [where x = "q1 @ q2"] split: if_splits)
  qed
qed

end

section \<open>Format strings against the scanner\<close>

definition scan_conv :: "u8 \<Rightarrow> bytes \<Rightarrow> ((bool \<times> mval list) \<times> bytes) option" where
  "scan_conv k f =
     (if k = 115 then
        map_option (\<lambda>(r, g). (case r of None \<Rightarrow> (False, []) | Some str \<Rightarrow> (True, [MStr str]), g)) (scan_string 32 f)
      else map_option (\<lambda>((ok, x), g). ((ok, [MUint x]), g)) (scan_uint f))"

fun fmt_scan :: "bytes \<Rightarrow> bool \<Rightarrow> nat \<Rightarrow> scan_res \<Rightarrow> bytes \<Rightarrow> (scan_res \<times> bytes) option" where
  "fmt_scan [] first nargs a f = Some (a\<lparr>matched := True\<rparr>, f)"
| "fmt_scan (c # fmt) first nargs a f =
     (if is_eol_ch c \<or> f = [] then None
      else if is_eol_ch (hd f) then Some (a, f)
      else if c \<noteq> 37 then
        (if c \<noteq> 32 then
           (case scan_space f of
              None \<Rightarrow> None
            | Some r \<Rightarrow> if hd r \<noteq> c then Some (a, tl r) else fmt_scan fmt False nargs a (tl r))
         else fmt_scan fmt False nargs a f)
      else
        (let a1 = (if first then a else a\<lparr>must_match := True\<rparr>) in
         case fmt of
           [] \<Rightarrow> None
         | k # fmt1 \<Rightarrow>
             if k \<noteq> 115 \<and> k \<noteq> 117 then None
             else (case nargs of
                 0 \<Rightarrow> None
               | Suc n \<Rightarrow>
                   (case scan_conv k f of
                      None \<Rightarrow> None
                    | Some ((ok, vs), r) \<Rightarrow>
                        (let a2 = a1\<lparr>stored := stored a1 @ vs\<rparr> in
                         if ok then fmt_scan fmt1 False n a2 r else Some (a2, r))))))"

lemma scan_space_len: "scan_space f = Some r \<Longrightarrow> length r \<le> length f \<and> r \<noteq> []"
  by (auto simp: scan_space_def Let_def length_dropWhile_le split: if_splits)

lemma scan_uint_len: "scan_uint f = Some (v, r) \<Longrightarrow> length r \<le> length f"
  using scan_space_len le_trans [OF length_dropWhile_le]
  by (fastforce simp: scan_uint_def Let_def split: option.splits if_splits)

lemma scan_string_len:
  assumes "scan_string n f = Some (v, r)"
  shows "length r \<le> length f"
proof -
  obtain r1 where r1: "scan_space f = Some r1" using assms by (auto simp: scan_string_def split: option.splits)
  have "length (tl (dropWhile (\<lambda>c. c \<noteq> 34) (tl r1))) \<le> length r1"
    using length_dropWhile_le [of "\<lambda>c. c \<noteq> 34" "tl r1"] by simp
  then show ?thesis
    using assms r1 scan_space_len [OF r1] by (auto simp: scan_string_def Let_def split: if_splits)
qed

lemma scan_conv_len: "scan_conv k f = Some (v, r) \<Longrightarrow> length r \<le> length f"
  using scan_string_len scan_uint_len by (fastforce simp: scan_conv_def split: if_splits)

text \<open>One round of the scanner on a conversion.\<close>

lemma fmt_scan_conv:
  assumes "fmt_scan (37 # fmt) first nargs a f = Some (a', r)" "f \<noteq> []" "\<not> is_eol_ch (hd f)"
  obtains k fmt1 n ok vs r1 where "fmt = k # fmt1" "k = 115 \<or> k = 117" "nargs = Suc n"
    "scan_conv k f = Some ((ok, vs), r1)"
    "if ok then fmt_scan fmt1 False n ((if first then a else a\<lparr>must_match := True\<rparr>)\<lparr>stored := stored a @ vs\<rparr>) r1
       = Some (a', r)
     else a' = (if first then a else a\<lparr>must_match := True\<rparr>)\<lparr>stored := stored a @ vs\<rparr> \<and> r = r1"
proof -
  have e: "\<not> is_eol_ch 37" by (simp add: is_eol_ch_def)
  obtain k fmt1 where f: "fmt = k # fmt1" "k = 115 \<or> k = 117"
    using assms e by (cases fmt) (auto simp: Let_def split: if_splits)
  obtain n where n: "nargs = Suc n" using assms e f by (cases nargs) (auto simp: Let_def split: if_splits)
  obtain ok vs r1 where "scan_conv k f = Some ((ok, vs), r1)"
    using assms e f n by (cases "scan_conv k f") (auto simp: Let_def split: if_splits)
  then show thesis using that [OF f n] assms e f n by (auto simp: Let_def split: if_splits)
qed

lemma fmt_scan_lit:
  assumes "fmt_scan (c # fmt) first nargs a f = Some (a', r)" "f \<noteq> []" "\<not> is_eol_ch (hd f)" "c \<noteq> 37" "c \<noteq> 32"
  obtains d r1 where "scan_space f = Some (d # r1)"
    "if d = c then fmt_scan fmt False nargs a r1 = Some (a', r) else a' = a \<and> r = r1"
proof -
  obtain s where s: "scan_space f = Some s" using assms by (cases "scan_space f") (auto split: if_splits)
  then obtain d r1 where "s = d # r1" using scan_space_len [OF s] by (cases s) auto
  then show thesis using that [of d r1] s assms by (auto split: if_splits)
qed

lemma fmt_scan_len: "fmt_scan fmt first nargs a f = Some (a', r) \<Longrightarrow> length r \<le> length f"
proof (induction "length fmt" arbitrary: fmt first nargs a f rule: less_induct)
  case less
  show ?case
  proof (cases fmt)
    case (Cons c cs)
    then have ne: "f \<noteq> []" using less.prems by (auto split: if_splits)
    show ?thesis
    proof (cases "is_eol_ch (hd f) \<or> c = 32")
      case True
      then show ?thesis using less.hyps [of cs] less.prems Cons ne by (auto split: if_splits)
    next
      case False
      then show ?thesis
      proof (cases "c = 37")
        case True
        then have sc: "fmt_scan (37 # cs) first nargs a f = Some (a', r)" using less.prems Cons by simp
        have e: "\<not> is_eol_ch (hd f)" using False by simp
        obtain k fmt1 n ok vs r1 where g: "cs = k # fmt1" "k = 115 \<or> k = 117" "nargs = Suc n"
          "scan_conv k f = Some ((ok, vs), r1)"
          "if ok then fmt_scan fmt1 False n ((if first then a else a\<lparr>must_match := True\<rparr>)\<lparr>stored := stored a @ vs\<rparr>) r1
             = Some (a', r)
           else a' = (if first then a else a\<lparr>must_match := True\<rparr>)\<lparr>stored := stored a @ vs\<rparr> \<and> r = r1"
          by (rule fmt_scan_conv [OF sc ne e])
        have "length fmt1 < length fmt" using g(1) Cons by simp
        then have "length r \<le> length r1" using less.hyps [of fmt1] g(5) by (cases ok) auto
        then show ?thesis using scan_conv_len [OF g(4)] by simp
      next
        case nc: False
        then obtain d r1 where g: "scan_space f = Some (d # r1)"
          "if d = c then fmt_scan cs False nargs a r1 = Some (a', r) else a' = a \<and> r = r1"
          using fmt_scan_lit [of c cs first nargs a f a' r] ne less.prems Cons False by blast
        have "length r \<le> length r1" using less.hyps [of cs] g(2) Cons by (cases "d = c") auto
        then show ?thesis using scan_space_len [OF g(1)] by simp
      qed
    qed
  qed (use less in simp)
qed

context lexer
begin

lemma uint_loop_ok:
  "rep b t s p (ds @ c # f) \<Longrightarrow> \<forall>x \<in> set ds. c_isdigit x \<Longrightarrow> \<not> c_isdigit c \<Longrightarrow>
   room (length p + length ds) \<Longrightarrow> length ds < k \<Longrightarrow>
   \<exists>s'. uint_loop L k x i s = Inr ((dec_val x ds, i + length ds), s') \<and> rep b t s' (p @ ds) (c # f)"
proof (induction ds arbitrary: s p k x i)
  case Nil
  then obtain j where "k = Suc j" by (cases k) auto
  then show ?case using peek_ok [of b t s p c f] Nil by (auto simp: dec_val_def)
next
  case (Cons d ds)
  obtain j where k: "k = Suc j" "length ds < j" using Cons.prems(5) by (cases k) auto
  have r: "room (length p)" using Cons.prems(4) by (rule room_mono) simp
  obtain s1 where s1: "lex_peek L s = Inr (d, s1)" "rep b t s1 p (d # ds @ c # f)"
    using peek_ok [of b t s p d "ds @ c # f"] Cons.prems r by auto
  obtain s2 where s2: "lex_getc L s1 = Inr (d, s2)" "rep b t s2 (p @ [d]) (ds @ c # f)"
    using getc_ok [OF s1(2) r] by blast
  show ?case
    using Cons.IH [OF s2(2), of j "x * 10 + ucast d - 48" "Suc i"] Cons.prems(2-4) k s1 s2
    by (auto simp: dec_val_def)
qed

lemma match_uint_ok:
  assumes "rep b t s p f" "scan_uint f = Some ((ok, x), r)" "room (length p + (length f - length r))"
  shows "\<exists>q s'. f = q @ r \<and> match_uint L s = Inr ((ok, x), s') \<and> rep b t s' (p @ q) r"
proof -
  obtain r1 where r1: "scan_space f = Some r1" using assms(2) by (auto simp: scan_uint_def split: option.splits)
  let ?ds = "takeWhile c_isdigit r1"
  have r: "r = dropWhile c_isdigit r1" "r \<noteq> []" "ok = (?ds \<noteq> [])" "x = dec_val 0 ?ds"
    using assms(2) r1 by (auto simp: scan_uint_def Let_def split: if_splits)
  have l: "length r \<le> length r1" "length r1 \<le> length f"
    using r(1) length_dropWhile_le scan_space_len [OF r1] by auto
  have "room (length p + (length f - length r1))" using assms(3) by (rule room_mono) (use l in simp)
  then obtain q s1 where s1: "f = q @ r1" "skip_blank_space L s = Inr s1" "rep b t s1 (p @ q) r1"
    using skip_scan_ok [OF assms(1) r1] by blast
  obtain c g where c: "r = c # g" "r1 = ?ds @ c # g" "\<not> c_isdigit c"
    using r(1,2) takeWhile_dropWhile_id [of c_isdigit r1] hd_dropWhile [of c_isdigit r1]
    by (metis list.exhaust_sel)
  have len: "length f - length r = length q + length ?ds" using s1(1) c by (metis add_diff_cancel_right' append_assoc length_append)
  have "room (length (p @ q) + length ?ds)" using assms(3) unfolding len by (simp add: add.assoc)
  moreover have "length ?ds < Suc (lex_left L s1)" using left_ok [OF s1(3)] length_takeWhile_le [of c_isdigit r1] by simp
  moreover have "\<forall>x \<in> set ?ds. c_isdigit x" by (auto dest: set_takeWhileD)
  moreover have "rep b t s1 (p @ q) (?ds @ c # g)" using s1(3) c(2) by simp
  ultimately obtain s' where "uint_loop L (Suc (lex_left L s1)) 0 0 s1 = Inr ((dec_val 0 ?ds, 0 + length ?ds), s')"
    "rep b t s' ((p @ q) @ ?ds) (c # g)"
    using uint_loop_ok [of b t s1 "p @ q" ?ds c g] c(3) by blast
  then show ?thesis
    using s1 r c by (intro exI [where x = "q @ ?ds"] exI [where x = s'])
      (simp add: match_uint_def del: uint_loop.simps)
qed

lemma string_loop_ok:
  "rep b t s p (str @ 34 # f) \<Longrightarrow> 34 \<notin> set str \<Longrightarrow> room (length p + length str) \<Longrightarrow> length str < k \<Longrightarrow>
   \<exists>s'. string_loop L k s = Inr (str, s') \<and> rep b t s' (p @ str @ [34]) f"
proof (induction str arbitrary: s p k)
  case Nil
  then obtain j where "k = Suc j" by (cases k) auto
  then show ?case using getc_ok [of b t s p 34 f] Nil by auto
next
  case (Cons d str)
  obtain j where k: "k = Suc j" "length str < j" using Cons.prems(4) by (cases k) auto
  have r: "room (length p)" using Cons.prems(3) by (rule room_mono) simp
  obtain s1 where s1: "lex_getc L s = Inr (d, s1)" "rep b t s1 (p @ [d]) (str @ 34 # f)"
    using getc_ok [of b t s p d "str @ 34 # f"] Cons.prems r by auto
  show ?case using Cons.IH [OF s1(2), of j] Cons.prems(2-3) k s1 by auto
qed

lemma match_string_ok:
  assumes "rep b t s p f" "scan_string n f = Some (v, r)" "room (length p + (length f - length r))"
  shows "\<exists>q s'. f = q @ r \<and> match_literal_string L n s = Inr (v, s') \<and> rep b t s' (p @ q) r"
proof -
  obtain r1 where r1: "scan_space f = Some r1" using assms(2) by (auto simp: scan_string_def split: option.splits)
  obtain c g where c: "r1 = c # g" using scan_space_len [OF r1] by (cases r1) auto
  let ?str = "takeWhile (\<lambda>c. c \<noteq> 34) g"
  have l: "length r \<le> length r1" "length r1 \<le> length f"
    using assms(2) r1 c length_dropWhile_le [of "\<lambda>c. c \<noteq> 34" g] scan_space_len [OF r1]
    by (auto simp: scan_string_def Let_def split: if_splits)
  have rm: "room (length p + (length f - length r1))" using assms(3) by (rule room_mono) (use l in simp)
  then obtain q s1 where s1: "f = q @ r1" "skip_blank_space L s = Inr s1" "rep b t s1 (p @ q) (c # g)"
    using skip_scan_ok [OF assms(1) r1] c by blast
  have rq: "room (length (p @ q))" using rm s1(1) by simp
  obtain s2 where s2: "lex_peek L s1 = Inr (c, s2)" "rep b t s2 (p @ q) (c # g)"
    using peek_ok [OF s1(3) rq] by blast
  obtain s3 where s3: "lex_drop L s2 = Inr s3" "rep b t s3 (p @ q @ [c]) g"
    using drop_ok [OF s2(2) rq] by auto
  show ?thesis
  proof (cases "c = 34")
    case False
    then show ?thesis
      using assms(2) r1 c s1 s2
      by (intro exI [where x = q] exI [where x = s2]) (auto simp: scan_string_def match_literal_string_def)
  next
    case True
    then have v: "dropWhile (\<lambda>c. c \<noteq> 34) g \<noteq> []" "r = tl (dropWhile (\<lambda>c. c \<noteq> 34) g)" "v = Some ?str" "length ?str < n"
      using assms(2) r1 c by (auto simp: scan_string_def Let_def split: if_splits)
    then have g: "g = ?str @ 34 # r"
      using takeWhile_dropWhile_id [of "\<lambda>c. c \<noteq> 34" g] hd_dropWhile [of "\<lambda>c. c \<noteq> 34" g]
      by (metis (no_types, lifting) list.exhaust_sel)
    have ns: "34 \<notin> set ?str" by (auto dest: set_takeWhileD)
    have "length g = length ?str + 1 + length r" by (subst g) simp
    then have rg: "room (length (p @ q @ [c]) + length ?str)"
      using assms(3) s1(1) c by (elim room_mono) simp
    have "rep b t s3 (p @ q @ [c]) (?str @ 34 # r)" using s3(2) g by simp
    then obtain s4 where "string_loop L n s3 = Inr (?str, s4)" "rep b t s4 ((p @ q @ [c]) @ ?str @ [34]) r"
      using string_loop_ok [OF _ ns rg v(4)] by blast
    moreover have "f = (q @ [c] @ ?str @ [34]) @ r" using s1(1) c g by simp
    ultimately show ?thesis
      using True v s1 s2 s3
      by (intro exI [where x = "q @ [c] @ ?str @ [34]"] exI [where x = s4]) (simp add: match_literal_string_def)
  qed
qed

lemma match_conv_ok:
  assumes "rep b t s p f" "scan_conv k f = Some ((ok, vs), r)" "room (length p + (length f - length r))"
  shows "\<exists>q s'. f = q @ r \<and> match_conv L k s = Inr ((ok, vs), s') \<and> rep b t s' (p @ q) r"
proof (cases "k = 115")
  case True
  then obtain v where v: "scan_string 32 f = Some (v, r)"
    "(ok, vs) = (case v of None \<Rightarrow> (False, []) | Some str \<Rightarrow> (True, [MStr str]))"
    using assms(2) by (auto simp: scan_conv_def)
  show ?thesis using match_string_ok [OF assms(1) v(1) assms(3)] v(2) True by (auto simp: match_conv_def)
next
  case False
  then obtain x where x: "scan_uint f = Some ((ok, x), r)" "vs = [MUint x]"
    using assms(2) by (auto simp: scan_conv_def)
  show ?thesis using match_uint_ok [OF assms(1) x(1) assms(3)] x(2) False by (auto simp: match_conv_def)
qed

end

definition scan_init :: scan_res where
  "scan_init = \<lparr>matched = False, must_match = False, stored = []\<rparr>"

definition matchv_scan :: "bytes \<Rightarrow> nat \<Rightarrow> bytes \<Rightarrow> (scan_res \<times> bytes) option" where
  "matchv_scan fmt nargs f =
     (case scan_ws f of None \<Rightarrow> None | Some r \<Rightarrow> fmt_scan fmt True nargs scan_init r)"

lemma scan_ws_len: "scan_ws f = Some r \<Longrightarrow> length r \<le> length f"
  by (auto simp: scan_ws_def Let_def length_dropWhile_le split: if_splits)

lemma matchv_scan_len: "matchv_scan fmt nargs f = Some (a, r) \<Longrightarrow> length r \<le> length f"
  using scan_ws_len [of f] fmt_scan_len [of fmt True nargs scan_init]
  by (fastforce simp: matchv_scan_def split: option.splits)

context lexer
begin

text \<open>One conversion of the format and one literal character of it, given that the rest of the
  format is matched as the scanner says.\<close>

lemma matchv_conv_step:
  assumes IH: "\<And>fm n a0 s0 p0 f0. length fm < length cs \<Longrightarrow> rep b t s0 p0 f0 \<Longrightarrow>
      fmt_scan fm False n a0 f0 = Some (a', r) \<Longrightarrow> room (length p0 + (length f0 - length r)) \<Longrightarrow>
      \<exists>q s'. f0 = q @ r \<and> matchv_loop L fm False n a0 s0 = Inr (a', s') \<and> rep b t s' (p0 @ q) r"
    and pk: "lex_peek L s = Inr (d, s1)" "rep b t s1 p f" "f = d # g" "\<not> is_eol_ch d"
    and sc: "fmt_scan (37 # cs) first nargs a f = Some (a', r)"
    and room: "room (length p + (length f - length r))"
  shows "\<exists>q s'. f = q @ r \<and> matchv_loop L (37 # cs) first nargs a s = Inr (a', s') \<and> rep b t s' (p @ q) r"
proof -
  let ?a1 = "if first then a else a\<lparr>must_match := True\<rparr>"
  have f: "f \<noteq> []" "\<not> is_eol_ch (hd f)" using pk by simp_all
  obtain k fmt1 n ok vs r1 where g: "cs = k # fmt1" "k = 115 \<or> k = 117" "nargs = Suc n"
    "scan_conv k f = Some ((ok, vs), r1)"
    "if ok then fmt_scan fmt1 False n (?a1\<lparr>stored := stored a @ vs\<rparr>) r1 = Some (a', r)
     else a' = ?a1\<lparr>stored := stored a @ vs\<rparr> \<and> r = r1"
    by (rule fmt_scan_conv [OF sc f])
  have l: "length r \<le> length r1" "length r1 \<le> length f"
    using g(5) fmt_scan_len scan_conv_len [OF g(4)] by (cases ok; fastforce)+
  have "room (length p + (length f - length r1))" using room by (rule room_mono) (use l in simp)
  then obtain q s2 where s2: "f = q @ r1" "match_conv L k s1 = Inr ((ok, vs), s2)" "rep b t s2 (p @ q) r1"
    using match_conv_ok [OF pk(2) g(4)] by blast
  have m: "matchv_loop L (37 # cs) first nargs a s =
    (if ok then matchv_loop L fmt1 False n (?a1\<lparr>stored := stored a @ vs\<rparr>) s2
     else Inr (?a1\<lparr>stored := stored a @ vs\<rparr>, s2))"
    using pk g(1,2,3) s2(2) by (auto simp: Let_def is_eol_ch_def)
  show ?thesis
  proof (cases ok)
    case True
    have "room (length (p @ q) + (length r1 - length r))" using room s2(1) l by (simp add: add.assoc)
    then obtain q2 s3 where "r1 = q2 @ r"
      "matchv_loop L fmt1 False n (?a1\<lparr>stored := stored a @ vs\<rparr>) s2 = Inr (a', s3)" "rep b t s3 ((p @ q) @ q2) r"
      using IH [OF _ s2(3), of fmt1] g(1,5) True by (metis length_Cons lessI)
    then show ?thesis using m True s2(1) by (intro exI [where x = "q @ q2"] exI [where x = s3]) simp
  next
    case False
    then show ?thesis using m g(5) s2 by (intro exI [where x = q] exI [where x = s2]) auto
  qed
qed

lemma matchv_lit_step:
  assumes IH: "\<And>s0 p0 f0. rep b t s0 p0 f0 \<Longrightarrow>
      fmt_scan cs False nargs a f0 = Some (a', r) \<Longrightarrow> room (length p0 + (length f0 - length r)) \<Longrightarrow>
      \<exists>q s'. f0 = q @ r \<and> matchv_loop L cs False nargs a s0 = Inr (a', s') \<and> rep b t s' (p0 @ q) r"
    and pk: "lex_peek L s = Inr (d, s1)" "rep b t s1 p f" "f = d # g" "\<not> is_eol_ch d"
    and c: "c \<noteq> 32" "c \<noteq> 37" "\<not> is_eol_ch c"
    and sc: "fmt_scan (c # cs) first nargs a f = Some (a', r)"
    and room: "room (length p + (length f - length r))"
  shows "\<exists>q s'. f = q @ r \<and> matchv_loop L (c # cs) first nargs a s = Inr (a', s') \<and> rep b t s' (p @ q) r"
proof -
  obtain e r1 where g: "scan_space f = Some (e # r1)"
    "if e = c then fmt_scan cs False nargs a r1 = Some (a', r) else a' = a \<and> r = r1"
    using fmt_scan_lit [of c cs first nargs a f a' r] sc c pk(3,4) by auto
  have l: "length r \<le> length r1" "length (e # r1) \<le> length f"
    using g(2) fmt_scan_len scan_space_len [OF g(1)] by (cases "e = c"; fastforce)+
  have "room (length p + (length f - length (e # r1)))" using room by (rule room_mono) (use l in simp)
  then obtain q s2 where s2: "f = q @ e # r1" "skip_blank_space L s1 = Inr s2" "rep b t s2 (p @ q) (e # r1)"
    using skip_scan_ok [OF pk(2) g(1)] by blast
  have "room (length (p @ q))" using room by (rule room_mono) (use l s2(1) in simp)
  then obtain s3 where s3: "lex_getc L s2 = Inr (e, s3)" "rep b t s3 (p @ q @ [e]) r1"
    using getc_ok [OF s2(3)] by auto
  have m: "matchv_loop L (c # cs) first nargs a s =
    (if e \<noteq> c then Inr (a, s3) else matchv_loop L cs False nargs a s3)"
    using c pk s2(2) s3(1) by (simp add: Let_def)
  show ?thesis
  proof (cases "e = c")
    case True
    have "room (length (p @ q @ [e]) + (length r1 - length r))"
      using room by (rule room_mono) (use s2(1) l in simp)
    then obtain q2 s4 where "r1 = q2 @ r" "matchv_loop L cs False nargs a s3 = Inr (a', s4)"
      "rep b t s4 ((p @ q @ [e]) @ q2) r"
      using IH [OF s3(2)] g(2) True by metis
    then show ?thesis using m True s2(1) by (intro exI [where x = "q @ e # q2"] exI [where x = s4]) simp
  next
    case False
    then show ?thesis using m g(2) s2(1) s3 by (intro exI [where x = "q @ [e]"] exI [where x = s3]) auto
  qed
qed

lemma matchv_loop_ok:
  assumes "rep b t s p f" "fmt_scan fmt first nargs a f = Some (a', r)"
    "room (length p + (length f - length r))"
  shows "\<exists>q s'. f = q @ r \<and> matchv_loop L fmt first nargs a s = Inr (a', s') \<and> rep b t s' (p @ q) r"
  using assms
proof (induction "length fmt" arbitrary: fmt first nargs a s p f rule: less_induct)
  case less
  show ?case
  proof (cases fmt)
    case Nil
    then show ?thesis using less.prems by auto
  next
    case (Cons c cs)
    then obtain d g where f: "f = d # g" "\<not> is_eol_ch c"
      using less.prems(2) by (cases f) (auto split: if_splits)
    have rp: "room (length p)" using less.prems(3) by (rule room_mono) simp
    obtain s1 where s1: "lex_peek L s = Inr (d, s1)" "rep b t s1 p (d # g)"
      using peek_ok less.prems(1) rp f(1) by blast
    have rep1: "rep b t s1 p f" using s1(2) f(1) by simp
    consider "is_eol_ch d" | "\<not> is_eol_ch d" "c = 32" | "\<not> is_eol_ch d" "c = 37"
      | "\<not> is_eol_ch d" "c \<noteq> 32" "c \<noteq> 37" by blast
    then show ?thesis
    proof cases
      case 1
      then show ?thesis using less.prems(2) Cons f s1 by (intro exI [where x = "[]"]) auto
    next
      case 2
      then show ?thesis using less.hyps [OF _ rep1] less.prems(2,3) Cons f s1(1) by auto
    next
      case 3
      show ?thesis
        unfolding Cons 3(2)
        by (rule matchv_conv_step [OF less.hyps s1(1) rep1 f(1) 3(1)])
          (use less.prems(2,3) Cons 3(2) in simp_all)
    next
      case 4
      show ?thesis
        unfolding Cons
        by (rule matchv_lit_step [OF less.hyps s1(1) rep1 f(1) 4 f(2)])
          (use less.prems(2,3) Cons in simp_all)
    qed
  qed
qed

lemma matchv_ok:
  assumes "rep b t s p f" "matchv_scan fmt nargs f = Some (a, r)" "room (length p + (length f - length r))"
  shows "if matched a then \<exists>q s'. f = q @ r \<and> matchv L fmt nargs s = Inr ((True, stored a), s') \<and> rep b t s' (p @ q) r
    else if must_match a then matchv L fmt nargs s = Inl (Panic ''must match failed: malformed value'')
    else \<exists>s'. matchv L fmt nargs s = Inr ((False, stored a), s') \<and> rep b t s' p f"
proof -
  obtain r1 where r1: "scan_ws f = Some r1" "fmt_scan fmt True nargs scan_init r1 = Some (a, r)"
    using assms(2) by (auto simp: matchv_scan_def split: option.splits)
  have l: "length r \<le> length r1" "length r1 \<le> length f" using scan_ws_len [OF r1(1)] fmt_scan_len [OF r1(2)] by simp_all
  have "room (length p + (length f - length r1))" using assms(3) by (rule room_mono) (use l in simp)
  then obtain q1 s1 s2 where k: "f = q1 @ r1" "skip_blank_lines L s = Inr s1" "skip_blank_space L s1 = Inr s2"
    "rep b t s2 (p @ q1) r1" using skip_ws_ok [OF assms(1) r1(1)] by blast
  have "room (length (p @ q1) + (length r1 - length r))" using assms(3) k(1) l by (simp add: add.assoc)
  then obtain q2 s3 where m: "r1 = q2 @ r" "matchv_loop L fmt True nargs scan_init s2 = Inr (a, s3)"
    "rep b t s3 (p @ q1 @ q2) r"
    using matchv_loop_ok [OF k(4) r1(2)] by auto
  have "rep b t (lex_restore_ckpt L (lex_get_ckpt L s) s3) p ((q1 @ q2) @ r)"
    unfolding ckpt_ok [OF assms(1)] by (rule restore_ok) (use m(3) in simp)
  moreover have "f = (q1 @ q2) @ r" using k(1) m(1) by simp
  ultimately show ?thesis
    using k m by (auto simp: matchv_def scan_init_def intro!: exI [where x = "q1 @ q2"])
qed

text \<open>A matched line whose end of line is there, and a line that does not match.\<close>

lemma match_line_yes:
  assumes "rep b t s p f" "matchv_scan fmt nargs f = Some (a, q @ e # r)" "matched a"
    "\<forall>x \<in> set q. is_space_ch x" "is_eol_ch e"
    "room (length p + (length f - length r) + length (takeWhile is_eol_ch r))"
  shows "\<exists>s' es r' u. match_line L fmt nargs s = Inr ((True, stored a), s') \<and> r = es @ r'
    \<and> (\<forall>x \<in> set es. is_eol_ch x) \<and> f = u @ r' \<and> rep b t s' (p @ u) r'"
proof -
  have l: "length (q @ e # r) \<le> length f" using matchv_scan_len [OF assms(2)] .
  have "room (length p + (length f - length (q @ e # r)))" using assms(6) by (rule room_mono) simp
  then obtain u s1 where m: "f = u @ q @ e # r" "matchv L fmt nargs s = Inr ((True, stored a), s1)"
    "rep b t s1 (p @ u) (q @ e # r)"
    using matchv_ok [OF assms(1,2)] assms(3) by auto
  have "room (length (p @ u) + length q + 1 + length (takeWhile is_eol_ch r))"
    using assms(6) m(1) by (elim room_mono) simp
  then obtain s' es r' where e: "match_eol L s1 = Inr (True, s')" "r = es @ r'" "\<forall>x \<in> set es. is_eol_ch x"
    "rep b t s' ((p @ u) @ q @ e # es) r'"
    using match_eol_yes [OF m(3) assms(4,5)] by blast
  then show ?thesis
    using m by (intro exI [where x = s'] exI [where x = es] exI [where x = r'] exI [where x = "u @ q @ e # es"])
      (auto simp: match_line_def match_linev_def)
qed

lemma match_line_no:
  assumes "rep b t s p f" "matchv_scan fmt nargs f = Some (a, r)" "\<not> matched a" "\<not> must_match a"
    "room (length p + (length f - length r))"
  shows "\<exists>s'. match_line L fmt nargs s = Inr ((False, stored a), s') \<and> rep b t s' p f"
  using matchv_ok [OF assms(1,2,5)] assms(3,4) by (auto simp: match_line_def match_linev_def)

end

section \<open>Printing a format and matching it\<close>

text \<open>What the esp prints for a format: literal characters, quoted strings and decimal numbers.\<close>

fun show_mval :: "mval \<Rightarrow> bytes" where
  "show_mval (MStr str) = 34 # str @ [34]"
| "show_mval (MUint u) = rev (emit_digits 10 u)"

fun render :: "bytes \<Rightarrow> mval list \<Rightarrow> bytes" where
  "render [] vs = []"
| "render (c # fmt) vs =
     (if c \<noteq> 37 then c # render fmt vs
      else (case (fmt, vs) of (k # fmt1, v # vs1) \<Rightarrow> show_mval v @ render fmt1 vs1 | _ \<Rightarrow> []))"

text \<open>
  A format that can be read back with the given values when \<open>g\<close> follows it: no ends of line or
  tabs, strings without quotes that fit the 32 bytes of the matcher, and a character that is
  not a digit right after a number.
\<close>

fun conv_ok :: "u8 \<Rightarrow> mval \<Rightarrow> bytes \<Rightarrow> bytes \<Rightarrow> bool" where
  "conv_ok k (MStr str) fmt g \<longleftrightarrow> k = 115 \<and> 34 \<notin> set str \<and> length str < 32"
| "conv_ok k (MUint u) fmt g \<longleftrightarrow> k = 117 \<and>
     (if fmt = [] then g \<noteq> [] \<and> \<not> c_isdigit (hd g) else \<not> c_isdigit (hd fmt) \<and> hd fmt \<noteq> 37)"

fun fmt_ok :: "bytes \<Rightarrow> mval list \<Rightarrow> bytes \<Rightarrow> bool" where
  "fmt_ok [] vs g \<longleftrightarrow> vs = []"
| "fmt_ok (c # fmt) vs g \<longleftrightarrow> \<not> is_eol_ch c \<and> c \<noteq> 9 \<and>
     (if c \<noteq> 37 then fmt_ok fmt vs g
      else (case (fmt, vs) of (k # fmt1, v # vs1) \<Rightarrow> conv_ok k v fmt1 g \<and> fmt_ok fmt1 vs1 g | _ \<Rightarrow> False))"

lemma dec_digit: "k < 10 \<Longrightarrow> c_isdigit (digit_chars ! k) \<and> ucast (digit_chars ! k) - 48 = (of_nat k :: u32)"
proof -
  have "\<forall>k < 16. k < 10 \<longrightarrow> c_isdigit (digit_chars ! k) \<and> ucast (digit_chars ! k) - 48 = (of_nat k :: u32)"
    unfolding all_less_16 by (simp add: c_isdigit_def digit_chars_def bstr_def)
  then show "k < 10 \<Longrightarrow> c_isdigit (digit_chars ! k) \<and> ucast (digit_chars ! k) - 48 = (of_nat k :: u32)" by simp
qed

lemma dec_val_snoc: "dec_val x (ds @ [d]) = dec_val x ds * 10 + (ucast d - 48)"
  by (simp add: dec_val_def)

lemma dec_emit:
  "dec_val 0 (rev (emit_digits 10 u)) = u \<and> (\<forall>c \<in> set (emit_digits 10 u). c_isdigit c)"
proof (induction "10 :: u32" u rule: emit_digits.induct)
  case (1 u)
  have lt: "unat (u mod 10) < 10" by (simp add: unat_mod_distrib)
  have d: "c_isdigit (digit_chars ! unat (u mod 10))" "ucast (digit_chars ! unat (u mod 10)) - 48 = u mod 10"
    using dec_digit [OF lt] by simp_all
  have u: "u div 10 * 10 + u mod 10 = u" by (rule word_mod_div_equality)
  show ?case
  proof (cases "u div 10 = 0")
    case True
    then have "u mod 10 = u" using u by simp
    then show ?thesis using True d by (simp add: emit_digits.simps [of 10 u] dec_val_def)
  next
    case False
    then show ?thesis using 1 d u by (simp add: emit_digits.simps [of 10 u] dec_val_snoc)
  qed
qed

lemma scan_space_skip:
  "\<forall>x \<in> set q. is_space_ch x \<Longrightarrow> \<not> is_space_ch c \<Longrightarrow> scan_space (q @ c # f) = Some (c # f)"
  by (simp add: scan_space_def dropWhile_append2)

lemma digit_not_space: "c_isdigit c \<Longrightarrow> \<not> is_space_ch c \<and> \<not> is_eol_ch c"
  by (auto simp: c_isdigit_def is_space_ch_def is_eol_ch_def)

lemma scan_uint_digits:
  assumes "\<forall>x \<in> set q. is_space_ch x" "ds \<noteq> []" "\<forall>x \<in> set ds. c_isdigit x" "\<not> c_isdigit c"
  shows "scan_uint (q @ ds @ c # f) = Some ((True, dec_val 0 ds), c # f)"
proof -
  obtain d ds' where ds: "ds = d # ds'" using assms(2) by (cases ds) auto
  then have "scan_space (q @ ds @ c # f) = Some (ds @ c # f)"
    using scan_space_skip [OF assms(1), of d "ds' @ c # f"] assms(3) digit_not_space by simp
  moreover have "takeWhile c_isdigit (ds @ c # f) = ds" "dropWhile c_isdigit (ds @ c # f) = c # f"
    using assms(3,4) by (simp_all add: takeWhile_append2 dropWhile_append2)
  ultimately show ?thesis using assms(2) by (simp add: scan_uint_def Let_def)
qed

lemma scan_string_quoted:
  assumes "\<forall>x \<in> set q. is_space_ch x" "34 \<notin> set str" "length str < n"
  shows "scan_string n (q @ 34 # str @ 34 # f) = Some (Some str, f)"
proof -
  have "scan_space (q @ 34 # str @ 34 # f) = Some (34 # str @ 34 # f)"
    using scan_space_skip [OF assms(1), of 34 "str @ 34 # f"] by (simp add: is_space_ch_def)
  moreover have "takeWhile (\<lambda>c. c \<noteq> 34) (str @ 34 # f) = str" "dropWhile (\<lambda>c. c \<noteq> 34) (str @ 34 # f) = 34 # f"
    using assms(2) by (induction str) auto
  ultimately show ?thesis using assms(3) by (simp add: scan_string_def Let_def)
qed

lemma show_mval_hd: "\<exists>d ds. show_mval v = d # ds \<and> \<not> is_space_ch d \<and> \<not> is_eol_ch d"
proof (cases v)
  case (MUint u)
  then obtain d ds where d: "show_mval v = d # ds" by (cases "show_mval v") auto
  then have "d \<in> set (emit_digits 10 u)" using MUint by (metis list.set_intros(1) set_rev show_mval.simps(2))
  then show ?thesis using d dec_emit digit_not_space by blast
qed (simp add: is_space_ch_def is_eol_ch_def)

lemma scan_conv_shown:
  assumes "\<forall>x \<in> set q. is_space_ch x" "conv_ok k v fmt g'"
    "\<And>u. v = MUint u \<Longrightarrow> \<exists>c h. g = c # h \<and> \<not> c_isdigit c"
  shows "scan_conv k (q @ show_mval v @ g) = Some ((True, [v]), g)"
proof (cases v)
  case (MStr str)
  then show ?thesis using scan_string_quoted [OF assms(1)] assms(2) by (simp add: scan_conv_def)
next
  case (MUint u)
  then obtain c h where g: "g = c # h" "\<not> c_isdigit c" using assms(3) by blast
  show ?thesis
    using scan_uint_digits [OF assms(1), of "rev (emit_digits 10 u)" c h] g MUint assms(2) dec_emit
    by (simp add: scan_conv_def)
qed

text \<open>The scanner reads back what was printed, up to blanks the format ends with.  The three
  step lemmas add a blank, a conversion and a literal character in front of such a format.\<close>

definition reads_back :: "bytes \<Rightarrow> mval list \<Rightarrow> bytes \<Rightarrow> bytes \<Rightarrow> bool \<Rightarrow> scan_res \<Rightarrow> bool" where
  "reads_back fmt vs g q first a \<longleftrightarrow>
     (\<exists>a' q'. fmt_scan fmt first (length vs) a (q @ render fmt vs @ g) = Some (a', q' @ g)
       \<and> matched a' \<and> stored a' = stored a @ vs \<and> (\<forall>x \<in> set q'. is_space_ch x)
       \<and> (fmt = [] \<and> q = [] \<or> fmt \<noteq> [] \<and> last fmt \<noteq> 32 \<longrightarrow> q' = []))"

lemma space_not_eol: "is_space_ch x \<Longrightarrow> \<not> is_eol_ch x"
  by (auto simp: is_space_ch_def is_eol_ch_def)

lemma reads_back_blank:
  assumes "reads_back cs vs g (q @ [32]) False a" "\<forall>x \<in> set q. is_space_ch x"
  shows "reads_back (32 # cs) vs g q first a"
proof -
  have "\<not> is_eol_ch (hd (q @ [32]))" using assms(2) space_not_eol by (cases q) (auto simp: is_eol_ch_def)
  then show ?thesis
    using assms(1) unfolding reads_back_def
    by (cases q) (auto simp: is_eol_ch_def split: if_splits)
qed

lemma reads_back_conv:
  assumes k: "conv_ok k v fmt g" and q: "\<forall>x \<in> set q. is_space_ch x"
    and IH: "\<And>a. reads_back fmt vs g [] False a"
  shows "reads_back (37 # k # fmt) (v # vs) g q first a"
proof -
  let ?a = "(if first then a else a\<lparr>must_match := True\<rparr>)\<lparr>stored := stored a @ [v]\<rparr>"
  obtain a' q' where ih: "fmt_scan fmt False (length vs) ?a (render fmt vs @ g) = Some (a', q' @ g)"
    "matched a'" "stored a' = stored ?a @ vs" "\<forall>x \<in> set q'. is_space_ch x"
    "fmt = [] \<or> last fmt \<noteq> 32 \<longrightarrow> q' = []"
    using IH [of ?a] unfolding reads_back_def by auto
  have "\<exists>d h. render fmt vs @ g = d # h \<and> \<not> c_isdigit d" if "v = MUint u" for u
    using k that by (cases fmt; cases g) auto
  then have sc: "scan_conv k (q @ show_mval v @ render fmt vs @ g) = Some ((True, [v]), render fmt vs @ g)"
    by (rule scan_conv_shown [OF q k])
  obtain d ds where d: "show_mval v = d # ds" "\<not> is_space_ch d" "\<not> is_eol_ch d" using show_mval_hd by blast
  have "k = 115 \<or> k = 117" using k by (cases v) auto
  moreover have "\<not> is_eol_ch (hd (q @ show_mval v @ render fmt vs @ g))"
    using q d space_not_eol by (cases q) auto
  ultimately show ?thesis
    unfolding reads_back_def using sc ih d
    by (intro exI [where x = a'] exI [where x = q']) (auto simp: Let_def is_eol_ch_def)
qed

lemma reads_back_lit:
  assumes c: "c \<noteq> 32" "c \<noteq> 37" "\<not> is_eol_ch c" and q: "\<forall>x \<in> set q. is_space_ch x"
    and sp: "\<not> is_space_ch c" and IH: "reads_back cs vs g [] False a"
  shows "reads_back (c # cs) vs g q first a"
proof -
  have "scan_space (q @ c # render cs vs @ g) = Some (c # render cs vs @ g)"
    by (rule scan_space_skip [OF q sp])
  moreover have "\<not> is_eol_ch (hd (q @ c # render cs vs @ g))" using q c(3) space_not_eol by (cases q) auto
  ultimately show ?thesis using c IH unfolding reads_back_def by auto
qed

lemma fmt_scan_render:
  "fmt_ok fmt vs g \<Longrightarrow> \<forall>x \<in> set q. is_space_ch x \<Longrightarrow> reads_back fmt vs g q first a"
proof (induction "length fmt" arbitrary: fmt vs q first a rule: less_induct)
  case less
  show ?case
  proof (cases fmt)
    case Nil
    then show ?thesis using less.prems by (auto simp: reads_back_def)
  next
    case (Cons c cs)
    consider "c = 32" | "c = 37" | "c \<noteq> 32" "c \<noteq> 37" by blast
    then show ?thesis
    proof cases
      case 1
      then have "reads_back cs vs g (q @ [32]) False a" for a
        using less.hyps [of cs vs "q @ [32]"] less.prems Cons by (simp add: is_space_ch_def)
      then show ?thesis using reads_back_blank less.prems(2) Cons 1 by blast
    next
      case 2
      then obtain k fmt1 v vs1 where k: "cs = k # fmt1" "vs = v # vs1" "conv_ok k v fmt1 g" "fmt_ok fmt1 vs1 g"
        using less.prems(1) Cons by (auto split: list.splits)
      then show ?thesis
        using reads_back_conv [OF k(3) less.prems(2)] less.hyps [of fmt1 vs1 "[]"] Cons 2 by simp
    next
      case 3
      then have "fmt_ok cs vs g" "\<not> is_eol_ch c" "\<not> is_space_ch c"
        using less.prems(1) Cons by (auto simp: is_space_ch_def)
      then show ?thesis
        using reads_back_lit [OF 3] less.hyps [of cs vs "[]"] less.prems(2) Cons by simp
    qed
  qed
qed

lemma render_hd: "fmt_ok (c # fmt) vs g0 \<Longrightarrow> c \<noteq> 32 \<Longrightarrow> \<exists>d g. render (c # fmt) vs = d # g \<and> \<not> ws_ch d"
proof (cases "c = 37")
  case True
  assume "fmt_ok (c # fmt) vs g0"
  then obtain k fmt1 v vs1 where "fmt = k # fmt1" "vs = v # vs1" using True by (auto split: list.splits)
  then show ?thesis using True show_mval_hd [of v] by (auto simp: ws_ch_def)
qed (auto simp: ws_ch_def is_space_ch_def)

lemma scan_ws_skip: "\<forall>x \<in> set u. ws_ch x \<Longrightarrow> \<not> ws_ch c \<Longrightarrow> scan_ws (u @ c # f) = Some (c # f)"
  by (simp add: scan_ws_def dropWhile_append2)

lemma matchv_scan_render:
  assumes "fmt_ok fmt vs g" "fmt \<noteq> []" "hd fmt \<noteq> 32" "\<forall>x \<in> set u. ws_ch x"
  shows "\<exists>a q. matchv_scan fmt (length vs) (u @ render fmt vs @ g) = Some (a, q @ g)
    \<and> matched a \<and> stored a = vs \<and> (\<forall>x \<in> set q. is_space_ch x) \<and> (last fmt \<noteq> 32 \<longrightarrow> q = [])"
proof -
  obtain c cs where c: "fmt = c # cs" "c \<noteq> 32" using assms(2,3) by (cases fmt) auto
  then obtain d h where d: "render fmt vs = d # h" "\<not> ws_ch d" using render_hd assms(1) by blast
  have "scan_ws (u @ render fmt vs @ g) = Some ([] @ render fmt vs @ g)"
    using scan_ws_skip [OF assms(4) d(2)] d(1) by simp
  then show ?thesis
    using fmt_scan_render [OF assms(1), of "[]" True scan_init] assms(2)
    by (auto simp: reads_back_def matchv_scan_def scan_init_def)
qed

context lexer
begin

text \<open>A printed line, after blank lines, is matched and gives back the values that were printed.\<close>

lemma match_line_render:
  assumes "rep b t s p (u @ render fmt vs @ e # r)" "fmt_ok fmt vs (e # r)" "fmt \<noteq> []" "hd fmt \<noteq> 32"
    "\<forall>x \<in> set u. ws_ch x" "is_eol_ch e"
    "room (length p + length u + length (render fmt vs) + 1 + length (takeWhile is_eol_ch r))"
  shows "\<exists>s' es r' b'. match_line L fmt (length vs) s = Inr ((True, vs), s') \<and> r = es @ r'
    \<and> (\<forall>x \<in> set es. is_eol_ch x) \<and> rep b' t s' [] r'"
proof -
  obtain a q where a: "matchv_scan fmt (length vs) (u @ render fmt vs @ e # r) = Some (a, q @ e # r)"
    "matched a" "stored a = vs" "\<forall>x \<in> set q. is_space_ch x"
    using matchv_scan_render [OF assms(2-5)] by blast
  have "room (length p + (length (u @ render fmt vs @ e # r) - length r) + length (takeWhile is_eol_ch r))"
    using assms(7) by (simp add: add.assoc)
  then show ?thesis
    using match_line_yes [OF assms(1) a(1,2,4) assms(6)] a(3) rebase by metis
qed

end

section \<open>Properties\<close>

text \<open>
  (C6) On the circular lexer \<open>match_tok\<close> is the reference scan of the bytes to come, however
  they are split into reads: it skips blanks and ends of line, compares the token, rejects it
  inside a longer word, and when it fails leaves every byte unread. The bytes it looks at and
  one burst must fit in the ring.
\<close>

theorem match_tok_reference:
  assumes "circ_rep M b t s [] f" "tok_scan tok f = Some (ok, r)" "tok \<noteq> []"
    "length (takeWhile ws_ch f) + length tok + M < 1024"
  shows "\<exists>b' s'. match_tok lex_circ tok s = Inr (ok, s') \<and> circ_rep M b' t s' [] r"
proof -
  have "circ_room M (length [] + length (takeWhile ws_ch f) + length tok)"
    using assms(4) by (simp add: circ_room_def)
  from circ.match_tok_scan [OF assms(1-3) this] show ?thesis using circ.rebase by blast
qed

definition demo_line :: bytes where
  "demo_line = [13, 10, 32] @ bstr ''+2:x''"

lemma demo_line_rep:
  "\<exists>l. lex_init_circ = Inr l \<and>
     circ_rep 7 0 [] (l, \<lparr>rx = [Bytes (take 5 demo_line), Quiet, Bytes (drop 5 demo_line)], tx = []\<rparr>) [] demo_line"
  using lex_init_circ_rep [of 7 "[Bytes (take 5 demo_line), Quiet, Bytes (drop 5 demo_line)]" "[]"]
  by (simp add: demo_line_def bstr_def)

theorem match_tok_reference_witness:
  "\<exists>l b' s'. lex_init_circ = Inr l \<and> match_tok lex_circ (bstr ''+2'')
     (l, \<lparr>rx = [Bytes (take 5 demo_line), Quiet, Bytes (drop 5 demo_line)], tx = []\<rparr>) = Inr (True, s')
   \<and> circ_rep 7 b' [] s' [] (bstr '':x'')"
proof -
  obtain l where l: "lex_init_circ = Inr l"
    "circ_rep 7 0 [] (l, \<lparr>rx = [Bytes (take 5 demo_line), Quiet, Bytes (drop 5 demo_line)], tx = []\<rparr>) [] demo_line"
    using demo_line_rep by blast
  have "tok_scan (bstr ''+2'') demo_line = Some (True, bstr '':x'')"
    by (simp add: tok_scan_def demo_line_def bstr_def scan_ws_def ws_ch_def is_space_ch_def is_eol_ch_def c_isalpha_def)
  moreover have "length (takeWhile ws_ch demo_line) + length (bstr ''+2'') + 7 < 1024"
    by (simp add: demo_line_def bstr_def ws_ch_def is_space_ch_def is_eol_ch_def)
  ultimately show ?thesis using match_tok_reference [OF l(2)] l(1) by (auto simp: bstr_def)
qed

text \<open>
  (C5) \<open>matchv\<close> on the circular lexer is the reference scan of its format, in all three
  outcomes: a match stores the values and consumes what was matched; a mismatch before any
  conversion that follows a literal returns 0 with every byte unread; a mismatch after one
  panics.
\<close>

theorem matchv_reference:
  assumes "circ_rep M b t s [] f" "matchv_scan fmt nargs f = Some (a, r)" "length f - length r + M < 1024"
  shows "(matched a \<longrightarrow> (\<exists>b' s'. matchv lex_circ fmt nargs s = Inr ((True, stored a), s') \<and> circ_rep M b' t s' [] r))
    \<and> (\<not> matched a \<and> \<not> must_match a \<longrightarrow>
        (\<exists>s'. matchv lex_circ fmt nargs s = Inr ((False, stored a), s') \<and> circ_rep M b t s' [] f))
    \<and> (\<not> matched a \<and> must_match a \<longrightarrow>
        matchv lex_circ fmt nargs s = Inl (Panic ''must match failed: malformed value''))"
proof -
  have "circ_room M (length [] + (length f - length r))" using assms(3) by (simp add: circ_room_def)
  from circ.matchv_ok [OF assms(1,2) this] show ?thesis using circ.rebase by (auto split: if_splits)
qed

theorem matchv_reference_witness:
  "\<exists>l b' s'. lex_init_circ = Inr l \<and> matchv lex_circ (bstr ''+%u:'') 1
     (l, \<lparr>rx = [Bytes (take 5 demo_line), Quiet, Bytes (drop 5 demo_line)], tx = []\<rparr>)
       = Inr ((True, [MUint 2]), s')
   \<and> circ_rep 7 b' [] s' [] (bstr ''x'')"
proof -
  obtain l where l: "lex_init_circ = Inr l"
    "circ_rep 7 0 [] (l, \<lparr>rx = [Bytes (take 5 demo_line), Quiet, Bytes (drop 5 demo_line)], tx = []\<rparr>) [] demo_line"
    using demo_line_rep by blast
  have "matchv_scan (bstr ''+%u:'') 1 demo_line
      = Some (\<lparr>matched = True, must_match = True, stored = [MUint 2]\<rparr>, bstr ''x'')"
    by (simp add: matchv_scan_def demo_line_def bstr_def scan_ws_def ws_ch_def is_space_ch_def is_eol_ch_def
        scan_init_def scan_space_def scan_conv_def scan_uint_def c_isdigit_def dec_val_def Let_def One_nat_def)
  moreover have "length demo_line - length (bstr ''x'') + 7 < 1024" by (simp add: demo_line_def bstr_def)
  ultimately obtain b' s' where "matchv lex_circ (bstr ''+%u:'') 1
     (l, \<lparr>rx = [Bytes (take 5 demo_line), Quiet, Bytes (drop 5 demo_line)], tx = []\<rparr>)
       = Inr ((True, [MUint 2]), s')" "circ_rep 7 b' [] s' [] (bstr ''x'')"
    using matchv_reference [OF l(2)] by (metis scan_res.select_convs(1) scan_res.select_convs(3))
  then show ?thesis using l(1) by blast
qed

text \<open>
  (C13) A line the esp prints from a format is read back by \<open>match_line\<close>: on both lexers, after
  any blank lines and in any split into reads, the match succeeds and stores exactly the values
  that were printed, and only ends of line are consumed after it.
\<close>

theorem match_line_roundtrip:
  assumes "fmt_ok fmt vs (e # r)" "fmt \<noteq> []" "hd fmt \<noteq> 32" "\<forall>x \<in> set u. ws_ch x" "is_eol_ch e"
    "f = u @ render fmt vs @ e # r"
  shows "(circ_rep M b t s [] f \<and> length u + length (render fmt vs) + 1 + length (takeWhile is_eol_ch r) + M < 1024
      \<longrightarrow> (\<exists>s' es r' b'. match_line lex_circ fmt (length vs) s = Inr ((True, vs), s') \<and> r = es @ r'
        \<and> (\<forall>x \<in> set es. is_eol_ch x) \<and> circ_rep M b' t s' [] r'))
    \<and> (simple_rep b t s2 [] f
      \<longrightarrow> (\<exists>s' es r' b'. match_line lex_simple fmt (length vs) s2 = Inr ((True, vs), s') \<and> r = es @ r'
        \<and> (\<forall>x \<in> set es. is_eol_ch x) \<and> simple_rep b' t s' [] r'))"
  using circ.match_line_render [of M b t s "[]" u fmt vs e r] simple.match_line_render [of b t s2 "[]" u fmt vs e r]
    assms by (simp add: circ_room_def)

theorem match_line_roundtrip_witness:
  "\<exists>l s' b' es r'. lex_init_circ = Inr l \<and> match_line lex_circ (bstr ''Recv %u bytes'') 1
     (l, \<lparr>rx = [Bytes (bstr ''Recv 7 by''), Bytes (bstr ''tes'' @ [13, 10])], tx = []\<rparr>)
       = Inr ((True, [MUint 7]), s')
   \<and> [10] = es @ r' \<and> circ_rep 14 b' [] s' [] r'"
proof -
  let ?evs = "[Bytes (bstr ''Recv 7 by''), Bytes (bstr ''tes'' @ [13, 10])]"
  have "bursts_ok 14 ?evs" by (simp add: bstr_def)
  then obtain l where l: "lex_init_circ = Inr l"
    "circ_rep 14 0 [] (l, \<lparr>rx = ?evs, tx = []\<rparr>) [] (ev_bytes ?evs)"
    using lex_init_circ_rep by blast
  have r: "render (bstr ''Recv %u bytes'') [MUint 7] = bstr ''Recv 7 bytes''"
    by (simp add: bstr_def emit_digits.simps [of 10 7] digit_chars_def)
  have f: "fmt_ok (bstr ''Recv %u bytes'') [MUint 7] (13 # [10])"
    by (simp add: bstr_def is_eol_ch_def c_isdigit_def)
  have ev: "ev_bytes ?evs = [] @ render (bstr ''Recv %u bytes'') [MUint 7] @ 13 # [10]"
    unfolding r by (simp add: bstr_def)
  have ne: "bstr ''Recv %u bytes'' \<noteq> []" "hd (bstr ''Recv %u bytes'') \<noteq> 32" "is_eol_ch 13"
    by (simp_all add: bstr_def is_eol_ch_def)
  have len: "length [] + length (render (bstr ''Recv %u bytes'') [MUint 7]) + 1
      + length (takeWhile is_eol_ch [10]) + 14 < 1024"
    unfolding r by (simp add: bstr_def is_eol_ch_def)
  have nil: "\<forall>x \<in> set ([] :: bytes). ws_ch x" by simp
  have "\<exists>s' es r' b'. match_line lex_circ (bstr ''Recv %u bytes'') (length [MUint 7]) (l, \<lparr>rx = ?evs, tx = []\<rparr>)
      = Inr ((True, [MUint 7]), s') \<and> [10] = es @ r' \<and> (\<forall>x \<in> set es. is_eol_ch x) \<and> circ_rep 14 b' [] s' [] r'"
    using match_line_roundtrip [OF f ne(1,2) nil ne(3) ev, of 14 0 "[]" "(l, \<lparr>rx = ?evs, tx = []\<rparr>)"] l(2) len
    by blast
  moreover have "length [MUint 7] = 1" by simp
  ultimately show ?thesis using l(1) by metis
qed

end
