(* ===== verification/Esp_Run.thy ===== *)
theory Esp_Run
  imports Esp_Parse
begin

text \<open>
  Issuing commands to the esp8266 and handling its answers: \<^verbatim>\<open>labs/10-esp8266/libesp/esp-run.c\<close>,
  the macros of \<^verbatim>\<open>esp-run.h\<close>, \<^verbatim>\<open>esp-commands.c\<close> and the descriptor of \<^verbatim>\<open>libesp.h\<close>. What the
  routines print and how long they sleep is left out; everything they read and write is not.
  A \<open>va_list\<close> is passed by value, as on the Pi. Loops over the input take as fuel the bytes that
  can still arrive.
\<close>

section \<open>The descriptor\<close>

datatype conn_type = ESP_TCP | ESP_UDP

record esp_conn_t =
  client_p :: "1 word"
  active_p :: u32
  conn_type :: conn_type
  server_ip :: "bytes option"
  portn :: u32

datatype ooo_handler = default_handle_out_of_order_msg | handle_ooo_server | handle_ooo_client

record 'l esp_t =
  esp_l :: "'l lstate"
  wifi :: "bytes option"
  password :: "bytes option"
  handle_ooo_msg :: ooo_handler
  esp_active_p :: u32
  open_conn :: "esp_conn_t list"

definition ESP_MAX_CONN :: nat where
  "ESP_MAX_CONN = 6"

definition conn_zero :: esp_conn_t where
  "conn_zero = \<lparr>client_p = 0, active_p = 0, conn_type = ESP_TCP, server_ip = None, portn = 0\<rparr>"

definition esp_mk :: "'l lstate \<Rightarrow> bytes option \<Rightarrow> bytes option \<Rightarrow> 'l esp_t" where
  "esp_mk l w p =
     \<lparr>esp_l = l, wifi = w, password = p, handle_ooo_msg = default_handle_out_of_order_msg,
      esp_active_p = 0, open_conn = replicate ESP_MAX_CONN conn_zero\<rparr>"

section \<open>Commands and responses\<close>

text \<open>The line is printed, not kept.\<close>

definition cmd_echo_line :: "('l, 'c) lex_ops \<Rightarrow> 'l lstate \<Rightarrow> 'l lstate result" where
  "cmd_echo_line L s = rbind (get_nonblank_line L 1024 s) (\<lambda>(_, s1). Inr s1)"

definition cmd_reject_line :: "('l, 'c) lex_ops \<Rightarrow> 'l lstate \<Rightarrow> 'x result" where
  "cmd_reject_line L s =
     rbind (get_nonblank_line L 1024 s) (\<lambda>(buf, _).
       if buf = [] then Inl (Panic ''expected non-blank!'') else Inl (Panic ''unexpected line''))"

definition cmd_puts :: "bytes \<Rightarrow> 'l lstate \<Rightarrow> 'l lstate result" where
  "cmd_puts cmd_op s =
     (let n = length cmd_op in
      rbind (c_assert (n \<noteq> 0) ''n'') (\<lambda>_.
      rbind (c_assert (n < 1024 - 2) ''n < sizeof cmd - 2'') (\<lambda>_.
        Inr (fst s, esp_write_exact (snd s) (cmd_op @ [13, 10])))))"

text \<open>\<open>match_line\<close> without conversions: the answer only.\<close>

definition match_text :: "('l, 'c) lex_ops \<Rightarrow> bytes \<Rightarrow> 'l lstate \<Rightarrow> (bool \<times> 'l lstate) result" where
  "match_text L lit s = rbind (match_line L lit 0 s) (\<lambda>((ok, _), s1). Inr (ok, s1))"

definition match_busy :: "('l, 'c) lex_ops \<Rightarrow> 'l lstate \<Rightarrow> (bool \<times> 'l lstate) result" where
  "match_busy L s =
     rbind (match_text L (bstr ''busy s...'') s) (\<lambda>(b, s1).
       if b then Inr (True, s1) else match_text L (bstr ''busy p...'') s1)"

text \<open>The end of a round of the response loops: skip an extra line, a blank line, or die.\<close>

definition cmd_extra :: "('l, 'c) lex_ops \<Rightarrow> bool \<Rightarrow> 'l lstate \<Rightarrow> 'l lstate result" where
  "cmd_extra L extra_p s =
     (if extra_p then cmd_echo_line L s
      else rbind (match_blank_line L s) (\<lambda>(blank, s1).
        if blank then Inr s1
        else rbind (get_nonblank_line L 1024 s1) (\<lambda>(buf, _).
          if buf = [] then Inl (Panic ''expected non-blank!'')
          else Inl (Panic ''specified no extra output for command''))))"

fun match_toks :: "('l, 'c) lex_ops \<Rightarrow> bytes list \<Rightarrow> 'l lstate \<Rightarrow> (bool \<times> 'l lstate) result" where
  "match_toks L [] s = Inr (False, s)"
| "match_toks L (tok # toks) s =
     rbind (match_tok L tok s) (\<lambda>(ok, s1). if ok then Inr (True, s1) else match_toks L toks s1)"

fun cmd_responsev_loop :: "('l, 'c) lex_ops \<Rightarrow> nat \<Rightarrow> bool \<Rightarrow> bool \<Rightarrow> bytes \<Rightarrow> nat \<Rightarrow> 'l lstate
    \<Rightarrow> ((bool \<times> mval list) \<times> 'l lstate) result" where
  "cmd_responsev_loop L 0 can_fail_p extra_p fmt nargs s = Inl Diverges"
| "cmd_responsev_loop L (Suc k) can_fail_p extra_p fmt nargs s =
     rbind (match_linev L fmt nargs s) (\<lambda>((ok, vs), s1).
     if ok then Inr ((True, vs), s1)
     else rbind (match_tok L (bstr ''ERROR'') s1) (\<lambda>(err, s2).
     if err then (if can_fail_p then Inr ((False, vs), s2) else Inl (Panic ''fatal error: got an error''))
     else rbind (match_toks L [bstr ''OK'', bstr ''SEND OK'', bstr ''ready'', bstr ''BUSY''] s2) (\<lambda>(sus, s3).
     if sus then Inl (Panic ''suspicious end of command'')
     else rbind (match_busy L s3) (\<lambda>(busy, s4).
     if busy then cmd_responsev_loop L k can_fail_p extra_p fmt nargs s4
     else rbind (cmd_extra L extra_p s4) (\<lambda>s5.
       cmd_responsev_loop L k can_fail_p extra_p fmt nargs s5)))))"

definition cmd_responsev :: "('l, 'c) lex_ops \<Rightarrow> bool \<Rightarrow> bool \<Rightarrow> bytes \<Rightarrow> nat \<Rightarrow> 'l lstate
    \<Rightarrow> ((bool \<times> mval list) \<times> 'l lstate) result" where
  "cmd_responsev L can_fail_p extra_p fmt nargs s =
     cmd_responsev_loop L (Suc (lex_left L s)) can_fail_p extra_p fmt nargs s"

definition cmd_responsef :: "('l, 'c) lex_ops \<Rightarrow> bool \<Rightarrow> bool \<Rightarrow> bytes \<Rightarrow> nat \<Rightarrow> 'l lstate
    \<Rightarrow> ((bool \<times> mval list) \<times> 'l lstate) result" where
  "cmd_responsef L can_fail_p extra_p fmt nargs s = cmd_responsev L can_fail_p extra_p fmt nargs s"

fun cmd_response_loop :: "('l, 'c) lex_ops \<Rightarrow> nat \<Rightarrow> bytes \<Rightarrow> bool \<Rightarrow> bool \<Rightarrow> 'l lstate
    \<Rightarrow> (bool \<times> 'l lstate) result" where
  "cmd_response_loop L 0 end_line can_fail_p extra_p s = Inl Diverges"
| "cmd_response_loop L (Suc k) end_line can_fail_p extra_p s =
     rbind (match_text L end_line s) (\<lambda>(ok, s1).
     if ok then Inr (True, s1)
     else rbind (match_tok L (bstr ''ERROR'') s1) (\<lambda>(err, s2).
     if err then (if can_fail_p then Inr (False, s2) else Inl (Panic ''fatal error: got an error''))
     else rbind (match_busy L s2) (\<lambda>(busy, s3).
     if busy then cmd_response_loop L k end_line can_fail_p extra_p s3
     else rbind (cmd_extra L extra_p s3) (\<lambda>s4.
       cmd_response_loop L k end_line can_fail_p extra_p s4))))"

definition cmd_response :: "('l, 'c) lex_ops \<Rightarrow> bytes \<Rightarrow> bool \<Rightarrow> bool \<Rightarrow> 'l lstate
    \<Rightarrow> (bool \<times> 'l lstate) result" where
  "cmd_response L end_line can_fail_p extra_p s =
     cmd_response_loop L (Suc (lex_left L s)) end_line can_fail_p extra_p s"

text \<open>
  The out-of-order handlers. The one of the server panics in its first statement, so the rest of
  its body never runs; the one of the client only panics.
\<close>

definition ooo_msg :: "('l, 'c) lex_ops \<Rightarrow> 'l esp_t \<Rightarrow> 'l esp_t result" where
  "ooo_msg L e =
     (case handle_ooo_msg e of
        default_handle_out_of_order_msg \<Rightarrow>
          if esp_active_p e = 0 then rbind (cmd_echo_line L (esp_l e)) (\<lambda>s. Inr (e\<lparr>esp_l := s\<rparr>))
          else Inl (Panic ''unexpected out of order message'')
      | handle_ooo_server \<Rightarrow> Inl (Panic ''in handle ooo server'')
      | handle_ooo_client \<Rightarrow> Inl (Panic ''client: should never receive unexpected messages''))"

fun cmd_ack_loop :: "('l, 'c) lex_ops \<Rightarrow> nat \<Rightarrow> bytes \<Rightarrow> 'l esp_t \<Rightarrow> 'l esp_t result" where
  "cmd_ack_loop L 0 cmd e = Inl Diverges"
| "cmd_ack_loop L (Suc k) cmd e =
     rbind (match_text L cmd (esp_l e)) (\<lambda>(ok, s1).
     if ok then Inr (e\<lparr>esp_l := s1\<rparr>)
     else rbind (match_blank_line L s1) (\<lambda>(blank, s2).
     if blank then cmd_ack_loop L k cmd (e\<lparr>esp_l := s2\<rparr>)
     else rbind (match_busy L s2) (\<lambda>(busy, s3).
     if busy then cmd_ack_loop L k cmd (e\<lparr>esp_l := s3\<rparr>)
     else rbind (ooo_msg L (e\<lparr>esp_l := s3\<rparr>)) (\<lambda>e1. cmd_ack_loop L k cmd e1))))"

definition cmd_ack :: "('l, 'c) lex_ops \<Rightarrow> bytes \<Rightarrow> 'l esp_t \<Rightarrow> 'l esp_t result" where
  "cmd_ack L cmd e = cmd_ack_loop L (Suc (lex_left L (esp_l e))) cmd e"

definition do_at_cmd :: "('l, 'c) lex_ops \<Rightarrow> bytes \<Rightarrow> bytes \<Rightarrow> bool \<Rightarrow> 'l esp_t \<Rightarrow> (bool \<times> 'l esp_t) result" where
  "do_at_cmd L cmd response extra_p e =
     rbind (cmd_puts cmd (esp_l e)) (\<lambda>s.
     rbind (cmd_ack L cmd (e\<lparr>esp_l := s\<rparr>)) (\<lambda>e1.
     rbind (cmd_response L response False extra_p (esp_l e1)) (\<lambda>(ok, s2).
       Inr (ok, e1\<lparr>esp_l := s2\<rparr>))))"

definition at_cmd :: "('l, 'c) lex_ops \<Rightarrow> bytes \<Rightarrow> bytes \<Rightarrow> 'l esp_t \<Rightarrow> (bool \<times> 'l esp_t) result" where
  "at_cmd L cmd response e = do_at_cmd L cmd response False e"

definition at_cmd_extra :: "('l, 'c) lex_ops \<Rightarrow> bytes \<Rightarrow> bytes \<Rightarrow> 'l esp_t \<Rightarrow> (bool \<times> 'l esp_t) result" where
  "at_cmd_extra L cmd response e = do_at_cmd L cmd response True e"

definition at_cmd_ok :: "('l, 'c) lex_ops \<Rightarrow> bytes \<Rightarrow> 'l esp_t \<Rightarrow> (bool \<times> 'l esp_t) result" where
  "at_cmd_ok L cmd e = at_cmd L cmd (bstr ''OK'') e"

text \<open>
  The macros that format the command first: \<open>snprintf\<close> into 512 bytes cuts the text off at 511
  and returns a length, which is never below 0, so their check of the result never fires.
\<close>

definition at_cmdv :: "('l, 'c) lex_ops \<Rightarrow> bytes \<Rightarrow> 'l esp_t \<Rightarrow> (bool \<times> 'l esp_t) result" where
  "at_cmdv L lit e = at_cmd_ok L (take 511 lit) e"

definition at_cmd_extrav :: "('l, 'c) lex_ops \<Rightarrow> bytes \<Rightarrow> 'l esp_t \<Rightarrow> (bool \<times> 'l esp_t) result" where
  "at_cmd_extrav L lit e = at_cmd_extra L (take 511 lit) (bstr ''OK'') e"

text \<open>C's \<open>a && b\<close> on steps that return 0 or 1.\<close>

definition and_then :: "('e \<Rightarrow> (bool \<times> 'e) result) \<Rightarrow> ('e \<Rightarrow> (bool \<times> 'e) result) \<Rightarrow> 'e \<Rightarrow> (bool \<times> 'e) result" where
  "and_then f g e = rbind (f e) (\<lambda>(ok, e1). if ok then g e1 else Inr (False, e1))"

section \<open>The commands of \<open>esp-commands.c\<close>\<close>

text \<open>The unsigned integer the \<open>i\<close>th pointer holds after a match: its old value if nothing was stored.\<close>

definition uint_at :: "mval list \<Rightarrow> nat \<Rightarrow> u32 \<Rightarrow> u32" where
  "uint_at vs i old =
     (if i < length vs then (case vs ! i of MUint u \<Rightarrow> u | MStr str \<Rightarrow> old) else old)"

definition is_connect :: "('l, 'c) lex_ops \<Rightarrow> u32 \<Rightarrow> 'l esp_t \<Rightarrow> ((bool \<times> u32) \<times> 'l esp_t) result" where
  "is_connect L chan0 e =
     rbind (match_line L (bstr ''%u, CONNECT'') 1 (esp_l e)) (\<lambda>((ok, vs), s).
       let chan = uint_at vs 0 chan0; e1 = e\<lparr>esp_l := s\<rparr> in
       if \<not> ok then Inr ((False, chan), e1)
       else rbind (c_assert (unat chan < ESP_MAX_CONN) ''*ch < ESP_MAX_CONN'') (\<lambda>_.
         Inr ((True, chan), e1)))"

definition is_disconnect :: "('l, 'c) lex_ops \<Rightarrow> u32 \<Rightarrow> 'l esp_t \<Rightarrow> ((bool \<times> u32) \<times> 'l esp_t) result" where
  "is_disconnect L chan0 e =
     rbind (match_line L (bstr ''%u, DISCONNECT'') 1 (esp_l e)) (\<lambda>((ok, vs), s).
       let chan = uint_at vs 0 chan0; e1 = e\<lparr>esp_l := s\<rparr> in
       if \<not> ok then Inr ((False, chan), e1)
       else rbind (c_assert (unat chan < ESP_MAX_CONN) ''*ch < ESP_MAX_CONN'') (\<lambda>_.
         Inr ((True, chan), e1)))"

text \<open>\<open>wait_for_conn\<close> returns in its first statement; the polling loop after it is dead code.\<close>

definition wait_for_conn :: "('l, 'c) lex_ops \<Rightarrow> u32 \<Rightarrow> 'l esp_t \<Rightarrow> ((bool \<times> u32) \<times> 'l esp_t) result" where
  "wait_for_conn L chan0 e = is_connect L chan0 e"

definition handle_connect :: "'l esp_t \<Rightarrow> u32 \<Rightarrow> 'l esp_t result" where
  "handle_connect e chan =
     rbind (arr_get (open_conn e) (unat chan)) (\<lambda>c.
     rbind (arr_set (open_conn e) (unat chan) (c\<lparr>active_p := 1, client_p := 0, conn_type := ESP_TCP\<rparr>)) (\<lambda>cs.
       Inr (e\<lparr>open_conn := cs\<rparr>)))"

definition handle_disconnect :: "'l esp_t \<Rightarrow> u32 \<Rightarrow> 'l esp_t result" where
  "handle_disconnect e chan =
     rbind (arr_get (open_conn e) (unat chan)) (\<lambda>c.
     rbind (arr_set (open_conn e) (unat chan) (c\<lparr>active_p := 0\<rparr>)) (\<lambda>cs.
       Inr (e\<lparr>open_conn := cs\<rparr>)))"

definition esp_is_up :: "('l, 'c) lex_ops \<Rightarrow> 'l esp_t \<Rightarrow> (bool \<times> 'l esp_t) result" where
  "esp_is_up L e = rbind (at_cmd L (bstr ''AT'') (bstr ''OK'') e) (\<lambda>(_, e1). Inr (True, e1))"

fun at_drain_loop :: "('l, 'c) lex_ops \<Rightarrow> nat \<Rightarrow> 'l esp_t \<Rightarrow> (bool \<times> 'l esp_t) result" where
  "at_drain_loop L 0 e = Inl Diverges"
| "at_drain_loop L (Suc k) e =
     rbind (match_text L (bstr ''ready'') (esp_l e)) (\<lambda>(ok, s).
       if ok then Inr (True, e\<lparr>esp_l := s\<rparr>)
       else rbind (cmd_echo_line L s) (\<lambda>s1. at_drain_loop L k (e\<lparr>esp_l := s1\<rparr>)))"

definition at_drain :: "('l, 'c) lex_ops \<Rightarrow> 'l esp_t \<Rightarrow> (bool \<times> 'l esp_t) result" where
  "at_drain L e = at_drain_loop L (Suc (lex_left L (esp_l e))) e"

definition at_delay :: "'l esp_t \<Rightarrow> (bool \<times> 'l esp_t) result" where
  "at_delay e = Inr (True, e)"

text \<open>The first loop of \<open>esp_hard_reset\<close>: drop characters while a poll of 1 ms finds some.\<close>

definition has_data_1ms :: "'l lstate \<Rightarrow> (bool \<times> 'l lstate) result" where
  "has_data_1ms s = (case esp_has_data_timeout (snd s) of (b, w) \<Rightarrow> Inr (b, fst s, w))"

definition esp_hard_reset :: "('l, 'c) lex_ops \<Rightarrow> 'l esp_t \<Rightarrow> (bool \<times> 'l esp_t) result" where
  "esp_hard_reset L e =
     rbind (c_while (Suc (lex_left L (esp_l e))) has_data_1ms (lex_drop L) (esp_l e)) (\<lambda>s.
     rbind (and_then (at_cmd_extra L (bstr ''AT+RST'') (bstr ''OK'')) (at_drain L) (e\<lparr>esp_l := s\<rparr>)) (\<lambda>(ok, e1).
       if \<not> ok then Inl (Panic ''cannot reset??'')
       else and_then (at_cmd_extra L (bstr ''AT+RESTORE'') (bstr ''OK''))
           (and_then at_delay
           (and_then (at_drain L)
           (and_then (at_cmd_extra L (bstr ''AT+RST'') (bstr ''OK'')) (at_drain L)))) e1))"

definition quoted2 :: "bytes \<Rightarrow> bytes \<Rightarrow> bytes" where
  "quoted2 a b = [34] @ a @ [34] @ bstr '','' @ [34] @ b @ [34]"

definition esp_setup_wifi :: "('l, 'c) lex_ops \<Rightarrow> 'l esp_t \<Rightarrow> (bool \<times> 'l esp_t) result" where
  "esp_setup_wifi L e =
     (case (wifi e, password e) of
        (Some w, Some p) \<Rightarrow>
          rbind (c_assert (esp_active_p e = 0) ''!e->active_p'') (\<lambda>_.
          rbind (c_assert (8 \<le> length p) ''strlen(e->password) >= 8'') (\<lambda>_.
            and_then (at_cmdv L (bstr ''AT+CWSAP='' @ quoted2 w p @ bstr '',5,3''))
            (and_then (at_cmd L (bstr ''AT+CWMODE=3'') (bstr ''OK''))
             (at_cmd_extra L (bstr ''AT+CIFSR'') (bstr ''OK''))) e))
      | _ \<Rightarrow> Inl (AssertFail ''e->wifi && e->password''))"

definition esp_connect_to_wifi :: "('l, 'c) lex_ops \<Rightarrow> 'l esp_t \<Rightarrow> (bool \<times> 'l esp_t) result" where
  "esp_connect_to_wifi L e =
     (case (wifi e, password e) of
        (Some w, Some p) \<Rightarrow>
          and_then (at_cmd_ok L (bstr ''AT+CWMODE=1''))
            (at_cmd_extrav L (bstr ''AT+CWJAP='' @ quoted2 w p)) e
      | _ \<Rightarrow> Inl (AssertFail ''e->wifi && e->password''))"

text \<open>The address and port the caller passes are not used: the command names a fixed server.\<close>

definition tcp_connect_cmd :: bytes where
  "tcp_connect_cmd =
     bstr ''AT+CIPSTART=0,'' @ quoted2 (bstr ''TCP'') (bstr ''192.168.4.1'') @ bstr '',4444''"

definition issue_tcp_connect :: "('l, 'c) lex_ops \<Rightarrow> 'l esp_t \<Rightarrow> (u32 \<times> 'l esp_t) result" where
  "issue_tcp_connect L e =
     rbind (cmd_puts tcp_connect_cmd (esp_l e)) (\<lambda>s.
     rbind (cmd_ack L tcp_connect_cmd (e\<lparr>esp_l := s\<rparr>)) (\<lambda>e1.
     rbind (cmd_responsef L False False (bstr ''%u, CONNECT'') 1 (esp_l e1)) (\<lambda>((ok, vs), s2).
     if \<not> ok then cmd_reject_line L s2
     else rbind (cmd_response L (bstr ''OK'') False False s2) (\<lambda>(ok2, s3).
     if \<not> ok2 then cmd_reject_line L s3
     else Inr (uint_at vs 0 0, e1\<lparr>esp_l := s3\<rparr>)))))"

definition esp_start_tcp_client ::
  "('l, 'c) lex_ops \<Rightarrow> bytes \<Rightarrow> u32 \<Rightarrow> 'l esp_t \<Rightarrow> (bool \<times> 'l esp_t) result" where
  "esp_start_tcp_client L ip port e =
     rbind (c_assert (esp_active_p e = 0) ''!e->active_p'') (\<lambda>_.
     rbind (at_cmd_ok L (bstr ''AT+CIPMUX=1'') e) (\<lambda>(ok, e1).
     if \<not> ok then Inr (False, e1)
     else rbind (issue_tcp_connect L e1) (\<lambda>(chan, e2).
     rbind (c_assert (chan = 0) ''!ch'') (\<lambda>_.
     rbind (arr_get (open_conn e2) (unat chan)) (\<lambda>c.
     rbind (c_assert (active_p c = 0) ''!c->active_p'') (\<lambda>_.
     rbind (arr_set (open_conn e2) (unat chan)
         \<lparr>client_p = 1, active_p = 1, conn_type = ESP_TCP, server_ip = Some ip, portn = port\<rparr>) (\<lambda>cs.
       Inr (True, e2\<lparr>open_conn := cs, handle_ooo_msg := handle_ooo_client, esp_active_p := 1\<rparr>))))))))"

definition esp_start_tcp_server :: "('l, 'c) lex_ops \<Rightarrow> u32 \<Rightarrow> 'l esp_t \<Rightarrow> (bool \<times> 'l esp_t) result" where
  "esp_start_tcp_server L portnum e =
     rbind (c_assert (esp_active_p e = 0) ''!e->active_p'') (\<lambda>_.
     rbind (and_then (at_cmd L (bstr ''AT+CWMODE=3'') (bstr ''OK''))
           (and_then (at_cmd L (bstr ''AT+CIPMUX=1'') (bstr ''OK''))
           (and_then (at_cmdv L (bstr ''AT+CIPSERVER=1,'' @ show_mval (MUint portnum)))
           (and_then (at_cmd_extra L (bstr ''AT+CIPSTO?'') (bstr ''OK''))
           (and_then (at_cmd_extra L (bstr ''AT+CIPSTO=7200'') (bstr ''OK''))
           (and_then (at_cmd_extra L (bstr ''AT+CIPSTO?'') (bstr ''OK''))
           (and_then (at_cmd_extra L (bstr ''AT+CIFSR'') (bstr ''OK''))
             (at_cmd_extra L (bstr ''AT+GMR'') (bstr ''OK'')))))))) e) (\<lambda>(ok, e1).
       if \<not> ok then Inr (False, e1)
       else Inr (True, e1\<lparr>handle_ooo_msg := handle_ooo_server, esp_active_p := 1\<rparr>)))"

text \<open>\<open>esp_is_recv\<close> returns the channel and the bytes of one packet, from a header \<open>+IPD,ch,n:\<close>.\<close>

definition esp_is_recv ::
  "('l, 'c) lex_ops \<Rightarrow> nat \<Rightarrow> 'l esp_t \<Rightarrow> ((u32 \<times> bytes) \<times> 'l esp_t) result" where
  "esp_is_recv L maxbytes e =
     rbind (match_partial L (bstr ''+IPD,%u,%u:'') 2 (esp_l e)) (\<lambda>((ok, vs), s).
     if \<not> ok then cmd_reject_line L s
     else (let chan = uint_at vs 0 0; nbytes = uint_at vs 1 0 in
       rbind (c_assert (0 < nbytes) ''nbytes>0'') (\<lambda>_.
       if maxbytes < unat nbytes then Inl (Panic ''message too long'')
       else rbind (lex_getn L (unat nbytes) s) (\<lambda>(m, s1).
         Inr ((chan, m), e\<lparr>esp_l := s1\<rparr>)))))"

definition esp_send :: "('l, 'c) lex_ops \<Rightarrow> u32 \<Rightarrow> bytes \<Rightarrow> 'l esp_t \<Rightarrow> (u32 \<times> 'l esp_t) result" where
  "esp_send L chan data e =
     (let n = of_nat (length data) in
      rbind (c_assert (0 < n) ''n>0'') (\<lambda>_.
      rbind (at_cmdv L (bstr ''AT+CIPSEND='' @ show_mval (MUint chan) @ bstr '','' @ show_mval (MUint n)) e) (\<lambda>(_, e1).
      rbind (match_tok L (bstr ''>'') (esp_l e1)) (\<lambda>(ok, s).
      if \<not> ok then cmd_reject_line L s
      else rbind (cmd_responsef L False False (bstr ''Recv %u bytes'') 1
          (fst s, esp_write_exact (snd s) data)) (\<lambda>((_, vs), s1).
      if n \<noteq> uint_at vs 0 0 then Inl (Panic ''wrong number of bytes sent'')
      else rbind (cmd_response L (bstr ''SEND OK'') False False s1) (\<lambda>(_, s2).
        Inr (n, e1\<lparr>esp_l := s2\<rparr>)))))))"

section \<open>A command, its echo and its answer\<close>

text \<open>A text that is its own format: no conversions, ends of line or tabs, and no blank in front.\<close>

definition plain :: "bytes \<Rightarrow> bool" where
  "plain lit \<longleftrightarrow> lit \<noteq> [] \<and> hd lit \<noteq> 32 \<and> (\<forall>c \<in> set lit. \<not> is_eol_ch c \<and> c \<noteq> 9 \<and> c \<noteq> 37)"

lemma plain_render: "\<forall>c \<in> set lit. \<not> is_eol_ch c \<and> c \<noteq> 9 \<and> c \<noteq> 37 \<Longrightarrow> fmt_ok lit [] g \<and> render lit [] = lit"
  by (induction lit) auto

lemma plain_hd: "plain lit \<Longrightarrow> \<exists>c cs. lit = c # cs \<and> \<not> ws_ch c \<and> c \<noteq> 37 \<and> c \<noteq> 32"
  by (cases lit) (auto simp: plain_def ws_ch_def is_space_ch_def)

lemma takeWhile_eol_plain:
  assumes "plain lit"
  shows "length (takeWhile is_eol_ch (u @ lit @ g)) \<le> length u"
proof -
  obtain c cs where "lit = c # cs" "\<not> is_eol_ch c" using plain_hd [OF assms] by (auto simp: ws_ch_def)
  then show ?thesis using takeWhile_before [of is_eol_ch c u "cs @ g"] by simp
qed

lemma drop_eols_plain:
  assumes "plain lit" "u @ lit @ g = es @ r'" "\<forall>x \<in> set es. is_eol_ch x"
  shows "\<exists>u'. u = es @ u' \<and> r' = u' @ lit @ g"
proof -
  obtain c cs where c: "lit = c # cs" "\<not> is_eol_ch c" using plain_hd [OF assms(1)] by (auto simp: ws_ch_def)
  then show ?thesis using prefix_before [of u c "cs @ g" es r' is_eol_ch] assms(2,3) by auto
qed

context lexer
begin

lemma match_text_yes:
  assumes "rep b t s p (u @ lit @ e # r)" "plain lit" "\<forall>x \<in> set u. ws_ch x" "is_eol_ch e"
    "room (length p + length u + length lit + 1 + length (takeWhile is_eol_ch r))"
  shows "\<exists>s' es r' b'. match_text L lit s = Inr (True, s') \<and> r = es @ r'
    \<and> (\<forall>x \<in> set es. is_eol_ch x) \<and> rep b' t s' [] r'"
proof -
  have pl: "lit \<noteq> []" "hd lit \<noteq> 32" "fmt_ok lit [] (e # r)" "render lit [] = lit"
    using assms(2) plain_render [of lit "e # r"] by (simp_all add: plain_def)
  obtain s' es r' b' where "match_line L lit (length ([] :: mval list)) s = Inr ((True, []), s')" "r = es @ r'"
    "\<forall>x \<in> set es. is_eol_ch x" "rep b' t s' [] r'"
    using match_line_render [OF _ pl(3,1,2) assms(3,4), of b t s p] assms(1,5) pl(4) by auto
  moreover from this have "match_text L lit s = Inr (True, s')" by (simp add: match_text_def)
  ultimately show ?thesis by blast
qed

lemma match_text_no:
  assumes "rep b t s p (u @ d # g)" "plain lit" "\<forall>x \<in> set u. ws_ch x" "\<not> ws_ch d" "hd lit \<noteq> d"
    "room (length p + length u + 1)"
  shows "\<exists>s'. match_text L lit s = Inr (False, s') \<and> rep b t s' p (u @ d # g)"
proof -
  obtain c cs where c: "lit = c # cs" "c \<noteq> 37" "c \<noteq> 32" "\<not> ws_ch c" using plain_hd [OF assms(2)] by auto
  have "scan_ws (u @ d # g) = Some (d # g)" by (rule scan_ws_skip [OF assms(3,4)])
  moreover have "fmt_scan lit True 0 scan_init (d # g) = Some (scan_init, g)"
    using c assms(4,5) by (auto simp: ws_ch_def scan_space_def)
  ultimately have "matchv_scan lit 0 (u @ d # g) = Some (scan_init, g)" by (simp add: matchv_scan_def)
  from match_line_no [OF assms(1) this] assms(6) show ?thesis
    by (auto simp: match_text_def scan_init_def)
qed

lemma cmd_puts_ok:
  assumes "rep b t s p f" "cmd \<noteq> []" "length cmd < 1022"
  shows "\<exists>s'. cmd_puts cmd s = Inr s' \<and> rep b (t @ cmd @ [13, 10]) s' p f"
  using write_ok [OF assms(1), of "cmd @ [13, 10]"] assms(2,3) by (auto simp: cmd_puts_def)

text \<open>The command goes out and its echo comes back.\<close>

lemma cmd_sent:
  assumes "rep b t (esp_l e) [] (u @ cmd @ c # f)" "plain cmd" "length cmd < 1022"
    "\<forall>x \<in> set u. ws_ch x" "is_eol_ch c" "room (length u + length cmd + 1 + length (takeWhile is_eol_ch f))"
  shows "\<exists>s s1 es f' b'. cmd_puts cmd (esp_l e) = Inr s \<and> cmd_ack L cmd (e\<lparr>esp_l := s\<rparr>) = Inr (e\<lparr>esp_l := s1\<rparr>)
    \<and> f = es @ f' \<and> (\<forall>x \<in> set es. is_eol_ch x) \<and> rep b' (t @ cmd @ [13, 10]) s1 [] f'"
proof -
  obtain s where s: "cmd_puts cmd (esp_l e) = Inr s" "rep b (t @ cmd @ [13, 10]) s [] (u @ cmd @ c # f)"
    using cmd_puts_ok [OF assms(1) _ assms(3)] assms(2) unfolding plain_def by blast
  obtain s1 es f' b' where m: "match_text L cmd s = Inr (True, s1)" "f = es @ f'"
    "\<forall>x \<in> set es. is_eol_ch x" "rep b' (t @ cmd @ [13, 10]) s1 [] f'"
    using match_text_yes [OF s(2) assms(2,4,5)] assms(6) by auto
  then show ?thesis using s(1) by (auto simp: cmd_ack_def)
qed

lemma do_at_cmd_answered:
  assumes "rep b t (esp_l e) [] (u1 @ cmd @ c1 # u2 @ resp @ c2 # r)" "plain cmd" "plain resp"
    "length cmd < 1022" "\<forall>x \<in> set u1. ws_ch x" "\<forall>x \<in> set u2. ws_ch x" "is_eol_ch c1" "is_eol_ch c2"
    "room (length u1 + length cmd + 1 + length u2)"
    "room (length u2 + length resp + 1 + length (takeWhile is_eol_ch r))"
  shows "\<exists>s' es r' b'. do_at_cmd L cmd resp x e = Inr (True, e\<lparr>esp_l := s'\<rparr>) \<and> r = es @ r'
    \<and> (\<forall>x \<in> set es. is_eol_ch x) \<and> rep b' (t @ cmd @ [13, 10]) s' [] r'"
proof -
  let ?f = "u2 @ resp @ c2 # r"
  have "room (length u1 + length cmd + 1 + length (takeWhile is_eol_ch ?f))"
    using assms(9) takeWhile_eol_plain [OF assms(3), of u2 "c2 # r"] by (elim room_mono) simp
  then obtain s s1 es f' b' where c: "cmd_puts cmd (esp_l e) = Inr s"
    "cmd_ack L cmd (e\<lparr>esp_l := s\<rparr>) = Inr (e\<lparr>esp_l := s1\<rparr>)" "?f = es @ f'" "\<forall>x \<in> set es. is_eol_ch x"
    "rep b' (t @ cmd @ [13, 10]) s1 [] f'"
    using cmd_sent [OF assms(1,2,4,5,7)] by blast
  obtain v where v: "u2 = es @ v" "f' = v @ resp @ c2 # r"
    using drop_eols_plain [OF assms(3) c(3,4)] by blast
  have "room (length [] + length v + length resp + 1 + length (takeWhile is_eol_ch r))"
    using assms(10) v(1) by (elim room_mono) simp
  then obtain s' es' r' b'' where m: "match_text L resp s1 = Inr (True, s')" "r = es' @ r'"
    "\<forall>x \<in> set es'. is_eol_ch x" "rep b'' (t @ cmd @ [13, 10]) s' [] r'"
    using match_text_yes [of b' "t @ cmd @ [13, 10]" s1 "[]" v resp c2 r] c(5) v assms(3,6,8) by auto
  then have "do_at_cmd L cmd resp x e = Inr (True, e\<lparr>esp_l := s'\<rparr>)"
    using c by (simp add: do_at_cmd_def cmd_response_def)
  then show ?thesis using m by blast
qed

lemma do_at_cmd_refused:
  assumes "rep b t (esp_l e) [] (u1 @ cmd @ c1 # u2 @ bstr ''ERROR'' @ c2 # r)" "plain cmd" "plain resp"
    "hd resp \<noteq> 69" "length cmd < 1022" "\<forall>x \<in> set u1. ws_ch x" "\<forall>x \<in> set u2. ws_ch x"
    "is_eol_ch c1" "is_eol_ch c2" "room (length u1 + length cmd + 1 + length u2)" "room (length u2 + 5)"
  shows "do_at_cmd L cmd resp x e = Inl (Panic ''fatal error: got an error'')"
proof -
  let ?err = "bstr ''ERROR''"
  let ?f = "u2 @ ?err @ c2 # r"
  have pl: "plain ?err" by (simp add: plain_def bstr_def is_eol_ch_def)
  have "room (length u1 + length cmd + 1 + length (takeWhile is_eol_ch ?f))"
    using assms(10) takeWhile_eol_plain [OF pl, of u2 "c2 # r"] by (elim room_mono) simp
  then obtain s s1 es f' b' where c: "cmd_puts cmd (esp_l e) = Inr s"
    "cmd_ack L cmd (e\<lparr>esp_l := s\<rparr>) = Inr (e\<lparr>esp_l := s1\<rparr>)" "?f = es @ f'" "\<forall>x \<in> set es. is_eol_ch x"
    "rep b' (t @ cmd @ [13, 10]) s1 [] f'"
    using cmd_sent [OF assms(1,2,5,6,8)] by blast
  obtain v where v: "u2 = es @ v" "f' = v @ ?err @ c2 # r" using drop_eols_plain [OF pl c(3,4)] by blast
  have wv: "\<forall>x \<in> set v. ws_ch x" using assms(7) v(1) by simp
  define g where "g = bstr ''RROR'' @ c2 # r"
  have f': "f' = v @ 69 # g" using v(2) by (simp add: bstr_def g_def)
  have nw: "\<not> ws_ch 69" by (simp add: ws_ch_def is_space_ch_def is_eol_ch_def)
  have "room (length [] + length v + 1)" using assms(11) v(1) by (elim room_mono) simp
  then obtain s2 where s2: "match_text L resp s1 = Inr (False, s2)" "rep b' (t @ cmd @ [13, 10]) s2 [] f'"
    using match_text_no [of b' "t @ cmd @ [13, 10]" s1 "[]" v 69 g resp] c(5) f' wv assms(3,4) nw by auto
  have na: "\<not> c_isalpha c2" using assms(9) by (auto simp: is_eol_ch_def c_isalpha_def)
  have "scan_ws f' = Some (69 # g)" unfolding f' by (rule scan_ws_skip [OF wv nw])
  then have ts: "tok_scan ?err f' = Some (True, c2 # r)"
    using na by (simp add: tok_scan_def g_def bstr_def c_isalpha_def)
  have "takeWhile ws_ch f' = v" unfolding f' using wv nw by (simp add: takeWhile_append2)
  then have "room (length [] + length (takeWhile ws_ch f') + length ?err)"
    using assms(11) v(1) by (elim room_mono) (simp add: bstr_def)
  moreover have "?err \<noteq> []" by (simp add: bstr_def)
  ultimately obtain s3 where "match_tok L ?err s2 = Inr (True, s3)"
    using match_tok_scan [OF s2(2) ts] by blast
  then show ?thesis using c s2(1) by (simp add: do_at_cmd_def cmd_response_def)
qed

lemma getn_stream:
  "rep b t s [] (q @ f) \<Longrightarrow> room 0 \<Longrightarrow> \<exists>b' s'. lex_getn L (length q) s = Inr (q, s') \<and> rep b' t s' [] f"
proof (induction q arbitrary: b s)
  case (Cons c q)
  obtain s1 where s1: "lex_getc L s = Inr (c, s1)" "rep b t s1 ([] @ [c]) (q @ f)"
    using getc_ok [of b t s "[]" c "q @ f"] Cons.prems by auto
  obtain b1 where "rep b1 t s1 [] (q @ f)" using rebase [OF s1(2)] by blast
  from Cons.IH [OF this Cons.prems(2)] show ?case using s1(1) by auto
qed auto

lemma esp_is_recv_ok:
  assumes "rep b t (esp_l e) [] (u @ render (bstr ''+IPD,%u,%u:'') [MUint chan, MUint n] @ data @ r)"
    "\<forall>x \<in> set u. ws_ch x" "length data = unat n" "0 < n" "unat n \<le> maxbytes"
    "room (length u + length (render (bstr ''+IPD,%u,%u:'') [MUint chan, MUint n]))"
  shows "\<exists>s' b'. esp_is_recv L maxbytes e = Inr ((chan, data), e\<lparr>esp_l := s'\<rparr>) \<and> rep b' t s' [] r"
proof -
  let ?fmt = "bstr ''+IPD,%u,%u:''" and ?vs = "[MUint chan, MUint n]"
  have ok: "fmt_ok ?fmt ?vs (data @ r)" by (simp add: bstr_def is_eol_ch_def c_isdigit_def)
  have h: "?fmt \<noteq> []" "hd ?fmt \<noteq> 32" "last ?fmt \<noteq> 32" by (simp_all add: bstr_def)
  obtain a where a: "matchv_scan ?fmt (length ?vs) (u @ render ?fmt ?vs @ data @ r) = Some (a, data @ r)"
    "matched a" "stored a = ?vs"
    using matchv_scan_render [OF ok h(1,2) assms(2)] h(3) by auto
  have "room (length [] + (length (u @ render ?fmt ?vs @ data @ r) - length (data @ r)))"
    using assms(6) by (elim room_mono) simp
  from matchv_ok [OF assms(1) a(1) this] a(2,3) obtain q s1 where
    m: "match_partial L ?fmt 2 (esp_l e) = Inr ((True, ?vs), s1)" "rep b t s1 ([] @ q) (data @ r)"
    by (auto simp: match_partial_def numeral_2_eq_2)
  obtain b1 where b1: "rep b1 t s1 [] (data @ r)" using rebase [OF m(2)] by blast
  have "room 0" using assms(6) by (rule room_mono) simp
  then obtain b' s' where "lex_getn L (unat n) s1 = Inr (data, s')" "rep b' t s' [] r"
    using getn_stream [OF b1] assms(3) by auto
  then show ?thesis using m(1) assms(4,5) by (auto simp: esp_is_recv_def uint_at_def)
qed

end

text \<open>
  One packet goes out: the command with its echo and \<open>OK\<close>, the prompt, the data, the count and
  \<open>SEND OK\<close>. \<open>send_cmd\<close> is the text of the command, \<open>send_answer\<close> what the esp prints, with blanks
  and ends of line \<open>us\<close> between the parts.
\<close>

definition send_cmd :: "u32 \<Rightarrow> u32 \<Rightarrow> bytes" where
  "send_cmd chan n = bstr ''AT+CIPSEND='' @ show_mval (MUint chan) @ bstr '','' @ show_mval (MUint n)"

fun send_answer :: "u32 \<Rightarrow> u32 \<Rightarrow> bytes list \<Rightarrow> bytes \<Rightarrow> bytes" where
  "send_answer chan n [u1, u2, u3, u4, u5] r =
     u1 @ send_cmd chan n @ 13 # u2 @ bstr ''OK'' @ 13 # u3 @ 62 # u4
     @ render (bstr ''Recv %u bytes'') [MUint n] @ 13 # u5 @ bstr ''SEND OK'' @ 13 # r"
| "send_answer chan n us r = []"

lemma digits_plain: "x \<in> set (show_mval (MUint n)) \<Longrightarrow> \<not> is_eol_ch x \<and> x \<noteq> 9 \<and> x \<noteq> 37"
  using dec_emit [of n] by (auto simp: c_isdigit_def is_eol_ch_def)

lemma length_show_uint: "length (show_mval (MUint n)) \<le> 32"
  using emit_digits_length_32 [of 10 n] by simp

lemma send_cmd_plain: "plain (send_cmd chan n)" "length (send_cmd chan n) \<le> 76"
proof -
  have "\<forall>x \<in> set (bstr ''AT+CIPSEND='') \<union> set (bstr '',''). \<not> is_eol_ch x \<and> x \<noteq> 9 \<and> x \<noteq> 37"
    by (simp add: bstr_def is_eol_ch_def)
  then show "plain (send_cmd chan n)"
    using digits_plain unfolding plain_def send_cmd_def by (auto simp: bstr_def simp del: show_mval.simps)
  show "length (send_cmd chan n) \<le> 76"
    using length_show_uint [of chan] length_show_uint [of n]
    by (simp add: send_cmd_def bstr_def del: show_mval.simps)
qed

lemma length_recv_line: "length (render (bstr ''Recv %u bytes'') [MUint n]) \<le> 43"
  using length_show_uint [of n] by (simp add: bstr_def)

lemma takeWhile_eol_before: "\<not> is_eol_ch c \<Longrightarrow> length (takeWhile is_eol_ch (u @ c # g)) \<le> length u"
  by (rule takeWhile_before)

context lexer
begin

lemma match_prompt:
  assumes "rep b t s [] (v @ 62 # g)" "\<forall>x \<in> set v. ws_ch x" "room (length v + 1)"
  shows "\<exists>b' s'. match_tok L (bstr ''>'') s = Inr (True, s') \<and> rep b' t s' [] g"
proof -
  have nw: "\<not> ws_ch 62" by (simp add: ws_ch_def is_space_ch_def is_eol_ch_def)
  have "tok_scan (bstr ''>'') (v @ 62 # g) = Some (True, g)"
    using scan_ws_skip [OF assms(2) nw, of g] by (simp add: tok_scan_def bstr_def c_isalpha_def)
  moreover have "takeWhile ws_ch (v @ 62 # g) = v" using assms(2) nw by (simp add: takeWhile_append2)
  ultimately show ?thesis
    using match_tok_scan [OF assms(1), of "bstr ''>''" True g] assms(3) rebase by (fastforce simp: bstr_def)
qed

lemma count_line:
  assumes "rep b t s [] (u @ render (bstr ''Recv %u bytes'') [MUint n] @ 13 # r)" "\<forall>x \<in> set u. ws_ch x"
    "room (length u + 44 + length (takeWhile is_eol_ch r))"
  shows "\<exists>s' es r' b'. cmd_responsef L cf ex (bstr ''Recv %u bytes'') 1 s = Inr ((True, [MUint n]), s')
    \<and> r = es @ r' \<and> (\<forall>x \<in> set es. is_eol_ch x) \<and> rep b' t s' [] r'"
proof -
  let ?fmt = "bstr ''Recv %u bytes''"
  have f: "fmt_ok ?fmt [MUint n] (13 # r)" "?fmt \<noteq> []" "hd ?fmt \<noteq> 32" "is_eol_ch 13"
    by (simp_all add: bstr_def is_eol_ch_def c_isdigit_def)
  have "room (length [] + length u + length (render ?fmt [MUint n]) + 1 + length (takeWhile is_eol_ch r))"
    using assms(3) length_recv_line [of n] by (elim room_mono) simp
  from match_line_render [OF assms(1) f(1-3) assms(2) f(4) this] obtain s' es r' b' where
    m: "match_line L ?fmt (length [MUint n]) s = Inr ((True, [MUint n]), s')" "r = es @ r'"
      "\<forall>x \<in> set es. is_eol_ch x" "rep b' t s' [] r'" by blast
  from m(1) have "cmd_responsef L cf ex ?fmt 1 s = Inr ((True, [MUint n]), s')"
    by (simp add: cmd_responsef_def cmd_responsev_def match_line_def)
  then show ?thesis using m by blast
qed

lemma esp_send_ok:
  assumes rep: "rep b t (esp_l e) [] (send_answer chan n [u1, u2, u3, u4, u5] r)"
    and data: "n = of_nat (length data)" "n \<noteq> 0"
    and ws: "\<forall>x \<in> set u1 \<union> set u2 \<union> set u3 \<union> set u4 \<union> set u5. ws_ch x"
    and room: "room (length u1 + length u2 + length u3 + length u4 + length u5 + 80 + length (takeWhile is_eol_ch r))"
  shows "\<exists>s' es r' b'. esp_send L chan data e = Inr (n, e\<lparr>esp_l := s'\<rparr>) \<and> r = es @ r'
    \<and> (\<forall>x \<in> set es. is_eol_ch x) \<and> rep b' (t @ send_cmd chan n @ [13, 10] @ data) s' [] r'"
proof -
  let ?cmd = "send_cmd chan n" and ?ok = "bstr ''OK''" and ?so = "bstr ''SEND OK''"
  let ?g = "u4 @ render (bstr ''Recv %u bytes'') [MUint n] @ 13 # u5 @ ?so @ 13 # r"
  have p: "plain ?ok" "plain ?so" "is_eol_ch 13" "\<not> is_eol_ch 62" by (simp_all add: plain_def bstr_def is_eol_ch_def)
  have "room (length u1 + length ?cmd + 1 + length u2)" using room send_cmd_plain(2) [of chan n] by (elim room_mono) simp
  moreover have "room (length u2 + length ?ok + 1 + length (takeWhile is_eol_ch (u3 @ 62 # ?g)))"
    using room takeWhile_eol_before [OF p(4), of u3 ?g] by (elim room_mono) (simp add: bstr_def)
  moreover have "length ?cmd < 1022" using send_cmd_plain(2) [of chan n] by simp
  ultimately obtain s1 es1 f1 b1 where c1: "do_at_cmd L ?cmd ?ok False e = Inr (True, e\<lparr>esp_l := s1\<rparr>)"
    "u3 @ 62 # ?g = es1 @ f1" "\<forall>x \<in> set es1. is_eol_ch x" "rep b1 (t @ ?cmd @ [13, 10]) s1 [] f1"
    using do_at_cmd_answered [of b t e u1 ?cmd 13 u2 ?ok 13 "u3 @ 62 # ?g" False] rep ws p send_cmd_plain(1) by auto
  obtain v where v: "u3 = es1 @ v" "f1 = v @ 62 # ?g" using prefix_before [OF c1(2,3) p(4)] by blast
  have "room (length v + 1)" using room v(1) by (elim room_mono) simp
  then obtain b2 s2 where c2: "match_tok L (bstr ''>'') s1 = Inr (True, s2)" "rep b2 (t @ ?cmd @ [13, 10]) s2 [] ?g"
    using match_prompt [of b1 "t @ ?cmd @ [13, 10]" s1 v ?g] c1(4) v ws by auto
  let ?s3 = "(fst s2, esp_write_exact (snd s2) data)" and ?t = "t @ ?cmd @ [13, 10] @ data"
  have r3: "rep b2 ?t ?s3 [] ?g" using write_ok [OF c2(2), of data] by simp
  have "room (length u4 + 44 + length (takeWhile is_eol_ch (u5 @ ?so @ 13 # r)))"
    using room takeWhile_eol_plain [OF p(2), of u5 "13 # r"] by (elim room_mono) simp
  then obtain s4 es4 f4 b4 where c4: "cmd_responsef L False False (bstr ''Recv %u bytes'') 1 ?s3 = Inr ((True, [MUint n]), s4)"
    "u5 @ ?so @ 13 # r = es4 @ f4" "\<forall>x \<in> set es4. is_eol_ch x" "rep b4 ?t s4 [] f4"
    using count_line [OF r3] ws by blast
  obtain w where w: "u5 = es4 @ w" "f4 = w @ ?so @ 13 # r" using drop_eols_plain [OF p(2) c4(2,3)] by blast
  have "room (length [] + length w + length ?so + 1 + length (takeWhile is_eol_ch r))"
    using room w(1) by (elim room_mono) (simp add: bstr_def)
  then obtain s5 es5 r5 b5 where c5: "match_text L ?so s4 = Inr (True, s5)" "r = es5 @ r5"
    "\<forall>x \<in> set es5. is_eol_ch x" "rep b5 ?t s5 [] r5"
    using match_text_yes [of b4 ?t s4 "[]" w ?so 13 r] c4(4) w p ws by auto
  have "at_cmdv L ?cmd e = Inr (True, e\<lparr>esp_l := s1\<rparr>)"
    using c1(1) send_cmd_plain(2) [of chan n] by (simp add: at_cmdv_def at_cmd_ok_def at_cmd_def)
  moreover have "cmd_response L ?so False False s4 = Inr (True, s5)" using c5(1) by (simp add: cmd_response_def)
  moreover have "0 < n" using data(2) by (simp add: word_gt_0)
  ultimately have "esp_send L chan data e = Inr (n, e\<lparr>esp_l := s5\<rparr>)"
    unfolding esp_send_def using data(1) c2(1) c4(1)
    by (simp add: send_cmd_def [symmetric] uint_at_def del: show_mval.simps)
  then show ?thesis using c5 by blast
qed

end

section \<open>Properties\<close>

text \<open>
  (C14) \<open>at_cmd\<close> over the circular lexer: when the esp echoes the command and answers with the
  expected line, with any blank lines in between and any split into reads, the routine returns
  1, has sent exactly the command and \<open>\r\n\<close>, leaves the rest of the descriptor alone, and has
  consumed nothing after the answer but ends of line.
\<close>

theorem at_cmd_answered:
  assumes "circ_rep M b t (esp_l e) [] (u1 @ cmd @ c1 # u2 @ resp @ c2 # r)" "plain cmd" "plain resp"
    "length cmd < 1022" "\<forall>x \<in> set u1. ws_ch x" "\<forall>x \<in> set u2. ws_ch x" "is_eol_ch c1" "is_eol_ch c2"
    "length u1 + length cmd + 1 + length u2 + M < 1024"
    "length u2 + length resp + 1 + length (takeWhile is_eol_ch r) + M < 1024"
  shows "\<exists>s' es r' b'. at_cmd lex_circ cmd resp e = Inr (True, e\<lparr>esp_l := s'\<rparr>) \<and> r = es @ r'
    \<and> (\<forall>x \<in> set es. is_eol_ch x) \<and> circ_rep M b' (t @ cmd @ [13, 10]) s' [] r'"
  using circ.do_at_cmd_answered [OF assms(1-8), of False] assms(9,10)
  by (simp add: at_cmd_def circ_room_def)

definition demo_esp :: "lex_circ_t \<Rightarrow> ev list \<Rightarrow> lex_circ_t esp_t" where
  "demo_esp l evs = esp_mk (l, \<lparr>rx = evs, tx = []\<rparr>) None None"

lemma demo_esp_rep:
  assumes "bursts_ok M evs" "ev_bytes evs = f"
  shows "\<exists>l. lex_init_circ = Inr l \<and> circ_rep M 0 [] (esp_l (demo_esp l evs)) [] f"
  using lex_init_circ_rep [OF assms(1), of "[]"] assms(2) by (simp add: demo_esp_def esp_mk_def)

definition demo_ok :: "ev list" where
  "demo_ok = [Bytes (bstr ''A''), Quiet, Bytes (bstr ''T'' @ [13, 13, 10]), Bytes ([13, 10] @ bstr ''OK'' @ [13])]"

theorem at_cmd_answered_witness:
  "\<exists>l s' b'. lex_init_circ = Inr l
    \<and> at_cmd lex_circ (bstr ''AT'') (bstr ''OK'') (demo_esp l demo_ok) = Inr (True, (demo_esp l demo_ok)\<lparr>esp_l := s'\<rparr>)
    \<and> circ_rep 9 b' (bstr ''AT'' @ [13, 10]) s' [] []"
proof -
  have "bursts_ok 9 demo_ok" by (simp add: demo_ok_def bstr_def)
  moreover have "ev_bytes demo_ok = [] @ bstr ''AT'' @ 13 # [13, 10, 13, 10] @ bstr ''OK'' @ 13 # []"
    by (simp add: demo_ok_def bstr_def)
  ultimately obtain l where l: "lex_init_circ = Inr l" "circ_rep 9 0 [] (esp_l (demo_esp l demo_ok)) []
      ([] @ bstr ''AT'' @ 13 # [13, 10, 13, 10] @ bstr ''OK'' @ 13 # [])"
    using demo_esp_rep by metis
  have p: "plain (bstr ''AT'')" "plain (bstr ''OK'')" by (simp_all add: plain_def bstr_def is_eol_ch_def)
  have "\<exists>s' es r' b'. at_cmd lex_circ (bstr ''AT'') (bstr ''OK'') (demo_esp l demo_ok)
      = Inr (True, (demo_esp l demo_ok)\<lparr>esp_l := s'\<rparr>) \<and> [] = es @ r'
    \<and> (\<forall>x \<in> set es. is_eol_ch x) \<and> circ_rep 9 b' ([] @ bstr ''AT'' @ [13, 10]) s' [] r'"
    by (rule at_cmd_answered [OF l(2) p]) (simp_all add: bstr_def ws_ch_def is_eol_ch_def)
  then show ?thesis using l(1) by auto
qed

text \<open>
  When the esp echoes the command and answers \<open>ERROR\<close>, \<open>at_cmd\<close> panics: it never takes the
  error for an answer that starts with another letter.
\<close>

theorem at_cmd_refused:
  assumes "circ_rep M b t (esp_l e) [] (u1 @ cmd @ c1 # u2 @ bstr ''ERROR'' @ c2 # r)" "plain cmd" "plain resp"
    "hd resp \<noteq> 69" "length cmd < 1022" "\<forall>x \<in> set u1. ws_ch x" "\<forall>x \<in> set u2. ws_ch x"
    "is_eol_ch c1" "is_eol_ch c2" "length u1 + length cmd + 1 + length u2 + M < 1024" "length u2 + 5 + M < 1024"
  shows "at_cmd lex_circ cmd resp e = Inl (Panic ''fatal error: got an error'')"
  using circ.do_at_cmd_refused [OF assms(1-9), of False] assms(10,11)
  by (simp add: at_cmd_def circ_room_def)

definition demo_error :: "ev list" where
  "demo_error = [Bytes (bstr ''AT'' @ [13, 10]), Bytes (bstr ''ERROR'' @ [13, 10])]"

theorem at_cmd_refused_witness:
  "\<exists>l. lex_init_circ = Inr l \<and> at_cmd lex_circ (bstr ''AT'') (bstr ''OK'') (demo_esp l demo_error)
     = Inl (Panic ''fatal error: got an error'')"
proof -
  have "bursts_ok 11 demo_error" by (simp add: demo_error_def bstr_def)
  moreover have "ev_bytes demo_error = [] @ bstr ''AT'' @ 13 # [10] @ bstr ''ERROR'' @ 13 # [10]"
    by (simp add: demo_error_def bstr_def)
  ultimately obtain l where l: "lex_init_circ = Inr l" "circ_rep 11 0 [] (esp_l (demo_esp l demo_error)) []
      ([] @ bstr ''AT'' @ 13 # [10] @ bstr ''ERROR'' @ 13 # [10])"
    using demo_esp_rep by metis
  have p: "plain (bstr ''AT'')" "plain (bstr ''OK'')" by (simp_all add: plain_def bstr_def is_eol_ch_def)
  have "at_cmd lex_circ (bstr ''AT'') (bstr ''OK'') (demo_esp l demo_error)
     = Inl (Panic ''fatal error: got an error'')"
    by (rule at_cmd_refused [OF l(2) p]) (simp_all add: bstr_def ws_ch_def is_eol_ch_def)
  then show ?thesis using l(1) by blast
qed

text \<open>
  (C15) A packet of any bytes and any length up to the caller's buffer is delivered as sent: the
  channel and length of its \<open>+IPD\<close> header are parsed and exactly that many bytes follow, under
  any split into reads.
\<close>

theorem esp_is_recv_delivers:
  assumes "circ_rep M b t (esp_l e) [] (u @ render (bstr ''+IPD,%u,%u:'') [MUint chan, MUint n] @ data @ r)"
    "\<forall>x \<in> set u. ws_ch x" "length data = unat n" "0 < n" "unat n \<le> maxbytes"
    "length u + length (render (bstr ''+IPD,%u,%u:'') [MUint chan, MUint n]) + M < 1024"
  shows "\<exists>s' b'. esp_is_recv lex_circ maxbytes e = Inr ((chan, data), e\<lparr>esp_l := s'\<rparr>) \<and> circ_rep M b' t s' [] r"
  using circ.esp_is_recv_ok [OF assms(1-5)] assms(6) by (simp add: circ_room_def)

definition demo_pkt :: "ev list" where
  "demo_pkt = [Bytes (bstr ''+IPD,1''), Quiet, Bytes (bstr '',3:'' @ [0, 13, 255, 10])]"

theorem esp_is_recv_delivers_witness:
  "\<exists>l s' b'. lex_init_circ = Inr l
    \<and> esp_is_recv lex_circ 3 (demo_esp l demo_pkt) = Inr ((1, [0, 13, 255]), (demo_esp l demo_pkt)\<lparr>esp_l := s'\<rparr>)
    \<and> circ_rep 7 b' [] s' [] [10]"
proof -
  have r: "render (bstr ''+IPD,%u,%u:'') [MUint 1, MUint 3] = bstr ''+IPD,1,3:''"
    by (simp add: bstr_def emit_digits.simps [of 10 1] emit_digits.simps [of 10 3] digit_chars_def)
  have "bursts_ok 7 demo_pkt" by (simp add: demo_pkt_def bstr_def)
  moreover have "ev_bytes demo_pkt = [] @ render (bstr ''+IPD,%u,%u:'') [MUint 1, MUint 3] @ [0, 13, 255] @ [10]"
    unfolding r by (simp add: demo_pkt_def bstr_def)
  ultimately obtain l where l: "lex_init_circ = Inr l" "circ_rep 7 0 [] (esp_l (demo_esp l demo_pkt)) []
      ([] @ render (bstr ''+IPD,%u,%u:'') [MUint 1, MUint 3] @ [0, 13, 255] @ [10])"
    using demo_esp_rep by metis
  have "\<exists>s' b'. esp_is_recv lex_circ 3 (demo_esp l demo_pkt) = Inr ((1, [0, 13, 255]), (demo_esp l demo_pkt)\<lparr>esp_l := s'\<rparr>)
      \<and> circ_rep 7 b' [] s' [] [10]"
  proof (rule esp_is_recv_delivers [OF l(2)])
    show "length [] + length (render (bstr ''+IPD,%u,%u:'') [MUint 1, MUint 3]) + 7 < 1024"
      unfolding r by (simp add: bstr_def)
  qed simp_all
  then show ?thesis using l(1) by blast
qed

end
