(* ===== verification/Mmu.thy ===== *)
theory Mmu
  imports Libc
begin

text \<open>
  The armv6 memory-management interface of \<^verbatim>\<open>labs/15-vm-ops/code\<close> (\<^verbatim>\<open>mmu.[ch]\<close>, \<^verbatim>\<open>mmu-helpers.c\<close>,
  \<^verbatim>\<open>armv6-vm.h\<close>, \<^verbatim>\<open>armv6-cp15.h\<close>) and the bit-field macros of \<^verbatim>\<open>libpi/libc/helper-macros.h\<close>. A
  struct of bit-fields is a layout, its fields with their widths from bit 0 up, and its value a
  32-bit word. The coprocessor routines are assembly and object files: they are parameters.
\<close>

section \<open>Bit-fields\<close>

type_synonym bf_layout = "(string \<times> nat) list"

fun field_pos :: "bf_layout \<Rightarrow> nat \<Rightarrow> string \<Rightarrow> nat \<times> nat" where
  "field_pos [] off f = (off, 0)"
| "field_pos ((g, n) # fs) off f = (if f = g then (off, n) else field_pos fs (off + n) f)"

definition field_mask :: "bf_layout \<Rightarrow> string \<Rightarrow> u32" where
  "field_mask T f = (case field_pos T 0 f of (off, n) \<Rightarrow> push_bit off (mask n))"

definition get_field :: "bf_layout \<Rightarrow> string \<Rightarrow> u32 \<Rightarrow> u32" where
  "get_field T f u = (case field_pos T 0 f of (off, n) \<Rightarrow> take_bit n (drop_bit off u))"

text \<open>Assigning to a field keeps the low bits of the value that fit.\<close>

definition set_field :: "bf_layout \<Rightarrow> string \<Rightarrow> u32 \<Rightarrow> u32 \<Rightarrow> u32" where
  "set_field T f v u =
     (case field_pos T 0 f of (off, n) \<Rightarrow>
        (u AND NOT (field_mask T f)) OR push_bit off (take_bit n v))"

definition sizeof_layout :: "bf_layout \<Rightarrow> nat" where
  "sizeof_layout T = 4 * ((sum_list (map snd T) + 31) div 32)"

definition check_bitfield :: "bf_layout \<Rightarrow> string \<Rightarrow> nat \<Rightarrow> nat \<Rightarrow> unit result" where
  "check_bitfield T field off nbits =
     (let u = set_field T field 1 0; exp = push_bit off 1 in
      if u \<noteq> exp then Inl (Panic ''offset wrong'')
      else rbind (c_assert (u = exp) ''x.u == exp'') (\<lambda>_.
        let shift = 32 - nbits;
            set_all = drop_bit shift (push_bit shift (- 1 :: u32));
            exp = push_bit off set_all;
            u = set_field T field (- 1) u in
        if u \<noteq> exp then Inl (Panic ''width wrong'')
        else c_assert (u = exp) ''x.u == exp''))"

text \<open>A sequence of checks, stopping at the first failure.\<close>

fun check_fields :: "bf_layout \<Rightarrow> (string \<times> nat \<times> nat) list \<Rightarrow> unit result" where
  "check_fields T [] = Inr ()"
| "check_fields T ((f, off, n) # cs) = rbind (check_bitfield T f off n) (\<lambda>_. check_fields T cs)"

definition is_aligned :: "u32 \<Rightarrow> u32 \<Rightarrow> bool" where
  "is_aligned x a \<longleftrightarrow> x AND (a - 1) = 0"

definition pi_roundup :: "u32 \<Rightarrow> u32 \<Rightarrow> u32" where
  "pi_roundup x n = (x + (n - 1)) AND NOT (n - 1)"

section \<open>The structs\<close>

definition fld_t :: bf_layout where
  "fld_t =
     [(''tag'', 2), (''B'', 1), (''C'', 1), (''XN'', 1), (''domain'', 4), (''IMP'', 1), (''AP'', 2),
      (''TEX'', 3), (''APX'', 1), (''S'', 1), (''nG'', 1), (''super'', 1), (''_sbz1'', 1),
      (''sec_base_addr'', 12)]"

definition tlb_config :: bf_layout where
  "tlb_config = [(''unified_p'', 1), (''_sbz0'', 7), (''n_d_lock'', 8), (''n_i_lock'', 8), (''_sbz1'', 8)]"

definition control_reg1 :: bf_layout where
  "control_reg1 =
     [(''MMU_enabled'', 1), (''A_alignment'', 1), (''C_unified_enable'', 1), (''W_write_buf'', 1),
      (''_unused1'', 3), (''B_endian'', 1), (''S_prot'', 1), (''R_rom_prot'', 1), (''F'', 1),
      (''Z_branch_pred'', 1), (''I_icache_enable'', 1), (''V_high_except_v'', 1), (''RR_cache_rep'', 1),
      (''L4'', 1), (''_dt'', 1), (''_sbz0'', 1), (''_it'', 1), (''_sbz1'', 1), (''_st'', 1), (''F1'', 1),
      (''U_unaligned'', 1), (''XP_pt'', 1), (''VE_vect_int'', 1), (''EE'', 1), (''L2_enabled'', 1),
      (''_reserved0'', 1), (''TR_tex_remap'', 1), (''FA_force_ap'', 1), (''_reserved1'', 2)]"

text \<open>Access permissions of a section, and the two fault codes.\<close>

definition AP_rw :: u32 where "AP_rw = 3"
definition AP_no_access :: u32 where "AP_no_access = 0"
definition AP_rd_only :: u32 where "AP_rd_only = 2"
definition SECTION_XLATE_FAULT :: u32 where "SECTION_XLATE_FAULT = 5"
definition SECTION_PERM_FAULT :: u32 where "SECTION_PERM_FAULT = 13"

definition mmu_sec_bits_only :: "u32 \<Rightarrow> u32" where
  "mmu_sec_bits_only u = u AND NOT (push_bit 21 1 - 1)"

definition mmu_sec_num :: "u32 \<Rightarrow> u32" where
  "mmu_sec_num u = drop_bit 20 u"

section \<open>The checks of \<open>mmu-helpers.c\<close>\<close>

definition control_reg1_check_offsets :: "unit result" where
  "control_reg1_check_offsets =
     rbind (c_assert (sizeof_layout control_reg1 = 4) ''sizeof(struct control_reg1) == 4'') (\<lambda>_.
     check_fields control_reg1
       [(''MMU_enabled'', 0, 1), (''A_alignment'', 1, 1), (''C_unified_enable'', 2, 1),
        (''W_write_buf'', 3, 1), (''B_endian'', 7, 1), (''S_prot'', 8, 1), (''R_rom_prot'', 9, 1),
        (''F'', 10, 1), (''Z_branch_pred'', 11, 1), (''I_icache_enable'', 12, 1),
        (''V_high_except_v'', 13, 1), (''RR_cache_rep'', 14, 1), (''L4'', 15, 1), (''F1'', 21, 1),
        (''U_unaligned'', 22, 1), (''XP_pt'', 23, 1), (''VE_vect_int'', 24, 1), (''EE'', 25, 1),
        (''L2_enabled'', 26, 1), (''TR_tex_remap'', 28, 1), (''FA_force_ap'', 29, 1)])"

definition control_reg1_sanity_check :: "u32 \<Rightarrow> unit result" where
  "control_reg1_sanity_check r =
     (let g = \<lambda>f. get_field control_reg1 f r in
      rbind (c_assert (g ''_unused1'' = 7) ''r->_unused1 == 0b111'') (\<lambda>_.
      rbind (c_assert (g ''_dt'' = 1) ''r->_dt == 1'') (\<lambda>_.
      rbind (c_assert (g ''_it'' = 1) ''r->_it == 1'') (\<lambda>_.
      rbind (c_assert (g ''_sbz0'' = 0) ''r->_sbz0 == 0'') (\<lambda>_.
      rbind (c_assert (g ''_sbz1'' = 0) ''r->_sbz1 == 0'') (\<lambda>_.
      rbind (c_assert (g ''_st'' = 0) ''r->_st == 0'') (\<lambda>_.
      rbind (c_assert (g ''L2_enabled'' = 0) ''!r->L2_enabled'') (\<lambda>_.
      rbind (c_assert (g ''I_icache_enable'' = 0) ''!r->I_icache_enable'') (\<lambda>_.
        c_assert (g ''C_unified_enable'' = 0) ''!r->C_unified_enable'')))))))))"

definition tlb_config_check_offsets :: "unit result" where
  "tlb_config_check_offsets =
     rbind (c_assert (sizeof_layout tlb_config = 4) ''sizeof(struct tlb_config) == 4'') (\<lambda>_.
     check_fields tlb_config [(''unified_p'', 0, 1), (''n_d_lock'', 8, 8), (''n_i_lock'', 16, 8)])"

definition fld_check_valid :: "u32 \<Rightarrow> unit result" where
  "fld_check_valid f =
     (let g = \<lambda>k. get_field fld_t k f in
      rbind (c_assert (g ''_sbz1'' = 0) ''f->_sbz1 == 0'') (\<lambda>_.
      rbind (c_assert (g ''tag'' = 2) ''f->tag == 0b10'') (\<lambda>_.
      rbind (c_assert (g ''S'' = 0) ''f->S == 0'') (\<lambda>_.
      rbind (c_assert (g ''IMP'' = 0) ''f->IMP == 0'') (\<lambda>_.
      rbind (c_assert (g ''TEX'' = 0) ''f->TEX == 0'') (\<lambda>_.
      rbind (c_assert (g ''C'' = 0) ''f->C == 0'') (\<lambda>_.
      rbind (c_assert (g ''B'' = 0) ''f->B == 0'') (\<lambda>_.
        c_assert (g ''super'' = 0) ''f->super == 0''))))))))"

definition fld_mk :: u32 where
  "fld_mk = set_field fld_t ''tag'' 2 0"

definition fld_check_offsets :: "unit result" where
  "fld_check_offsets =
     rbind (fld_check_valid fld_mk) (\<lambda>_.
     rbind (c_assert (sizeof_layout fld_t = 4) ''sizeof f == 4'') (\<lambda>_.
     check_fields fld_t
       [(''tag'', 0, 2), (''B'', 2, 1), (''C'', 3, 1), (''XN'', 4, 1), (''domain'', 5, 4),
        (''IMP'', 9, 1), (''AP'', 10, 2), (''TEX'', 12, 3), (''APX'', 15, 1), (''S'', 16, 1),
        (''nG'', 17, 1), (''super'', 18, 1), (''sec_base_addr'', 20, 12)]))"

definition check_vm_structs :: "unit result" where
  "check_vm_structs =
     rbind control_reg1_check_offsets (\<lambda>_. rbind tlb_config_check_offsets (\<lambda>_. fld_check_offsets))"

section \<open>Turning the MMU on and off\<close>

text \<open>
  The coprocessor registers the routines read and write, and the assembly they call. The
  headers document that a routine sets its register to the given value and does the coherence
  operations, whose effect is on caches and not on these registers.
\<close>

record cp15_t =
  ctrl :: u32
  dacr :: u32
  procid :: u32
  ttbr0 :: u32

record mmu_asm =
  our_mmu_reset :: "cp15_t \<Rightarrow> cp15_t"
  cp15_ctrl_reg1_wr :: "u32 \<Rightarrow> cp15_t \<Rightarrow> cp15_t"
  our_mmu_enable_set_asm :: "u32 \<Rightarrow> cp15_t \<Rightarrow> cp15_t"
  our_mmu_disable_set_asm :: "u32 \<Rightarrow> cp15_t \<Rightarrow> cp15_t"
  our_cp15_domain_ctrl_wr :: "u32 \<Rightarrow> cp15_t \<Rightarrow> cp15_t"
  our_cp15_set_procid_ttbr0 :: "u32 \<Rightarrow> u32 \<Rightarrow> cp15_t \<Rightarrow> cp15_t"

definition mmu_is_enabled :: "cp15_t \<Rightarrow> bool" where
  "mmu_is_enabled s \<longleftrightarrow> get_field control_reg1 ''MMU_enabled'' (ctrl s) \<noteq> 0"

definition mmu_init :: "mmu_asm \<Rightarrow> cp15_t \<Rightarrow> cp15_t result" where
  "mmu_init A s =
     (let s1 = our_mmu_reset A s;
          s2 = cp15_ctrl_reg1_wr A (set_field control_reg1 ''XP_pt'' 1 (ctrl s1)) s1 in
      rbind (c_assert (get_field control_reg1 ''XP_pt'' (ctrl s2) \<noteq> 0) ''c1.XP_pt'') (\<lambda>_.
      rbind (c_assert (get_field control_reg1 ''MMU_enabled'' (ctrl s2) = 0) ''!c1.MMU_enabled'') (\<lambda>_.
        Inr s2)))"

definition mmu_disable_set :: "mmu_asm \<Rightarrow> u32 \<Rightarrow> cp15_t \<Rightarrow> cp15_t result" where
  "mmu_disable_set A c s =
     rbind (c_assert (get_field control_reg1 ''MMU_enabled'' c = 0) ''!c.MMU_enabled'') (\<lambda>_.
     rbind (c_assert (get_field control_reg1 ''C_unified_enable'' c = 0) ''!c.C_unified_enable'') (\<lambda>_.
       Inr (our_mmu_disable_set_asm A c s)))"

definition mmu_disable :: "mmu_asm \<Rightarrow> cp15_t \<Rightarrow> cp15_t result" where
  "mmu_disable A s =
     rbind (c_assert (get_field control_reg1 ''MMU_enabled'' (ctrl s) \<noteq> 0) ''c.MMU_enabled'') (\<lambda>_.
       mmu_disable_set A (set_field control_reg1 ''MMU_enabled'' 0 (ctrl s)) s)"

definition mmu_enable_set :: "mmu_asm \<Rightarrow> u32 \<Rightarrow> cp15_t \<Rightarrow> cp15_t result" where
  "mmu_enable_set A c s =
     rbind (c_assert (get_field control_reg1 ''MMU_enabled'' c \<noteq> 0) ''c.MMU_enabled'') (\<lambda>_.
       Inr (our_mmu_enable_set_asm A c s))"

definition mmu_enable :: "mmu_asm \<Rightarrow> cp15_t \<Rightarrow> cp15_t result" where
  "mmu_enable A s =
     rbind (c_assert (get_field control_reg1 ''MMU_enabled'' (ctrl s) = 0) ''!c.MMU_enabled'') (\<lambda>_.
       mmu_enable_set A (set_field control_reg1 ''MMU_enabled'' 1 (ctrl s)) s)"

definition read_domain_access_ctrl :: "cp15_t \<Rightarrow> u32" where
  "read_domain_access_ctrl s = dacr s"

definition write_domain_access_ctrl :: "mmu_asm \<Rightarrow> u32 \<Rightarrow> cp15_t \<Rightarrow> cp15_t" where
  "write_domain_access_ctrl A r s = our_cp15_domain_ctrl_wr A r s"

definition set_procid_ttbr0 :: "mmu_asm \<Rightarrow> u32 \<Rightarrow> u32 \<Rightarrow> u32 \<Rightarrow> cp15_t \<Rightarrow> cp15_t result" where
  "set_procid_ttbr0 A pid asid pt s =
     rbind (c_assert (drop_bit 24 pid = 0) ''(pid >> 24) == 0'') (\<lambda>_.
     rbind (c_assert (64 < pid) ''pid > 64'') (\<lambda>_.
     rbind (c_assert (asid < 64 \<and> asid \<noteq> 0) ''asid < 64 && asid'') (\<lambda>_.
       Inr (our_cp15_set_procid_ttbr0 A (push_bit 8 pid OR asid) pt s))))"

definition asm_not_implemented :: "mmu_asm \<Rightarrow> cp15_t \<Rightarrow> 'x result" where
  "asm_not_implemented A s =
     (if mmu_is_enabled s then rbind (mmu_disable A s) (\<lambda>_. Inl (Panic ''called unimplemented asm routine''))
      else Inl (Panic ''called unimplemented asm routine''))"

section \<open>Page tables\<close>

text \<open>
  \<open>mmu_map_section\<close> and \<open>mmu_mark_sec_ap_perm\<close> are stubs after their checks. \<open>is_aligned(va, 20)\<close>
  passes 20, not \<open>1 << 20\<close>, as the alignment.
\<close>

definition mmu_map_section :: "u32 \<Rightarrow> u32 \<Rightarrow> u32 \<Rightarrow> u32 result" where
  "mmu_map_section va pa domain =
     rbind (c_assert (domain < 16) ''dom < 16'') (\<lambda>_.
     rbind (c_assert (is_aligned va 20) ''is_aligned(va, 20)'') (\<lambda>_.
     rbind (c_assert (is_aligned pa 20) ''is_aligned(pa, 20)'') (\<lambda>_. Inl Unimplemented)))"

definition OneMB :: u32 where
  "OneMB = 1024 * 1024"

fun mmu_map_sections_loop :: "nat \<Rightarrow> u32 \<Rightarrow> u32 \<Rightarrow> u32 \<Rightarrow> unit result" where
  "mmu_map_sections_loop 0 va pa domain = Inr ()"
| "mmu_map_sections_loop (Suc k) va pa domain =
     rbind (mmu_map_section va pa domain) (\<lambda>_. mmu_map_sections_loop k (va + OneMB) (pa + OneMB) domain)"

definition mmu_map_sections :: "u32 \<Rightarrow> u32 \<Rightarrow> u32 \<Rightarrow> u32 \<Rightarrow> unit result" where
  "mmu_map_sections va pa nsec domain =
     rbind (c_assert (domain < 16) ''dom < 16'') (\<lambda>_.
     rbind (c_assert (is_aligned va 20) ''is_aligned(va, 20)'') (\<lambda>_.
     rbind (c_assert (is_aligned pa 20) ''is_aligned(pa, 20)'') (\<lambda>_.
       mmu_map_sections_loop (unat nsec) va pa domain)))"

definition mmu_mark_sec_ap_perm :: "u32 \<Rightarrow> u32 \<Rightarrow> u32 \<Rightarrow> unit result" where
  "mmu_mark_sec_ap_perm va nsec perm = Inl Unimplemented"

definition mmu_mark_sec_readonly :: "u32 \<Rightarrow> u32 \<Rightarrow> unit result" where
  "mmu_mark_sec_readonly va nsec = mmu_mark_sec_ap_perm va nsec AP_rd_only"

definition mmu_mark_sec_rw :: "u32 \<Rightarrow> u32 \<Rightarrow> unit result" where
  "mmu_mark_sec_rw va nsec = mmu_mark_sec_ap_perm va nsec AP_rw"

definition mmu_mark_sec_no_access :: "u32 \<Rightarrow> u32 \<Rightarrow> unit result" where
  "mmu_mark_sec_no_access va nsec = mmu_mark_sec_ap_perm va nsec AP_no_access"

text \<open>
  The allocator is a parameter: it is given a size and an alignment and returns an address. The
  table of 4096 four-byte entries is cleared whatever size was asked for.
\<close>

definition mmu_pt_alloc_at :: "u32 \<Rightarrow> u32 \<Rightarrow> ram \<Rightarrow> (u32 \<times> ram) result" where
  "mmu_pt_alloc_at addr nbytes m =
     rbind (c_demand (is_aligned addr 14) ''must be 14-bit aligned!'') (\<lambda>_.
     let n = 4096 * word_of_nat (sizeof_layout fld_t) in
     rbind (c_demand (nbytes = n) ''only handing full allocation'') (\<lambda>_.
       Inr (addr, memset m addr 0 n)))"

definition mmu_pt_alloc :: "(u32 \<Rightarrow> u32 \<Rightarrow> u32) \<Rightarrow> u32 \<Rightarrow> ram \<Rightarrow> (u32 \<times> ram) result" where
  "mmu_pt_alloc kmalloc_aligned n m =
     rbind (c_demand (n = 4096) ''we only handling a fully-populated page table right now'') (\<lambda>_.
     let nbytes = 4096 * word_of_nat (sizeof_layout fld_t);
         pt = kmalloc_aligned n (push_bit 14 1) in
     rbind (c_demand (is_aligned pt 14) ''must be 14-bit aligned!'') (\<lambda>_.
       mmu_pt_alloc_at pt nbytes m))"

section \<open>The layouts are the ones the hardware documents\<close>

lemmas layout_defs [layouts] =
  field_pos.simps field_mask_def get_field_def set_field_def sizeof_layout_def
  mask_eq_exp_minus_1

lemma control_reg1_offsets_ok: "control_reg1_check_offsets = Inr ()"
  unfolding control_reg1_check_offsets_def
  by (simp add: control_reg1_def layouts check_bitfield_def Let_def)

lemma tlb_config_offsets_ok: "tlb_config_check_offsets = Inr ()"
  by (simp add: tlb_config_check_offsets_def tlb_config_def layouts check_bitfield_def Let_def)

lemma fld_offsets_ok: "fld_check_offsets = Inr ()"
  by (simp add: fld_check_offsets_def fld_check_valid_def fld_mk_def fld_t_def layouts
      check_bitfield_def Let_def)

text \<open>
  The start-up check of the bit-field structs passes: every field of the control register,
  of the TLB configuration and of the first-level descriptor is where the ARM manual puts it.
\<close>

theorem check_vm_structs_ok: "check_vm_structs = Inr ()"
  by (simp add: check_vm_structs_def control_reg1_offsets_ok tlb_config_offsets_ok fld_offsets_ok)

section \<open>Fields as parts of a word\<close>

text \<open>A layout that fits the word, and a field of it.\<close>

definition field_in :: "bf_layout \<Rightarrow> string \<Rightarrow> bool" where
  "field_in T f \<longleftrightarrow> fst (field_pos T 0 f) + snd (field_pos T 0 f) \<le> 32"

lemma field_pos_le:
  "fst (field_pos T off f) + snd (field_pos T off f) \<le> off + sum_list (map snd T)"
  by (induction T off f rule: field_pos.induct) auto

lemma field_in_layout: "sum_list (map snd T) \<le> 32 \<Longrightarrow> field_in T f"
  unfolding field_in_def using field_pos_le [of T 0 f] by simp

lemma bit_get_field:
  "bit (get_field T f u) n \<longleftrightarrow> n < snd (field_pos T 0 f) \<and> bit u (fst (field_pos T 0 f) + n)"
  by (auto simp: get_field_def split: prod.split simp: bit_simps)

lemma bit_set_field:
  "bit (set_field T f v u) n \<longleftrightarrow>
     (if fst (field_pos T 0 f) \<le> n \<and> n < fst (field_pos T 0 f) + snd (field_pos T 0 f)
      then n < 32 \<and> bit v (n - fst (field_pos T 0 f)) else bit u n)"
  by (auto simp: set_field_def field_mask_def bit_simps split: prod.split dest: bit_imp_le_length)

lemma get_set_field:
  assumes "field_in T f"
  shows "get_field T f (set_field T f v u) = take_bit (snd (field_pos T 0 f)) v"
  using assms by (auto intro!: bit_word_eqI simp: bit_get_field bit_set_field bit_simps field_in_def)

lemma set_field_get:
  assumes "get_field T f u = take_bit (snd (field_pos T 0 f)) v"
  shows "set_field T f v u = u"
proof (rule bit_word_eqI)
  fix n assume n: "n < LENGTH(32)"
  show "bit (set_field T f v u) n \<longleftrightarrow> bit u n"
    using arg_cong [OF assms, of "\<lambda>w. bit w (n - fst (field_pos T 0 f))"] n
    by (auto simp: bit_set_field bit_get_field bit_simps)
qed

lemma set_set_field: "set_field T f v (set_field T f w u) = set_field T f v u"
  by (auto intro!: bit_word_eqI simp: bit_set_field)

lemma control_reg1_field_in: "field_in control_reg1 f"
  by (rule field_in_layout) (simp add: control_reg1_def)

lemma field_pos_MMU [simp]: "field_pos control_reg1 0 ''MMU_enabled'' = (0, 1)"
  by (simp add: control_reg1_def)

lemma field_pos_C [simp]: "field_pos control_reg1 0 ''C_unified_enable'' = (2, 1)"
  by (simp add: control_reg1_def)

lemma field_pos_XP [simp]: "field_pos control_reg1 0 ''XP_pt'' = (23, 1)"
  by (simp add: control_reg1_def)

section \<open>Enabling and disabling\<close>

text \<open>
  What \<^verbatim>\<open>mmu.h\<close> documents of the assembly routines that write the control register: they set
  it to the given value. The caches they clean are not part of the state.
\<close>

definition sets_ctrl :: "mmu_asm \<Rightarrow> bool" where
  "sets_ctrl A \<longleftrightarrow>
     (\<forall>c s. ctrl (cp15_ctrl_reg1_wr A c s) = c \<and> ctrl (our_mmu_enable_set_asm A c s) = c
       \<and> ctrl (our_mmu_disable_set_asm A c s) = c)"

lemma take_bit_Suc_0_1 [simp]: "take_bit (Suc 0) (1 :: u32) = 1"
  by (simp add: take_bit_eq_mod)

lemma get_MMU_set [simp]:
  "get_field control_reg1 ''MMU_enabled'' (set_field control_reg1 ''MMU_enabled'' v u) = take_bit 1 v"
  by (simp add: get_set_field control_reg1_field_in)

lemma get_XP_set [simp]:
  "get_field control_reg1 ''XP_pt'' (set_field control_reg1 ''XP_pt'' v u) = take_bit 1 v"
  by (simp add: get_set_field control_reg1_field_in)

lemma get_C_set_MMU [simp]:
  "get_field control_reg1 ''C_unified_enable'' (set_field control_reg1 ''MMU_enabled'' v u)
    = get_field control_reg1 ''C_unified_enable'' u"
  by (rule bit_word_eqI) (auto simp: bit_get_field bit_set_field)

lemma get_MMU_set_XP [simp]:
  "get_field control_reg1 ''MMU_enabled'' (set_field control_reg1 ''XP_pt'' v u)
    = get_field control_reg1 ''MMU_enabled'' u"
  by (rule bit_word_eqI) (auto simp: bit_get_field bit_set_field)

lemma MMU_off_on:
  assumes "get_field control_reg1 ''MMU_enabled'' u = 0"
  shows "set_field control_reg1 ''MMU_enabled'' 0 (set_field control_reg1 ''MMU_enabled'' 1 u) = u"
  using assms by (simp add: set_set_field set_field_get)

text \<open>
  When the MMU and the cache are off, \<open>mmu_enable\<close> turns the MMU on and nothing else in the
  control register changes: \<open>mmu_disable\<close> then brings the old value back. Enabling twice or
  disabling twice fails an assertion.
\<close>

theorem mmu_enable_disable:
  assumes "sets_ctrl A"
    and "get_field control_reg1 ''MMU_enabled'' (ctrl s) = 0"
    and "get_field control_reg1 ''C_unified_enable'' (ctrl s) = 0"
  shows "\<exists>s1 s2. mmu_enable A s = Inr s1 \<and> mmu_is_enabled s1
      \<and> mmu_enable A s1 = Inl (AssertFail ''!c.MMU_enabled'')
      \<and> mmu_disable A s1 = Inr s2 \<and> ctrl s2 = ctrl s
      \<and> mmu_disable A s2 = Inl (AssertFail ''c.MMU_enabled'')"
proof -
  let ?c = "set_field control_reg1 ''MMU_enabled'' 1 (ctrl s)"
  define s1 where "s1 = our_mmu_enable_set_asm A ?c s"
  define s2 where "s2 = our_mmu_disable_set_asm A (ctrl s) s1"
  have c: "ctrl s1 = ?c" "ctrl s2 = ctrl s"
    using assms(1) by (simp_all add: sets_ctrl_def s1_def s2_def)
  have "mmu_enable A s = Inr s1"
    using assms(2) by (simp add: mmu_enable_def mmu_enable_set_def s1_def)
  moreover have "mmu_is_enabled s1" "mmu_enable A s1 = Inl (AssertFail ''!c.MMU_enabled'')"
    by (simp_all add: mmu_is_enabled_def mmu_enable_def c)
  moreover have "mmu_disable A s1 = Inr s2"
    using assms(2,3) by (simp add: mmu_disable_def mmu_disable_set_def c s2_def MMU_off_on)
  moreover have "mmu_disable A s2 = Inl (AssertFail ''c.MMU_enabled'')"
    using assms(2) by (simp add: mmu_disable_def c)
  ultimately show ?thesis using c(2) by blast
qed

definition plain_asm :: mmu_asm where
  "plain_asm =
     \<lparr>our_mmu_reset = \<lambda>s. s, cp15_ctrl_reg1_wr = \<lambda>c s. s\<lparr>ctrl := c\<rparr>,
      our_mmu_enable_set_asm = \<lambda>c s. s\<lparr>ctrl := c\<rparr>, our_mmu_disable_set_asm = \<lambda>c s. s\<lparr>ctrl := c\<rparr>,
      our_cp15_domain_ctrl_wr = \<lambda>d s. s\<lparr>dacr := d\<rparr>,
      our_cp15_set_procid_ttbr0 = \<lambda>p t s. s\<lparr>procid := p, ttbr0 := t\<rparr>\<rparr>"

definition boot_cp15 :: cp15_t where
  "boot_cp15 = \<lparr>ctrl = 0x00050078, dacr = 0, procid = 0, ttbr0 = 0\<rparr>"

theorem mmu_enable_disable_witness:
  "\<exists>s1 s2. mmu_enable plain_asm boot_cp15 = Inr s1 \<and> mmu_is_enabled s1
      \<and> mmu_enable plain_asm s1 = Inl (AssertFail ''!c.MMU_enabled'')
      \<and> mmu_disable plain_asm s1 = Inr s2 \<and> ctrl s2 = ctrl boot_cp15
      \<and> mmu_disable plain_asm s2 = Inl (AssertFail ''c.MMU_enabled'')"
  by (rule mmu_enable_disable [of plain_asm boot_cp15])
    (simp_all add: sets_ctrl_def plain_asm_def boot_cp15_def get_field_def take_bit_eq_mod)

lemma mmu_init_sets_XP:
  assumes "sets_ctrl A"
    and "get_field control_reg1 ''MMU_enabled'' (ctrl (our_mmu_reset A s)) = 0"
  shows "\<exists>s'. mmu_init A s = Inr s' \<and> ctrl s' = set_field control_reg1 ''XP_pt'' 1 (ctrl (our_mmu_reset A s))"
  using assms by (simp add: mmu_init_def Let_def sets_ctrl_def)

section \<open>Process ids\<close>

text \<open>The process and address-space ids of \<open>set_procid_ttbr0\<close> are told apart in the word it writes.\<close>

lemma procid_fields:
  assumes "drop_bit 24 (pid :: u32) = 0" "asid < 64"
  shows "drop_bit 8 (push_bit 8 pid OR asid) = pid" "(push_bit 8 pid OR asid) AND 0xFF = asid"
proof -
  have a: "\<not> bit asid n" if "6 \<le> n" for n
  proof -
    have "take_bit 6 asid = asid"
      using assms(2) by (simp add: take_bit_eq_mod word_less_nat_alt unat_mod word_unat_eq_iff)
    then show ?thesis using that bit_take_bit_iff [of 6 asid n] by simp
  qed
  have p: "\<not> bit pid n" if "24 \<le> n" for n
    using arg_cong [OF assms(1), of "\<lambda>w. bit w (n - 24)"] that by (simp add: bit_simps)
  show "drop_bit 8 (push_bit 8 pid OR asid) = pid"
    by (rule bit_word_eqI) (use a p in \<open>auto simp: bit_simps not_less intro: leI\<close>)
  show "(push_bit 8 pid OR asid) AND 0xFF = asid"
    by (rule bit_word_eqI) (use a in \<open>auto simp: and_0xFF bit_simps not_less intro: leI\<close>)
qed

lemma set_procid_ttbr0_ok:
  assumes "drop_bit 24 pid = 0" "64 < pid" "asid < 64" "asid \<noteq> 0"
  shows "\<exists>v. set_procid_ttbr0 A pid asid pt s = Inr (our_cp15_set_procid_ttbr0 A v pt s)
     \<and> drop_bit 8 v = pid \<and> v AND 0xFF = asid"
  using assms procid_fields [OF assms(1,3)] by (auto simp: set_procid_ttbr0_def)

section \<open>Page-table allocation\<close>

lemma mmu_pt_alloc_at_eq:
  assumes "is_aligned p 14" "unat p + 16384 < 2 ^ 32"
  shows "mmu_pt_alloc_at p 16384 m = Inr (p, mem_fill m p 0 16384)"
  using assms by (simp add: mmu_pt_alloc_at_def fld_t_def sizeof_layout_def memset_eq)

text \<open>
  \<open>mmu_pt_alloc\<close> asks the allocator for 4096 bytes and then clears 16384: when the allocator
  hands out the block at \<open>p\<close>, the 12288 bytes behind it are overwritten with zeros too.
\<close>

theorem mmu_pt_alloc_overruns:
  assumes "kmalloc_aligned 4096 0x4000 = p" "is_aligned p 14" "unat p + 16384 < 2 ^ 32"
  shows "\<exists>m'. mmu_pt_alloc kmalloc_aligned 4096 m = Inr (p, m')
      \<and> (\<forall>k < 16384. m' (p + word_of_nat k) = 0)
      \<and> (\<forall>a. 16384 \<le> unat (a - p) \<longrightarrow> m' a = m a)"
proof -
  have "mmu_pt_alloc kmalloc_aligned 4096 m = Inr (p, mem_fill m p 0 16384)"
    using assms by (simp add: mmu_pt_alloc_def fld_t_def sizeof_layout_def mmu_pt_alloc_at_eq)
  then show ?thesis by (simp add: mem_fill_def unat_of_nat_u32)
qed

theorem mmu_pt_alloc_overruns_witness:
  "\<exists>m'. mmu_pt_alloc (\<lambda>n a. 0x8000) 4096 (\<lambda>_. 7) = Inr (0x8000, m')
      \<and> (\<forall>k < 16384. m' (0x8000 + word_of_nat k) = 0)
      \<and> (\<forall>a. 16384 \<le> unat (a - 0x8000) \<longrightarrow> m' a = 7)"
  by (rule mmu_pt_alloc_overruns) (simp_all add: is_aligned_def)

text \<open>\<open>is_aligned(x, 20)\<close> looks at bits 0, 1 and 4 only: address 4 passes for 1 MB aligned.\<close>

lemma is_aligned_20: "is_aligned x 20 \<longleftrightarrow> x AND 19 = 0"
  by (simp add: is_aligned_def)

lemma is_aligned_20_accepts_4: "is_aligned 4 20" "\<not> is_aligned 4 OneMB"
  by (simp_all add: is_aligned_def OneMB_def)

text \<open>\<open>mmu_sec_bits_only\<close> clears 21 bits, one more than the offset within a section.\<close>

lemma mmu_sec_bits_only_odd: "mmu_sec_bits_only OneMB = 0" "mmu_sec_num OneMB = 1"
  by (simp_all add: mmu_sec_bits_only_def mmu_sec_num_def OneMB_def)

end
