(* ===== verification/Bootloader.thy ===== *)
theory Bootloader
  imports Unix_Io Replay_Log Libc
begin

text \<open>
  The serial bootloader of \<^verbatim>\<open>labs/2-bootloader\<close>: the Pi side \<^verbatim>\<open>pi-side/bootloader.c\<close> talks to its
  uart, the laptop side \<^verbatim>\<open>unix-side/send-recv.c\<close> and \<^verbatim>\<open>unix-side/simple-boot.c\<close> to a descriptor.
  The opcodes of \<^verbatim>\<open>shared-code/simple-boot.h\<close> are those of the replay log. Diagnostic output of
  the laptop that only describes an error is left out; what the Pi asks to print is kept.
\<close>

section \<open>The Pi side\<close>

text \<open>The uart: bytes that will arrive and bytes sent. A read waits when nothing will arrive.\<close>

record uart_t =
  uin :: bytes
  uout :: bytes

definition pi_put_byte :: "u8 \<Rightarrow> uart_t \<Rightarrow> uart_t" where
  "pi_put_byte uc u = u\<lparr>uout := uout u @ [uc]\<rparr>"

definition pi_get_byte :: "uart_t \<Rightarrow> (u8 \<times> uart_t) result" where
  "pi_get_byte u = (case uin u of [] \<Rightarrow> Inl OutOfInput | c # r \<Rightarrow> Inr (c, u\<lparr>uin := r\<rparr>))"

definition pi_get_uint :: "uart_t \<Rightarrow> (u32 \<times> uart_t) result" where
  "pi_get_uint u =
     rbind (pi_get_byte u) (\<lambda>(b0, u).
     rbind (pi_get_byte u) (\<lambda>(b1, u).
     rbind (pi_get_byte u) (\<lambda>(b2, u).
     rbind (pi_get_byte u) (\<lambda>(b3, u).
       Inr (ucast b0 OR push_bit 8 (ucast b1) OR push_bit 16 (ucast b2) OR push_bit 24 (ucast b3), u)))))"

definition pi_put_uint :: "u32 \<Rightarrow> uart_t \<Rightarrow> uart_t" where
  "pi_put_uint w u =
     pi_put_byte (ucast (drop_bit 24 w AND 0xff))
       (pi_put_byte (ucast (drop_bit 16 w AND 0xff))
         (pi_put_byte (ucast (drop_bit 8 w AND 0xff))
           (pi_put_byte (ucast (drop_bit 0 w AND 0xff)) u)))"

text \<open>\<open>die\<close> sends the code and reboots: the uart as it is left.\<close>

definition pi_die :: "u32 \<Rightarrow> uart_t \<Rightarrow> uart_t" where
  "pi_die code u = pi_put_uint code u"

text \<open>The two loops of \<open>putk\<close> over the memory from \<open>msg\<close> on.\<close>

fun putk_len :: "bytes \<Rightarrow> u32 \<Rightarrow> u32 result" where
  "putk_len [] n = Inl Bounds"
| "putk_len (c # s) n = (if c \<noteq> 0 then putk_len s (n + 1) else Inr n)"

fun putk_bytes :: "bytes \<Rightarrow> uart_t \<Rightarrow> uart_t result" where
  "putk_bytes [] u = Inl Bounds"
| "putk_bytes (c # s) u = (if c \<noteq> 0 then putk_bytes s (pi_put_byte c u) else Inr u)"

definition boot_putk :: "bytes \<Rightarrow> uart_t \<Rightarrow> uart_t result" where
  "boot_putk msg u =
     (let u = pi_put_uint PRINT_STRING u in
      rbind (putk_len msg 0) (\<lambda>n. putk_bytes msg (pi_put_uint n u)))"

text \<open>
  \<open>wait_for_data\<close>: each element is what one round of the inner loop sees, the timer and whether
  the uart has data. The difference of unsigned times is taken modulo \<open>2 ^ 32\<close>.
\<close>

fun wait_rounds :: "u32 \<Rightarrow> (u32 \<times> bool) list \<Rightarrow> uart_t \<Rightarrow> uart_t result"
  and wait_send :: "(u32 \<times> bool) list \<Rightarrow> uart_t \<Rightarrow> uart_t result" where
  "wait_rounds s [] u = Inl OutOfInput"
| "wait_rounds s ((t, has_data) # r) u =
     (if t - s < 300 * 1000 then (if has_data then Inr u else wait_rounds s r u)
      else wait_send r u)"
| "wait_send [] u = Inl OutOfInput"
| "wait_send ((t, _) # r) u = wait_rounds t r (pi_put_uint GET_PROG_INFO u)"

definition wait_for_data :: "(u32 \<times> bool) list \<Rightarrow> uart_t \<Rightarrow> uart_t result" where
  "wait_for_data obs u = wait_send obs u"

text \<open>Steps 2 to 6 are empty in the source: after data arrives, success is reported at once.\<close>

definition boot_notmain :: "(u32 \<times> bool) list \<Rightarrow> uart_t \<Rightarrow> (u32 \<times> uart_t) result" where
  "boot_notmain obs u =
     rbind (wait_for_data obs u) (\<lambda>u. Inr (ARMBASE, pi_put_uint BOOT_SUCCESS u))"

section \<open>The laptop side\<close>

definition put_byte :: "u8 \<Rightarrow> fd_t \<Rightarrow> fd_t result" where
  "put_byte b f =
     (case os_write [b] f of
        (None, _) \<Rightarrow> sys_die ''write() failed''
      | (Some r, f1) \<Rightarrow> if r \<noteq> 1 then sys_die ''write() failed'' else Inr f1)"

definition get_byte :: "fd_t \<Rightarrow> (u8 \<times> fd_t) result" where
  "get_byte f =
     (case os_read 1 f of
        (Some [b], f1) \<Rightarrow> Inr (b, f1)
      | (Some _, _) \<Rightarrow> Inl (Panic ''pi-install: read() timed-out'')
      | (None, _) \<Rightarrow> sys_die ''pi-install: read() failed'')"

definition get_uint32 :: "fd_t \<Rightarrow> (u32 \<times> fd_t) result" where
  "get_uint32 f =
     rbind (get_byte f) (\<lambda>(b0, f).
     rbind (get_byte f) (\<lambda>(b1, f).
     rbind (get_byte f) (\<lambda>(b2, f).
     rbind (get_byte f) (\<lambda>(b3, f).
       Inr (ucast b0 OR push_bit 8 (ucast b1) OR push_bit 16 (ucast b2) OR push_bit 24 (ucast b3), f)))))"

definition put_uint32 :: "u32 \<Rightarrow> fd_t \<Rightarrow> fd_t result" where
  "put_uint32 w f =
     rbind (put_byte (ucast (drop_bit 0 w AND 0xff)) f) (\<lambda>f.
     rbind (put_byte (ucast (drop_bit 8 w AND 0xff)) f) (\<lambda>f.
     rbind (put_byte (ucast (drop_bit 16 w AND 0xff)) f) (\<lambda>f.
       put_byte (ucast (drop_bit 24 w AND 0xff)) f)))"

lemma get_byte_left: "get_byte f = Inr (b, f') \<Longrightarrow> rd_left (rd f') < rd_left (rd f)"
  by (auto simp: get_byte_def os_read_def sys_die_def split: list.splits rd_ev.splits if_splits prod.splits option.splits)

lemma get_uint32_left: "get_uint32 f = Inr (w, f') \<Longrightarrow> rd_left (rd f') < rd_left (rd f)"
  by (auto simp: get_uint32_def rbind_eq_Inr dest!: get_byte_left)

text \<open>The loop that emits the string.\<close>

fun get_bytes :: "nat \<Rightarrow> fd_t \<Rightarrow> (bytes \<times> fd_t) result" where
  "get_bytes 0 f = Inr ([], f)"
| "get_bytes (Suc n) f =
     rbind (get_byte f) (\<lambda>(b, f). rbind (get_bytes n f) (\<lambda>(bs, f). Inr (b # bs, f)))"

lemma get_bytes_left: "get_bytes n f = Inr (bs, f') \<Longrightarrow> rd_left (rd f') \<le> rd_left (rd f)"
  by (induction n arbitrary: f bs) (auto simp: rbind_eq_Inr dest!: get_byte_left, fastforce)

text \<open>\<open>get_op\<close> also returns what it printed.\<close>

function get_op :: "bytes \<Rightarrow> fd_t \<Rightarrow> (u32 \<times> bytes \<times> fd_t) result" where
  "get_op out f =
     rbind (get_uint32 f) (\<lambda>(opc, f1).
       if opc \<noteq> PRINT_STRING then Inr (opc, out, f1)
       else
         rbind (get_uint32 f1) (\<lambda>(n, f2).
         rbind (c_demand (n < 512) ''pi sent a suspiciously long string'') (\<lambda>_.
         rbind (get_bytes (unat n) f2) (\<lambda>(bs, f3).
           get_op (out @ bstr ''pi sent print: <'' @ bs @ bstr ''>'' @ [10]) f3))))"
  by auto
termination
  by (relation "measure (\<lambda>(_, f). rd_left (rd f))")
    (auto dest!: get_uint32_left get_bytes_left)

declare get_op.simps [simp del]

definition ck_eq32 :: "u32 \<Rightarrow> u32 \<Rightarrow> unit result" where
  "ck_eq32 expect got = (if expect = got then Inr () else Inl (Panic ''pi-boot failed''))"

lemma get_op_left: "get_op out f = Inr (opc, out', f') \<Longrightarrow> rd_left (rd f') < rd_left (rd f)"
proof (induction out f rule: get_op.induct)
  case (1 out f)
  show ?case
  proof (rule ccontr)
    assume n: "\<not> rd_left (rd f') < rd_left (rd f)"
    from "1.prems" obtain w f1 where w: "get_uint32 f = Inr (w, f1)"
      and r: "(if w \<noteq> PRINT_STRING then Inr (w, out, f1)
         else rbind (get_uint32 f1) (\<lambda>(n, f2).
           rbind (c_demand (n < 512) ''pi sent a suspiciously long string'') (\<lambda>_.
           rbind (get_bytes (unat n) f2) (\<lambda>(bs, f3).
             get_op (out @ bstr ''pi sent print: <'' @ bs @ bstr ''>'' @ [10]) f3)))) = Inr (opc, out', f')"
      by (subst (asm) get_op.simps) (auto simp: rbind_eq_Inr)
    from get_uint32_left [OF w] n r have p: "w = PRINT_STRING" by (auto split: if_splits)
    with r obtain k f2 bs f3 where k: "get_uint32 f1 = Inr (k, f2)" "k < 512"
        "get_bytes (unat k) f2 = Inr (bs, f3)"
        "get_op (out @ bstr ''pi sent print: <'' @ bs @ bstr ''>'' @ [10]) f3 = Inr (opc, out', f')"
      by (auto simp: inversions)
    have "rd_left (rd f') < rd_left (rd f3)"
      using "1.IH" [OF w refl _ k(1) refl _ k(3) refl k(4)] p k(2) by simp
    with get_uint32_left [OF w] get_uint32_left [OF k(1)] get_bytes_left [OF k(3)] n show False by simp
  qed
qed

text \<open>Step 0 of \<open>simple_boot\<close>: words that are not \<open>GET_PROG_INFO\<close> are discarded.\<close>

function boot_drain :: "bytes \<Rightarrow> fd_t \<Rightarrow> (bytes \<times> fd_t) result" where
  "boot_drain out f =
     rbind (get_op out f) (\<lambda>(opc, out, f1). if opc \<noteq> GET_PROG_INFO then boot_drain out f1 else Inr (out, f1))"
  by auto
termination
  by (relation "measure (\<lambda>(_, f). rd_left (rd f))") (auto dest!: get_op_left)

declare boot_drain.simps [simp del]

text \<open>Steps 1 to 4 are stubs.\<close>

definition simple_boot :: "u32 \<Rightarrow> fd_t \<Rightarrow> fd_t result" where
  "simple_boot n f =
     (let n = (n + (4 - 1)) AND NOT (4 - 1) in
      rbind (c_demand (n mod 4 = 0) ''boot code size must be a multiple of 4!'') (\<lambda>_.
      rbind (boot_drain [] f) (\<lambda>(out, f1). Inl Unimplemented)))"

section \<open>Bytes on the line\<close>

text \<open>The descriptor will deliver exactly the bytes \<open>bs\<close>, in arrivals of any size.\<close>

fun rd_bytes :: "rd_ev list \<Rightarrow> bytes" where
  "rd_bytes [] = []"
| "rd_bytes (Data b # r) = b @ rd_bytes r"
| "rd_bytes (_ # r) = rd_bytes r"

definition delivers :: "fd_t \<Rightarrow> bytes \<Rightarrow> bool" where
  "delivers f bs \<longleftrightarrow> rd_bytes (rd f) = bs \<and> (\<forall>e \<in> set (rd f). \<exists>b. e = Data b \<and> b \<noteq> [])"

lemma get_byte_delivers:
  assumes "delivers f (c # bs)"
  shows "\<exists>f'. get_byte f = Inr (c, f') \<and> delivers f' bs \<and> wr f' = wr f"
proof -
  obtain x b r where r: "rd f = Data (x # b) # r"
    using assms by (cases "rd f") (auto simp: delivers_def neq_Nil_conv)
  then show ?thesis
    using assms by (cases b) (auto simp: delivers_def get_byte_def os_read_def)
qed

lemma get_bytes_delivers:
  "delivers f (cs @ bs) \<Longrightarrow> \<exists>f'. get_bytes (length cs) f = Inr (cs, f') \<and> delivers f' bs \<and> wr f' = wr f"
proof (induction cs arbitrary: f)
  case (Cons c cs)
  from get_byte_delivers [of f c "cs @ bs"] Cons.prems obtain f1 where
    f1: "get_byte f = Inr (c, f1)" "delivers f1 (cs @ bs)" "wr f1 = wr f" by auto
  from Cons.IH [OF f1(2)] f1 show ?case by auto
qed simp

lemma get_uint32_delivers:
  assumes "delivers f (bytes_of_u32 w @ bs)"
  shows "\<exists>f'. get_uint32 f = Inr (w, f') \<and> delivers f' bs \<and> wr f' = wr f"
proof -
  obtain f1 where f1: "get_byte f = Inr (byte_of 0 w, f1)" "wr f1 = wr f"
      "delivers f1 (byte_of 1 w # byte_of 2 w # byte_of 3 w # bs)"
    using get_byte_delivers [of f "byte_of 0 w"] assms by (auto simp: bytes_of_u32_def)
  obtain f2 where f2: "get_byte f1 = Inr (byte_of 1 w, f2)" "wr f2 = wr f"
      "delivers f2 (byte_of 2 w # byte_of 3 w # bs)"
    using get_byte_delivers [OF f1(3)] f1(2) by auto
  obtain f3 where f3: "get_byte f2 = Inr (byte_of 2 w, f3)" "wr f3 = wr f" "delivers f3 (byte_of 3 w # bs)"
    using get_byte_delivers [OF f2(3)] f2(2) by auto
  obtain f4 where f4: "get_byte f3 = Inr (byte_of 3 w, f4)" "wr f4 = wr f" "delivers f4 bs"
    using get_byte_delivers [OF f3(3)] f3(2) by auto
  have "get_uint32 f = Inr (le32 (byte_of 0 w) (byte_of 1 w) (byte_of 2 w) (byte_of 3 w), f4)"
    using f1 f2 f3 f4 by (simp add: get_uint32_def le32_def)
  with f4 show ?thesis by simp
qed

lemma pi_get_uint_bytes:
  "uin u = bytes_of_u32 w @ bs \<Longrightarrow> pi_get_uint u = Inr (w, u\<lparr>uin := bs\<rparr>)"
  using le32_byte_of [of w]
  by (simp add: pi_get_uint_def pi_get_byte_def bytes_of_u32_def le32_def)

lemma ucast_and_0xff: "(ucast (x AND 0xff) :: u8) = ucast (x :: u32)"
  by (rule bit_word_eqI) (simp add: and_0xFF bit_simps)

lemma pi_put_uint_out: "uout (pi_put_uint w u) = uout u @ bytes_of_u32 w"
  by (simp add: pi_put_uint_def pi_put_byte_def bytes_of_u32_def byte_of_def ucast_and_0xff)

lemma put_uint32_out:
  assumes "wr_lim f = []"
  shows "put_uint32 w f = Inr (f\<lparr>wr := wr f @ bytes_of_u32 w\<rparr>)"
  using assms
  by (simp add: put_uint32_def put_byte_def os_write_def bytes_of_u32_def byte_of_def ucast_and_0xff)

lemma putk_len_cstring:
  "no_nul s \<Longrightarrow> putk_len (cstring s r) n = Inr (n + word_of_nat (length s))"
  by (induction s arbitrary: n) (simp_all add: cstring_def no_nul_def algebra_simps)

lemma putk_bytes_cstring:
  "no_nul s \<Longrightarrow> putk_bytes (cstring s r) u = Inr (u\<lparr>uout := uout u @ s\<rparr>)"
  by (induction s arbitrary: u) (simp_all add: cstring_def no_nul_def pi_put_byte_def)

text \<open>What \<open>putk\<close> sends for a message.\<close>

definition print_frame :: "bytes \<Rightarrow> bytes" where
  "print_frame m = bytes_of_u32 PRINT_STRING @ bytes_of_u32 (word_of_nat (length m)) @ m"

lemma boot_putk_frame:
  assumes "no_nul m"
  shows "\<exists>u'. boot_putk (cstring m r) u = Inr u' \<and> uout u' = uout u @ print_frame m"
  by (simp add: boot_putk_def Let_def putk_len_cstring [OF assms] putk_bytes_cstring [OF assms]
      pi_put_uint_out print_frame_def)

section \<open>Printing from the Pi\<close>

text \<open>The Pi prints the messages and then sends an opcode.\<close>

fun boot_says :: "bytes list \<Rightarrow> u32 \<Rightarrow> uart_t \<Rightarrow> uart_t result" where
  "boot_says [] opc u = Inr (pi_put_uint opc u)"
| "boot_says (m # ms) opc u = rbind (boot_putk (cstring m []) u) (boot_says ms opc)"

lemma boot_says_out:
  "\<forall>m \<in> set ms. no_nul m \<Longrightarrow>
     \<exists>u'. boot_says ms opc u = Inr u' \<and> uout u' = uout u @ concat (map print_frame ms) @ bytes_of_u32 opc"
proof (induction ms arbitrary: u)
  case (Cons m ms)
  obtain u1 where u1: "boot_putk (cstring m []) u = Inr u1" "uout u1 = uout u @ print_frame m"
    using boot_putk_frame Cons.prems by fastforce
  from Cons.IH [of u1] Cons.prems u1 show ?case by simp
qed (simp add: pi_put_uint_out)

definition shown :: "bytes \<Rightarrow> bytes" where
  "shown m = bstr ''pi sent print: <'' @ m @ bstr ''>'' @ [10]"

lemma get_op_plain:
  assumes "delivers f (bytes_of_u32 opc @ bs)" "opc \<noteq> PRINT_STRING"
  shows "\<exists>f'. get_op out f = Inr (opc, out, f') \<and> delivers f' bs \<and> wr f' = wr f"
  using get_uint32_delivers [OF assms(1)] assms(2) by (auto simp: get_op.simps [of out f])

lemma get_op_frame:
  assumes "delivers f (print_frame m @ bs)" "length m < 512"
  shows "\<exists>f'. get_op out f = get_op (out @ shown m) f' \<and> delivers f' bs \<and> wr f' = wr f"
proof -
  obtain f1 where f1: "get_uint32 f = Inr (PRINT_STRING, f1)"
      "delivers f1 (bytes_of_u32 (word_of_nat (length m)) @ m @ bs)" "wr f1 = wr f"
    using get_uint32_delivers [of f PRINT_STRING "bytes_of_u32 (word_of_nat (length m)) @ m @ bs"] assms(1)
    by (auto simp: print_frame_def)
  obtain f2 where f2: "get_uint32 f1 = Inr (word_of_nat (length m), f2)" "delivers f2 (m @ bs)" "wr f2 = wr f"
    using get_uint32_delivers [OF f1(2)] f1(3) by auto
  obtain f3 where f3: "get_bytes (length m) f2 = Inr (m, f3)" "delivers f3 bs" "wr f3 = wr f"
    using get_bytes_delivers [OF f2(2)] f2(3) by auto
  have u: "unat (word_of_nat (length m) :: u32) = length m"
    using assms(2) by (simp add: unat_of_nat_u32)
  then have "(word_of_nat (length m) :: u32) < 512" using assms(2) by (simp add: word_less_nat_alt)
  then show ?thesis
    using f1(1) f2(1) f3 u by (auto simp: get_op.simps [of out f] shown_def)
qed

lemma get_op_frames:
  "delivers f (concat (map print_frame ms) @ bytes_of_u32 opc @ bs) \<Longrightarrow> \<forall>m \<in> set ms. length m < 512 \<Longrightarrow>
     opc \<noteq> PRINT_STRING \<Longrightarrow>
     \<exists>f'. get_op out f = Inr (opc, out @ concat (map shown ms), f') \<and> delivers f' bs \<and> wr f' = wr f"
proof (induction ms arbitrary: f out)
  case Nil
  then show ?case using get_op_plain by simp
next
  case (Cons m ms)
  have "delivers f (print_frame m @ concat (map print_frame ms) @ bytes_of_u32 opc @ bs)"
    using Cons.prems(1) by simp
  from get_op_frame [OF this] Cons.prems(2) obtain f1 where
    f1: "get_op out f = get_op (out @ shown m) f1"
      "delivers f1 (concat (map print_frame ms) @ bytes_of_u32 opc @ bs)" "wr f1 = wr f"
    by fastforce
  from Cons.IH [OF f1(2), of "out @ shown m"] Cons.prems f1 show ?case by auto
qed

text \<open>
  (C31) Whatever strings the Pi prints with \<open>putk\<close> before it sends an opcode, and however the line
  cuts the bytes into arrivals, \<open>get_op\<close> on the laptop prints each string once and in order and
  returns the opcode, with the bytes behind it still to be read. Strings are shorter than 512
  bytes.
\<close>
theorem boot_print_roundtrip:
  assumes "\<forall>m \<in> set ms. no_nul m \<and> length m < 512" "opc \<noteq> PRINT_STRING"
    and "boot_says ms opc \<lparr>uin = [], uout = []\<rparr> = Inr u" "delivers f (uout u @ rest)"
  shows "\<exists>f'. get_op [] f = Inr (opc, concat (map shown ms), f') \<and> delivers f' rest \<and> wr f' = wr f"
proof -
  have "uout u = concat (map print_frame ms) @ bytes_of_u32 opc"
    using boot_says_out [of ms opc "\<lparr>uin = [], uout = []\<rparr>"] assms(1,3) by auto
  with get_op_frames [of f ms opc rest "[]"] assms show ?thesis by simp
qed

theorem boot_print_roundtrip_witness:
  "\<exists>f'. get_op [] \<lparr>rd = [Data [0xEE, 0xEE, 0xDD, 0xDD, 2, 0], Data [0, 0, 104],
      Data [105, 0xAA, 0xAA, 0x99, 0x99, 7]], wr = [], wr_lim = []\<rparr>
    = Inr (BOOT_SUCCESS, bstr ''pi sent print: <hi>'' @ [10], f') \<and> delivers f' [7]"
proof -
  let ?f = "\<lparr>rd = [Data [0xEE, 0xEE, 0xDD, 0xDD, 2, 0], Data [0, 0, 104],
      Data [105, 0xAA, 0xAA, 0x99, 0x99, 7]], wr = [], wr_lim = []\<rparr>"
  have m: "\<forall>m \<in> set [bstr ''hi'']. no_nul m \<and> length m < 512" by (simp add: no_nul_def bstr_def)
  let ?u = "\<lparr>uin = [], uout = [0xEE, 0xEE, 0xDD, 0xDD, 2, 0, 0, 0, 104, 105, 0xAA, 0xAA, 0x99, 0x99]\<rparr>"
  have s: "boot_says [bstr ''hi''] BOOT_SUCCESS \<lparr>uin = [], uout = []\<rparr> = Inr ?u"
    by (simp add: bstr_def cstring_def boot_putk_def pi_put_uint_def pi_put_byte_def PRINT_STRING_def
        BOOT_SUCCESS_def)
  have d: "delivers ?f (uout ?u @ [7])" by (simp add: delivers_def)
  have "BOOT_SUCCESS \<noteq> PRINT_STRING" by (simp add: BOOT_SUCCESS_def PRINT_STRING_def)
  from boot_print_roundtrip [OF m this s d] show ?thesis
    by (auto simp: shown_def bstr_def)
qed

section \<open>Finding the Pi\<close>

lemma boot_drain_words:
  assumes "delivers f (concat (map bytes_of_u32 ws) @ bytes_of_u32 GET_PROG_INFO @ bs)"
    and "\<forall>w \<in> set ws. w \<noteq> PRINT_STRING \<and> w \<noteq> GET_PROG_INFO"
  shows "\<exists>f'. boot_drain out f = Inr (out, f') \<and> delivers f' bs \<and> wr f' = wr f"
  using assms
proof (induction ws arbitrary: f)
  case Nil
  have "GET_PROG_INFO \<noteq> PRINT_STRING" by (simp add: GET_PROG_INFO_def PRINT_STRING_def)
  with Nil get_op_plain [of f GET_PROG_INFO bs out] show ?case
    by (auto simp: boot_drain.simps [of out f])
next
  case (Cons w ws)
  have "delivers f (bytes_of_u32 w @ concat (map bytes_of_u32 ws) @ bytes_of_u32 GET_PROG_INFO @ bs)"
    using Cons.prems(1) by simp
  from get_op_plain [OF this, of out] Cons.prems(2) obtain f1 where
    f1: "get_op out f = Inr (w, out, f1)" "wr f1 = wr f"
      "delivers f1 (concat (map bytes_of_u32 ws) @ bytes_of_u32 GET_PROG_INFO @ bs)" by auto
  from Cons.IH [OF f1(3)] Cons.prems(2) f1 show ?case by (auto simp: boot_drain.simps [of out f])
qed

text \<open>
  The wait sends its request again only after 300 ms, also when the timer wraps around: the
  observations are \<open>d\<close> microseconds after the start \<open>s\<close>, modulo \<open>2 ^ 32\<close>.
\<close>

lemma wait_rounds_data:
  assumes "\<forall>d \<in> set ds. unat d < 300000" "unat e < 300000"
  shows "wait_rounds s (map (\<lambda>d. (s + d, False)) ds @ (s + e, True) # r) u = Inr u"
  using assms by (induction ds) (simp_all add: word_less_nat_alt)

lemma wait_rounds_timeout:
  assumes "\<forall>d \<in> set ds. unat d < 300000" "300000 \<le> unat e"
  shows "wait_rounds s (map (\<lambda>d. (s + d, False)) ds @ (s + e, b) # r) u = wait_send r u"
  using assms by (induction ds) (simp_all add: word_less_nat_alt)

text \<open>
  The handshake of the bootloader: when the Pi sees data within 300 ms of its request,
  measured across a wrap-around of the timer, it has sent exactly one \<open>GET_PROG_INFO\<close>, and the
  laptop, after discarding any garbage words on the line, takes exactly that word and is left
  with the \<open>BOOT_SUCCESS\<close> behind it.
\<close>
lemma boot_handshake:
  assumes "\<forall>d \<in> set ds. unat d < 300000" "unat e < 300000"
    and "\<forall>w \<in> set ws. w \<noteq> PRINT_STRING \<and> w \<noteq> GET_PROG_INFO"
    and "uout u = []"
    and "\<And>u'. boot_notmain ((s, b) # map (\<lambda>d. (s + d, False)) ds @ [(s + e, True)]) u = Inr (ARMBASE, u')
        \<Longrightarrow> delivers f (concat (map bytes_of_u32 ws) @ uout u')"
  shows "\<exists>f1 f2. boot_drain [] f = Inr ([], f1) \<and> get_op [] f1 = Inr (BOOT_SUCCESS, [], f2) \<and> delivers f2 []"
proof -
  let ?u = "pi_put_uint BOOT_SUCCESS (pi_put_uint GET_PROG_INFO u)"
  have "boot_notmain ((s, b) # map (\<lambda>d. (s + d, False)) ds @ [(s + e, True)]) u = Inr (ARMBASE, ?u)"
    using wait_rounds_data [OF assms(1,2), of s "[]"] by (simp add: boot_notmain_def wait_for_data_def)
  from assms(5) [OF this] have
    "delivers f (concat (map bytes_of_u32 ws) @ bytes_of_u32 GET_PROG_INFO @ bytes_of_u32 BOOT_SUCCESS @ [])"
    using assms(4) by (simp add: pi_put_uint_out)
  from boot_drain_words [OF this assms(3), of "[]"] obtain f1 where
    f1: "boot_drain [] f = Inr ([], f1)" "delivers f1 (bytes_of_u32 BOOT_SUCCESS @ [])" by auto
  have "BOOT_SUCCESS \<noteq> PRINT_STRING" by (simp add: BOOT_SUCCESS_def PRINT_STRING_def)
  from get_op_plain [OF f1(2) this, of "[]"] f1 show ?thesis by auto
qed
end
