(* ===== verification/Pi_Runtime.thy ===== *)
theory Pi_Runtime
  imports Mmu Circular Unix_Io Printk
begin

text \<open>
  The run-time support of \<^verbatim>\<open>libpi\<close> and its interrupt examples: start-up code, delays, caches and
  the control block (\<^verbatim>\<open>cs140e-src\<close>), timer interrupts (\<^verbatim>\<open>cs140e-interrupt\<close>), the set-up of the
  software uart, and the interrupt handlers of \<^verbatim>\<open>labs/7-interrupts/timer-int\<close> and
  \<^verbatim>\<open>labs/8-device-interrupts/part1-gpio-int\<close>. A clock is the list of the values its next reads
  return.
\<close>

section \<open>Start-up and reboot\<close>

text \<open>
  \<open>_cstart\<close> clears words from \<open>__bss_start__\<close> while the pointer is below \<open>__bss_end__\<close>: the number
  of rounds is the distance in words, rounded up. Pointers do not wrap around.
\<close>

definition bss_rounds :: "u32 \<Rightarrow> u32 \<Rightarrow> nat" where
  "bss_rounds bss bss_end = (unat bss_end - unat bss + 3) div 4"

fun cstart_clear :: "nat \<Rightarrow> ram \<Rightarrow> u32 \<Rightarrow> ram" where
  "cstart_clear 0 m bss = m"
| "cstart_clear (Suc k) m bss = cstart_clear k (st32 m bss 0) (bss + 4)"

definition cstart_bss :: "ram \<Rightarrow> u32 \<Rightarrow> u32 \<Rightarrow> ram" where
  "cstart_bss m bss bss_end = cstart_clear (bss_rounds bss bss_end) m bss"

text \<open>\<open>clean_reboot\<close> prints the text that makes the laptop exit.\<close>

definition pi_clean_reboot :: "'s console \<Rightarrow> 's \<Rightarrow> 's result" where
  "pi_clean_reboot con s = putk con (cstring (bstr ''DONE!!!'' @ [10]) []) s"

text \<open>\<open>panic\<close> prints its place and message, then reboots.\<close>

definition pi_panic :: "'s console \<Rightarrow> bytes \<Rightarrow> u32 \<Rightarrow> bytes \<Rightarrow> 's \<Rightarrow> 's result" where
  "pi_panic con fname lineno msg s =
     rbind (putk con (cstring (bstr ''<PANIC>:'') []) s) (\<lambda>s1.
     rbind (printk con (cstring (bstr ''%s:%d: PANIC PANIC PANIC: %s'' @ [10]) [])
         [VStr fname, VInt lineno, VStr msg] s1) (\<lambda>(n, s2). Inr s2))"

section \<open>Time\<close>

text \<open>\<open>timer_delay_us\<close> on the values the timer will show; the remaining values are returned.\<close>

fun delay_us_loop :: "u32 \<Rightarrow> u32 \<Rightarrow> u32 list \<Rightarrow> u32 list result" where
  "delay_us_loop rb us [] = Inl OutOfInput"
| "delay_us_loop rb us (ra # clk) = (if us \<le> ra - rb then Inr clk else delay_us_loop rb us clk)"

fun timer_delay_us :: "u32 \<Rightarrow> u32 list \<Rightarrow> u32 list result" where
  "timer_delay_us us [] = Inl OutOfInput"
| "timer_delay_us us (rb # clk) = delay_us_loop rb us clk"

definition timer_delay_ms :: "u32 \<Rightarrow> u32 list \<Rightarrow> u32 list result" where
  "timer_delay_ms ms clk = timer_delay_us (ms * 1000) clk"

definition timer_delay_sec :: "u32 \<Rightarrow> u32 list \<Rightarrow> u32 list result" where
  "timer_delay_sec sec clk = timer_delay_ms (sec * 1000) clk"

fun delay_ncycles :: "u32 \<Rightarrow> u32 \<Rightarrow> u32 list \<Rightarrow> u32 list result" where
  "delay_ncycles start n [] = Inl OutOfInput"
| "delay_ncycles start n (c # cyc) = (if c - start < n then delay_ncycles start n cyc else Inr cyc)"

text \<open>Each round of the wait loops sees the level of the pin and then the clock.\<close>

fun wait_until_cyc :: "u32 \<Rightarrow> u32 \<Rightarrow> u32 \<Rightarrow> (u32 \<times> u32) list \<Rightarrow> bool result" where
  "wait_until_cyc v s ncycles [] = Inl OutOfInput"
| "wait_until_cyc v s ncycles ((level, c) # obs) =
     (if level = v then Inr True else if ncycles \<le> c - s then Inr False
      else wait_until_cyc v s ncycles obs)"

fun wait_until_usec_loop :: "u32 \<Rightarrow> u32 \<Rightarrow> u32 \<Rightarrow> (u32 \<times> u32) list \<Rightarrow> bool result" where
  "wait_until_usec_loop v start timeout_usec [] = Inl OutOfInput"
| "wait_until_usec_loop v start timeout_usec ((level, t) # obs) =
     (if level = v then Inr True else if timeout_usec < t - start then Inr False
      else wait_until_usec_loop v start timeout_usec obs)"

fun wait_until_usec :: "u32 \<Rightarrow> u32 \<Rightarrow> (u32 \<times> u32) list \<Rightarrow> bool result" where
  "wait_until_usec v timeout_usec [] = Inl OutOfInput"
| "wait_until_usec v timeout_usec ((level, start) # obs) =
     (if level = v then Inr True else wait_until_usec_loop v start timeout_usec obs)"

section \<open>Caches, the control block and the software uart\<close>

definition enable_cache :: "u32 \<Rightarrow> u32" where
  "enable_cache r = (r OR push_bit 12 1) OR push_bit 11 1"

definition disable_cache :: "u32 \<Rightarrow> u32" where
  "disable_cache r = (r AND NOT (push_bit 12 1)) AND NOT (push_bit 11 1)"

definition CTRL_BLK_ADDR :: u32 where "CTRL_BLK_ADDR = 0x9000000"
definition CTRL_BLK_MAGIC :: u32 where "CTRL_BLK_MAGIC = 0x12345678"

text \<open>\<open>sizeof c\<close> is the size of the pointer, 4, not of the block it points to.\<close>

definition cb_new :: "ram \<Rightarrow> u32 \<times> ram" where
  "cb_new m = (CTRL_BLK_ADDR, st32 (memset m CTRL_BLK_ADDR 0 4) CTRL_BLK_ADDR CTRL_BLK_MAGIC)"

definition cb_get_block :: "ram \<Rightarrow> u32" where
  "cb_get_block m = (if ld32 m CTRL_BLK_ADDR \<noteq> CTRL_BLK_MAGIC then 0 else CTRL_BLK_ADDR)"

record sw_uart_t =
  uart_tx :: u8
  uart_rx :: u8
  baud_rate :: u32
  cycle_per_bit :: u32

definition sw_uart_init_helper :: "u8 \<Rightarrow> u8 \<Rightarrow> u32 \<Rightarrow> u32 \<Rightarrow> sw_uart_t result" where
  "sw_uart_init_helper tx rx baud cyc_per_bit =
     (let mhz = 700 * 1000 * 1000; derived = cyc_per_bit * baud in
      rbind (c_assert (mhz - baud \<le> derived \<and> derived \<le> mhz + baud)
          ''(mhz - baud) <= derived && derived <= (mhz + baud)'') (\<lambda>_.
        Inr \<lparr>uart_tx = tx, uart_rx = rx, baud_rate = baud, cycle_per_bit = cyc_per_bit\<rparr>))"

definition sw_uart_init :: "u8 \<Rightarrow> u8 \<Rightarrow> u32 \<Rightarrow> sw_uart_t result" where
  "sw_uart_init tx rx baud = sw_uart_init_helper tx rx baud (700 * 1000 * 1000 div baud)"

section \<open>Timer interrupts\<close>

definition rpi_arm_timer_ctrl_t :: bf_layout where
  "rpi_arm_timer_ctrl_t =
     [('''', 1), (''use_32bit_counter'', 1), (''prescaler'', 2), (''_4'', 1), (''int_enabled'', 1),
      (''_6'', 1), (''timer_enabled'', 1), (''_8'', 1), (''counter_enabled'', 1), (''_10'', 6),
      (''counter_prescaler'', 7)]"

definition timer_check_offsets :: "unit result" where
  "timer_check_offsets =
     rbind (check_fields rpi_arm_timer_ctrl_t
       [(''use_32bit_counter'', 1, 1), (''prescaler'', 2, 2), (''int_enabled'', 5, 1),
        (''timer_enabled'', 7, 1), (''counter_enabled'', 9, 1), (''counter_prescaler'', 16, 7)]) (\<lambda>_.
     c_assert (sizeof_layout rpi_arm_timer_ctrl_t = 4) ''sizeof(rpi_arm_timer_ctrl_t) == 4'')"

definition Enable_Basic_IRQs :: u32 where "Enable_Basic_IRQs = 0x2000b200 + 0x18"
definition Disable_IRQs_1 :: u32 where "Disable_IRQs_1 = 0x2000b200 + 0x1c"
definition Disable_IRQs_2 :: u32 where "Disable_IRQs_2 = 0x2000b200 + 0x20"
definition RPI_BASIC_ARM_TIMER_IRQ :: u32 where "RPI_BASIC_ARM_TIMER_IRQ = push_bit 0 1"
definition arm_timer_Load :: u32 where "arm_timer_Load = 0x2000B400 + 0"
definition arm_timer_Control :: u32 where "arm_timer_Control = 0x2000B400 + 8"
definition arm_timer_IRQClear :: u32 where "arm_timer_IRQClear = 0x2000B400 + 12"

lemmas irq_registers [opcodes] =
  Enable_Basic_IRQs_def Disable_IRQs_1_def Disable_IRQs_2_def RPI_BASIC_ARM_TIMER_IRQ_def
  arm_timer_Load_def arm_timer_Control_def arm_timer_IRQClear_def

text \<open>The device writes \<open>timer_interrupt_init\<close> performs, in order.\<close>

definition timer_interrupt_init :: "u32 \<Rightarrow> (u32 \<times> u32) list result" where
  "timer_interrupt_init ncycles =
     rbind timer_check_offsets (\<lambda>_.
       Inr [(Enable_Basic_IRQs, RPI_BASIC_ARM_TIMER_IRQ), (arm_timer_Load, ncycles),
            (arm_timer_Control, push_bit 1 1 OR push_bit 7 1 OR push_bit 5 1 OR push_bit 2 1)])"

text \<open>\<open>int_init\<close>: two device writes, then the table of \<open>n\<close> words is copied to address 0.\<close>

definition int_init :: "ram \<Rightarrow> u32 \<Rightarrow> nat \<Rightarrow> (u32 \<times> u32) list \<times> ram" where
  "int_init m src n =
     ([(Disable_IRQs_1, 0xffffffff), (Disable_IRQs_2, 0xffffffff)], memcpy_words n m 0 src)"

text \<open>
  The handler of \<^verbatim>\<open>timer.c\<close>: the pending register and the clock are inputs; the device writes are
  returned with the state.
\<close>

record timer_t =
  irq_cnt :: u32
  period :: u32
  period_sum :: u32
  last_clk :: u32

definition interrupt_vector :: "u32 \<Rightarrow> u32 \<Rightarrow> timer_t \<Rightarrow> (u32 \<times> u32) list \<times> timer_t" where
  "interrupt_vector pending clk s =
     (if pending AND RPI_BASIC_ARM_TIMER_IRQ = 0 then ([], s)
      else
        (let p = (if last_clk s \<noteq> 0 then clk - last_clk s else 0) in
         ([(arm_timer_IRQClear, 1)],
          s\<lparr>irq_cnt := irq_cnt s + 1, period := p, period_sum := period_sum s + p, last_clk := clk\<rparr>)))"

section \<open>Passing characters from the interrupt handler\<close>

text \<open>
  \<^verbatim>\<open>0-circular-example.c\<close>: the handler pushes the next character of the message, the program pops
  as many characters as the message has.
\<close>

record hello_t =
  putQ :: cq_t
  hello_pos :: nat
  ninterrupt :: u32

definition hello :: bytes where
  "hello = bstr ''hello world'' @ [0]"

definition hello_vector :: "u32 \<Rightarrow> u32 \<Rightarrow> hello_t \<Rightarrow> hello_t result" where
  "hello_vector N pending s =
     (if pending AND RPI_BASIC_ARM_TIMER_IRQ = 0 then Inr s
      else
        rbind (arr_get hello (hello_pos s)) (\<lambda>c.
        rbind (if c \<noteq> 0
               then rbind (cq_push N (putQ s) c) (\<lambda>(ok, q). Inr (s\<lparr>putQ := q, hello_pos := hello_pos s + 1\<rparr>))
               else Inr s) (\<lambda>s1.
          Inr (s1\<lparr>ninterrupt := ninterrupt s1 + 1\<rparr>))))"

text \<open>The pops of \<open>notmain\<close>, each after the interrupts that came in before it.\<close>

fun hello_irqs :: "u32 \<Rightarrow> nat \<Rightarrow> hello_t \<Rightarrow> hello_t result" where
  "hello_irqs N 0 s = Inr s"
| "hello_irqs N (Suc k) s = rbind (hello_vector N RPI_BASIC_ARM_TIMER_IRQ s) (hello_irqs N k)"

fun hello_pops :: "u32 \<Rightarrow> nat list \<Rightarrow> hello_t \<Rightarrow> (bytes \<times> hello_t) result" where
  "hello_pops N [] s = Inr ([], s)"
| "hello_pops N (k # ks) s =
     rbind (hello_irqs N k s) (\<lambda>s1.
     rbind (cq_pop N (putQ s1)) (\<lambda>(c, q).
       if c = 0 then Inr ([], s1\<lparr>putQ := q\<rparr>)
       else rbind (hello_pops N ks (s1\<lparr>putQ := q\<rparr>)) (\<lambda>(cs, s2). Inr (c # cs, s2))))"

definition hello_notmain :: "u32 \<Rightarrow> nat list \<Rightarrow> hello_t \<Rightarrow> (bytes \<times> hello_t) result" where
  "hello_notmain N ks s =
     rbind (strlen hello) (\<lambda>n.
     rbind (hello_pops N (take (unat n) ks) s) (\<lambda>(cs, s1).
     rbind (c_assert (unat n = length cs) ''n == i'') (\<lambda>_. Inr (cs, s1))))"

section \<open>The start-up code clears exactly the bss\<close>

lemma mem_fill_0 [simp]: "mem_fill m d c 0 = m"
  by (simp add: mem_fill_def)

lemma unat_sub_lt_4:
  fixes a p :: u32
  shows "unat (a - p) < 4 \<longleftrightarrow> a = p \<or> a = p + 1 \<or> a = p + 2 \<or> a = p + 3"
proof -
  have "unat (a - p) < 4 \<longleftrightarrow> unat (a - p) \<in> {0, 1, 2, 3}" by auto
  also have "\<dots> \<longleftrightarrow> a - p = 0 \<or> a - p = 1 \<or> a - p = 2 \<or> a - p = 3"
    by (simp add: word_unat_eq_iff)
  also have "\<dots> \<longleftrightarrow> a = p \<or> a = p + 1 \<or> a = p + 2 \<or> a = p + 3"
    by (auto simp: diff_eq_eq add.commute)
  finally show ?thesis .
qed

lemma st32_zero: "st32 m p 0 = mem_fill m p 0 4"
  by (rule ext) (auto simp: st32_def mem_fill_def byte_of_def unat_sub_lt_4)

lemma unat_sub_4:
  fixes a p :: u32
  assumes "4 \<le> unat (a - p)"
  shows "unat (a - (p + 4)) = unat (a - p) - 4"
proof -
  define x where "x = a - p"
  have "a - (p + 4) = x - 4" by (simp add: x_def)
  moreover have "unat (x - 4) = unat x - 4"
    using assms by (simp add: unat_sub_u32 word_le_nat_alt x_def [symmetric])
  ultimately show ?thesis by (simp only: x_def)
qed

lemma unat_sub_4_small:
  fixes a p :: u32
  assumes "unat (a - p) < 4" "n + 4 \<le> 2 ^ 32"
  shows "\<not> unat (a - (p + 4)) < n"
proof -
  define x where "x = a - p"
  have "a - (p + 4) = x - 4" by (simp add: x_def)
  moreover have "unat (x - 4) = unat x + 2 ^ 32 - 4"
    using assms(1) by (simp add: unat_sub_if' x_def [symmetric])
  ultimately have "unat (a - (p + 4)) = unat x + 2 ^ 32 - 4" by (simp only:)
  then show ?thesis using assms(2) by linarith
qed

lemma mem_fill_step:
  assumes "n + 4 \<le> 2 ^ 32"
  shows "mem_fill (mem_fill m p c 4) (p + 4) c n = mem_fill m p c (n + 4)"
proof (rule ext)
  fix a
  show "mem_fill (mem_fill m p c 4) (p + 4) c n a = mem_fill m p c (n + 4) a"
  proof (cases "unat (a - p) < 4")
    case True
    then show ?thesis using unat_sub_4_small [OF True assms] by (simp add: mem_fill_def)
  next
    case False
    then show ?thesis using unat_sub_4 [of a p] by (auto simp: mem_fill_def)
  qed
qed

lemma cstart_clear_eq: "4 * k \<le> 2 ^ 32 \<Longrightarrow> cstart_clear k m p = mem_fill m p 0 (4 * k)"
proof (induction k arbitrary: m p)
  case (Suc k)
  then have "4 * k + 4 \<le> 2 ^ 32" by simp
  with Suc mem_fill_step [of "4 * k" m p 0] show ?case by (simp add: st32_zero add.commute)
qed simp

text \<open>
  \<open>_cstart\<close> clears the bss: when its bounds are a multiple of four bytes apart, exactly the
  bytes between them are zero and all others are unchanged. When they are not, up to three bytes
  behind the end are cleared too.
\<close>

lemma cstart_bss_rounds:
  assumes "unat bss \<le> unat bss_end" "unat bss_end + 3 < 2 ^ 32"
  shows "cstart_bss m bss bss_end = mem_fill m bss 0 (4 * ((unat bss_end - unat bss + 3) div 4))"
proof -
  let ?k = "(unat bss_end - unat bss + 3) div 4"
  have "4 * ?k \<le> unat bss_end - unat bss + 3" by simp
  then have "4 * ?k \<le> 2 ^ 32" using assms(2) by linarith
  then show ?thesis by (simp add: cstart_bss_def bss_rounds_def cstart_clear_eq)
qed

lemma cstart_clears_bss:
  assumes "unat bss \<le> unat bss_end" "unat bss_end + 3 < 2 ^ 32" "4 dvd unat bss_end - unat bss"
  shows "cstart_bss m bss bss_end = mem_fill m bss 0 (unat bss_end - unat bss)"
proof -
  obtain j where "unat bss_end - unat bss = 4 * j" using assms(3) by (elim dvdE)
  then show ?thesis using cstart_bss_rounds [OF assms(1,2)] by simp
qed

section \<open>Delays across the wrap-around of the clock\<close>

lemma delay_us_loop_stops:
  assumes "\<forall>d \<in> set ds. d < us" "us \<le> e"
  shows "delay_us_loop rb us (map (\<lambda>d. rb + d) ds @ (rb + e) # clk) = Inr clk"
  using assms by (induction ds) auto

text \<open>\<open>timer_delay_us\<close> ends at the first read at least \<open>us\<close> microseconds after its start.\<close>

lemma delay_us_exact:
  assumes "\<forall>d \<in> set ds. d < us" "us \<le> e"
  shows "timer_delay_us us (rb # map (\<lambda>d. rb + d) ds @ (rb + e) # clk) = Inr clk"
  using delay_us_loop_stops [OF assms] by simp

lemma delay_ncycles_exact:
  assumes "\<forall>d \<in> set ds. d < n" "n \<le> e"
  shows "delay_ncycles s n (map (\<lambda>d. s + d) ds @ (s + e) # cyc) = Inr cyc"
  using assms by (induction ds) auto

text \<open>The product of \<open>timer_delay_ms\<close> wraps around: a delay of 4294968 ms lasts 704 microseconds.\<close>

lemma delay_ms_wraps: "timer_delay_ms 4294968 clk = timer_delay_us 704 clk"
proof -
  have "(4294968 * 1000 :: u32) = 704" by (simp add: word_unat_eq_iff)
  then show ?thesis by (simp only: timer_delay_ms_def)
qed

lemma delay_sec_wraps: "timer_delay_sec 4295 clk = timer_delay_us 32704 clk"
proof -
  have "(4295 * 1000 * 1000 :: u32) = 32704" by (simp add: word_unat_eq_iff)
  then show ?thesis by (simp only: timer_delay_sec_def timer_delay_ms_def)
qed

section \<open>Set-up\<close>

text \<open>
  The assertion on the bit time holds for every baud rate up to the clock rate: the rounded
  number of cycles per bit is off by less than one baud.
\<close>

lemma sw_uart_init_ok:
  assumes "0 < unat baud" "unat baud \<le> 700000000"
  shows "\<exists>u. sw_uart_init tx rx baud = Inr u \<and> unat (cycle_per_bit u) = 700000000 div unat baud"
proof -
  let ?q = "700000000 div unat baud"
  have q: "unat (700000000 div baud :: u32) = ?q" by (simp add: unat_div)
  have le: "?q * unat baud \<le> 700000000" by simp
  have qb: "?q < 2 ^ 32" by (rule le_less_trans [OF div_le_dividend]) simp
  have lt: "?q * unat baud < 4294967296" by (rule le_less_trans [OF le]) simp
  have gt: "700000000 - unat baud \<le> ?q * unat baud"
    using div_mult_mod_eq [of 700000000 "unat baud"] mod_less_divisor [OF assms(1), of 700000000]
    by linarith
  have d: "unat ((700000000 div baud) * baud) = ?q * unat baud"
    using qb lt by (simp add: unat_word_ariths q mod_less [OF lt])
  have a: "unat (700000000 - baud) = 700000000 - unat baud"
    using assms(2) by (simp add: unat_sub_u32 word_le_nat_alt)
  have b: "unat (700000000 + baud) = 700000000 + unat baud"
    using assms(2) by (simp add: unat_word_ariths)
  have "700000000 - baud \<le> (700000000 div baud) * baud \<and> (700000000 div baud) * baud \<le> 700000000 + baud"
    using gt trans_le_add1 [OF le, of "unat baud"] by (simp add: word_le_nat_alt a b d)
  then show ?thesis using q by (simp add: sw_uart_init_def sw_uart_init_helper_def)
qed

lemma disable_enable_cache:
  "disable_cache (enable_cache r) = disable_cache r" "enable_cache (enable_cache r) = enable_cache r"
  by (rule bit_word_eqI, auto simp: disable_cache_def enable_cache_def bit_simps)+

text \<open>
  The control block is found again, but only its magic number was initialised: every byte behind
  the first four is as it was.
\<close>

lemma cb_new_found: "cb_get_block (snd (cb_new m)) = fst (cb_new m)"
  by (simp add: cb_get_block_def cb_new_def)

lemma cb_new_stale: "4 \<le> unat (a - CTRL_BLK_ADDR) \<Longrightarrow> snd (cb_new m) a = m a"
  using unat_sub_lt_4 [of a CTRL_BLK_ADDR]
  by (auto simp: cb_new_def memset_eq CTRL_BLK_ADDR_def mem_fill_def st32_def)

lemma timer_check_offsets_ok: "timer_check_offsets = Inr ()"
  by (simp add: timer_check_offsets_def rpi_arm_timer_ctrl_t_def layouts check_bitfield_def Let_def)

lemma timer_interrupt_init_ok: "timer_interrupt_init n =
  Inr [(Enable_Basic_IRQs, 1), (arm_timer_Load, n), (arm_timer_Control, 0xA6)]"
  by (simp add: timer_interrupt_init_def timer_check_offsets_ok RPI_BASIC_ARM_TIMER_IRQ_def)

section \<open>The timer handler\<close>

text \<open>The handler run on timer interrupts at the given clock values.\<close>

fun timer_irqs :: "u32 list \<Rightarrow> timer_t \<Rightarrow> timer_t" where
  "timer_irqs [] s = s"
| "timer_irqs (c # cs) s = timer_irqs cs (snd (interrupt_vector RPI_BASIC_ARM_TIMER_IRQ c s))"

lemma interrupt_vector_timer:
  "snd (interrupt_vector RPI_BASIC_ARM_TIMER_IRQ c s) =
     (let p = (if last_clk s \<noteq> 0 then c - last_clk s else 0) in
      s\<lparr>irq_cnt := irq_cnt s + 1, period := p, period_sum := period_sum s + p, last_clk := c\<rparr>)"
  by (simp add: interrupt_vector_def RPI_BASIC_ARM_TIMER_IRQ_def Let_def)

lemma timer_irqs_running:
  assumes "0 \<notin> set cs" "last_clk s \<noteq> 0"
  shows "irq_cnt (timer_irqs cs s) = irq_cnt s + word_of_nat (length cs)
    \<and> period_sum (timer_irqs cs s) = period_sum s + (last (last_clk s # cs) - last_clk s)
    \<and> last_clk (timer_irqs cs s) = last (last_clk s # cs)"
  using assms by (induction cs arbitrary: s) (auto simp: interrupt_vector_timer Let_def)

text \<open>
  The statistics of \<^verbatim>\<open>timer.c\<close>: after interrupts at nonzero clock values the sum of the periods is
  the time from the first to the last, across wrap-arounds of the clock, so the average the
  program prints is right. Other interrupts change nothing.
\<close>

lemma timer_stats:
  assumes "0 \<notin> set (c # cs)" "irq_cnt s = 0" "period_sum s = 0" "last_clk s = 0"
  shows "irq_cnt (timer_irqs (c # cs) s) = word_of_nat (length (c # cs))
    \<and> period_sum (timer_irqs (c # cs) s) = last (c # cs) - c"
  using assms timer_irqs_running [of cs "snd (interrupt_vector RPI_BASIC_ARM_TIMER_IRQ c s)"]
  by (simp add: interrupt_vector_timer)

lemma other_irq_ignored: "pending AND RPI_BASIC_ARM_TIMER_IRQ = 0 \<Longrightarrow> interrupt_vector pending c s = ([], s)"
  by (simp add: interrupt_vector_def)

section \<open>Characters through the queue\<close>

definition message :: bytes where
  "message = bstr ''hello world''"

lemma length_message: "length message = 11"
  by (simp add: message_def bstr_def)

lemma message_no_nul: "0 \<notin> set message"
  by (simp add: message_def bstr_def)

lemma message_nth: "i < 11 \<Longrightarrow> message ! i \<noteq> 0"
  by (metis length_message message_no_nul nth_mem)

lemma hello_message: "hello = message @ [0]"
  by (simp add: hello_def message_def)

text \<open>After \<open>k\<close> interrupts and \<open>j\<close> pops.\<close>

definition hello_inv :: "u32 \<Rightarrow> nat \<Rightarrow> nat \<Rightarrow> hello_t \<Rightarrow> bool" where
  "hello_inv N k j s \<longleftrightarrow> cq_inv N (putQ s) \<and> 13 \<le> unat N \<and> j \<le> min k 11
     \<and> cq_list N (putQ s) = drop j (take (min k 11) message) \<and> hello_pos s = min k 11"

lemma hello_vector_step:
  assumes "hello_inv N k j s"
  shows "\<exists>s'. hello_vector N RPI_BASIC_ARM_TIMER_IRQ s = Inr s' \<and> hello_inv N (Suc k) j s'"
proof -
  have irq: "RPI_BASIC_ARM_TIMER_IRQ AND RPI_BASIC_ARM_TIMER_IRQ \<noteq> 0"
    by (simp add: RPI_BASIC_ARM_TIMER_IRQ_def)
  have inv: "cq_inv N (putQ s)" and l: "cq_list N (putQ s) = drop j (take (min k 11) message)"
    and p: "hello_pos s = min k 11" and N: "13 \<le> unat N" and j: "j \<le> min k 11"
    using assms by (simp_all add: hello_inv_def)
  show ?thesis
  proof (cases "k < 11")
    case True
    then have c: "arr_get hello (hello_pos s) = Inr (message ! k)" "message ! k \<noteq> 0"
      using p message_nth [of k]
      by (auto simp: hello_message arr_get_def nth_append length_message)
    have "\<not> cq_full N (putQ s)"
      using cq_full_iff [OF inv] l N True by (auto simp: length_message)
    then obtain q where q: "cq_push N (putQ s) (message ! k) = Inr (True, q)" "cq_inv N q"
        "cq_list N q = cq_list N (putQ s) @ [message ! k]"
      using cq_push_ok [OF inv, of "message ! k"] by metis
    have "take (Suc k) message = take k message @ [message ! k]"
      using True by (simp add: take_Suc_conv_app_nth length_message)
    then show ?thesis
      using irq c q l p N j True
      by (auto simp: hello_vector_def hello_inv_def min_def length_message)
  next
    case False
    then have "arr_get hello (hello_pos s) = Inr 0"
      using p by (simp add: hello_message arr_get_def nth_append length_message)
    then show ?thesis using irq assms False by (auto simp: hello_vector_def hello_inv_def)
  qed
qed

lemma hello_irqs_steps:
  "hello_inv N k j s \<Longrightarrow> \<exists>s'. hello_irqs N n s = Inr s' \<and> hello_inv N (k + n) j s'"
proof (induction n arbitrary: k s)
  case (Suc n)
  obtain s1 where s1: "hello_vector N RPI_BASIC_ARM_TIMER_IRQ s = Inr s1" "hello_inv N (Suc k) j s1"
    using hello_vector_step [OF Suc.prems] by blast
  from Suc.IH [OF s1(2)] s1(1) show ?case by simp
qed auto

lemma hello_pop_step:
  assumes "hello_inv N k j s" "j < min k 11"
  shows "\<exists>q. cq_pop N (putQ s) = Inr (message ! j, q) \<and> hello_inv N k (Suc j) (s\<lparr>putQ := q\<rparr>)"
proof -
  have inv: "cq_inv N (putQ s)" using assms(1) by (simp add: hello_inv_def)
  have "cq_list N (putQ s) = message ! j # drop (Suc j) (take (min k 11) message)"
    using assms by (simp add: hello_inv_def Cons_nth_drop_Suc [symmetric] length_message)
  from cq_pop_Cons [OF inv this] assms show ?thesis by (auto simp: hello_inv_def)
qed

lemma hello_pops_steps:
  "hello_inv N k j s \<Longrightarrow> j + length ks \<le> 11 \<Longrightarrow>
   (\<forall>i < length ks. j + i < k + sum_list (take (Suc i) ks)) \<Longrightarrow>
   \<exists>s'. hello_pops N ks s = Inr (take (length ks) (drop j message), s')"
proof (induction ks arbitrary: k j s)
  case (Cons n ks)
  obtain s1 where s1: "hello_irqs N n s = Inr s1" "hello_inv N (k + n) j s1"
    using hello_irqs_steps [OF Cons.prems(1)] by blast
  have j: "j < min (k + n) 11" using Cons.prems(2) Cons.prems(3) [rule_format, of 0] by simp
  obtain q where q: "cq_pop N (putQ s1) = Inr (message ! j, q)"
      "hello_inv N (k + n) (Suc j) (s1\<lparr>putQ := q\<rparr>)"
    using hello_pop_step [OF s1(2) j] by blast
  have later: "\<forall>i < length ks. Suc j + i < k + n + sum_list (take (Suc i) ks)"
    using Cons.prems(3) by (auto dest: spec [of _ "Suc _"])
  obtain s2 where s2: "hello_pops N ks (s1\<lparr>putQ := q\<rparr>) = Inr (take (length ks) (drop (Suc j) message), s2)"
    using Cons.IH [OF q(2) _ later] Cons.prems(2) by auto
  have "message ! j \<noteq> 0" using message_nth j by simp
  moreover have "drop j message = message ! j # drop (Suc j) message"
    using j by (simp add: Cons_nth_drop_Suc length_message)
  ultimately show ?case using s1(1) q(1) s2 by simp
qed simp

lemma strlen_hello: "strlen hello = Inr 11"
  by (simp add: strlen_def hello_def bstr_def)

text \<open>
  The interrupt example hands the message over intact: whenever before each pop more
  interrupts than pops have happened, the program reads exactly the characters of the message in
  order and its final assertion holds. When the first pop comes before the first interrupt, the
  program stops in the panic of \<open>cq_pop\<close>.
\<close>
theorem hello_handed_over:
  assumes "cq_size_ok N" "13 \<le> unat N" "cq_init N e = Inr c0"
    and "length ks = 11" "\<forall>i < 11. i < sum_list (take (Suc i) ks)"
  shows "(\<exists>s'. hello_notmain N ks \<lparr>putQ = c0, hello_pos = 0, ninterrupt = 0\<rparr> = Inr (bstr ''hello world'', s'))
    \<and> hello_notmain N (0 # ks) \<lparr>putQ = c0, hello_pos = 0, ninterrupt = 0\<rparr>
      = Inl (Panic ''will deadlock: interrupts not enabled'')"
proof
  let ?s = "\<lparr>putQ = c0, hello_pos = 0, ninterrupt = 0\<rparr>"
  have c0: "cq_inv N c0" "cq_list N c0 = []" using cq_init_ok [OF assms(1), of e] assms(3) by auto
  then have inv: "hello_inv N 0 0 ?s" using assms(2) by (simp add: hello_inv_def)
  show "\<exists>s'. hello_notmain N ks ?s = Inr (bstr ''hello world'', s')"
    using hello_pops_steps [OF inv, of ks] assms(4,5)
    by (auto simp: hello_notmain_def strlen_hello length_message message_def [symmetric])
  show "hello_notmain N (0 # ks) ?s = Inl (Panic ''will deadlock: interrupts not enabled'')"
    using cq_pop_Nil [OF c0] by (simp add: hello_notmain_def strlen_hello take_Cons')
qed

definition hello_ring :: cq_t where
  "hello_ring = \<lparr>c_buf = replicate 16 0, fence = 0x12345678, head = 0, tail = 0, overflow = 0,
     errors_fatal_p = 1\<rparr>"

theorem hello_handed_over_witness:
  "\<exists>s'. hello_notmain 16 [2, 0, 2, 1, 1, 1, 1, 1, 1, 1, 1] \<lparr>putQ = hello_ring, hello_pos = 0, ninterrupt = 0\<rparr>
     = Inr (bstr ''hello world'', s')"
proof -
  have s: "cq_size_ok 16" by (simp add: cq_size_ok_def)
  have i: "cq_init 16 1 = Inr hello_ring"
    by (simp add: cq_init_def hello_ring_def cq_empty_def cq_full_def cq_nelem_def cq_pop_nonblock_def)
  have k: "\<forall>i < 11. i < sum_list (take (Suc i) [2, 0, 2, 1, 1, 1, 1, 1, 1, 1, 1 :: nat])"
    by (simp add: All_less_Suc eval_nat_numeral)
  show ?thesis using hello_handed_over [OF s _ i _ k] by simp
qed

end
