(* ===== verification/Fake_Pi.thy ===== *)
theory Fake_Pi
  imports Pi_Runtime
begin

text \<open>
  Running a Pi program on the laptop, \<^verbatim>\<open>labs/11-fuse/2-fake-pi\<close>: the runtime \<^verbatim>\<open>unix-side/fake-pi.c\<close>
  turns the program's \<open>put32\<close> and \<open>get32\<close> into messages of \<^verbatim>\<open>libpi/pi-message.h\<close>, and the server
  \<^verbatim>\<open>pi-side/pi-vmm.c\<close> on the Pi performs them. The device the Pi reads and writes (its memory and
  peripherals, \<open>GET32\<close> and \<open>PUT32\<close>) is a parameter.
\<close>

section \<open>Opcodes\<close>

definition PI_READY :: u8 where "PI_READY = 1"
definition PI_PRINT_CHAR :: u8 where "PI_PRINT_CHAR = 3"
definition PI_REBOOT :: u8 where "PI_REBOOT = 4"
definition PI_GPIO_READ :: u8 where "PI_GPIO_READ = 9"
definition PI_GPIO_WRITE :: u8 where "PI_GPIO_WRITE = 11"
definition PI_GPIO_SET_INPUT :: u8 where "PI_GPIO_SET_INPUT = 12"
definition PI_GPIO_SET_OUTPUT :: u8 where "PI_GPIO_SET_OUTPUT = 13"
definition PI_PUT32 :: u8 where "PI_PUT32 = 14"
definition PI_GET32 :: u8 where "PI_GET32 = 15"
definition PI_GET32_REPLY :: u8 where "PI_GET32_REPLY = 16"

lemmas pi_opcodes [opcodes] =
  PI_READY_def PI_PRINT_CHAR_def PI_REBOOT_def PI_GPIO_READ_def PI_GPIO_WRITE_def
  PI_GPIO_SET_INPUT_def PI_GPIO_SET_OUTPUT_def PI_PUT32_def PI_GET32_def PI_GET32_REPLY_def

section \<open>The Pi side: the server\<close>

text \<open>The uart of the Pi, through the interrupt-driven queues, and the device.\<close>

record 'd vmm_t =
  vin :: bytes
  vout :: bytes
  dev :: 'd

record 'd device =
  GET32 :: "u32 \<Rightarrow> 'd \<Rightarrow> u32 \<times> 'd"
  PUT32 :: "u32 \<Rightarrow> u32 \<Rightarrow> 'd \<Rightarrow> 'd"

definition vmm_get_byte :: "'d vmm_t \<Rightarrow> (u8 \<times> 'd vmm_t) result" where
  "vmm_get_byte s = (case vin s of [] \<Rightarrow> Inl OutOfInput | c # r \<Rightarrow> Inr (c, s\<lparr>vin := r\<rparr>))"

definition vmm_put_byte :: "u8 \<Rightarrow> 'd vmm_t \<Rightarrow> 'd vmm_t" where
  "vmm_put_byte c s = s\<lparr>vout := vout s @ [c]\<rparr>"

fun vmm_read_exact :: "nat \<Rightarrow> 'd vmm_t \<Rightarrow> (bytes \<times> 'd vmm_t) result" where
  "vmm_read_exact 0 s = Inr ([], s)"
| "vmm_read_exact (Suc n) s =
     rbind (vmm_get_byte s) (\<lambda>(c, s1). rbind (vmm_read_exact n s1) (\<lambda>(cs, s2). Inr (c # cs, s2)))"

fun vmm_write_exact :: "bytes \<Rightarrow> 'd vmm_t \<Rightarrow> 'd vmm_t" where
  "vmm_write_exact [] s = s"
| "vmm_write_exact (c # cs) s = vmm_write_exact cs (vmm_put_byte c s)"

text \<open>A 32-bit integer in memory is its four bytes, lowest first, on both machines.\<close>

fun u32_of_bytes :: "bytes \<Rightarrow> u32" where
  "u32_of_bytes [b0, b1, b2, b3] = le32 b0 b1 b2 b3"
| "u32_of_bytes _ = 0"

definition vmm_get_uint32 :: "'d vmm_t \<Rightarrow> (u32 \<times> 'd vmm_t) result" where
  "vmm_get_uint32 s = rbind (vmm_read_exact 4 s) (\<lambda>(bs, s1). Inr (u32_of_bytes bs, s1))"

definition vmm_put_uint32 :: "u32 \<Rightarrow> 'd vmm_t \<Rightarrow> 'd vmm_t" where
  "vmm_put_uint32 u s = vmm_write_exact (bytes_of_u32 u) s"

text \<open>\<open>net_putchar\<close>, installed as the output hook of \<open>printk\<close>.\<close>

definition net_putchar :: "u8 \<Rightarrow> 'd vmm_t \<Rightarrow> 'd vmm_t" where
  "net_putchar c s = vmm_put_byte c (vmm_put_byte PI_PRINT_CHAR s)"

definition vmm_console :: "'d vmm_t console" where
  "vmm_console = rpi_set_putc net_putchar \<lparr>rpi_putchar = \<lambda>c s. vmm_put_byte c s, putk_fp = None\<rparr>"

definition vmm_printk :: "bytes \<Rightarrow> 'd vmm_t \<Rightarrow> 'd vmm_t result" where
  "vmm_printk fmt s = rbind (printk vmm_console (cstring fmt []) [] s) (\<lambda>(n, s1). Inr s1)"

text \<open>One round of the server's loop; \<open>False\<close> says that the Pi rebooted.\<close>

definition vmm_round :: "'d device \<Rightarrow> 'd vmm_t \<Rightarrow> (bool \<times> 'd vmm_t) result" where
  "vmm_round D s =
     rbind (vmm_get_byte s) (\<lambda>(opc, s1).
       if opc = PI_REBOOT then rbind (vmm_printk (bstr ''PI: reboot'' @ [10]) s1) (\<lambda>s2.
         rbind (pi_clean_reboot vmm_console s2) (\<lambda>s3. Inr (False, s3)))
       else if opc = PI_GET32 then
         rbind (vmm_get_uint32 s1) (\<lambda>(addr, s2).
           case GET32 D addr (dev s2) of (val, d) \<Rightarrow>
             Inr (True, vmm_put_uint32 val (vmm_put_byte PI_GET32_REPLY (s2\<lparr>dev := d\<rparr>))))
       else if opc = PI_PUT32 then
         rbind (vmm_get_uint32 s1) (\<lambda>(addr, s2).
         rbind (vmm_get_uint32 s2) (\<lambda>(val, s3).
           Inr (True, s3\<lparr>dev := PUT32 D addr val (dev s3)\<rparr>)))
       else if opc = PI_GPIO_SET_INPUT \<or> opc = PI_GPIO_READ \<or> opc = PI_GPIO_SET_OUTPUT
         \<or> opc = PI_GPIO_WRITE then Inl Unimplemented
       else Inl (Panic ''unexpected op''))"

text \<open>
  The server reads until it is asked to reboot or waits for a byte that does not come. The
  number of rounds is bounded by the number of bytes, since each round takes at least one.
\<close>

fun vmm_loop :: "nat \<Rightarrow> 'd device \<Rightarrow> 'd vmm_t \<Rightarrow> 'd vmm_t result" where
  "vmm_loop 0 D s = Inl Diverges"
| "vmm_loop (Suc k) D s =
     (if vin s = [] then Inr s
      else rbind (vmm_round D s) (\<lambda>(go, s1). if go then vmm_loop k D s1 else Inr s1))"

definition vmm_notmain :: "'d device \<Rightarrow> 'd vmm_t \<Rightarrow> 'd vmm_t result" where
  "vmm_notmain D s =
     rbind (vmm_get_byte s) (\<lambda>(c, s1).
       if c \<noteq> PI_READY then Inl (Panic ''what is going on?'')
       else rbind (vmm_printk (bstr ''PI VMM: about to start pi vmm'' @ [10]) (vmm_put_byte PI_READY s1)) (\<lambda>s2.
         vmm_loop (Suc (length (vin s2))) D s2))"

section \<open>The laptop side: the runtime\<close>

definition put_uint8 :: "u8 \<Rightarrow> fd_t \<Rightarrow> fd_t result" where
  "put_uint8 b f = write_exact [b] f"

definition fput_uint32 :: "u32 \<Rightarrow> fd_t \<Rightarrow> fd_t result" where
  "fput_uint32 u f = write_exact (bytes_of_u32 u) f"

definition get_uint8 :: "fd_t \<Rightarrow> (u8 \<times> fd_t) result" where
  "get_uint8 f = rbind (read_exact 1 f) (\<lambda>(bs, f1). Inr (hd bs, f1))"

definition fget_uint32 :: "fd_t \<Rightarrow> (u32 \<times> fd_t) result" where
  "fget_uint32 f = rbind (read_exact 4 f) (\<lambda>(bs, f1). Inr (u32_of_bytes bs, f1))"

lemma get_uint8_smaller: "get_uint8 f = Inr (c, f') \<Longrightarrow> rd_left (rd f') < rd_left (rd f)"
  by (auto simp: get_uint8_def read_exact_def read_exact_can_fail_def os_read_def rbind_eq_Inr
      sys_die_def split: list.splits rd_ev.splits if_splits prod.splits option.splits)

text \<open>\<open>get_op\<close> with the text it has printed so far.\<close>

function vm_get_op :: "bytes \<Rightarrow> fd_t \<Rightarrow> (u8 \<times> bytes \<times> fd_t) result" where
  "vm_get_op out f =
     rbind (get_uint8 f) (\<lambda>(opc, f1).
       if opc \<noteq> PI_PRINT_CHAR then Inr (opc, out, f1)
       else rbind (get_uint8 f1) (\<lambda>(c, f2). vm_get_op (out @ [c]) f2))"
  by auto
termination
  by (relation "measure (\<lambda>(_, f). rd_left (rd f))") (auto dest!: get_uint8_smaller)

declare vm_get_op.simps [simp del]

definition expect_op :: "u8 \<Rightarrow> bytes \<Rightarrow> fd_t \<Rightarrow> (bytes \<times> fd_t) result" where
  "expect_op e out f =
     rbind (vm_get_op out f) (\<lambda>(got, out1, f1).
       if got = e then Inr (out1, f1) else Inl (Panic ''unexpected op''))"

text \<open>Addresses are pointers of the laptop, 64 bits wide; they must be 32-bit addresses of the Pi.\<close>

definition put32 :: "64 word \<Rightarrow> u32 \<Rightarrow> fd_t \<Rightarrow> fd_t result" where
  "put32 addr val f =
     (let x32 = ucast addr :: u32 in
      rbind (c_assert (ucast x32 = addr) ''x32 == x64'') (\<lambda>_.
      rbind (put_uint8 PI_PUT32 f) (\<lambda>f1.
      rbind (fput_uint32 (ucast addr) f1) (\<lambda>f2. fput_uint32 val f2))))"

definition get32 :: "64 word \<Rightarrow> bytes \<Rightarrow> fd_t \<Rightarrow> (u32 \<times> bytes \<times> fd_t) result" where
  "get32 addr out f =
     (let x32 = ucast addr :: u32 in
      rbind (c_assert (ucast x32 = addr) ''x32 == x64'') (\<lambda>_.
      rbind (put_uint8 PI_GET32 f) (\<lambda>f1.
      rbind (fput_uint32 (ucast addr) f1) (\<lambda>f2.
      rbind (expect_op PI_GET32_REPLY out f2) (\<lambda>(out1, f3).
      rbind (fget_uint32 f3) (\<lambda>(v, f4). Inr (v, out1, f4)))))))"

text \<open>\<open>clean_reboot\<close> asks the Pi to reboot and then prints what still arrives, one opcode at a time.\<close>

lemma vm_get_op_smaller: "vm_get_op out f = Inr (c, out', f') \<Longrightarrow> rd_left (rd f') < rd_left (rd f)"
proof (induction out f rule: vm_get_op.induct)
  case (1 out f)
  from "1.prems" obtain w f1 where w: "get_uint8 f = Inr (w, f1)"
    and r: "(if w \<noteq> PI_PRINT_CHAR then Inr (w, out, f1)
       else rbind (get_uint8 f1) (\<lambda>(c, f2). vm_get_op (out @ [c]) f2)) = Inr (c, out', f')"
    by (subst (asm) vm_get_op.simps) (auto simp: rbind_eq_Inr)
  show ?case
  proof (cases "w = PI_PRINT_CHAR")
    case False
    with r get_uint8_smaller [OF w] show ?thesis by simp
  next
    case True
    with r obtain x f2 where x: "get_uint8 f1 = Inr (x, f2)" "vm_get_op (out @ [x]) f2 = Inr (c, out', f')"
      by (auto simp: rbind_eq_Inr)
    from "1.IH" [OF w refl _ x(1) refl x(2)] True get_uint8_smaller [OF w] get_uint8_smaller [OF x(1)]
    show ?thesis by simp
  qed
qed

lemma can_read_same: "(True, f') = can_read_timeout f \<Longrightarrow> f' = f"
  by (auto simp: can_read_timeout_def split: list.splits rd_ev.splits)

function reboot_drain :: "bytes \<Rightarrow> fd_t \<Rightarrow> (bytes \<times> fd_t) result" where
  "reboot_drain out f =
     (let (ready, f1) = can_read_timeout f in
      if \<not> ready then Inr (out, f1)
      else rbind (vm_get_op out f1) (\<lambda>(opc, out1, f2). reboot_drain out1 f2))"
  by auto
termination
  by (relation "measure (\<lambda>(_, f). rd_left (rd f))") (auto dest!: vm_get_op_smaller can_read_same)

declare reboot_drain.simps [simp del]

definition fake_clean_reboot :: "bytes \<Rightarrow> fd_t \<Rightarrow> (bytes \<times> fd_t) result" where
  "fake_clean_reboot out f = rbind (put_uint8 PI_REBOOT f) (reboot_drain out)"

text \<open>The handshake of \<open>main\<close>: ping until something can be read. \<open>k\<close> bounds the pings.\<close>

fun ping :: "nat \<Rightarrow> fd_t \<Rightarrow> (bytes \<times> fd_t) result" where
  "ping 0 f = Inl Diverges"
| "ping (Suc k) f =
     rbind (put_uint8 PI_READY f) (\<lambda>f1.
       case can_read_timeout f1 of (ready, f2) \<Rightarrow>
         if ready then expect_op PI_READY [] f2 else ping k f2)"

definition fake_main ::
  "nat \<Rightarrow> (bytes \<Rightarrow> fd_t \<Rightarrow> (bytes \<times> fd_t) result) \<Rightarrow> fd_t \<Rightarrow> (bytes \<times> fd_t) result" where
  "fake_main k notmain f =
     rbind (ping k f) (\<lambda>(out, f1). rbind (notmain out f1) (\<lambda>(out1, f2). fake_clean_reboot out1 f2))"

section \<open>Reads and writes at a distance\<close>

datatype io = IoPut u32 u32 | IoGet u32

text \<open>What the program means: its accesses performed on the device itself.\<close>

fun direct :: "'d device \<Rightarrow> io list \<Rightarrow> 'd \<Rightarrow> u32 list \<times> 'd" where
  "direct D [] d = ([], d)"
| "direct D (IoPut a v # os) d = direct D os (PUT32 D a v d)"
| "direct D (IoGet a # os) d =
     (case GET32 D a d of (v, d1) \<Rightarrow> case direct D os d1 of (vs, d2) \<Rightarrow> (v # vs, d2))"

text \<open>The same accesses through the runtime of the laptop.\<close>

fun remote :: "io list \<Rightarrow> bytes \<Rightarrow> fd_t \<Rightarrow> (u32 list \<times> bytes \<times> fd_t) result" where
  "remote [] out f = Inr ([], out, f)"
| "remote (IoPut a v # os) out f = rbind (put32 (ucast a) v f) (remote os out)"
| "remote (IoGet a # os) out f =
     rbind (get32 (ucast a) out f) (\<lambda>(v, out1, f1).
     rbind (remote os out1 f1) (\<lambda>(vs, out2, f2). Inr (v # vs, out2, f2)))"

text \<open>The requests on the line, and a reply.\<close>

fun request :: "io \<Rightarrow> bytes" where
  "request (IoPut a v) = PI_PUT32 # bytes_of_u32 a @ bytes_of_u32 v"
| "request (IoGet a) = PI_GET32 # bytes_of_u32 a"

definition reply :: "u32 \<Rightarrow> bytes" where
  "reply v = PI_GET32_REPLY # bytes_of_u32 v"

lemma length_bytes_of_u32 [simp]: "length (bytes_of_u32 w) = 4"
  by (simp add: bytes_of_u32_def)

lemma u32_of_bytes_of_u32 [simp]: "u32_of_bytes (bytes_of_u32 w) = w"
  by (simp add: bytes_of_u32_def)

lemma bytes_of_u32_ne [simp]: "bytes_of_u32 w \<noteq> []"
  by (simp add: bytes_of_u32_def)

lemma ucast_up_down [simp]: "(ucast (ucast (a :: u32) :: 64 word) :: u32) = a"
  by (rule bit_word_eqI) (simp add: bit_simps)

lemma vmm_read_exact_bytes:
  "vin s = bs @ r \<Longrightarrow> vmm_read_exact (length bs) s = Inr (bs, s\<lparr>vin := r\<rparr>)"
  by (induction bs arbitrary: s) (simp_all add: vmm_get_byte_def)

lemma vmm_get_uint32_bytes:
  assumes "vin s = bytes_of_u32 w @ r"
  shows "vmm_get_uint32 s = Inr (w, s\<lparr>vin := r\<rparr>)"
  using vmm_read_exact_bytes [OF assms] by (simp add: vmm_get_uint32_def)

lemma vmm_write_exact_out: "vmm_write_exact bs s = s\<lparr>vout := vout s @ bs\<rparr>"
  by (induction bs arbitrary: s) (simp_all add: vmm_put_byte_def)

lemma vmm_round_put:
  assumes "vin s = request (IoPut a v) @ r"
  shows "vmm_round D s = Inr (True, s\<lparr>vin := r, dev := PUT32 D a v (dev s)\<rparr>)"
proof -
  have "vmm_get_uint32 (s\<lparr>vin := bytes_of_u32 a @ bytes_of_u32 v @ r\<rparr>) = Inr (a, s\<lparr>vin := bytes_of_u32 v @ r\<rparr>)"
    by (subst vmm_get_uint32_bytes [of _ a "bytes_of_u32 v @ r"]) simp_all
  moreover have "vmm_get_uint32 (s\<lparr>vin := bytes_of_u32 v @ r\<rparr>) = Inr (v, s\<lparr>vin := r\<rparr>)"
    by (subst vmm_get_uint32_bytes [of _ v r]) simp_all
  ultimately show ?thesis
    using assms by (simp add: vmm_round_def vmm_get_byte_def opcodes)
qed

lemma vmm_round_get:
  assumes "vin s = request (IoGet a) @ r" "GET32 D a (dev s) = (v, d)"
  shows "vmm_round D s = Inr (True, s\<lparr>vin := r, vout := vout s @ reply v, dev := d\<rparr>)"
proof -
  have "vmm_get_uint32 (s\<lparr>vin := bytes_of_u32 a @ r\<rparr>) = Inr (a, s\<lparr>vin := r\<rparr>)"
    by (subst vmm_get_uint32_bytes [of _ a r]) simp_all
  then show ?thesis
    using assms
    by (simp add: vmm_round_def vmm_get_byte_def opcodes vmm_put_uint32_def vmm_write_exact_out
        vmm_put_byte_def reply_def)
qed

lemma vmm_loop_requests:
  "vin s = concat (map request os) \<Longrightarrow> direct D os (dev s) = (vs, d) \<Longrightarrow> length (vin s) < k \<Longrightarrow>
     vmm_loop k D s = Inr (s\<lparr>vin := [], vout := vout s @ concat (map reply vs), dev := d\<rparr>)"
proof (induction os arbitrary: s k vs)
  case Nil
  then show ?case by (cases k) simp_all
next
  case (Cons x os)
  then obtain j where k: "k = Suc j" by (cases k) simp_all
  show ?case
  proof (cases x)
    case (IoPut a v)
    let ?s = "s\<lparr>vin := concat (map request os), dev := PUT32 D a v (dev s)\<rparr>"
    have "vmm_round D s = Inr (True, ?s)" using Cons.prems(1) IoPut vmm_round_put by simp
    moreover have "vmm_loop j D ?s = Inr (?s\<lparr>vin := [], vout := vout ?s @ concat (map reply vs), dev := d\<rparr>)"
      by (rule Cons.IH) (use Cons.prems IoPut k in simp_all)
    ultimately show ?thesis using Cons.prems(1) IoPut k by simp
  next
    case (IoGet a)
    obtain v d1 where g: "GET32 D a (dev s) = (v, d1)" by fastforce
    obtain ws where ws: "direct D os d1 = (ws, d)" "vs = v # ws"
      using Cons.prems(2) IoGet g by (auto split: prod.splits)
    let ?s = "s\<lparr>vin := concat (map request os), vout := vout s @ reply v, dev := d1\<rparr>"
    have "vmm_round D s = Inr (True, ?s)" using Cons.prems(1) IoGet vmm_round_get [OF _ g] by simp
    moreover have "vmm_loop j D ?s = Inr (?s\<lparr>vin := [], vout := vout ?s @ concat (map reply ws), dev := d\<rparr>)"
      by (rule Cons.IH) (use Cons.prems IoGet k ws in simp_all)
    ultimately show ?thesis using Cons.prems(1) IoGet k ws by simp
  qed
qed

lemma put32_writes:
  assumes "wr_lim f = []"
  shows "put32 (ucast (a :: u32)) v f = Inr (f\<lparr>wr := wr f @ request (IoPut a v)\<rparr>)"
  using assms by (simp add: put32_def Let_def put_uint8_def fput_uint32_def write_exact_all)

text \<open>
  The replies as the line cuts them into arrivals: \<open>whole_values p bs\<close> says that, when \<open>p\<close> bytes of a
  reply have arrived before \<open>bs\<close>, no arrival ends inside the four bytes of a value. An arrival may end
  between the opcode and the value, and may hold several replies.
\<close>

fun whole_values :: "nat \<Rightarrow> bytes list \<Rightarrow> bool" where
  "whole_values p [] \<longleftrightarrow> True"
| "whole_values p (b # bs) \<longleftrightarrow> (p + length b) mod 5 \<le> 1 \<and> whole_values ((p + length b) mod 5) bs"

text \<open>What is left of the arrivals when one \<open>read\<close> has taken \<open>n\<close> bytes of the first.\<close>

definition rest_arrivals :: "nat \<Rightarrow> bytes \<Rightarrow> bytes list \<Rightarrow> bytes list" where
  "rest_arrivals n b bs = (if length b = n then bs else drop n b # bs)"

lemma rest_arrivals_props:
  assumes "n \<le> length b" "[] \<notin> set bs"
  shows "[] \<notin> set (rest_arrivals n b bs)" "concat (rest_arrivals n b bs) = drop n (concat (b # bs))"
  using assms by (auto simp: rest_arrivals_def)

lemma read_exact_cut:
  assumes "rd f = map Data (b # bs) @ r" "n \<le> length b" "n \<noteq> 0"
  shows "read_exact n f = Inr (take n b, f\<lparr>rd := map Data (rest_arrivals n b bs) @ r\<rparr>)"
  using assms read_exact_arrived [of f b _ n] read_exact_more [of f b _ n]
  by (cases "length b = n") (simp_all add: rest_arrivals_def)

lemma whole_values_after_op:
  assumes "1 \<le> length b"
  shows "whole_values 0 (b # bs) = whole_values 1 (rest_arrivals 1 b bs)"
  using assms by (cases b) (auto simp: rest_arrivals_def)

lemma whole_values_after_value:
  assumes "4 \<le> length b"
  shows "whole_values 1 (b # bs) = whole_values 0 (rest_arrivals 4 b bs)"
proof (cases "length b = 4")
  case True
  then show ?thesis by (simp add: rest_arrivals_def)
next
  case False
  with assms obtain k where "length b = k + 4" "k \<noteq> 0" by (metis add.commute add.right_neutral le_Suc_ex)
  then have "(1 + length b) mod 5 = length (drop 4 b) mod 5" by simp
  then show ?thesis using False by (simp add: rest_arrivals_def)
qed

lemma whole_values_short: "length b < 4 \<Longrightarrow> b \<noteq> [] \<Longrightarrow> \<not> whole_values 1 (b # bs)"
  by (cases b) auto

text \<open>
  One \<open>get32\<close> on such a line: the value, or a panic when it comes in two arrivals. It never returns
  another value.
\<close>

lemma get32_cut:
  assumes "wr_lim f = []" "rd f = map Data bs @ r" "[] \<notin> set bs" "concat bs = reply v @ xs"
  shows "(\<exists>bs'. get32 (ucast (a :: u32)) out f
        = Inr (v, out, f\<lparr>wr := wr f @ request (IoGet a), rd := map Data bs' @ r\<rparr>)
      \<and> [] \<notin> set bs' \<and> concat bs' = xs \<and> whole_values 0 bs = whole_values 0 bs')
    \<or> \<not> whole_values 0 bs \<and> get32 (ucast a) out f = Inl (Panic ''read_exact failed'')"
proof -
  obtain b bs1 where b: "bs = b # bs1" "b \<noteq> []" "hd b = PI_GET32_REPLY"
    using assms(3,4) by (cases bs; cases "hd bs") (auto simp: reply_def)
  let ?f = "f\<lparr>wr := wr f @ request (IoGet a)\<rparr>" and ?cs = "rest_arrivals 1 b bs1"
  have l: "1 \<le> length b" using b(2) by (cases b) auto
  have w1: "whole_values 0 bs = whole_values 1 ?cs" using whole_values_after_op [OF l] b(1) by simp
  have e: "concat (b # bs1) = PI_GET32_REPLY # bytes_of_u32 v @ xs" using assms(4) b(1) by (simp add: reply_def)
  have ne: "[] \<notin> set bs1" using assms(3) b(1) by simp
  have cs: "[] \<notin> set ?cs" "concat ?cs = bytes_of_u32 v @ xs"
    using rest_arrivals_props [OF l ne, unfolded e] by simp_all
  then obtain c cs1 where c: "?cs = c # cs1" "c \<noteq> []" by (cases ?cs) auto
  have "take 1 b = [PI_GET32_REPLY]" using b by (cases b) auto
  then have 1: "get_uint8 ?f = Inr (PI_GET32_REPLY, ?f\<lparr>rd := map Data ?cs @ r\<rparr>)"
    using assms(2) b(1) l by (simp add: get_uint8_def read_exact_cut [of _ b bs1 r])
  have op: "expect_op PI_GET32_REPLY out ?f = Inr (out, ?f\<lparr>rd := map Data ?cs @ r\<rparr>)"
    by (simp only: expect_op_def vm_get_op.simps [of out ?f] 1) (simp add: opcodes)
  have g: "get32 (ucast a) out f = rbind (fget_uint32 (?f\<lparr>rd := map Data ?cs @ r\<rparr>)) (\<lambda>(v, f4). Inr (v, out, f4))"
    using assms(1) op by (simp add: get32_def Let_def put_uint8_def fput_uint32_def write_exact_all)
  show ?thesis
  proof (cases "4 \<le> length c")
    case True
    have e4: "c @ concat cs1 = bytes_of_u32 v @ xs" using cs(2) c(1) by simp
    have t: "take 4 c = bytes_of_u32 v" "drop 4 (concat (c # cs1)) = xs"
      using arg_cong [OF e4, of "take 4"] arg_cong [OF e4, of "drop 4"] True by simp_all
    have "get32 (ucast a) out f = Inr (v, out, ?f\<lparr>rd := map Data (rest_arrivals 4 c cs1) @ r\<rparr>)"
      using g c(1) True t(1) by (simp add: fget_uint32_def read_exact_cut [of _ c cs1 r])
    moreover have "[] \<notin> set (rest_arrivals 4 c cs1)" "concat (rest_arrivals 4 c cs1) = xs"
      using rest_arrivals_props [OF True, of cs1] cs(1) c(1) t(2) by auto
    moreover have "whole_values 0 bs = whole_values 0 (rest_arrivals 4 c cs1)"
      using w1 c(1) whole_values_after_value [OF True] by simp
    ultimately show ?thesis by auto
  next
    case False
    then have "get32 (ucast a) out f = Inl (Panic ''read_exact failed'')"
      using g c(1) by (simp add: fget_uint32_def read_exact_split [of _ c])
    then show ?thesis using w1 c False whole_values_short [of c cs1] by simp
  qed
qed

lemma remote_cut:
  "wr_lim f = [] \<Longrightarrow> direct D os d = (vs, d') \<Longrightarrow> rd f = map Data bs @ r \<Longrightarrow> [] \<notin> set bs \<Longrightarrow>
   concat bs = concat (map reply vs) \<Longrightarrow>
     remote os out f = (if whole_values 0 bs then Inr (vs, out, f\<lparr>rd := r, wr := wr f @ concat (map request os)\<rparr>)
       else Inl (Panic ''read_exact failed''))"
proof (induction os arbitrary: f d vs bs)
  case Nil
  then have "bs = []" by (cases bs) auto
  with Nil show ?case by simp
next
  case (Cons x os)
  show ?case
  proof (cases x)
    case (IoPut a v)
    let ?f = "f\<lparr>wr := wr f @ request (IoPut a v)\<rparr>"
    have "remote os out ?f = (if whole_values 0 bs
        then Inr (vs, out, ?f\<lparr>rd := r, wr := wr ?f @ concat (map request os)\<rparr>) else Inl (Panic ''read_exact failed''))"
      by (rule Cons.IH) (use Cons.prems IoPut in simp_all)
    with IoPut Cons.prems(1) show ?thesis by (simp add: put32_writes)
  next
    case (IoGet a)
    obtain v d1 where g: "GET32 D a d = (v, d1)" by fastforce
    obtain ws where ws: "direct D os d1 = (ws, d')" "vs = v # ws"
      using Cons.prems(2) IoGet g by (auto split: prod.splits)
    have "concat bs = reply v @ concat (map reply ws)" using Cons.prems(5) ws(2) by simp
    from get32_cut [OF Cons.prems(1,3,4) this, of a out] show ?thesis
    proof (elim disjE exE conjE)
      fix cs
      let ?f = "f\<lparr>wr := wr f @ request (IoGet a), rd := map Data cs @ r\<rparr>"
      assume c: "get32 (ucast a) out f = Inr (v, out, ?f)" "[] \<notin> set cs"
        "concat cs = concat (map reply ws)" "whole_values 0 bs = whole_values 0 cs"
      have "remote os out ?f = (if whole_values 0 cs
          then Inr (ws, out, ?f\<lparr>rd := r, wr := wr ?f @ concat (map request os)\<rparr>) else Inl (Panic ''read_exact failed''))"
        by (rule Cons.IH [OF _ ws(1)]) (use Cons.prems(1) c in simp_all)
      with c IoGet ws(2) show ?thesis by simp
    qed (simp add: IoGet)
  qed
qed

text \<open>
  (C7) A Pi program run on the laptop reads and writes the Pi as if it ran there, however the line
  cuts the replies into arrivals. The bytes the runtime writes for a sequence of \<open>put32\<close> and \<open>get32\<close>
  are the bytes the server is run on; the server handles every request, leaves the device as the
  accesses performed directly do, and its replies are the bytes that arrive. The runtime then returns
  the values of performing the accesses directly, exactly when no arrival ends inside the four bytes
  of a value; otherwise it panics, and it never returns a wrong value. The system takes each write
  of the runtime whole, and no read times out.
\<close>
theorem remote_refines_direct:
  assumes "direct D os d = (vs, d')" "wr_lim f = []"
    and "rd f = map Data bs @ r" "[] \<notin> set bs" "concat bs = concat (map reply vs)"
  shows "remote os out f = (if whole_values 0 bs
        then Inr (vs, out, f\<lparr>rd := r, wr := wr f @ concat (map request os)\<rparr>)
        else Inl (Panic ''read_exact failed''))
    \<and> vmm_loop (Suc (length (concat (map request os)))) D \<lparr>vin = concat (map request os), vout = sent, dev = d\<rparr>
      = Inr \<lparr>vin = [], vout = sent @ concat bs, dev = d'\<rparr>"
proof
  let ?w = "concat (map request os)"
  show "remote os out f = (if whole_values 0 bs then Inr (vs, out, f\<lparr>rd := r, wr := wr f @ ?w\<rparr>)
      else Inl (Panic ''read_exact failed''))"
    by (rule remote_cut [OF assms(2,1,3-5)])
  show "vmm_loop (Suc (length ?w)) D \<lparr>vin = ?w, vout = sent, dev = d\<rparr>
      = Inr \<lparr>vin = [], vout = sent @ concat bs, dev = d'\<rparr>"
    using vmm_loop_requests [of "\<lparr>vin = ?w, vout = sent, dev = d\<rparr>" os D vs d' "Suc (length ?w)"]
      assms(1,5) by simp
qed

definition ram_device :: "ram device" where
  "ram_device = \<lparr>GET32 = \<lambda>a m. (ld32 m a, m), PUT32 = \<lambda>a v m. st32 m a v\<rparr>"

definition demo_io :: "io list" where
  "demo_io = [IoPut 0x20200000 7, IoGet 0x20200000]"

definition io_line :: "bytes list \<Rightarrow> fd_t" where
  "io_line bs = \<lparr>rd = map Data bs, wr = [], wr_lim = []\<rparr>"

theorem remote_refines_direct_witness:
  "remote demo_io [] (io_line [[16], [7, 0, 0, 0]])
      = Inr ([7], [], (io_line [])\<lparr>wr := concat (map request demo_io)\<rparr>)
    \<and> remote demo_io [] (io_line [[16, 7], [0, 0, 0]]) = Inl (Panic ''read_exact failed'')
    \<and> vmm_loop 15 ram_device \<lparr>vin = concat (map request demo_io), vout = [], dev = \<lambda>_. 0\<rparr>
      = Inr \<lparr>vin = [], vout = [16, 7, 0, 0, 0], dev = st32 (\<lambda>_. 0) 0x20200000 7\<rparr>"
proof -
  have d: "direct ram_device demo_io (\<lambda>_. 0) = ([7], st32 (\<lambda>_. 0) 0x20200000 7)"
    by (simp add: ram_device_def demo_io_def)
  have rep: "concat (map reply [7]) = [16, 7, 0, 0, 0]"
    by (simp add: reply_def opcodes bytes_of_u32_def byte_of_def)
  have len: "Suc (length (concat (map request demo_io))) = 15" by (simp add: demo_io_def)
  have r: "rd (io_line bs) = map Data bs @ []" "wr_lim (io_line bs) = []" "wr (io_line bs) = []"
    "(io_line bs)\<lparr>rd := [], wr := w\<rparr> = (io_line [])\<lparr>wr := w\<rparr>" for bs w
    by (simp_all add: io_line_def)
  note ref = remote_refines_direct [OF d r(2,1), of _ "[]" "[]", unfolded r(3,4) len]
  show ?thesis
    using ref [of "[[16], [7, 0, 0, 0]]"] ref [of "[[16, 7], [0, 0, 0]]"] rep
    by (simp del: remote.simps vmm_loop.simps)
qed

text \<open>A reply whose last bytes come in a second arrival is a panic of the runtime.\<close>

lemma get32_split_reply:
  assumes "wr_lim f = []" "rd f = Data (PI_GET32_REPLY # b) # r" "b \<noteq> []" "length b < 4"
  shows "get32 (ucast (a :: u32)) out f = Inl (Panic ''read_exact failed'')"
proof -
  let ?f = "f\<lparr>wr := wr f @ request (IoGet a)\<rparr>"
  have 1: "get_uint8 ?f = Inr (PI_GET32_REPLY, ?f\<lparr>rd := Data b # r\<rparr>)"
    using assms(2,3) by (simp add: get_uint8_def read_exact_more [of _ "PI_GET32_REPLY # b" r])
  have "expect_op PI_GET32_REPLY out ?f = Inr (out, ?f\<lparr>rd := Data b # r\<rparr>)"
    by (simp only: expect_op_def vm_get_op.simps [of out ?f] 1) (simp add: opcodes)
  moreover have "fget_uint32 (?f\<lparr>rd := Data b # r\<rparr>) = Inl (Panic ''read_exact failed'')"
    using assms(4) by (simp add: fget_uint32_def read_exact_split [of _ b r])
  ultimately show ?thesis
    using assms(1) by (simp add: get32_def Let_def put_uint8_def fput_uint32_def write_exact_all)
qed

section \<open>Rebooting\<close>

definition print_chars :: "bytes \<Rightarrow> bytes" where
  "print_chars t = concat (map (\<lambda>c. [PI_PRINT_CHAR, c]) t)"

lemma putk_net: "no_nul t \<Longrightarrow> internal_putk net_putchar (cstring t r) s = Inr (s\<lparr>vout := vout s @ print_chars t\<rparr>)"
  by (induction t arbitrary: s)
    (simp_all add: cstring_def no_nul_def net_putchar_def vmm_put_byte_def print_chars_def)

lemma vmm_console_putk:
  "no_nul t \<Longrightarrow> putk vmm_console (cstring t r) s = Inr (s\<lparr>vout := vout s @ print_chars t\<rparr>)"
  by (simp add: putk_def vmm_console_def rpi_set_putc_def putk_net)

definition reboot_text :: bytes where
  "reboot_text = bstr ''PI: reboot'' @ [10]"

lemma vmm_printk_reboot: "vmm_printk reboot_text s = Inr (s\<lparr>vout := vout s @ print_chars reboot_text\<rparr>)"
proof -
  have "va_printk 1024 (cstring reboot_text []) [] = Inr (cstring reboot_text [], 12)"
    by (simp add: va_printk_def va_printk_loop.simps reboot_text_def cstring_def bstr_def ch_def)
  moreover have "no_nul reboot_text" by (simp add: no_nul_def reboot_text_def bstr_def)
  ultimately show ?thesis by (simp add: vmm_printk_def printk_def vmm_console_putk)
qed

text \<open>The server answers a reboot request with its message and that of \<open>clean_reboot\<close>.\<close>

lemma vmm_round_reboot:
  assumes "vin s = PI_REBOOT # r"
  shows "vmm_round D s =
    Inr (False, s\<lparr>vin := r, vout := vout s @ print_chars (reboot_text @ exit_string)\<rparr>)"
proof -
  have "no_nul exit_string" by (simp add: no_nul_def exit_string_def bstr_def)
  then have "pi_clean_reboot vmm_console s = Inr (s\<lparr>vout := vout s @ print_chars exit_string\<rparr>)" for s :: "'a vmm_t"
    using vmm_console_putk [of exit_string "[]" s] by (simp add: pi_clean_reboot_def exit_string_def)
  then show ?thesis
    using assms vmm_printk_reboot [of "s\<lparr>vin := r\<rparr>"]
    by (simp add: vmm_round_def vmm_get_byte_def reboot_text_def print_chars_def)
qed

lemma get_uint8_one:
  assumes "rd f = map (\<lambda>c. Data [c]) (c # cs)"
  shows "get_uint8 f = Inr (c, f\<lparr>rd := map (\<lambda>c. Data [c]) cs\<rparr>)"
  using assms by (simp add: get_uint8_def read_exact_arrived [of _ "[c]"])

text \<open>
  \<open>get_op\<close> prints characters until another opcode comes. After the last character none does: the
  next read finds nothing and panics, so the drain of \<open>clean_reboot\<close> never reaches its \<open>exit(0)\<close>.
\<close>

lemma vm_get_op_runs_dry:
  "rd f = map (\<lambda>c. Data [c]) (print_chars t) \<Longrightarrow> vm_get_op out f = Inl (Panic ''read_exact failed'')"
proof (induction t arbitrary: f out)
  case Nil
  then have "get_uint8 f = Inl (Panic ''read_exact failed'')"
    by (simp add: get_uint8_def read_exact_def read_exact_can_fail_def os_read_def print_chars_def)
  then show ?case by (simp add: vm_get_op.simps [of out f])
next
  case (Cons c t)
  let ?g = "f\<lparr>rd := map (\<lambda>c. Data [c]) (c # print_chars t)\<rparr>"
  have "get_uint8 f = Inr (PI_PRINT_CHAR, ?g)"
    using get_uint8_one [of f PI_PRINT_CHAR "c # print_chars t"] Cons.prems by (simp add: print_chars_def)
  moreover have "get_uint8 ?g = Inr (c, ?g\<lparr>rd := map (\<lambda>c. Data [c]) (print_chars t)\<rparr>)"
    by (rule get_uint8_one) simp
  ultimately show ?case
    using Cons.IH [of "?g\<lparr>rd := map (\<lambda>c. Data [c]) (print_chars t)\<rparr>" "out @ [c]"]
    by (simp add: vm_get_op.simps [of out f])
qed

lemma fake_clean_reboot_panics:
  assumes "vmm_round D \<lparr>vin = [PI_REBOOT], vout = [], dev = d\<rparr> = Inr (False, s)"
    and "wr_lim f = []" "rd f = map (\<lambda>c. Data [c]) (vout s)"
  shows "fake_clean_reboot out f = Inl (Panic ''read_exact failed'')"
proof -
  let ?f = "f\<lparr>wr := wr f @ [PI_REBOOT]\<rparr>"
  have v: "vout s = print_chars (reboot_text @ exit_string)"
    using assms(1) vmm_round_reboot [of "\<lparr>vin = [PI_REBOOT], vout = [], dev = d\<rparr>" "[]" D] by auto
  then have "vout s \<noteq> []" by (simp add: print_chars_def reboot_text_def bstr_def)
  then have "can_read_timeout ?f = (True, ?f)"
    using assms(3) by (cases "vout s") (simp_all add: can_read_timeout_def)
  moreover have "vm_get_op out ?f = Inl (Panic ''read_exact failed'')"
    by (rule vm_get_op_runs_dry [of _ "reboot_text @ exit_string"]) (use assms(3) v in simp)
  ultimately show ?thesis
    using assms(2) by (simp add: fake_clean_reboot_def put_uint8_def write_exact_all reboot_drain.simps [of out ?f])
qed

end
