(* ===== verification/Ping_Pong.thy ===== *)
theory Ping_Pong
  imports Esp_Run Libc
begin

text \<open>
  The two programs of \<^verbatim>\<open>labs/10-esp8266/1-ping-pong\<close> over the esp library: the server sends
  \<open>hello 0\<close>, \<open>hello 1\<close>, ... and waits for each to come back, the client sends back whatever it
  receives. Their infinite loops are modelled by the number of rounds that are run. The stack
  arrays the programs receive into are arguments: C leaves their contents open.
\<close>

section \<open>The programs\<close>

definition pp_network :: bytes where
  "pp_network = bstr ''engler123''"

definition pp_password :: bytes where
  "pp_password = bstr ''12345678''"

definition ESP_SERVER_IP :: bytes where
  "ESP_SERVER_IP = bstr ''192.168.4.1''"

definition ESP_DEFAULT_PORT :: u32 where
  "ESP_DEFAULT_PORT = 4444"

text \<open>The array after a packet was received into it and terminated: \<open>buf[n] = 0\<close>.\<close>

definition recv_buf :: "bytes \<Rightarrow> bytes \<Rightarrow> bytes result" where
  "recv_buf buf m = arr_set (m @ drop (length m) buf) (length m) 0"

definition client_round :: "('l, 'c) lex_ops \<Rightarrow> bytes \<Rightarrow> 'l esp_t \<Rightarrow> (bytes \<times> 'l esp_t) result" where
  "client_round L buf0 e =
     rbind (esp_is_recv L 1024 e) (\<lambda>((chan, m), e1).
     rbind (recv_buf buf0 m) (\<lambda>buf.
     rbind (strlen buf) (\<lambda>n.
     rbind (esp_send L 0 (take (unat n) buf) e1) (\<lambda>(ok, e2).
       if ok = 0 then Inl (Panic ''cannot send!!'') else Inr (take (unat n) buf, e2)))))"

fun client_rounds :: "('l, 'c) lex_ops \<Rightarrow> bytes \<Rightarrow> nat \<Rightarrow> 'l esp_t \<Rightarrow> (bytes list \<times> 'l esp_t) result" where
  "client_rounds L buf0 0 e = Inr ([], e)"
| "client_rounds L buf0 (Suc k) e =
     rbind (client_round L buf0 e) (\<lambda>(m, e1).
     rbind (client_rounds L buf0 k e1) (\<lambda>(ms, e2). Inr (m # ms, e2)))"

definition client_main :: "('l, 'c) lex_ops \<Rightarrow> bytes \<Rightarrow> nat \<Rightarrow> 'l lstate \<Rightarrow> (bytes list \<times> 'l esp_t) result" where
  "client_main L buf0 k l =
     rbind (esp_hard_reset L (esp_mk l (Some pp_network) (Some pp_password))) (\<lambda>(_, e1).
     rbind (esp_connect_to_wifi L e1) (\<lambda>(ok, e2).
     if \<not> ok then Inl (Panic ''cannot connect to tcp client'')
     else rbind (esp_start_tcp_client L ESP_SERVER_IP ESP_DEFAULT_PORT e2) (\<lambda>(ok2, e3).
     if \<not> ok2 then Inl (Panic ''cant start esp tcp client'')
     else client_rounds L buf0 k e3)))"

text \<open>\<open>sprintf(hello, "hello %d", i)\<close>.\<close>

definition hello_msg :: "u32 \<Rightarrow> bytes" where
  "hello_msg i = bstr ''hello '' @ num_text 10 i True"

definition server_round :: "('l, 'c) lex_ops \<Rightarrow> bytes \<Rightarrow> u32 \<Rightarrow> u32 \<Rightarrow> 'l esp_t \<Rightarrow> 'l esp_t result" where
  "server_round L reply0 chan i e =
     rbind (esp_send L 0 (hello_msg i) e) (\<lambda>(ok, e1).
     if ok = 0 then Inl (Panic ''cannot send!!'')
     else rbind (esp_is_recv L 1024 e1) (\<lambda>((x, m), e2).
     rbind (c_assert (x = chan) ''x == ch'') (\<lambda>_.
     rbind (recv_buf reply0 m) (\<lambda>reply.
     rbind (strcmp reply (cstring (hello_msg i) [])) (\<lambda>v.
       if v = 0 then Inr e2 else Inl (Panic ''mismatch''))))))"

fun server_rounds :: "('l, 'c) lex_ops \<Rightarrow> bytes \<Rightarrow> u32 \<Rightarrow> nat \<Rightarrow> u32 \<Rightarrow> 'l esp_t \<Rightarrow> 'l esp_t result" where
  "server_rounds L reply0 chan 0 i e = Inr e"
| "server_rounds L reply0 chan (Suc k) i e =
     rbind (server_round L reply0 chan i e) (server_rounds L reply0 chan k (i + 1))"

text \<open>The wait for a connection, whose fuel is what can still arrive.\<close>

fun conn_wait :: "('l, 'c) lex_ops \<Rightarrow> nat \<Rightarrow> u32 \<Rightarrow> 'l esp_t \<Rightarrow> (u32 \<times> 'l esp_t) result" where
  "conn_wait L 0 chan e = Inl Diverges"
| "conn_wait L (Suc k) chan e =
     rbind (wait_for_conn L chan e) (\<lambda>((ok, chan1), e1).
     if ok then Inr (chan1, e1)
     else rbind (cmd_echo_line L (esp_l e1)) (\<lambda>s. conn_wait L k chan1 (e1\<lparr>esp_l := s\<rparr>)))"

definition server_main :: "('l, 'c) lex_ops \<Rightarrow> bytes \<Rightarrow> u32 \<Rightarrow> nat \<Rightarrow> 'l lstate \<Rightarrow> 'l esp_t result" where
  "server_main L reply0 chan0 k l =
     rbind (esp_hard_reset L (esp_mk l (Some pp_network) (Some pp_password))) (\<lambda>(_, e1).
     rbind (esp_setup_wifi L e1) (\<lambda>(ok, e2).
     if \<not> ok then Inl (Panic ''cant setup the wifi network!'')
     else rbind (esp_start_tcp_server L ESP_DEFAULT_PORT e2) (\<lambda>(ok2, e3).
     if \<not> ok2 then Inl (Panic ''cant setup the wifi network!'')
     else rbind (conn_wait L (Suc (lex_left L (esp_l e3))) chan0 e3) (\<lambda>(chan, e4).
       server_rounds L reply0 chan k 0 e4))))"

section \<open>What arrives at the two ends\<close>

text \<open>
  A packet as the esp announces it. The line of the client carries, for each message, blank space,
  the packet, and the answer of the esp to sending it back; the line of the server carries for
  each round the answer to sending and then the packet that came back. The blank space between
  the parts is arbitrary.
\<close>

definition packet :: "u32 \<Rightarrow> bytes \<Rightarrow> bytes" where
  "packet chan m = render (bstr ''+IPD,%u,%u:'') [MUint chan, MUint (of_nat (length m))] @ m"

type_synonym gap = "bytes \<times> bytes list"

definition gap_ok :: "nat \<Rightarrow> gap \<Rightarrow> bool" where
  "gap_ok G g \<longleftrightarrow> length (snd g) = 5 \<and> (\<forall>u \<in> set (fst g # snd g). \<forall>x \<in> set u. ws_ch x)
     \<and> length (fst g) + sum_list (map length (snd g)) \<le> G"

fun client_feed :: "u32 \<Rightarrow> gap list \<Rightarrow> bytes list \<Rightarrow> bytes" where
  "client_feed chan ((v, us) # gs) (m # ms) =
     v @ packet chan m @ send_answer 0 (of_nat (length m)) us (client_feed chan gs ms)"
| "client_feed chan _ _ = []"

fun server_feed :: "u32 \<Rightarrow> gap list \<Rightarrow> u32 \<Rightarrow> bytes list \<Rightarrow> bytes" where
  "server_feed chan ((v, us) # gs) i (m # ms) =
     send_answer 0 (of_nat (length (hello_msg i))) us (v @ packet chan m @ server_feed chan gs (i + 1) ms)"
| "server_feed chan _ i _ = []"

text \<open>What either end writes to its esp to send the messages.\<close>

definition sent_msg :: "bytes \<Rightarrow> bytes" where
  "sent_msg m = send_cmd 0 (of_nat (length m)) @ [13, 10] @ m"

definition echoable :: "bytes \<Rightarrow> bool" where
  "echoable m \<longleftrightarrow> m \<noteq> [] \<and> length m \<le> 1023 \<and> no_nul m"

lemma recv_buf_ok:
  assumes "length buf = 1024" "length m \<le> 1023"
  shows "recv_buf buf m = Inr (cstring m (drop (Suc (length m)) buf))"
proof -
  have "drop (length m) buf = hd (drop (length m) buf) # drop (Suc (length m)) buf"
    using assms by (simp add: Cons_nth_drop_Suc [symmetric])
  then show ?thesis
    using assms by (simp add: recv_buf_def cstring_def list_update_append) (metis list_update_code(2))
qed

lemma recv_buf_overrun: "length buf = 1024 \<Longrightarrow> length m = 1024 \<Longrightarrow> recv_buf buf m = Inl Bounds"
  by (simp add: recv_buf_def)

lemma hello_echoable: "echoable (hello_msg i)"
proof -
  have "length (hello_msg i) \<le> 39" using num_text_props(2) [of 10 i True] by (simp add: hello_msg_def bstr_def)
  then show ?thesis
    using num_text_props(1) [of 10 i True] by (auto simp: echoable_def hello_msg_def bstr_def no_nul_def)
qed

lemma packet_hd: "\<exists>g. packet chan m = 43 # g"
  by (simp add: packet_def bstr_def)

lemma length_ipd: "length (render (bstr ''+IPD,%u,%u:'') [MUint c, MUint n]) \<le> 71"
  using length_show_uint [of c] length_show_uint [of n] by (simp add: bstr_def)


lemma gap_five:
  assumes "gap_ok G (v, us)"
  obtains u1 u2 u3 u4 u5 where "us = [u1, u2, u3, u4, u5]" "\<forall>x \<in> set v. ws_ch x"
    "\<forall>x \<in> set u1 \<union> set u2 \<union> set u3 \<union> set u4 \<union> set u5. ws_ch x"
    "length v + length u1 + length u2 + length u3 + length u4 + length u5 \<le> G"
proof -
  obtain u1 u2 u3 u4 u5 where "us = [u1, u2, u3, u4, u5]"
    using assms by (auto simp: gap_ok_def length_Suc_conv numeral_eq_Suc)
  then show thesis using assms by (intro that [of u1 u2 u3 u4 u5]) (auto simp: gap_ok_def)
qed

lemma gap_ok_tail: "gap_ok G (es @ v, us) \<Longrightarrow> gap_ok G (v, us)"
  by (auto simp: gap_ok_def)

lemma client_feed_eols:
  assumes "list_all (gap_ok G) gs" "length gs = length ms"
  shows "length (takeWhile is_eol_ch (client_feed chan gs ms)) \<le> G"
    and "client_feed chan gs ms = es @ r \<Longrightarrow> \<forall>x \<in> set es. is_eol_ch x \<Longrightarrow>
      \<exists>gs'. r = client_feed chan gs' ms \<and> list_all (gap_ok G) gs' \<and> length gs' = length ms"
proof -
  have e: "\<not> is_eol_ch 43" by (simp add: is_eol_ch_def)
  consider "gs = []" "ms = []" | v us gs1 m ms1 g where "gs = (v, us) # gs1" "ms = m # ms1"
    "client_feed chan gs ms = v @ 43 # g" "gap_ok G (v, us)" "list_all (gap_ok G) gs1" "length gs1 = length ms1"
    "client_feed chan gs ms = v @ packet chan m @ send_answer 0 (of_nat (length m)) us (client_feed chan gs1 ms1)"
  proof (cases gs)
    case Nil
    then show thesis using assms(2) that(1) by simp
  next
    case (Cons p gs1)
    then obtain v us m ms1 where g: "gs = (v, us) # gs1" "ms = m # ms1"
      using assms(2) by (cases p; cases ms) auto
    moreover obtain h where "packet chan m = 43 # h" using packet_hd by blast
    ultimately show thesis using that(2) [OF g] assms by auto
  qed
  note c = this
  show "length (takeWhile is_eol_ch (client_feed chan gs ms)) \<le> G"
  proof (cases rule: c)
    case 1
    then show ?thesis by simp
  next
    case (2 v us gs1 m ms1 g)
    then show ?thesis using takeWhile_before [of is_eol_ch 43 v g, OF e] by (auto simp: gap_ok_def)
  qed
  assume es: "client_feed chan gs ms = es @ r" "\<forall>x \<in> set es. is_eol_ch x"
  show "\<exists>gs'. r = client_feed chan gs' ms \<and> list_all (gap_ok G) gs' \<and> length gs' = length ms"
  proof (cases rule: c)
    case 1
    then show ?thesis using es by (intro exI [where x = "[]"]) simp
  next
    case (2 v us gs1 m ms1 g)
    then obtain v' where v': "v = es @ v'" "r = v' @ 43 # g"
      using prefix_before [of v 43 g es r is_eol_ch] es e by auto
    then have "r = client_feed chan ((v', us) # gs1) ms" using 2 by simp
    moreover have "gap_ok G (v', us)" using 2(4) v' gap_ok_tail by blast
    ultimately show ?thesis using 2 by (intro exI [where x = "(v', us) # gs1"]) simp
  qed
qed

section \<open>One round\<close>

context lexer
begin

lemma recv_packet:
  assumes "rep b t (esp_l e) [] (v @ packet chan m @ r)" "\<forall>x \<in> set v. ws_ch x"
    "m \<noteq> []" "length m \<le> 1024" "room (length v + 71)"
  shows "\<exists>s' b'. esp_is_recv L 1024 e = Inr ((chan, m), e\<lparr>esp_l := s'\<rparr>) \<and> rep b' t s' [] r"
proof -
  let ?n = "of_nat (length m) :: u32"
  have n: "unat ?n = length m" using assms(4) by (simp add: unat_of_nat_u32)
  have "room (length v + length (render (bstr ''+IPD,%u,%u:'') [MUint chan, MUint ?n]))"
    using assms(5) length_ipd [of chan ?n] by (elim room_mono) simp
  moreover have "0 < ?n" using n assms(3) by (simp add: word_gt_0 word_unat_eq_iff del: unat_of_nat)
  ultimately show ?thesis
    using esp_is_recv_ok [of b t e v chan ?n m r 1024] assms n by (simp add: packet_def)
qed

lemma send_msg:
  assumes "rep b t (esp_l e) [] (send_answer 0 (of_nat (length m)) us r)" "gap_ok G (v, us)" "echoable m"
    "room (G + 80 + length (takeWhile is_eol_ch r))"
  shows "\<exists>s' es r' b'. esp_send L 0 m e = Inr (of_nat (length m), e\<lparr>esp_l := s'\<rparr>) \<and> r = es @ r'
    \<and> (\<forall>x \<in> set es. is_eol_ch x) \<and> rep b' (t @ sent_msg m) s' [] r'"
proof -
  obtain u1 u2 u3 u4 u5 where u: "us = [u1, u2, u3, u4, u5]" "\<forall>x \<in> set v. ws_ch x"
    "\<forall>x \<in> set u1 \<union> set u2 \<union> set u3 \<union> set u4 \<union> set u5. ws_ch x"
    "length v + length u1 + length u2 + length u3 + length u4 + length u5 \<le> G"
    by (rule gap_five [OF assms(2)])
  have "(of_nat (length m) :: u32) \<noteq> 0"
    using assms(3) by (simp add: echoable_def word_unat_eq_iff unat_of_nat_u32 del: unat_of_nat)
  moreover have "room (length u1 + length u2 + length u3 + length u4 + length u5 + 80 + length (takeWhile is_eol_ch r))"
    using assms(4) u(4) by (elim room_mono) simp
  ultimately show ?thesis
    using esp_send_ok [of b t e 0 "of_nat (length m)" u1 u2 u3 u4 u5 r m] assms(1) u by (simp add: sent_msg_def)
qed

lemma client_round_ok:
  assumes "rep b t (esp_l e) [] (v @ packet chan m @ send_answer 0 (of_nat (length m)) us r)"
    "gap_ok G (v, us)" "echoable m" "length buf0 = 1024" "room (G + 80 + length (takeWhile is_eol_ch r))"
  shows "\<exists>s' es r' b'. client_round L buf0 e = Inr (m, e\<lparr>esp_l := s'\<rparr>) \<and> r = es @ r'
    \<and> (\<forall>x \<in> set es. is_eol_ch x) \<and> rep b' (t @ sent_msg m) s' [] r'"
proof -
  have m: "m \<noteq> []" "length m \<le> 1023" "no_nul m" using assms(3) by (simp_all add: echoable_def)
  have v: "\<forall>x \<in> set v. ws_ch x" "length v \<le> G" using assms(2) by (auto simp: gap_ok_def)
  have "room (length v + 71)" using assms(5) v(2) by (elim room_mono) simp
  then obtain s1 b1 where s1: "esp_is_recv L 1024 e = Inr ((chan, m), e\<lparr>esp_l := s1\<rparr>)"
    "rep b1 t s1 [] (send_answer 0 (of_nat (length m)) us r)"
    using recv_packet [OF assms(1) v(1) m(1)] m(2) by auto
  obtain s' es r' b' where s: "esp_send L 0 m (e\<lparr>esp_l := s1\<rparr>) = Inr (of_nat (length m), e\<lparr>esp_l := s'\<rparr>)"
    "r = es @ r'" "\<forall>x \<in> set es. is_eol_ch x" "rep b' (t @ sent_msg m) s' [] r'"
    using send_msg [of b1 t "e\<lparr>esp_l := s1\<rparr>" m us r G v] s1(2) assms by auto
  have n: "unat (of_nat (length m) :: u32) = length m" "(of_nat (length m) :: u32) \<noteq> 0"
    using m by (simp_all add: unat_of_nat_u32 word_unat_eq_iff del: unat_of_nat)
  have "client_round L buf0 e = Inr (m, e\<lparr>esp_l := s'\<rparr>)"
    using s1(1) s(1) n m recv_buf_ok [OF assms(4) m(2)] strlen_cstring [OF m(3)]
    by (simp add: client_round_def cstring_def)
  then show ?thesis using s by blast
qed

lemma client_rounds_ok:
  "rep b t (esp_l e) [] (client_feed chan gs ms) \<Longrightarrow> list_all (gap_ok G) gs \<Longrightarrow> length gs = length ms \<Longrightarrow>
   list_all echoable ms \<Longrightarrow> length buf0 = 1024 \<Longrightarrow> room (2 * G + 80) \<Longrightarrow>
   \<exists>s' b'. client_rounds L buf0 (length ms) e = Inr (ms, e\<lparr>esp_l := s'\<rparr>)
     \<and> rep b' (t @ concat (map sent_msg ms)) s' [] []"
proof (induction ms arbitrary: b t e gs)
  case Nil
  have "e\<lparr>esp_l := esp_l e\<rparr> = e" by simp
  then show ?case using Nil by (intro exI [where x = "esp_l e"] exI [where x = b]) simp
next
  case (Cons m ms)
  obtain v us gs1 where g: "gs = (v, us) # gs1" "gap_ok G (v, us)" "list_all (gap_ok G) gs1" "length gs1 = length ms"
    using Cons.prems(2,3) by (cases gs) auto
  have "room (G + 80 + length (takeWhile is_eol_ch (client_feed chan gs1 ms)))"
    using Cons.prems(6) client_feed_eols(1) [OF g(3,4), of chan] by (elim room_mono) simp
  then obtain s1 es r1 b1 where s1: "client_round L buf0 e = Inr (m, e\<lparr>esp_l := s1\<rparr>)"
    "client_feed chan gs1 ms = es @ r1" "\<forall>x \<in> set es. is_eol_ch x" "rep b1 (t @ sent_msg m) s1 [] r1"
    using client_round_ok [of b t e v chan m us "client_feed chan gs1 ms" G buf0] Cons.prems g by auto
  obtain gs2 where gs2: "r1 = client_feed chan gs2 ms" "list_all (gap_ok G) gs2" "length gs2 = length ms"
    using client_feed_eols(2) [OF g(3,4) s1(2,3)] by blast
  obtain s' b' where "client_rounds L buf0 (length ms) (e\<lparr>esp_l := s1\<rparr>) = Inr (ms, e\<lparr>esp_l := s'\<rparr>)"
    "rep b' (t @ sent_msg m @ concat (map sent_msg ms)) s' [] []"
    using Cons.IH [of b1 "t @ sent_msg m" "e\<lparr>esp_l := s1\<rparr>" gs2] s1(4) gs2 Cons.prems(4-6) by auto
  then show ?case using s1(1) by (intro exI [where x = s'] exI [where x = b']) simp
qed

text \<open>A packet that fills the array is accepted, and terminating it writes behind the array.\<close>

lemma client_round_overrun:
  assumes "rep b t (esp_l e) [] (v @ packet chan m @ r)" "\<forall>x \<in> set v. ws_ch x" "length m = 1024"
    "length buf0 = 1024" "room (length v + 71)"
  shows "client_round L buf0 e = Inl Bounds"
proof -
  have "m \<noteq> []" using assms(3) by auto
  then obtain s1 b1 where "esp_is_recv L 1024 e = Inr ((chan, m), e\<lparr>esp_l := s1\<rparr>)"
    using recv_packet [OF assms(1,2) _ _ assms(5)] assms(3) by auto
  then show ?thesis using recv_buf_overrun [OF assms(4,3)] by (simp add: client_round_def)
qed

lemma server_round_eq:
  assumes "rep b t (esp_l e) [] (send_answer 0 (of_nat (length (hello_msg i))) us (v @ packet chan m @ r))"
    "gap_ok G (v, us)" "echoable m" "length reply0 = 1024" "room (2 * G + 80)"
  shows "\<exists>s' b'. server_round L reply0 chan i e =
      (if m = hello_msg i then Inr (e\<lparr>esp_l := s'\<rparr>) else Inl (Panic ''mismatch''))
    \<and> rep b' (t @ sent_msg (hello_msg i)) s' [] r"
proof -
  let ?h = "hello_msg i"
  have h: "length ?h \<le> 1023" "?h \<noteq> []" "no_nul ?h" using hello_echoable [of i] by (simp_all add: echoable_def)
  have m: "m \<noteq> []" "length m \<le> 1023" "no_nul m" using assms(3) by (simp_all add: echoable_def)
  have v: "\<forall>x \<in> set v. ws_ch x" "length v \<le> G" using assms(2) by (auto simp: gap_ok_def)
  obtain g where g: "packet chan m @ r = 43 # g" using packet_hd [of chan m] by auto
  have e: "\<not> is_eol_ch 43" by (simp add: is_eol_ch_def)
  have "length (takeWhile is_eol_ch (v @ packet chan m @ r)) \<le> G"
    using takeWhile_before [of is_eol_ch 43 v g, OF e] v(2) g by simp
  then have "room (G + 80 + length (takeWhile is_eol_ch (v @ packet chan m @ r)))"
    using assms(5) by (elim room_mono) simp
  then obtain s1 es f1 b1 where s1: "esp_send L 0 ?h e = Inr (of_nat (length ?h), e\<lparr>esp_l := s1\<rparr>)"
    "v @ packet chan m @ r = es @ f1" "\<forall>x \<in> set es. is_eol_ch x" "rep b1 (t @ sent_msg ?h) s1 [] f1"
    using send_msg [OF assms(1,2) hello_echoable] by blast
  obtain v' where v': "v = es @ v'" "f1 = v' @ packet chan m @ r"
    using prefix_before [of v 43 g es f1 is_eol_ch] s1(2,3) e g by auto
  have "room (length v' + 71)" using assms(5) v(2) v'(1) by (elim room_mono) simp
  then obtain s2 b2 where s2: "esp_is_recv L 1024 (e\<lparr>esp_l := s1\<rparr>) = Inr ((chan, m), e\<lparr>esp_l := s2\<rparr>)"
    "rep b2 (t @ sent_msg ?h) s2 [] r"
    using recv_packet [of b1 "t @ sent_msg ?h" "e\<lparr>esp_l := s1\<rparr>" v' chan m r] s1(4) v' v(1) m by auto
  obtain c where c: "strcmp (cstring m (drop (Suc (length m)) reply0)) (cstring ?h []) = Inr c" "c = 0 \<longleftrightarrow> m = ?h"
    using strcmp_cstring [OF m(3) h(3)] by metis
  have "(of_nat (length ?h) :: u32) \<noteq> 0"
    using h by (simp add: unat_of_nat_u32 word_unat_eq_iff del: unat_of_nat)
  then have "server_round L reply0 chan i e = (if m = ?h then Inr (e\<lparr>esp_l := s2\<rparr>) else Inl (Panic ''mismatch''))"
    using s1(1) s2(1) c recv_buf_ok [OF assms(4) m(2)] by (simp add: server_round_def)
  then show ?thesis using s2(2) by blast
qed

lemma server_rounds_ok:
  "rep b t (esp_l e) [] (server_feed chan gs i ms) \<Longrightarrow> list_all (gap_ok G) gs \<Longrightarrow> length gs = length ms \<Longrightarrow>
   ms = map (\<lambda>j. hello_msg (i + of_nat j)) [0..<length ms] \<Longrightarrow> length reply0 = 1024 \<Longrightarrow> room (2 * G + 80) \<Longrightarrow>
   \<exists>s' b'. server_rounds L reply0 chan (length ms) i e = Inr (e\<lparr>esp_l := s'\<rparr>)
     \<and> rep b' (t @ concat (map sent_msg ms)) s' [] []"
proof (induction ms arbitrary: b t e gs i)
  case Nil
  have "e\<lparr>esp_l := esp_l e\<rparr> = e" by simp
  then show ?case using Nil by (intro exI [where x = "esp_l e"] exI [where x = b]) (cases gs, auto)
next
  case (Cons m ms)
  obtain v us gs1 where g: "gs = (v, us) # gs1" "gap_ok G (v, us)" "list_all (gap_ok G) gs1" "length gs1 = length ms"
    using Cons.prems(2,3) by (cases gs) auto
  have "m # ms = hello_msg i # map (\<lambda>j. hello_msg (i + 1 + of_nat j)) [0..<length ms]"
    using Cons.prems(4) by (simp add: map_upt_Suc add.assoc del: upt_Suc)
  then have m: "m = hello_msg i" "ms = map (\<lambda>j. hello_msg (i + 1 + of_nat j)) [0..<length ms]" by simp_all
  obtain s1 b1 where s1: "server_round L reply0 chan i e = Inr (e\<lparr>esp_l := s1\<rparr>)"
    "rep b1 (t @ sent_msg m) s1 [] (server_feed chan gs1 (i + 1) ms)"
    using server_round_eq [of b t e i us v chan m "server_feed chan gs1 (i + 1) ms" G reply0] Cons.prems g
      hello_echoable m(1) by auto
  obtain s' b' where "server_rounds L reply0 chan (length ms) (i + 1) (e\<lparr>esp_l := s1\<rparr>) = Inr (e\<lparr>esp_l := s'\<rparr>)"
    "rep b' (t @ sent_msg m @ concat (map sent_msg ms)) s' [] []"
    using Cons.IH [of b1 "t @ sent_msg m" "e\<lparr>esp_l := s1\<rparr>" gs1 "i + 1"] s1(2) g m(2) Cons.prems(5,6) by auto
  then show ?case using s1(1) by (intro exI [where x = s'] exI [where x = b']) simp
qed

text \<open>What comes back to the server is accepted exactly when it is what the server sent.\<close>

lemma server_rounds_exact:
  "rep b t (esp_l e) [] (server_feed chan gs i ms) \<Longrightarrow> list_all (gap_ok G) gs \<Longrightarrow> length gs = length ms \<Longrightarrow>
   list_all echoable ms \<Longrightarrow> ms \<noteq> map (\<lambda>j. hello_msg (i + of_nat j)) [0..<length ms] \<Longrightarrow> length reply0 = 1024 \<Longrightarrow>
   room (2 * G + 80) \<Longrightarrow> server_rounds L reply0 chan (length ms) i e = Inl (Panic ''mismatch'')"
proof (induction ms arbitrary: b t e gs i)
  case (Cons m ms)
  obtain v us gs1 where g: "gs = (v, us) # gs1" "gap_ok G (v, us)" "list_all (gap_ok G) gs1" "length gs1 = length ms"
    using Cons.prems(2,3) by (cases gs) auto
  have m: "echoable m" "list_all echoable ms" using Cons.prems(4) by simp_all
  obtain s1 b1 where s1: "server_round L reply0 chan i e =
      (if m = hello_msg i then Inr (e\<lparr>esp_l := s1\<rparr>) else Inl (Panic ''mismatch''))"
    "rep b1 (t @ sent_msg (hello_msg i)) s1 [] (server_feed chan gs1 (i + 1) ms)"
    using server_round_eq [of b t e i us v chan m "server_feed chan gs1 (i + 1) ms" G reply0] Cons.prems g m(1)
    by auto
  show ?case
  proof (cases "m = hello_msg i")
    case True
    have "map (\<lambda>j. hello_msg (i + of_nat j)) [0..<length (m # ms)]
        = hello_msg i # map (\<lambda>j. hello_msg (i + 1 + of_nat j)) [0..<length ms]"
      by (simp add: map_upt_Suc add.assoc del: upt_Suc)
    with Cons.prems(5) True have "ms \<noteq> map (\<lambda>j. hello_msg (i + 1 + of_nat j)) [0..<length ms]" by auto
    from Cons.IH [of b1 "t @ sent_msg (hello_msg i)" "e\<lparr>esp_l := s1\<rparr>" gs1 "i + 1"] this s1 g m(2) Cons.prems(6,7) True
    show ?thesis by simp
  next
    case False
    then show ?thesis using s1(1) by simp
  qed
qed simp

end

section \<open>Properties\<close>

text \<open>
  (C16) The two programs together, on the circular lexer. Whatever messages of 1 to 1023 bytes without a
  NUL reach the client, it gets through one round for each and has sent back exactly these messages.
  When they reach the server, framed by the esp there, it gets through its rounds, and has sent exactly
  \<open>hello 0\<close>, \<open>hello 1\<close>, ..., if they are what it sent; otherwise it stops with a mismatch. The parts of
  the line may be cut into reads in any way and have any blank space between them, as long as twice
  the blanks of a round, 80 bytes and a burst of the line fit in the ring of the lexer. A message of
  1024 bytes overruns the array of the client (\<open>client_round_overrun\<close>).
\<close>

theorem ping_pong_agrees:
  assumes "circ_rep M b t (esp_l ec) [] (client_feed cc gs ms)" "list_all echoable ms"
    and "list_all (gap_ok G) gs" "length gs = length ms" "list_all (gap_ok G) hs" "length hs = length ms"
    and "length buf0 = 1024" "length reply0 = 1024" "2 * G + 80 + M < 1024"
  shows "\<exists>ec'. client_rounds lex_circ buf0 (length ms) ec = Inr (ms, ec')
    \<and> tx (snd (esp_l ec')) = t @ concat (map sent_msg ms)
    \<and> (\<forall>d u es. circ_rep M d u (esp_l es) [] (server_feed cs hs 0 ms)
        \<longrightarrow> (if ms = map (\<lambda>j. hello_msg (of_nat j)) [0..<length ms]
             then \<exists>es'. server_rounds lex_circ reply0 cs (length ms) 0 es = Inr es'
               \<and> tx (snd (esp_l es')) = u @ concat (map sent_msg ms)
             else server_rounds lex_circ reply0 cs (length ms) 0 es = Inl (Panic ''mismatch'')))"
proof -
  have room: "circ_room M (2 * G + 80)" using assms(9) by (simp add: circ_room_def)
  obtain s1 b1 where c: "client_rounds lex_circ buf0 (length ms) ec = Inr (ms, ec\<lparr>esp_l := s1\<rparr>)"
    "circ_rep M b1 (t @ concat (map sent_msg ms)) s1 [] []"
    using circ.client_rounds_ok [OF assms(1,3,4,2,7) room] by auto
  have "if ms = map (\<lambda>j. hello_msg (of_nat j)) [0..<length ms]
      then \<exists>es'. server_rounds lex_circ reply0 cs (length ms) 0 es = Inr es'
        \<and> tx (snd (esp_l es')) = u @ concat (map sent_msg ms)
      else server_rounds lex_circ reply0 cs (length ms) 0 es = Inl (Panic ''mismatch'')"
    if r: "circ_rep M d u (esp_l es) [] (server_feed cs hs 0 ms)" for d u es
  proof (cases "ms = map (\<lambda>j. hello_msg (of_nat j)) [0..<length ms]")
    case True
    obtain s2 b2 where "server_rounds lex_circ reply0 cs (length ms) 0 es = Inr (es\<lparr>esp_l := s2\<rparr>)"
      "circ_rep M b2 (u @ concat (map sent_msg ms)) s2 [] []"
      using circ.server_rounds_ok [OF r assms(5,6) _ assms(8) room] True by auto
    then show ?thesis unfolding if_P [OF True] using circ.sent_ok by fastforce
  next
    case False
    then show ?thesis
      unfolding if_not_P [OF False] using circ.server_rounds_exact [OF r assms(5,6,2) _ assms(8) room] by simp
  qed
  then show ?thesis using c circ.sent_ok [OF c(2)]
    by (intro exI [where x = "ec\<lparr>esp_l := s1\<rparr>"]) simp
qed

definition demo_gaps :: "gap list" where
  "demo_gaps = [([13, 10], [[], [10], [10], [32], [10]])]"

lemma demo_gaps_ok: "list_all (gap_ok 6) demo_gaps" "length demo_gaps = 1"
  by (simp_all add: demo_gaps_def gap_ok_def ws_ch_def is_eol_ch_def is_space_ch_def)

lemma hello_0: "hello_msg 0 = bstr ''hello 0''"
  by (simp add: hello_msg_def num_text_def emit_digits.simps [of 10 0] digit_chars_def bstr_def)

lemma demo_feeds:
  "length (client_feed 0 demo_gaps [hello_msg 0]) \<le> 400" "client_feed 0 demo_gaps [hello_msg 0] \<noteq> []"
  "length (server_feed 0 demo_gaps 0 [hello_msg 0]) \<le> 400" "server_feed 0 demo_gaps 0 [hello_msg 0] \<noteq> []"
  using send_cmd_plain(2) [of 0 7] length_recv_line [of 7] length_ipd [of 0 7]
  by (simp_all add: demo_gaps_def hello_0 packet_def bstr_def)

theorem ping_pong_agrees_witness:
  "\<exists>l ec' es'. lex_init_circ = Inr l
    \<and> client_rounds lex_circ (replicate 1024 7) 1 (demo_esp l [Bytes (client_feed 0 demo_gaps [hello_msg 0])])
        = Inr ([bstr ''hello 0''], ec')
    \<and> server_rounds lex_circ (replicate 1024 7) 0 1 0 (demo_esp l [Bytes (server_feed 0 demo_gaps 0 [hello_msg 0])])
        = Inr es'
    \<and> tx (snd (esp_l es')) = tx (snd (esp_l ec'))"
proof -
  let ?c = "client_feed 0 demo_gaps [hello_msg 0]" and ?s = "server_feed 0 demo_gaps 0 [hello_msg 0]"
  let ?buf = "replicate 1024 7 :: bytes"
  obtain l where l: "lex_init_circ = Inr l" "circ_rep 400 0 [] (esp_l (demo_esp l [Bytes ?c])) [] ?c"
    using demo_esp_rep [of 400 "[Bytes ?c]"] demo_feeds by auto
  obtain l' where l': "lex_init_circ = Inr l'" "circ_rep 400 0 [] (esp_l (demo_esp l' [Bytes ?s])) [] ?s"
    using demo_esp_rep [of 400 "[Bytes ?s]"] demo_feeds by auto
  have ll: "l' = l" using l(1) l'(1) by (metis sum.inject(2))
  have len: "length ?buf = 1024" by simp
  have "list_all echoable [hello_msg 0]" using hello_echoable by simp
  then obtain s1 where c: "client_rounds lex_circ ?buf 1 (demo_esp l [Bytes ?c])
      = Inr ([hello_msg 0], (demo_esp l [Bytes ?c])\<lparr>esp_l := s1\<rparr>)"
    using circ.client_rounds_ok [OF l(2) demo_gaps_ok(1) _ _ len] demo_gaps_ok(2) by (auto simp: circ_room_def)
  have e: "list_all echoable [hello_msg 0]" using hello_echoable by simp
  have n: "length demo_gaps = length [hello_msg 0]" using demo_gaps_ok(2) by simp
  have "tx (snd s1) = sent_msg (hello_msg 0)"
    and "\<forall>d u es. circ_rep 400 d u (esp_l es) [] ?s \<longrightarrow> (\<exists>es'. server_rounds lex_circ ?buf 0 1 0 es = Inr es'
      \<and> tx (snd (esp_l es')) = u @ sent_msg (hello_msg 0))"
    using ping_pong_agrees [OF l(2) e demo_gaps_ok(1) n demo_gaps_ok(1) n len len, of 0] c
    by (auto simp del: client_rounds.simps server_rounds.simps)
  then obtain es' where "server_rounds lex_circ ?buf 0 1 0 (demo_esp l [Bytes ?s]) = Inr es'"
    "tx (snd (esp_l es')) = tx (snd s1)"
    using l'(2)[unfolded ll] by (metis append_Nil)
  then show ?thesis using l(1) c by (auto simp: hello_0)
qed

end
