(* ===== verification/Esp9.thy ===== *)
theory Esp9
  imports Esp_Run
begin

text \<open>
  The first version of the esp library, \<^verbatim>\<open>labs/9-esp8266/libesp\<close>: \<^verbatim>\<open>esp-lex.c\<close>, \<^verbatim>\<open>esp-parse.c\<close>,
  \<^verbatim>\<open>esp-run.c\<close> and the part of \<^verbatim>\<open>esp-commands.c\<close> that is written. Its lexer works on one ring of
  16384 bytes and meets the contract of the lexers of \<^verbatim>\<open>labs/10-esp8266\<close> (locales \<open>lex_buffer\<close> and
  \<open>lexer\<close>), so the lemmas on the routines the two versions share are reused. Where a routine is the
  same text in both versions it is the later definition at this lexer.
\<close>

section \<open>The lexer\<close>

definition LEX9_CQ_N :: u32 where
  "LEX9_CQ_N = 8192 * 2"

record lex9_t =
  l9_tail :: u32
  l9_n :: u32
  l9_stream :: cq_t

type_synonym lstate9 = "lex9_t \<times> esp_h"

definition lex_init9 :: "lex9_t result" where
  "lex_init9 = rbind (cq_init LEX9_CQ_N 1) (\<lambda>q. Inr \<lparr>l9_tail = tail q, l9_n = 0, l9_stream = q\<rparr>)"

text \<open>A checkpoint is the position of the ring; restoring it writes the position back.\<close>

definition lex_restore_ckpt9 :: "u32 \<Rightarrow> lstate9 \<Rightarrow> lstate9" where
  "lex_restore_ckpt9 ck s = (let (l, w) = s in (l\<lparr>l9_stream := (l9_stream l)\<lparr>tail := ck\<rparr>\<rparr>, w))"

definition lex_get_ckpt9 :: "lstate9 \<Rightarrow> u32" where
  "lex_get_ckpt9 s = tail (l9_stream (fst s))"

text \<open>\<open>lex_readin\<close> pushes without looking at the result of the push.\<close>

definition lex_push_n9 :: "lex9_t \<Rightarrow> bytes \<Rightarrow> lex9_t result" where
  "lex_push_n9 l buf =
     rbind (cq_push_n LEX9_CQ_N (l9_stream l) buf (of_nat (length buf))) (\<lambda>(_, q). Inr (l\<lparr>l9_stream := q\<rparr>))"

definition lex9_base :: "lex9_t lex_base" where
  "lex9_base =
     \<lparr>lex_empty = \<lambda>l. Inr (cq_empty (l9_stream l)),
      lex_nstream = \<lambda>l. Inr (cq_nelem LEX9_CQ_N (l9_stream l)),
      lex_push_n = lex_push_n9\<rparr>"

definition lex_readin9 :: "lstate9 \<Rightarrow> (u32 \<times> lstate9) result" where
  "lex_readin9 s = lex_readin lex9_base s"

definition lex_has_data9 :: "lstate9 \<Rightarrow> bool \<times> lstate9" where
  "lex_has_data9 s =
     (let (l, w) = s in
      if \<not> cq_empty (l9_stream l) then (True, s)
      else (case esp_has_data_timeout w of (b, w1) \<Rightarrow> (b, l, w1)))"

definition lex_fill9 :: "lstate9 \<Rightarrow> lstate9 result" where
  "lex_fill9 s =
     rbind (if cq_empty (l9_stream (fst s)) then rbind (lex_readin9 s) (\<lambda>(_, s1). Inr s1) else Inr s) (\<lambda>s1.
     rbind (c_assert (\<not> cq_empty (l9_stream (fst s1))) ''!cq_empty(&l->stream)'') (\<lambda>_. Inr s1))"

text \<open>\<open>cq_pop(&l->stream)\<close>.\<close>

definition lex_pop9 :: "lstate9 \<Rightarrow> (u8 \<times> lstate9) result" where
  "lex_pop9 s = (let (l, w) = s in
     rbind (cq_pop LEX9_CQ_N (l9_stream l)) (\<lambda>(c, q). Inr (c, l\<lparr>l9_stream := q\<rparr>, w)))"

definition lex_getc9 :: "lstate9 \<Rightarrow> (u8 \<times> lstate9) result" where
  "lex_getc9 s = (let (l, w) = s in rbind (lex_fill9 (l\<lparr>l9_n := l9_n l + 1\<rparr>, w)) lex_pop9)"

definition lex_peek9 :: "lstate9 \<Rightarrow> (u8 \<times> lstate9) result" where
  "lex_peek9 s =
     rbind (lex_fill9 s) (\<lambda>s1.
     rbind (cq_peek (l9_stream (fst s1))) (\<lambda>r.
       case r of None \<Rightarrow> Inl (Panic ''impossible'') | Some uc \<Rightarrow> Inr (uc, s1)))"

definition lex9 :: "(lex9_t, u32) lex_ops" where
  "lex9 =
     \<lparr>lex_empty = lex_empty lex9_base, lex_nstream = lex_nstream lex9_base,
      lex_push_n = lex_push_n lex9_base, lex_getc = lex_getc9, lex_peek = lex_peek9,
      lex_get_ckpt = lex_get_ckpt9, lex_restore_ckpt = lex_restore_ckpt9,
      lex_left = \<lambda>(l, w). unat (cq_nelem LEX9_CQ_N (l9_stream l)) + length (ev_bytes (rx w))\<rparr>"

section \<open>The lexer meets the contract\<close>

definition holds9 :: "nat \<Rightarrow> bytes \<Rightarrow> lex9_t \<Rightarrow> bytes \<Rightarrow> bool" where
  "holds9 b p l xs \<longleftrightarrow> ring_holds LEX9_CQ_N b p (l9_stream l) xs"

definition fits9 :: "nat \<Rightarrow> lex9_t \<Rightarrow> nat \<Rightarrow> bool" where
  "fits9 b l k \<longleftrightarrow> ring_fits LEX9_CQ_N b (l9_stream l) k"

lemma unat_LEX9_CQ_N [simp]: "unat LEX9_CQ_N = 16384"
  by (simp add: LEX9_CQ_N_def)

interpretation buffer9: lex_buffer lex9_base "holds9 b p" "fits9 b" for b p
proof
  show "holds9 b p l xs \<Longrightarrow> lex_empty lex9_base l = Inr (xs = [])" for l xs
    using ring_holds_empty by (auto simp: lex9_base_def holds9_def)
  show "holds9 b p l xs \<Longrightarrow> lex_nstream lex9_base l = Inr (of_nat (length xs)) \<and> length xs < 2 ^ 32" for l xs
    using ring_holds_nelem [of LEX9_CQ_N b p "l9_stream l" xs] by (simp add: lex9_base_def holds9_def)
  show "holds9 b p l xs \<Longrightarrow> ys \<noteq> [] \<Longrightarrow> length ys \<le> 1024 \<Longrightarrow> fits9 b l (length ys + k) \<Longrightarrow>
    \<exists>l'. lex_push_n lex9_base l ys = Inr l' \<and> holds9 b p l' (xs @ ys) \<and> fits9 b l' k" for l xs ys k
    using ring_holds_push [of LEX9_CQ_N b p "l9_stream l" xs ys k]
    by (auto simp: lex9_base_def lex_push_n9_def holds9_def fits9_def)
qed

definition rep9 :: "nat \<Rightarrow> nat \<Rightarrow> bytes \<Rightarrow> lstate9 \<Rightarrow> bytes \<Rightarrow> bytes \<Rightarrow> bool" where
  "rep9 M b t s p f \<longleftrightarrow> (\<exists>xs. holds9 b p (fst s) xs \<and> f = xs @ ev_bytes (rx (snd s))
     \<and> bursts_ok M (rx (snd s)) \<and> tx (snd s) = t)"

definition room9 :: "nat \<Rightarrow> nat \<Rightarrow> bool" where
  "room9 M k \<longleftrightarrow> k + M < 16384"

lemma holds9_empty: "holds9 b p l xs \<Longrightarrow> cq_empty (l9_stream l) \<longleftrightarrow> xs = []"
  using ring_holds_empty by (auto simp: holds9_def)

lemma fill9:
  assumes "rep9 M b t (l, w) p (c # f)" "room9 M (length p)"
  shows "\<exists>l2 w2 xs. lex_fill9 (l, w) = Inr (l2, w2) \<and> holds9 b p l2 (c # xs) \<and> f = xs @ ev_bytes (rx w2)
    \<and> bursts_ok M (rx w2) \<and> tx w2 = t"
proof -
  obtain xs where h: "holds9 b p l xs" "c # f = xs @ ev_bytes (rx w)" "bursts_ok M (rx w)" "tx w = t"
    using assms(1) by (auto simp: rep9_def)
  have "fits9 b l M" if "xs = []"
    using that h(1) assms(2) by (simp add: holds9_def ring_holds_def fits9_def ring_fits_def room9_def)
  moreover have "\<And>j k. fits9 b l j \<Longrightarrow> k \<le> j \<Longrightarrow> fits9 b l k" by (simp add: fits9_def ring_fits_def)
  ultimately obtain l2 w2 ys where r: "(if xs = [] then rbind (lex_readin lex9_base (l, w)) (\<lambda>(_, s1). Inr s1)
      else Inr (l, w)) = Inr (l2, w2)" "holds9 b p l2 (c # ys)" "f = ys @ ev_bytes (rx w2)" "bursts_ok M (rx w2)"
    "tx w2 = t"
    using buffer9.fill_ok [OF h(1-3)] h(4) by metis
  have "lex_fill9 (l, w) = Inr (l2, w2)"
    unfolding lex_fill9_def using r(1) holds9_empty [OF h(1)] holds9_empty [OF r(2)]
    by (cases "xs = []") (simp_all add: lex_readin9_def)
  then show ?thesis using r by blast
qed

lemma fill9_end: "rep9 M b t (l, w) p [] \<Longrightarrow> lex_fill9 (l, w) = Inl OutOfInput"
  using holds9_empty [of b p l] buffer9.readin_end [of M w b p l]
  by (auto simp: rep9_def lex_fill9_def lex_readin9_def)

lemma pop9:
  assumes "holds9 b p l (c # xs)"
  shows "\<exists>l'. lex_pop9 (l, w) = Inr (c, l', w) \<and> holds9 b (p @ [c]) l' xs"
  using ring_holds_pop [of LEX9_CQ_N b p "l9_stream l" c xs] assms by (auto simp: holds9_def lex_pop9_def)

lemma rep9_n [simp]: "rep9 M b t (l\<lparr>l9_n := k\<rparr>, w) p f \<longleftrightarrow> rep9 M b t (l, w) p f"
  by (simp add: rep9_def holds9_def)

lemma nstream9:
  assumes "rep9 M b t s p f"
  shows "\<exists>xs. lex_nstream lex9 (fst s) = Inr (of_nat (length xs)) \<and> length xs < 2 ^ 32
    \<and> f = xs @ ev_bytes (rx (snd s)) \<and> unat (cq_nelem LEX9_CQ_N (l9_stream (fst s))) = length xs"
  using assms buffer9.nstream_ok [of b p "fst s"] unat_cq_nelem [of LEX9_CQ_N "l9_stream (fst s)"]
  by (auto simp: rep9_def lex9_def holds9_def ring_holds_def)

lemma peek9:
  assumes "rep9 M b t s p (c # f)" "room9 M (length p)"
  shows "\<exists>l w xs. lex_peek9 s = Inr (c, l, w) \<and> rep9 M b t (l, w) p (c # f) \<and> holds9 b p l (c # xs)"
proof -
  obtain l0 w0 where s: "s = (l0, w0)" by (cases s)
  obtain l2 w2 xs where f: "lex_fill9 (l0, w0) = Inr (l2, w2)" "holds9 b p l2 (c # xs)" "f = xs @ ev_bytes (rx w2)"
    "bursts_ok M (rx w2)" "tx w2 = t" using fill9 assms s by blast
  then have "lex_peek9 s = Inr (c, l2, w2)"
    using cq_peek_list [of LEX9_CQ_N "l9_stream l2"] s by (auto simp: lex_peek9_def holds9_def ring_holds_def)
  then show ?thesis using f by (auto simp: rep9_def)
qed

interpretation l9: lexer lex9 "rep9 M" "ring_pos LEX9_CQ_N" "room9 M" for M
proof
  fix b t p f and s :: lstate9 and c
  obtain l w where s: "s = (l, w)" by (cases s)
  show "\<exists>s'. lex_getc lex9 s = Inr (c, s') \<and> rep9 M b t s' (p @ [c]) f"
    if "rep9 M b t s p (c # f)" "room9 M (length p)"
  proof -
    have "rep9 M b t (l\<lparr>l9_n := l9_n l + 1\<rparr>, w) p (c # f)" using that s by simp
    from fill9 [OF this that(2)] obtain l2 w2 xs where f: "lex_fill9 (l\<lparr>l9_n := l9_n l + 1\<rparr>, w) = Inr (l2, w2)"
      "holds9 b p l2 (c # xs)" "f = xs @ ev_bytes (rx w2)" "bursts_ok M (rx w2)" "tx w2 = t" by blast
    then show ?thesis using pop9 [OF f(2), of w2] s by (auto simp: lex9_def lex_getc9_def rep9_def)
  qed
  show "\<exists>s'. lex_peek lex9 s = Inr (c, s') \<and> rep9 M b t s' p (c # f)"
    if "rep9 M b t s p (c # f)" "room9 M (length p)"
    using peek9 [OF that] by (auto simp: lex9_def)
  show "lex_getc lex9 s = Inl OutOfInput" if "rep9 M b t s p []"
    using that s fill9_end [of M b t "l\<lparr>l9_n := l9_n l + 1\<rparr>" w p] by (simp add: lex9_def lex_getc9_def)
  show "lex_peek lex9 s = Inl OutOfInput" if "rep9 M b t s p []"
    using that s fill9_end by (simp add: lex9_def lex_peek9_def)
  show "\<exists>n. lex_nstream lex9 (fst s) = Inr n \<and> (n \<noteq> 0 \<longrightarrow> f \<noteq> [])" if "rep9 M b t s p f"
    using nstream9 [OF that] by auto
  show "lex_left lex9 s = length f" if "rep9 M b t s p f"
    using nstream9 [OF that] s by (auto simp: lex9_def)
  show "rep9 M b t (lex_restore_ckpt lex9 (ring_pos LEX9_CQ_N b (length p)) s) p (q @ f)"
    if "rep9 M b t s (p @ q) f" for q
    using that ring_holds_restore s by (fastforce simp: rep9_def holds9_def lex9_def lex_restore_ckpt9_def)
  show "\<exists>b'. rep9 M b' t s [] f" if "rep9 M b t s p f"
    using that ring_holds_rebase by (fastforce simp: rep9_def holds9_def)
qed (auto simp: rep9_def lex9_def lex_get_ckpt9_def holds9_def ring_holds_def ring_pos_def room9_def
    esp_write_exact_def)

lemma lex_init9_rep:
  assumes "bursts_ok M evs"
  shows "\<exists>l. lex_init9 = Inr l \<and> rep9 M 0 t (l, \<lparr>rx = evs, tx = t\<rparr>) [] (ev_bytes evs)"
proof -
  have "cq_size_ok LEX9_CQ_N" by (simp add: cq_size_ok_def)
  from ring_holds_init [OF this, of 1] assms show ?thesis
    by (auto simp: lex_init9_def rep9_def holds9_def)
qed

section \<open>The parser\<close>

definition lex_panic9 :: "string \<Rightarrow> 'x result" where
  "lex_panic9 msg = Inl (Panic msg)"

definition exp_tok9 :: "u8 \<Rightarrow> lstate9 \<Rightarrow> lstate9 result" where
  "exp_tok9 expc s =
     rbind (lex_getc lex9 s) (\<lambda>(c, s1). if c = expc then Inr s1 else lex_panic9 ''expect: waiting for'')"

definition is_eol9 :: "lstate9 \<Rightarrow> (bool \<times> lstate9) result" where
  "is_eol9 = is_eol lex9"

definition is_space9 :: "lstate9 \<Rightarrow> (bool \<times> lstate9) result" where
  "is_space9 = is_space lex9"

definition skip_blank_space9 :: "lstate9 \<Rightarrow> lstate9 result" where
  "skip_blank_space9 = skip_blank_space lex9"

text \<open>Unlike the later version, no blanks are skipped in front of the end of line.\<close>

definition match_eol9 :: "lstate9 \<Rightarrow> (bool \<times> lstate9) result" where
  "match_eol9 s =
     rbind (is_eol9 s) (\<lambda>(e, s1).
       if \<not> e then Inr (False, s1)
       else rbind (lex_drop lex9 s1) (\<lambda>s2.
         rbind (c_while (Suc (lex_left lex9 s2)) (buffered_eol lex9) (lex_drop lex9) s2) (\<lambda>s3.
           Inr (True, s3))))"

definition match_blank_line9 :: "lstate9 \<Rightarrow> (bool \<times> lstate9) result" where
  "match_blank_line9 s = rbind (skip_blank_space9 s) match_eol9"

definition is_blank_line9 :: "lstate9 \<Rightarrow> (bool \<times> lstate9) result" where
  "is_blank_line9 s =
     rbind (match_blank_line9 s) (\<lambda>(e, s1).
       if e then Inr (True, s1) else Inr (False, lex_restore_ckpt9 (lex_get_ckpt9 s) s1))"

text \<open>The digits are taken with \<open>cq_pop\<close>, right after the look at them.\<close>

fun uint_loop9 :: "nat \<Rightarrow> u32 \<Rightarrow> nat \<Rightarrow> lstate9 \<Rightarrow> ((u32 \<times> nat) \<times> lstate9) result" where
  "uint_loop9 0 x i s = Inl Diverges"
| "uint_loop9 (Suc k) x i s =
     rbind (lex_peek lex9 s) (\<lambda>(c, s1).
       if \<not> c_isdigit c then Inr ((x, i), s1)
       else rbind (lex_pop9 s1) (\<lambda>(d, s2). uint_loop9 k (x * 10 + ucast d - 48) (Suc i) s2))"

definition match_uint9 :: "lstate9 \<Rightarrow> ((bool \<times> u32) \<times> lstate9) result" where
  "match_uint9 s =
     rbind (skip_blank_space9 s) (\<lambda>s1.
     rbind (uint_loop9 (Suc (lex_left lex9 s1)) 0 0 s1) (\<lambda>((x, i), s2). Inr ((i \<noteq> 0, x), s2)))"

definition match_string9 :: "nat \<Rightarrow> lstate9 \<Rightarrow> (bytes option \<times> lstate9) result" where
  "match_string9 nbytes = match_literal_string lex9 nbytes"

definition expect_string9 :: "nat \<Rightarrow> lstate9 \<Rightarrow> (bytes \<times> lstate9) result" where
  "expect_string9 nbytes s =
     rbind (match_string9 nbytes s) (\<lambda>(r, s1).
       case r of None \<Rightarrow> lex_panic9 ''expected a string!'' | Some str \<Rightarrow> Inr (str, s1))"

definition expect_uint9 :: "lstate9 \<Rightarrow> (u32 \<times> lstate9) result" where
  "expect_uint9 s =
     rbind (match_uint9 s) (\<lambda>((ok, x), s1).
       if ok then Inr (x, s1) else lex_panic9 ''expected uint, have something else'')"

definition expect_blank_line9 :: "lstate9 \<Rightarrow> lstate9 result" where
  "expect_blank_line9 s =
     rbind (skip_blank_space9 s) (\<lambda>s1.
     rbind (match_eol9 s1) (\<lambda>(e, s2). if e then Inr s2 else lex_panic9 ''expected blank line!''))"

definition skip_blank_lines9 :: "lstate9 \<Rightarrow> lstate9 result" where
  "skip_blank_lines9 s = c_while (Suc (lex_left lex9 s)) is_blank_line9 Inr s"

text \<open>The loop of \<open>get_nonblank_line\<close> with the room left: the line, and whether it has a non-blank.\<close>

fun line_loop9 :: "nat \<Rightarrow> lstate9 \<Rightarrow> ((bytes \<times> bool) \<times> lstate9) result" where
  "line_loop9 0 s = lex_panic9 ''buffer too small''"
| "line_loop9 (Suc k) s =
     rbind (match_eol9 s) (\<lambda>(e, s1).
       if e then Inr (([], False), s1)
       else rbind (is_space9 s1) (\<lambda>(sp, s2).
         rbind (lex_getc lex9 s2) (\<lambda>(c, s3).
         rbind (line_loop9 k s3) (\<lambda>((cs, non_empty), s4).
           Inr ((c # cs, \<not> sp \<or> non_empty), s4)))))"

definition get_nonblank_line9 :: "nat \<Rightarrow> lstate9 \<Rightarrow> ((bytes \<times> bool) \<times> lstate9) result" where
  "get_nonblank_line9 nbytes = line_loop9 nbytes"

definition match_tok9 :: "bytes \<Rightarrow> lstate9 \<Rightarrow> (bool \<times> lstate9) result" where
  "match_tok9 tok s =
     (let ckpt = lex_get_ckpt9 s in
      rbind (skip_blank_space9 s) (\<lambda>s1.
      rbind (c_assert (tok \<noteq> []) ''*p'') (\<lambda>_.
      rbind (tok_loop lex9 tok s1) (\<lambda>(ok, s2).
        if \<not> ok then Inr (False, lex_restore_ckpt9 ckpt s2)
        else if c_isalpha (last tok)
        then rbind (lex_peek lex9 s2) (\<lambda>(c, s3).
          if c_isalpha c then Inr (False, lex_restore_ckpt9 ckpt s3) else Inr (True, s3))
        else Inr (True, s2)))))"

definition expect9 :: "bytes \<Rightarrow> lstate9 \<Rightarrow> lstate9 result" where
  "expect9 tok s =
     rbind (match_tok9 tok s) (\<lambda>(ok, s1).
       if ok then Inr s1 else lex_panic9 ''expected token, received other'')"

text \<open>
  The arguments of \<open>match_line\<close>: a string conversion takes a pointer and the size of its buffer, a
  number a pointer. Taking an argument that was not passed is undefined in C.
\<close>

datatype line_arg = StrArg nat | UintArg

fun match_conv9 :: "u8 \<Rightarrow> line_arg list \<Rightarrow> lstate9 \<Rightarrow> (((bool \<times> mval list) \<times> line_arg list) \<times> lstate9) result" where
  "match_conv9 k (StrArg n # args) s =
     (if k = 115 then rbind (match_string9 n s) (\<lambda>(r, s1).
        Inr ((case r of None \<Rightarrow> (False, []) | Some str \<Rightarrow> (True, [MStr str]), args), s1))
      else Inl Bounds)"
| "match_conv9 k (UintArg # args) s =
     (if k = 117 then rbind (match_uint9 s) (\<lambda>((ok, x), s1). Inr (((ok, [MUint x]), args), s1)) else Inl Bounds)"
| "match_conv9 k [] s = Inl Bounds"

fun line_fmt_loop9 :: "bytes \<Rightarrow> bool \<Rightarrow> line_arg list \<Rightarrow> scan_res \<Rightarrow> lstate9 \<Rightarrow> (scan_res \<times> lstate9) result" where
  "line_fmt_loop9 [] first args a s = Inr (a\<lparr>matched := True\<rparr>, s)"
| "line_fmt_loop9 (c # fmt) first args a s =
     rbind (c_assert (\<not> is_eol_ch c) ''!is_eol_ch(*fmt)'') (\<lambda>_.
     rbind (lex_peek lex9 s) (\<lambda>(d, s1).
       if is_eol_ch d then Inr (a, s1)
       else if c \<noteq> 37 then
         (if c \<noteq> 32 then
            rbind (skip_blank_space9 s1) (\<lambda>s2.
            rbind (lex_getc lex9 s2) (\<lambda>(e, s3).
              if e \<noteq> c then Inr (a, s3) else line_fmt_loop9 fmt False args a s3))
          else line_fmt_loop9 fmt False args a s1)
       else
         (let a1 = (if first then a else a\<lparr>must_match := True\<rparr>) in
          case fmt of
            [] \<Rightarrow> Inl (Panic ''illegal format string'')
          | k # fmt1 \<Rightarrow>
              if k \<noteq> 115 \<and> k \<noteq> 117 then Inl (Panic ''illegal format string'')
              else rbind (match_conv9 k args s1) (\<lambda>(((ok, vs), args1), s2).
                let a2 = a1\<lparr>stored := stored a1 @ vs\<rparr> in
                if ok then line_fmt_loop9 fmt1 False args1 a2 s2 else Inr (a2, s2)))))"

definition match_line9 :: "bytes \<Rightarrow> line_arg list \<Rightarrow> lstate9 \<Rightarrow> ((bool \<times> mval list) \<times> lstate9) result" where
  "match_line9 fmt args s =
     (let ckpt = lex_get_ckpt9 s in
      rbind (skip_blank_lines9 s) (\<lambda>s1.
      rbind (line_fmt_loop9 fmt True args scan_init s1) (\<lambda>(a, s2).
        if matched a then
          rbind (match_eol9 s2) (\<lambda>(e, s3).
            if \<not> e then lex_panic9 ''did not match end of line'' else Inr ((True, stored a), s3))
        else if must_match a then lex_panic9 ''must match failed: malformed value''
        else Inr ((False, stored a), lex_restore_ckpt9 ckpt s2))))"

section \<open>Commands and responses\<close>

definition match_text9 :: "bytes \<Rightarrow> lstate9 \<Rightarrow> (bool \<times> lstate9) result" where
  "match_text9 lit s = rbind (match_line9 lit [] s) (\<lambda>((ok, _), s1). Inr (ok, s1))"

text \<open>The line is printed if it is not blank, and not kept.\<close>

definition cmd_echo_line9 :: "lstate9 \<Rightarrow> lstate9 result" where
  "cmd_echo_line9 s = rbind (get_nonblank_line9 1024 s) (\<lambda>(_, s1). Inr s1)"

definition cmd_puts9 :: "bytes \<Rightarrow> lstate9 \<Rightarrow> lstate9 result" where
  "cmd_puts9 = cmd_puts"

definition match_busy9 :: "lstate9 \<Rightarrow> (bool \<times> lstate9) result" where
  "match_busy9 s =
     rbind (match_text9 (bstr ''busy s...'') s) (\<lambda>(b, s1).
       if b then Inr (True, s1) else match_text9 (bstr ''busy p...'') s1)"

fun cmd_response_loop9 :: "nat \<Rightarrow> bytes \<Rightarrow> bool \<Rightarrow> bool \<Rightarrow> lstate9 \<Rightarrow> (bool \<times> lstate9) result" where
  "cmd_response_loop9 0 end_line can_fail_p extra_p s = Inl Diverges"
| "cmd_response_loop9 (Suc k) end_line can_fail_p extra_p s =
     rbind (match_text9 end_line s) (\<lambda>(ok, s1).
     if ok then Inr (True, s1)
     else rbind (match_tok9 (bstr ''ERROR'') s1) (\<lambda>(err, s2).
     if err then (if can_fail_p then Inr (False, s2) else lex_panic9 ''fatal error: got an error'')
     else rbind (match_busy9 s2) (\<lambda>(busy, s3).
     if busy then lex_panic9 ''received a busy''
     else rbind (if \<not> extra_p then expect_blank_line9 s3 else cmd_echo_line9 s3) (\<lambda>s4.
       cmd_response_loop9 k end_line can_fail_p extra_p s4))))"

definition cmd_response9 :: "bytes \<Rightarrow> bool \<Rightarrow> bool \<Rightarrow> lstate9 \<Rightarrow> (bool \<times> lstate9) result" where
  "cmd_response9 end_line can_fail_p extra_p s =
     cmd_response_loop9 (Suc (lex_left lex9 s)) end_line can_fail_p extra_p s"

text \<open>The descriptor; nothing reads its table of connections yet. The types are 2 (TCP) and 3 (UDP).\<close>

record esp_conn9_t =
  type9 :: u32
  conn_active_p9 :: u32
  ip9 :: "bytes option"
  portnum9 :: u32

record esp9_t =
  esp9_l :: lstate9
  wifi9 :: "bytes option"
  password9 :: "bytes option"
  handle_ooo_msg9 :: ooo_handler
  active_p9 :: u32
  open_conn9 :: "esp_conn9_t list"

definition esp_mk9 :: "lstate9 \<Rightarrow> bytes option \<Rightarrow> bytes option \<Rightarrow> esp9_t" where
  "esp_mk9 l w p = \<lparr>esp9_l = l, wifi9 = w, password9 = p,
     handle_ooo_msg9 = default_handle_out_of_order_msg, active_p9 = 0,
     open_conn9 = replicate 6 \<lparr>type9 = 0, conn_active_p9 = 0, ip9 = None, portnum9 = 0\<rparr>\<rparr>"

definition ooo_msg9 :: "esp9_t \<Rightarrow> esp9_t result" where
  "ooo_msg9 e =
     (case handle_ooo_msg9 e of
        default_handle_out_of_order_msg \<Rightarrow>
          if active_p9 e = 0 then rbind (cmd_echo_line9 (esp9_l e)) (\<lambda>s. Inr (e\<lparr>esp9_l := s\<rparr>))
          else lex_panic9 ''unexpected out of order message''
      | handle_ooo_server \<Rightarrow> lex_panic9 ''unimplemented: you should handle other messages.''
      | handle_ooo_client \<Rightarrow> lex_panic9 ''client: AFAIK: should never receive unexpected messages.'')"

fun cmd_ack_loop9 :: "nat \<Rightarrow> bytes \<Rightarrow> esp9_t \<Rightarrow> esp9_t result" where
  "cmd_ack_loop9 0 cmd e = Inl Diverges"
| "cmd_ack_loop9 (Suc k) cmd e =
     rbind (match_text9 cmd (esp9_l e)) (\<lambda>(ok, s1).
     if ok then Inr (e\<lparr>esp9_l := s1\<rparr>)
     else rbind (is_blank_line9 s1) (\<lambda>(blank, s2).
     if blank then cmd_ack_loop9 k cmd (e\<lparr>esp9_l := s2\<rparr>)
     else rbind (ooo_msg9 (e\<lparr>esp9_l := s2\<rparr>)) (cmd_ack_loop9 k cmd)))"

definition cmd_ack9 :: "bytes \<Rightarrow> esp9_t \<Rightarrow> esp9_t result" where
  "cmd_ack9 cmd e = cmd_ack_loop9 (Suc (lex_left lex9 (esp9_l e))) cmd e"

definition do_at_cmd9 :: "bytes \<Rightarrow> bytes \<Rightarrow> bool \<Rightarrow> esp9_t \<Rightarrow> (bool \<times> esp9_t) result" where
  "do_at_cmd9 cmd response extra_p e =
     rbind (cmd_puts9 cmd (esp9_l e)) (\<lambda>s.
     rbind (cmd_ack9 cmd (e\<lparr>esp9_l := s\<rparr>)) (\<lambda>e1.
     rbind (cmd_response9 response False extra_p (esp9_l e1)) (\<lambda>(ok, s2).
       Inr (ok, e1\<lparr>esp9_l := s2\<rparr>))))"

definition at_cmd9 :: "bytes \<Rightarrow> bytes \<Rightarrow> esp9_t \<Rightarrow> (bool \<times> esp9_t) result" where
  "at_cmd9 cmd response e = do_at_cmd9 cmd response False e"

definition at_cmd_extra9 :: "bytes \<Rightarrow> bytes \<Rightarrow> esp9_t \<Rightarrow> (bool \<times> esp9_t) result" where
  "at_cmd_extra9 cmd response e = do_at_cmd9 cmd response True e"

definition at_cmd_ok9 :: "bytes \<Rightarrow> esp9_t \<Rightarrow> (bool \<times> esp9_t) result" where
  "at_cmd_ok9 cmd e = at_cmd9 cmd (bstr ''OK'') e"

definition at_cmdv9 :: "bytes \<Rightarrow> esp9_t \<Rightarrow> (bool \<times> esp9_t) result" where
  "at_cmdv9 lit e = at_cmd_ok9 (take 511 lit) e"

definition esp_is_up9 :: "esp9_t \<Rightarrow> (bool \<times> esp9_t) result" where
  "esp_is_up9 e = rbind (at_cmd9 (bstr ''AT'') (bstr ''OK'') e) (\<lambda>(_, e1). Inr (True, e1))"

fun at_drain_loop9 :: "nat \<Rightarrow> esp9_t \<Rightarrow> (bool \<times> esp9_t) result" where
  "at_drain_loop9 0 e = Inl Diverges"
| "at_drain_loop9 (Suc k) e =
     rbind (match_text9 (bstr ''ready'') (esp9_l e)) (\<lambda>(ok, s).
       if ok then Inr (True, e\<lparr>esp9_l := s\<rparr>)
       else rbind (cmd_echo_line9 s) (\<lambda>s1. at_drain_loop9 k (e\<lparr>esp9_l := s1\<rparr>)))"

definition at_drain9 :: "esp9_t \<Rightarrow> (bool \<times> esp9_t) result" where
  "at_drain9 e = at_drain_loop9 (Suc (lex_left lex9 (esp9_l e))) e"

definition at_delay9 :: "esp9_t \<Rightarrow> (bool \<times> esp9_t) result" where
  "at_delay9 e = Inr (True, e)"

definition esp_hard_reset9 :: "esp9_t \<Rightarrow> (bool \<times> esp9_t) result" where
  "esp_hard_reset9 e =
     rbind (c_while (Suc (lex_left lex9 (esp9_l e))) has_data_1ms (lex_drop lex9) (esp9_l e)) (\<lambda>s.
     rbind (and_then (at_cmd_extra9 (bstr ''AT+RST'') (bstr ''OK'')) at_drain9 (e\<lparr>esp9_l := s\<rparr>)) (\<lambda>(ok, e1).
       if \<not> ok then Inl (Panic ''cannot reset??'')
       else and_then (at_cmd_extra9 (bstr ''AT+RESTORE'') (bstr ''OK''))
           (and_then at_delay9
           (and_then at_drain9
           (and_then (at_cmd_extra9 (bstr ''AT+RST'') (bstr ''OK'')) at_drain9))) e1))"

definition esp_setup_wifi9 :: "esp9_t \<Rightarrow> (bool \<times> esp9_t) result" where
  "esp_setup_wifi9 e =
     (case (wifi9 e, password9 e) of
        (Some w, Some p) \<Rightarrow>
          rbind (c_assert (active_p9 e = 0) ''!e->active_p'') (\<lambda>_.
          rbind (c_assert (8 \<le> length p) ''strlen(e->password) >= 8'') (\<lambda>_.
            and_then (at_cmdv9 (bstr ''AT+CWSAP='' @ quoted2 w p @ bstr '',5,3''))
            (and_then (at_cmd9 (bstr ''AT+CWMODE=3'') (bstr ''OK''))
             (at_cmd_extra9 (bstr ''AT+CIFSR'') (bstr ''OK''))) e))
      | _ \<Rightarrow> Inl (AssertFail ''e->wifi && e->password''))"

text \<open>The routines the lab leaves to its students stop at their stub.\<close>

definition esp_connect_to_wifi9 :: "esp9_t \<Rightarrow> (bool \<times> esp9_t) result" where
  "esp_connect_to_wifi9 e =
     (case (wifi9 e, password9 e) of
        (Some w, Some p) \<Rightarrow> rbind (c_assert (active_p9 e = 0) ''!e->active_p'') (\<lambda>_. Inl Unimplemented)
      | _ \<Rightarrow> Inl (AssertFail ''e->wifi && e->password''))"

definition esp_start_tcp_client9 :: "esp9_t \<Rightarrow> (bool \<times> esp9_t) result" where
  "esp_start_tcp_client9 e = rbind (c_assert (active_p9 e = 0) ''!e->active_p'') (\<lambda>_. Inl Unimplemented)"

definition esp_start_tcp_server9 :: "esp9_t \<Rightarrow> (bool \<times> esp9_t) result" where
  "esp_start_tcp_server9 e = rbind (c_assert (active_p9 e = 0) ''!e->active_p'') (\<lambda>_. Inl Unimplemented)"

definition esp_connect9 :: "esp9_t \<Rightarrow> (u32 \<times> esp9_t) result" where
  "esp_connect9 e = Inl Unimplemented"

text \<open>\<open>esp_send\<close> checks the length against \<open>ESP_MAX_PKT\<close>, 1024, before its stub.\<close>

definition esp_send9 :: "bytes \<Rightarrow> esp9_t \<Rightarrow> (u32 \<times> esp9_t) result" where
  "esp_send9 data e = rbind (c_assert (length data < 1024) ''n < ESP_MAX_PKT'') (\<lambda>_. Inl Unimplemented)"

definition esp_recv9 :: "esp9_t \<Rightarrow> (bytes \<times> esp9_t) result" where
  "esp_recv9 e = Inl Unimplemented"

section \<open>A command, its echo and its answer\<close>

lemma lex9_ckpt [simp]: "lex_get_ckpt9 = lex_get_ckpt lex9" "lex_restore_ckpt9 = lex_restore_ckpt lex9"
  by (simp_all add: lex9_def)

lemma rewind9: "rep9 M b t s p f \<Longrightarrow> rep9 M b t s' (p @ q) g \<Longrightarrow> f = q @ g \<Longrightarrow>
    rep9 M b t (lex_restore_ckpt lex9 (lex_get_ckpt lex9 s) s') p f"
  by (simp add: l9.ckpt_ok l9.restore_ok)

lemma match_eol9_yes:
  assumes "rep9 M b t s p (e # f)" "is_eol_ch e" "room9 M (length p + 1 + length (takeWhile is_eol_ch f))"
  shows "\<exists>s' es f'. match_eol9 s = Inr (True, s') \<and> f = es @ f' \<and> (\<forall>x \<in> set es. is_eol_ch x)
    \<and> rep9 M b t s' (p @ e # es) f'"
proof -
  have r: "room9 M (length p)" using assms(3) by (simp add: room9_def)
  obtain s1 where s1: "is_eol lex9 s = Inr (True, s1)" "rep9 M b t s1 p (e # f)"
    using l9.is_eol_ok [OF assms(1) r] assms(2) by auto
  obtain s2 where s2: "lex_drop lex9 s1 = Inr s2" "rep9 M b t s2 (p @ [e]) f" using l9.drop_ok [OF s1(2) r] by blast
  have "room9 M (length (p @ [e]) + length (takeWhile is_eol_ch f))" using assms(3) by (simp add: room9_def)
  moreover have "length f < Suc (lex_left lex9 s2)" using l9.left_ok [OF s2(2)] by simp
  ultimately obtain s' es f' where "c_while (Suc (lex_left lex9 s2)) (buffered_eol lex9) (lex_drop lex9) s2 = Inr s'"
    "f = es @ f'" "\<forall>x \<in> set es. is_eol_ch x" "rep9 M b t s' ((p @ [e]) @ es) f'"
    using l9.eol_loop_ok [OF s2(2)] by blast
  then show ?thesis using s1(1) s2(1) by (simp add: match_eol9_def is_eol9_def del: c_while.simps) blast
qed

lemma match_eol9_no:
  assumes "rep9 M b t s p (c # f)" "\<not> is_eol_ch c" "room9 M (length p)"
  shows "\<exists>s'. match_eol9 s = Inr (False, s') \<and> rep9 M b t s' p (c # f)"
  using l9.is_eol_ok [OF assms(1,3)] assms(2) by (auto simp: match_eol9_def is_eol9_def)

lemma is_blank_line9_yes:
  assumes "rep9 M b t s p (q @ e # f)" "\<forall>x \<in> set q. is_space_ch x" "is_eol_ch e"
    "room9 M (length p + length q + 1 + length (takeWhile is_eol_ch f))"
  shows "\<exists>s' es f'. is_blank_line9 s = Inr (True, s') \<and> f = es @ f' \<and> (\<forall>x \<in> set es. is_eol_ch x)
    \<and> rep9 M b t s' (p @ q @ e # es) f'"
proof -
  have r: "room9 M (length p + length q)" using assms(4) by (simp add: room9_def)
  have "\<not> is_space_ch e" using assms(3) space_not_eol by blast
  then obtain s1 where s1: "skip_blank_space lex9 s = Inr s1" "rep9 M b t s1 (p @ q) (e # f)"
    using l9.skip_blank_space_ok [OF assms(1,2) _ r] by blast
  have "room9 M (length (p @ q) + 1 + length (takeWhile is_eol_ch f))" using assms(4) by (simp add: add.assoc)
  from match_eol9_yes [OF s1(2) assms(3) this] obtain s' es f' where
    m: "match_eol9 s1 = Inr (True, s')" "f = es @ f'" "\<forall>x \<in> set es. is_eol_ch x"
      "rep9 M b t s' ((p @ q) @ e # es) f'" by blast
  from m(1) s1(1) have "is_blank_line9 s = Inr (True, s')"
    by (simp add: is_blank_line9_def match_blank_line9_def skip_blank_space9_def)
  then show ?thesis using m(2-4) by auto
qed

lemma is_blank_line9_no:
  assumes "rep9 M b t s p (q @ c # f)" "\<forall>x \<in> set q. is_space_ch x" "\<not> ws_ch c" "room9 M (length p + length q)"
  shows "\<exists>s'. is_blank_line9 s = Inr (False, s') \<and> rep9 M b t s' p (q @ c # f)"
proof -
  have c: "\<not> is_space_ch c" "\<not> is_eol_ch c" using assms(3) by (simp_all add: ws_ch_def)
  obtain s1 where s1: "skip_blank_space lex9 s = Inr s1" "rep9 M b t s1 (p @ q) (c # f)"
    using l9.skip_blank_space_ok [OF assms(1,2) c(1) assms(4)] by blast
  obtain s2 where s2: "match_eol9 s1 = Inr (False, s2)" "rep9 M b t s2 (p @ q) (c # f)"
    using match_eol9_no [OF s1(2) c(2)] assms(4) by auto
  show ?thesis
    using s1(1) s2(1) rewind9 [OF assms(1) s2(2)]
    by (simp add: is_blank_line9_def match_blank_line9_def skip_blank_space9_def)
qed

lemma skip_blank_lines9_ok:
  assumes "rep9 M b t s p (q @ c # f)" "\<forall>x \<in> set q. ws_ch x" "\<not> ws_ch c" "room9 M (length p + length q)"
  shows "\<exists>s' q1 q2. skip_blank_lines9 s = Inr s' \<and> q = q1 @ q2 \<and> (\<forall>x \<in> set q2. is_space_ch x)
     \<and> rep9 M b t s' (p @ q1) (q2 @ c # f)"
proof -
  have k: "length q < Suc (lex_left lex9 s)" using l9.left_ok [OF assms(1)] by simp
  show ?thesis
    unfolding skip_blank_lines9_def
    by (rule l9.skip_lines_by [OF _ _ assms k]) (fact is_blank_line9_yes is_blank_line9_no)+
qed

text \<open>A text without conversions whose last character is not a blank.\<close>

definition plain9 :: "bytes \<Rightarrow> bool" where
  "plain9 lit \<longleftrightarrow> plain lit \<and> last lit \<noteq> 32"

lemma line_fmt_loop9_plain:
  "rep9 M b t s p (q @ lit @ e # r) \<Longrightarrow> \<forall>x \<in> set q. is_space_ch x \<Longrightarrow>
   \<forall>x \<in> set lit. \<not> is_eol_ch x \<and> x \<noteq> 9 \<and> x \<noteq> 37 \<Longrightarrow> (if lit = [] then q = [] else last lit \<noteq> 32) \<Longrightarrow>
   room9 M (length p + length q + length lit) \<Longrightarrow>
   \<exists>s'. line_fmt_loop9 lit first args a s = Inr (a\<lparr>matched := True\<rparr>, s') \<and> rep9 M b t s' (p @ q @ lit) (e # r)"
proof (induction lit arbitrary: s p q first)
  case (Cons c lit)
  have c: "\<not> is_eol_ch c" "c \<noteq> 9" "c \<noteq> 37" using Cons.prems(3) by simp_all
  have r: "room9 M (length p)" using Cons.prems(5) by (simp add: room9_def)
  obtain d g where d: "q @ (c # lit) @ e # r = d # g" "\<not> is_eol_ch d"
    using Cons.prems(2) c(1) space_not_eol by (cases q) auto
  obtain s1 where s1: "lex_peek lex9 s = Inr (d, s1)" "rep9 M b t s1 p (q @ c # lit @ e # r)"
    using l9.peek_ok [of M b t s p d g] Cons.prems(1) d(1) r by auto
  show ?case
  proof (cases "c = 32")
    case True
    then have "lit \<noteq> []" using Cons.prems(4) by auto
    moreover have "rep9 M b t s1 p ((q @ [c]) @ lit @ e # r)" using s1(2) by simp
    moreover have "\<forall>x \<in> set (q @ [c]). is_space_ch x" using Cons.prems(2) True by (simp add: is_space_ch_def)
    ultimately obtain s' where "line_fmt_loop9 lit False args a s1 = Inr (a\<lparr>matched := True\<rparr>, s')"
      "rep9 M b t s' (p @ (q @ [c]) @ lit) (e # r)"
      using Cons.IH [of s1 p "q @ [c]" False] Cons.prems(3-5) by (auto simp: room9_def)
    then show ?thesis using True c d s1(1) by auto
  next
    case False
    have sp: "\<not> is_space_ch c" using False c(2) by (simp add: is_space_ch_def)
    have rq: "room9 M (length p + length q)" using Cons.prems(5) by (simp add: room9_def)
    obtain s2 where s2: "skip_blank_space lex9 s1 = Inr s2" "rep9 M b t s2 (p @ q) (c # lit @ e # r)"
      using l9.skip_blank_space_ok [OF s1(2) Cons.prems(2) sp rq] by blast
    obtain s3 where s3: "lex_getc lex9 s2 = Inr (c, s3)" "rep9 M b t s3 ((p @ q) @ [c]) (lit @ e # r)"
      using l9.getc_ok [OF s2(2)] rq by auto
    obtain s' where "line_fmt_loop9 lit False args a s3 = Inr (a\<lparr>matched := True\<rparr>, s')"
      "rep9 M b t s' (((p @ q) @ [c]) @ [] @ lit) (e # r)"
      using Cons.IH [of s3 "(p @ q) @ [c]" "[]" False] s3(2) Cons.prems(3-5) by (auto simp: room9_def split: if_splits)
    then show ?thesis using False c d s1(1) s2(1) s3(1) by (auto simp: skip_blank_space9_def)
  qed
qed simp

lemma match_text9_head:
  assumes "rep9 M b t s p (u @ lit @ e # r)" "plain9 lit" "\<forall>x \<in> set u. ws_ch x" "room9 M (length p + length u + length lit)"
  shows "\<exists>s1 s2. skip_blank_lines9 s = Inr s1
    \<and> line_fmt_loop9 lit True [] scan_init s1 = Inr (scan_init\<lparr>matched := True\<rparr>, s2)
    \<and> rep9 M b t s2 (p @ u @ lit) (e # r)"
proof -
  have pl: "plain lit" "last lit \<noteq> 32" "lit \<noteq> []" "\<forall>x \<in> set lit. \<not> is_eol_ch x \<and> x \<noteq> 9 \<and> x \<noteq> 37"
    using assms(2) by (auto simp: plain9_def plain_def)
  obtain c cs where c: "lit = c # cs" "\<not> ws_ch c" using plain_hd [OF pl(1)] by blast
  have "rep9 M b t s p (u @ c # cs @ e # r)" "room9 M (length p + length u)"
    using assms(1,4) c(1) by (simp_all add: room9_def)
  then obtain s1 q1 q2 where s1: "skip_blank_lines9 s = Inr s1" "u = q1 @ q2" "\<forall>x \<in> set q2. is_space_ch x"
    "rep9 M b t s1 (p @ q1) (q2 @ lit @ e # r)"
    using skip_blank_lines9_ok [OF _ assms(3) c(2)] c(1) by (metis append_Cons)
  have "room9 M (length (p @ q1) + length q2 + length lit)" using assms(4) s1(2) by (simp add: add.assoc)
  then show ?thesis using line_fmt_loop9_plain [OF s1(4,3) pl(4), of True "[]" scan_init] pl(2,3) s1(1,2) by auto
qed

lemma match_text9_yes:
  assumes "rep9 M b t s p (u @ lit @ e # r)" "plain9 lit" "\<forall>x \<in> set u. ws_ch x" "is_eol_ch e"
    "room9 M (length p + length u + length lit + 1 + length (takeWhile is_eol_ch r))"
  shows "\<exists>s' es r' b'. match_text9 lit s = Inr (True, s') \<and> r = es @ r'
    \<and> (\<forall>x \<in> set es. is_eol_ch x) \<and> rep9 M b' t s' [] r'"
proof -
  have "room9 M (length p + length u + length lit)" using assms(5) by (simp add: room9_def)
  then obtain s1 s2 where s: "skip_blank_lines9 s = Inr s1"
    "line_fmt_loop9 lit True [] scan_init s1 = Inr (scan_init\<lparr>matched := True\<rparr>, s2)"
    "rep9 M b t s2 (p @ u @ lit) (e # r)" using match_text9_head [OF assms(1-3)] by blast
  have "room9 M (length (p @ u @ lit) + 1 + length (takeWhile is_eol_ch r))" using assms(5) by (simp add: add.assoc)
  then obtain s' es r' where m: "match_eol9 s2 = Inr (True, s')" "r = es @ r'" "\<forall>x \<in> set es. is_eol_ch x"
    "rep9 M b t s' ((p @ u @ lit) @ e # es) r'" using match_eol9_yes [OF s(3) assms(4)] by blast
  then have "match_text9 lit s = Inr (True, s')"
    using s(1,2) by (simp add: match_text9_def match_line9_def)
  then show ?thesis using m(2,3) l9.rebase [OF m(4)] by blast
qed

text \<open>A blank between the text and the end of the line.\<close>

lemma match_text9_trailing:
  assumes "rep9 M b t s p (u @ lit @ 32 # r)" "plain9 lit" "\<forall>x \<in> set u. ws_ch x"
    "room9 M (length p + length u + length lit)"
  shows "match_text9 lit s = Inl (Panic ''did not match end of line'')"
proof -
  obtain s1 s2 where s: "skip_blank_lines9 s = Inr s1"
    "line_fmt_loop9 lit True [] scan_init s1 = Inr (scan_init\<lparr>matched := True\<rparr>, s2)"
    "rep9 M b t s2 (p @ u @ lit) (32 # r)" using match_text9_head [OF assms] by blast
  obtain s3 where "match_eol9 s2 = Inr (False, s3)"
    using match_eol9_no [OF s(3)] assms(4) by (auto simp: is_eol_ch_def add.assoc)
  then show ?thesis using s(1,2) by (simp add: match_text9_def match_line9_def lex_panic9_def)
qed

lemma at_cmd9_sent:
  assumes rep: "rep9 M b t (esp9_l e) [] (u1 @ cmd @ c1 # u2 @ resp @ f)" and p: "plain9 cmd" "plain9 resp"
    and c: "length cmd < 1022" "\<forall>x \<in> set u1. ws_ch x" "\<forall>x \<in> set u2. ws_ch x" "is_eol_ch c1"
    and room: "room9 M (length u1 + length cmd + 1 + length u2)"
  shows "\<exists>s s1 v b'. cmd_puts9 cmd (esp9_l e) = Inr s \<and> cmd_ack9 cmd (e\<lparr>esp9_l := s\<rparr>) = Inr (e\<lparr>esp9_l := s1\<rparr>)
    \<and> (\<exists>es. u2 = es @ v) \<and> rep9 M b' (t @ cmd @ [13, 10]) s1 [] (v @ resp @ f)"
proof -
  have pl: "plain cmd" "plain resp" using p by (simp_all add: plain9_def)
  have "cmd \<noteq> []" using pl(1) by (simp add: plain_def)
  then obtain s where s: "cmd_puts9 cmd (esp9_l e) = Inr s" "rep9 M b (t @ cmd @ [13, 10]) s [] (u1 @ cmd @ c1 # u2 @ resp @ f)"
    using l9.cmd_puts_ok [OF rep _ c(1)] unfolding cmd_puts9_def by blast
  have "room9 M (length [] + length u1 + length cmd + 1 + length (takeWhile is_eol_ch (u2 @ resp @ f)))"
    using room takeWhile_eol_plain [OF pl(2), of u2 f] by (auto simp: room9_def)
  then obtain s1 es f' b' where m: "match_text9 cmd s = Inr (True, s1)" "u2 @ resp @ f = es @ f'"
    "\<forall>x \<in> set es. is_eol_ch x" "rep9 M b' (t @ cmd @ [13, 10]) s1 [] f'"
    using match_text9_yes [OF s(2) p(1) c(2,4)] by blast
  obtain v where v: "u2 = es @ v" "f' = v @ resp @ f" using drop_eols_plain [OF pl(2) m(2,3)] by blast
  show ?thesis using s(1) m(1,4) v by (auto simp: cmd_ack9_def)
qed

text \<open>The later version takes blanks in front of the end of the line.\<close>

context lexer
begin

lemma match_text_blanks:
  assumes "rep b t s p (u @ lit @ q @ e # r)" "plain9 lit" "\<forall>x \<in> set u. ws_ch x" "\<forall>x \<in> set q. is_space_ch x"
    "is_eol_ch e" "room (length p + length u + length lit + length q + 1 + length (takeWhile is_eol_ch r))"
  shows "\<exists>s'. match_text L lit s = Inr (True, s')"
proof -
  have pl: "lit \<noteq> []" "hd lit \<noteq> 32" "fmt_ok lit [] (q @ e # r)" "render lit [] = lit" "last lit \<noteq> 32"
    using assms(2) plain_render [of lit "q @ e # r"] by (simp_all add: plain9_def plain_def)
  obtain a where a: "matchv_scan lit (length ([] :: mval list)) (u @ render lit [] @ q @ e # r) = Some (a, q @ e # r)"
    "matched a" using matchv_scan_render [OF pl(3,1,2) assms(3)] pl(5) by auto
  have "room (length p + (length (u @ lit @ q @ e # r) - length r) + length (takeWhile is_eol_ch r))"
    using assms(6) by (simp add: add.assoc)
  then obtain s' where "match_line L lit 0 s = Inr ((True, stored a), s')"
    using match_line_yes [OF assms(1), of lit 0 a q e r] a pl(4) assms(4,5) by auto
  then show ?thesis by (simp add: match_text_def)
qed

lemma do_at_cmd_blanks:
  assumes "rep b t (esp_l e) [] (u1 @ cmd @ c1 # u2 @ resp @ q @ c2 # r)" "plain cmd" "plain9 resp"
    "length cmd < 1022" "\<forall>x \<in> set u1. ws_ch x" "\<forall>x \<in> set u2. ws_ch x" "\<forall>x \<in> set q. is_space_ch x"
    "is_eol_ch c1" "is_eol_ch c2" "room (length u1 + length cmd + 1 + length u2)"
    "room (length u2 + length resp + length q + 1 + length (takeWhile is_eol_ch r))"
  shows "\<exists>s'. do_at_cmd L cmd resp x e = Inr (True, e\<lparr>esp_l := s'\<rparr>)"
proof -
  let ?f = "u2 @ resp @ q @ c2 # r"
  have pl: "plain resp" using assms(3) by (simp add: plain9_def)
  have "room (length u1 + length cmd + 1 + length (takeWhile is_eol_ch ?f))"
    using assms(10) takeWhile_eol_plain [OF pl, of u2 "q @ c2 # r"] by (elim room_mono) simp
  then obtain s s1 es f' b' where c: "cmd_puts cmd (esp_l e) = Inr s"
    "cmd_ack L cmd (e\<lparr>esp_l := s\<rparr>) = Inr (e\<lparr>esp_l := s1\<rparr>)" "?f = es @ f'" "\<forall>x \<in> set es. is_eol_ch x"
    "rep b' (t @ cmd @ [13, 10]) s1 [] f'"
    using cmd_sent [OF assms(1,2,4,5,8)] by blast
  obtain v where v: "u2 = es @ v" "f' = v @ resp @ q @ c2 # r" using drop_eols_plain [OF pl c(3,4)] by blast
  have "room (length [] + length v + length resp + length q + 1 + length (takeWhile is_eol_ch r))"
    using assms(11) v(1) by (elim room_mono) simp
  then obtain s' where "match_text L resp s1 = Inr (True, s')"
    using match_text_blanks [of b' "t @ cmd @ [13, 10]" s1 "[]" v resp q c2 r] c(5) v assms(3,6,7,9) by auto
  then have "do_at_cmd L cmd resp x e = Inr (True, e\<lparr>esp_l := s'\<rparr>)"
    using c by (simp add: do_at_cmd_def cmd_response_def)
  then show ?thesis by blast
qed

end

section \<open>Properties\<close>

text \<open>
  The two versions of the library agree on a command that is answered: from the same bytes on
  the line, however they are split into reads, both \<open>at_cmd\<close> return 1, both have sent the command
  and \<open>\r\n\<close> and nothing else, and both have consumed the answer and only ends of line after it.
\<close>

theorem at_cmd_versions_agree:
  assumes "rep9 M b t (esp9_l e) [] f" "circ_rep M b t (esp_l e') [] f"
    and "f = u1 @ cmd @ c1 # u2 @ resp @ c2 # r" "plain9 cmd" "plain9 resp"
    and "length cmd < 1022" "\<forall>x \<in> set u1. ws_ch x" "\<forall>x \<in> set u2. ws_ch x" "is_eol_ch c1" "is_eol_ch c2"
    and "length u1 + length cmd + 1 + length u2 + M < 1024"
    and "length u2 + length resp + 1 + length (takeWhile is_eol_ch r) + M < 1024"
  shows "(\<exists>s es r' d. at_cmd9 cmd resp e = Inr (True, e\<lparr>esp9_l := s\<rparr>) \<and> r = es @ r'
      \<and> (\<forall>x \<in> set es. is_eol_ch x) \<and> rep9 M d (t @ cmd @ [13, 10]) s [] r')
    \<and> (\<exists>s es r' d. at_cmd lex_circ cmd resp e' = Inr (True, e'\<lparr>esp_l := s\<rparr>) \<and> r = es @ r'
      \<and> (\<forall>x \<in> set es. is_eol_ch x) \<and> circ_rep M d (t @ cmd @ [13, 10]) s [] r')"
proof -
  let ?t = "t @ cmd @ [13, 10]"
  have pl: "plain cmd" "plain resp" using assms(4,5) by (simp_all add: plain9_def)
  have room: "room9 M (length u1 + length cmd + 1 + length u2)" using assms(11) by (simp add: room9_def)
  obtain s s1 v d where s: "cmd_puts9 cmd (esp9_l e) = Inr s" "cmd_ack9 cmd (e\<lparr>esp9_l := s\<rparr>) = Inr (e\<lparr>esp9_l := s1\<rparr>)"
    "\<exists>es. u2 = es @ v" "rep9 M d ?t s1 [] (v @ resp @ c2 # r)"
    using at_cmd9_sent [OF assms(1)[unfolded assms(3)] assms(4-9) room] by blast
  have v: "\<forall>x \<in> set v. ws_ch x" "room9 M (length [] + length v + length resp + 1 + length (takeWhile is_eol_ch r))"
    using s(3) assms(8,12) by (auto simp: room9_def)
  obtain s2 es r' d' where m: "match_text9 resp s1 = Inr (True, s2)" "r = es @ r'" "\<forall>x \<in> set es. is_eol_ch x"
    "rep9 M d' ?t s2 [] r'" using match_text9_yes [OF s(4) assms(5) v(1) assms(10) v(2)] by blast
  have "at_cmd9 cmd resp e = Inr (True, e\<lparr>esp9_l := s2\<rparr>)"
    using s(1,2) m(1) by (simp add: at_cmd9_def do_at_cmd9_def cmd_response9_def)
  moreover have "\<exists>s es r' d. at_cmd lex_circ cmd resp e' = Inr (True, e'\<lparr>esp_l := s\<rparr>) \<and> r = es @ r'
      \<and> (\<forall>x \<in> set es. is_eol_ch x) \<and> circ_rep M d ?t s [] r'"
    using circ.do_at_cmd_answered [OF assms(2)[unfolded assms(3)] pl assms(6-10), of False] assms(11,12)
    by (simp add: at_cmd_def circ_room_def)
  ultimately show ?thesis using m by blast
qed

definition demo_esp9 :: "lex9_t \<Rightarrow> ev list \<Rightarrow> esp9_t" where
  "demo_esp9 l evs = esp_mk9 (l, \<lparr>rx = evs, tx = []\<rparr>) None None"

lemma demo_esp9_rep:
  assumes "bursts_ok M evs" "ev_bytes evs = f"
  shows "\<exists>l. lex_init9 = Inr l \<and> rep9 M 0 [] (esp9_l (demo_esp9 l evs)) [] f"
  using lex_init9_rep [OF assms(1), of "[]"] assms(2) by (simp add: demo_esp9_def esp_mk9_def)

lemma demo_plain9: "plain9 (bstr ''AT'')" "plain9 (bstr ''OK'')"
  by (simp_all add: plain9_def plain_def bstr_def is_eol_ch_def)

theorem at_cmd_versions_agree_witness:
  "\<exists>l l' s s'. lex_init9 = Inr l \<and> lex_init_circ = Inr l'
    \<and> at_cmd9 (bstr ''AT'') (bstr ''OK'') (demo_esp9 l demo_ok) = Inr (True, (demo_esp9 l demo_ok)\<lparr>esp9_l := s\<rparr>)
    \<and> at_cmd lex_circ (bstr ''AT'') (bstr ''OK'') (demo_esp l' demo_ok)
      = Inr (True, (demo_esp l' demo_ok)\<lparr>esp_l := s'\<rparr>)"
proof -
  let ?f = "[] @ bstr ''AT'' @ 13 # [13, 10, 13, 10] @ bstr ''OK'' @ 13 # []"
  have b: "bursts_ok 9 demo_ok" by (simp add: demo_ok_def bstr_def)
  have e: "ev_bytes demo_ok = ?f" by (simp add: demo_ok_def bstr_def)
  obtain l where l: "lex_init9 = Inr l" "rep9 9 0 [] (esp9_l (demo_esp9 l demo_ok)) [] ?f"
    using demo_esp9_rep [OF b e] by blast
  obtain l' where l': "lex_init_circ = Inr l'" "circ_rep 9 0 [] (esp_l (demo_esp l' demo_ok)) [] ?f"
    using demo_esp_rep [OF b e] by blast
  from l(1) l'(1) at_cmd_versions_agree [OF l(2) l'(2) refl demo_plain9] show ?thesis
    by (simp add: bstr_def ws_ch_def is_eol_ch_def) blast
qed

text \<open>
  They differ on a blank in front of the end of the answer: the first version panics because it
  looks for the end of the line right after the text, the later one skips the blank and returns 1.
\<close>

theorem at_cmd_versions_differ:
  assumes "rep9 M b t (esp9_l e) [] f" "circ_rep M b t (esp_l e') [] f"
    and "f = u1 @ cmd @ c1 # u2 @ resp @ 32 # c2 # r" "plain9 cmd" "plain9 resp"
    and "length cmd < 1022" "\<forall>x \<in> set u1. ws_ch x" "\<forall>x \<in> set u2. ws_ch x" "is_eol_ch c1" "is_eol_ch c2"
    and "length u1 + length cmd + 1 + length u2 + M < 1024"
    and "length u2 + length resp + 2 + length (takeWhile is_eol_ch r) + M < 1024"
  shows "at_cmd9 cmd resp e = Inl (Panic ''did not match end of line'')
    \<and> (\<exists>s. at_cmd lex_circ cmd resp e' = Inr (True, e'\<lparr>esp_l := s\<rparr>))"
proof -
  have pl: "plain cmd" using assms(4) by (simp add: plain9_def)
  have room: "room9 M (length u1 + length cmd + 1 + length u2)" using assms(11) by (simp add: room9_def)
  obtain s s1 v d where s: "cmd_puts9 cmd (esp9_l e) = Inr s" "cmd_ack9 cmd (e\<lparr>esp9_l := s\<rparr>) = Inr (e\<lparr>esp9_l := s1\<rparr>)"
    "\<exists>es. u2 = es @ v" "rep9 M d (t @ cmd @ [13, 10]) s1 [] (v @ resp @ 32 # c2 # r)"
    using at_cmd9_sent [OF assms(1)[unfolded assms(3)] assms(4-9) room] by blast
  have v: "\<forall>x \<in> set v. ws_ch x" "room9 M (length [] + length v + length resp)"
    using s(3) assms(8,12) by (auto simp: room9_def)
  have "match_text9 resp s1 = Inl (Panic ''did not match end of line'')"
    by (rule match_text9_trailing [OF s(4) assms(5) v])
  then have "at_cmd9 cmd resp e = Inl (Panic ''did not match end of line'')"
    using s(1,2) by (simp add: at_cmd9_def do_at_cmd9_def cmd_response9_def)
  moreover have "circ_rep M b t (esp_l e') [] (u1 @ cmd @ c1 # u2 @ resp @ [32] @ c2 # r)"
    using assms(2,3) by simp
  then have "\<exists>s. at_cmd lex_circ cmd resp e' = Inr (True, e'\<lparr>esp_l := s\<rparr>)"
    using circ.do_at_cmd_blanks [of M b t e' u1 cmd c1 u2 resp "[32]" c2 r False] pl assms(5-12)
    by (simp add: at_cmd_def circ_room_def is_space_ch_def)
  ultimately show ?thesis by blast
qed

definition demo_trailing :: "ev list" where
  "demo_trailing = [Bytes (bstr ''AT'' @ [13]), Quiet, Bytes (bstr ''OK '' @ [13])]"

theorem at_cmd_versions_differ_witness:
  "\<exists>l l' s. lex_init9 = Inr l \<and> lex_init_circ = Inr l'
    \<and> at_cmd9 (bstr ''AT'') (bstr ''OK'') (demo_esp9 l demo_trailing) = Inl (Panic ''did not match end of line'')
    \<and> at_cmd lex_circ (bstr ''AT'') (bstr ''OK'') (demo_esp l' demo_trailing)
      = Inr (True, (demo_esp l' demo_trailing)\<lparr>esp_l := s\<rparr>)"
proof -
  let ?f = "[] @ bstr ''AT'' @ 13 # [] @ bstr ''OK'' @ 32 # 13 # []"
  have b: "bursts_ok 4 demo_trailing" by (simp add: demo_trailing_def bstr_def)
  have e: "ev_bytes demo_trailing = ?f" by (simp add: demo_trailing_def bstr_def)
  obtain l where l: "lex_init9 = Inr l" "rep9 4 0 [] (esp9_l (demo_esp9 l demo_trailing)) [] ?f"
    using demo_esp9_rep [OF b e] by blast
  obtain l' where l': "lex_init_circ = Inr l'" "circ_rep 4 0 [] (esp_l (demo_esp l' demo_trailing)) [] ?f"
    using demo_esp_rep [OF b e] by blast
  from l(1) l'(1) at_cmd_versions_differ [OF l(2) l'(2) refl demo_plain9] show ?thesis
    by (simp add: bstr_def ws_ch_def is_eol_ch_def) blast
qed

end
