(* ===== verification/Ring_Test.thy ===== *)
theory Ring_Test
  imports Circular
begin

text \<open>
  The copy of the ring in \<^verbatim>\<open>labs/6-threads/2-threads.new\<close> (\<^verbatim>\<open>circular.c\<close>, \<^verbatim>\<open>circular.h\<close>) and its self-test.
  The inline operations are those of \<^verbatim>\<open>libpi\<close>. The out-of-line ones differ: \<open>cq_pop\<close> waits for an
  interrupt handler to push, where the later version panics, and \<open>cq_pop_n_noblk\<close> checks the fence.
\<close>

section \<open>The operations\<close>

definition cq_ok6 :: "cq_t \<Rightarrow> unit result" where
  "cq_ok6 c = (if fence c \<noteq> 0x12345678 then Inl (Panic ''fence is corrupted'') else Inr ())"

definition cq_init6 :: "u32 \<Rightarrow> u32 \<Rightarrow> cq_t result" where
  "cq_init6 = cq_init"

text \<open>
  Nothing but the loop runs here, so the fuel is the number of times the loop looks at the ring.
\<close>

fun cq_pop6 :: "nat \<Rightarrow> u32 \<Rightarrow> cq_t \<Rightarrow> (u8 \<times> cq_t) result" where
  "cq_pop6 0 N c = Inl Diverges"
| "cq_pop6 (Suc k) N c =
     rbind (cq_pop_nonblock N c) (\<lambda>(r, c1). case r of None \<Rightarrow> cq_pop6 k N c1 | Some e \<Rightarrow> Inr (e, c1))"

fun cq_pop_loop6 :: "nat \<Rightarrow> u32 \<Rightarrow> cq_t \<Rightarrow> nat \<Rightarrow> (bytes \<times> cq_t) result" where
  "cq_pop_loop6 f N c 0 = Inr ([], c)"
| "cq_pop_loop6 f N c (Suc k) =
     rbind (cq_pop6 f N c) (\<lambda>(e, c1). rbind (cq_pop_loop6 f N c1 k) (\<lambda>(es, c2). Inr (e # es, c2)))"

definition cq_pop_n6 :: "nat \<Rightarrow> u32 \<Rightarrow> cq_t \<Rightarrow> u32 \<Rightarrow> (bytes \<times> cq_t) result" where
  "cq_pop_n6 f N c n = cq_pop_loop6 f N c (unat n)"

definition cq_pop_n_noblk6 :: "nat \<Rightarrow> u32 \<Rightarrow> cq_t \<Rightarrow> u32 \<Rightarrow> (bytes option \<times> cq_t) result" where
  "cq_pop_n_noblk6 f N q n =
     rbind (cq_ok6 q) (\<lambda>_.
     if cq_nelem N q < n then Inr (None, q)
     else rbind (cq_pop_n6 f N q n) (\<lambda>(es, q1). Inr (Some es, q1)))"

definition cq_peek_n6 :: "nat \<Rightarrow> u32 \<Rightarrow> cq_t \<Rightarrow> u32 \<Rightarrow> (bytes option \<times> cq_t) result" where
  "cq_peek_n6 f N c n =
     (let sz = cq_nelem N c in
      if sz < n then Inr (None, c)
      else rbind (cq_pop_n_noblk6 f N c n) (\<lambda>(r, c1).
        case r of
          None \<Rightarrow> Inr (None, c1)
        | Some es \<Rightarrow>
            (let c2 = c1\<lparr>tail := tail c\<rparr> in
             rbind (c_assert (sz = cq_nelem N c2) ''sz == cq_nelem(c)'') (\<lambda>_. Inr (Some es, c2)))))"

definition cq_push_n6 :: "u32 \<Rightarrow> cq_t \<Rightarrow> bytes \<Rightarrow> u32 \<Rightarrow> (bool \<times> cq_t) result" where
  "cq_push_n6 = cq_push_n"

section \<open>The self-test\<close>

text \<open>
  The loops of \<open>main\<close>, each for the numbers it still has to go through. The counters of the program
  stay below \<open>CQ_N * 1000\<close>, so they are not cut off.
\<close>

fun fill_checked :: "u32 \<Rightarrow> nat list \<Rightarrow> cq_t \<Rightarrow> cq_t result" where
  "fill_checked N [] q = Inr q"
| "fill_checked N (i # is) q =
     rbind (cq_push N q (of_nat i)) (\<lambda>(_, q1).
     rbind (c_assert (cq_nelem N q1 = of_nat i) ''cq_nelem(&q) == i'') (\<lambda>_. fill_checked N is q1))"

fun drain_checked :: "nat \<Rightarrow> u32 \<Rightarrow> nat list \<Rightarrow> cq_t \<Rightarrow> cq_t result" where
  "drain_checked f N [] q = Inr q"
| "drain_checked f N (i # is) q =
     rbind (cq_peek q) (\<lambda>r.
     case r of
       None \<Rightarrow> Inl (AssertFail ''cq_peek(&q, &e)'')
     | Some e \<Rightarrow>
         rbind (c_assert (e = of_nat i) ''e == (cqe_t)i'') (\<lambda>_.
         rbind (cq_pop6 f N q) (\<lambda>(x, q1).
         rbind (c_assert (x = of_nat i) ''cq_pop(&q) == (cqe_t)i'') (\<lambda>_. drain_checked f N is q1))))"

fun fill :: "u32 \<Rightarrow> nat list \<Rightarrow> cq_t \<Rightarrow> cq_t result" where
  "fill N [] q = Inr q"
| "fill N (i # is) q = rbind (cq_push N q (of_nat i)) (\<lambda>(_, q1). fill N is q1)"

fun steady :: "nat \<Rightarrow> u32 \<Rightarrow> nat list \<Rightarrow> nat \<Rightarrow> nat \<Rightarrow> cq_t \<Rightarrow> (nat \<times> cq_t) result" where
  "steady f N [] expected ntests q = Inr (ntests, q)"
| "steady f N (i # is) expected ntests q =
     rbind (c_assert (cq_full N q) ''cq_full(&q)'') (\<lambda>_.
     rbind (cq_pop6 f N q) (\<lambda>(x, q1).
     rbind (c_assert (\<not> cq_empty q1) ''!cq_empty(&q)'') (\<lambda>_.
     rbind (c_assert (x = of_nat expected) ''(cqe_t)x == (cqe_t)expected'') (\<lambda>_.
     rbind (cq_push N q1 (of_nat i)) (\<lambda>(_, q2). steady f N is (Suc expected) (Suc ntests) q2)))))"

text \<open>\<open>main\<close> of the self-test; \<open>buf\<close> is its first array, which starts with whatever is on the stack.\<close>

definition cq_selftest :: "nat \<Rightarrow> u32 \<Rightarrow> bytes \<Rightarrow> nat result" where
  "cq_selftest f N buf =
     rbind (cq_init6 N 1) (\<lambda>q0.
     rbind (cq_push_n6 N q0 buf 11) (\<lambda>(_, q1).
     rbind (c_assert (cq_nelem N q1 = 11) ''cq_nelem(&q) == 11'') (\<lambda>_.
     rbind (c_assert (\<not> cq_empty q1) ''!cq_empty(&q)'') (\<lambda>_.
     rbind (cq_pop_n6 f N q1 11) (\<lambda>(_, q2).
     rbind (c_assert (cq_nelem N q2 = 0) ''cq_nelem(&q) == 0'') (\<lambda>_.
     rbind (c_assert (cq_empty q2) ''cq_empty(&q)'') (\<lambda>_.
     rbind (fill_checked N [1..<unat N] q2) (\<lambda>q3.
     rbind (c_assert (cq_full N q3) ''cq_full(&q)'') (\<lambda>_.
     rbind (drain_checked f N [1..<unat N] q3) (\<lambda>q4.
     rbind (c_assert (cq_empty q4) ''cq_empty(&q)'') (\<lambda>_.
     let buf1 = map of_nat [0..<unat N] in
     rbind (cq_push_n6 N q4 buf1 (N - 1)) (\<lambda>(_, q5).
     rbind (c_assert (\<not> cq_empty q5) ''!cq_empty(&q)'') (\<lambda>_.
     rbind (c_assert (cq_nelem N q5 = N - 1) ''cq_nelem(&q) == CQ_N-1'') (\<lambda>_.
     rbind (cq_pop_n6 f N q5 (N - 1)) (\<lambda>(buf2, q6).
     rbind (c_assert (take (unat N - 1) buf1 = buf2) ''memcmp(buf, buf2, CQ_N-1) == 0'') (\<lambda>_.
     rbind (c_assert (cq_empty q6) ''cq_empty(&q)'') (\<lambda>_.
     rbind (fill N [1..<unat N] q6) (\<lambda>q7.
     rbind (steady f N [unat N..<unat N * 1000] 1 0 q7) (\<lambda>(ntests, _). Inr ntests)))))))))))))))))))"

section \<open>The two versions\<close>

lemma cq_pop6_Cons:
  assumes "cq_inv N c" "cq_list N c = x # xs"
  shows "\<exists>c'. cq_pop6 (Suc k) N c = Inr (x, c') \<and> cq_pop N c = Inr (x, c') \<and> cq_inv N c' \<and> cq_list N c' = xs"
  by (rule cq_pop_nonblock_Cons [OF assms]) (auto simp: cq_pop_def)

lemma cq_pop6_Nil: "cq_inv N c \<Longrightarrow> cq_list N c = [] \<Longrightarrow> cq_pop6 k N c = Inl Diverges"
  by (induction k) (simp_all add: cq_pop_nonblock_Nil)

lemma cq_pop_loop6_eq:
  "cq_inv N c \<Longrightarrow> k \<le> length (cq_list N c) \<Longrightarrow> cq_pop_loop6 (Suc f) N c k = cq_pop_loop N c k"
proof (induction k arbitrary: c)
  case (Suc k)
  then obtain x xs where l: "cq_list N c = x # xs" by (cases "cq_list N c") auto
  from cq_pop6_Cons [OF Suc.prems(1) l, of f] Suc.prems l Suc.IH show ?case
    by (auto simp del: cq_pop6.simps)
qed simp

lemma cq_pop_n6_eq:
  "cq_inv N c \<Longrightarrow> unat n \<le> length (cq_list N c) \<Longrightarrow> cq_pop_n6 (Suc f) N c n = cq_pop_n N c n"
  by (simp add: cq_pop_n6_def cq_pop_n_def cq_pop_loop6_eq)

lemma cq_pop_n_noblk6_eq: "cq_inv N c \<Longrightarrow> cq_pop_n_noblk6 (Suc f) N c n = cq_pop_n_noblk N c n"
  using unat_cq_nelem [of N c] cq_pop_n6_eq [of N c n f]
  by (auto simp: cq_pop_n_noblk6_def cq_pop_n_noblk_def cq_ok6_def cq_inv_def word_less_nat_alt)

lemma cq_peek_n6_eq: "cq_inv N c \<Longrightarrow> cq_peek_n6 (Suc f) N c n = cq_peek_n N c n"
  unfolding cq_peek_n6_def cq_peek_n_def by (simp only: cq_pop_n_noblk6_eq)

text \<open>
  The two versions of the ring agree on a ring that satisfies the invariant, for every look at it
  the fuel allows, except that popping an empty ring never returns where the later version panics.
\<close>

lemma cq_versions_agree:
  assumes "cq_inv N c"
  shows "cq_pop_n_noblk6 (Suc f) N c n = cq_pop_n_noblk N c n \<and> cq_peek_n6 (Suc f) N c n = cq_peek_n N c n
    \<and> cq_pop6 (Suc f) N c = (if cq_empty c then Inl Diverges else cq_pop N c)"
proof (intro conjI cq_pop_n_noblk6_eq cq_peek_n6_eq assms)
  show "cq_pop6 (Suc f) N c = (if cq_empty c then Inl Diverges else cq_pop N c)"
  proof (cases "cq_list N c")
    case Nil
    then show ?thesis using cq_pop6_Nil [OF assms] cq_empty_iff [OF assms] by (simp del: cq_pop6.simps)
  next
    case (Cons x xs)
    then show ?thesis using cq_pop6_Cons [OF assms Cons, of f] cq_empty_iff [OF assms]
      by (auto simp del: cq_pop6.simps)
  qed
qed

section \<open>The self-test passes\<close>

lemma unat_cq_nelem_eq: "cq_inv N q \<Longrightarrow> cq_nelem N q = x \<longleftrightarrow> length (cq_list N q) = unat x"
  by (simp add: unat_cq_nelem [symmetric] word_unat_eq_iff)

lemma upt_Suc_snoc: "Suc 0 \<le> a \<Longrightarrow> map f [Suc 0..<Suc a] = map f [Suc 0..<a] @ [f a]"
  by simp

lemma push_next:
  assumes "cq_inv N q" "cq_list N q = map of_nat [b..<i]" "b \<le> i" "i - b < unat N - 1"
  shows "\<exists>q'. cq_push N q (of_nat i) = Inr (True, q') \<and> cq_inv N q' \<and> cq_list N q' = map of_nat [b..<Suc i]"
proof -
  have "\<not> cq_full N q" using assms by (simp add: cq_full_iff)
  from cq_push_ok [OF assms(1) this, of "of_nat i"] assms(2,3) show ?thesis by (metis (no_types) map_append upt_Suc list.simps(8,9))
qed

lemma fill_checked_ok:
  assumes "cq_inv N q" "cq_list N q = map of_nat [1..<i]" "1 \<le> i" "i \<le> unat N"
  shows "\<exists>q'. fill_checked N [i..<unat N] q = Inr q' \<and> cq_inv N q' \<and> cq_list N q' = map of_nat [1..<unat N]"
  using assms
proof (induction "unat N - i" arbitrary: i q)
  case (Suc d)
  then have i: "i < unat N" by simp
  obtain q' where p: "cq_push N q (of_nat i) = Inr (True, q')" "cq_inv N q'" "cq_list N q' = map of_nat [1..<Suc i]"
    using push_next [OF Suc.prems(1,2,3)] i Suc.prems(3) by (metis diff_less_mono)
  have n: "unat (of_nat i :: u32) = i" using i unat_lt_2p32 [of N] by (simp add: unat_of_nat take_bit_nat_eq_self)
  have "cq_nelem N q' = of_nat i" using p(3) n Suc.prems(3) by (simp add: unat_cq_nelem_eq [OF p(2)])
  with Suc.hyps(1) [of "Suc i", OF _ p(2,3)] Suc.hyps(2) i p(1) show ?case by (simp add: upt_conv_Cons)
qed simp

lemma fill_of_checked: "fill_checked N is q = Inr q' \<Longrightarrow> fill N is q = Inr q'"
  by (induction "is" arbitrary: q) (auto simp: rbind_eq_Inr)

lemma drain_checked_ok:
  assumes "cq_inv N q" "cq_list N q = map of_nat [i..<n]"
  shows "\<exists>q'. drain_checked (Suc f) N [i..<n] q = Inr q' \<and> cq_inv N q' \<and> cq_list N q' = []"
  using assms
proof (induction "n - i" arbitrary: i q)
  case (Suc d)
  then have l: "[i..<n] = i # [Suc i..<n]" by (simp add: upt_conv_Cons)
  have c: "cq_list N q = of_nat i # map of_nat [Suc i..<n]" using Suc.prems(2) l by simp
  obtain q' where q': "cq_pop6 (Suc f) N q = Inr (of_nat i, q')" "cq_inv N q'" "cq_list N q' = map of_nat [Suc i..<n]"
    using cq_pop6_Cons [OF Suc.prems(1) c] by blast
  with Suc.hyps(1) [of "Suc i", OF _ q'(2,3)] Suc.hyps(2) cq_peek_list [OF Suc.prems(1)] show ?case
    unfolding l by (simp add: c del: cq_pop6.simps)
qed simp

lemma steady_ok:
  assumes "cq_inv N q" "cq_list N q = map of_nat [e..<i]" "i - e = unat N - 1" "e < i" "2 < unat N"
  shows "\<exists>q'. steady (Suc f) N [i..<m] e k q = Inr (k + (m - i), q')"
  using assms
proof (induction "m - i" arbitrary: i e k q)
  case (Suc d)
  have l: "[i..<m] = i # [Suc i..<m]" using Suc.hyps(2) by (simp add: upt_conv_Cons)
  have c: "cq_list N q = of_nat e # map of_nat [Suc e..<i]" using Suc.prems(2,4) by (simp add: upt_conv_Cons)
  have full: "cq_full N q" using Suc.prems(1-3) by (simp add: cq_full_iff)
  obtain q1 where q1: "cq_pop6 (Suc f) N q = Inr (of_nat e, q1)" "cq_inv N q1" "cq_list N q1 = map of_nat [Suc e..<i]"
    using cq_pop6_Cons [OF Suc.prems(1) c] by blast
  have "Suc e < i" using Suc.prems(3,5) by linarith
  then have ne: "\<not> cq_empty q1" using q1(2,3) by (simp add: cq_empty_iff)
  have "Suc e \<le> i" "i - Suc e < unat N - 1" using Suc.prems(3-5) by linarith+
  then obtain q2 where q2: "cq_push N q1 (of_nat i) = Inr (True, q2)" "cq_inv N q2" "cq_list N q2 = map of_nat [Suc e..<Suc i]"
    using push_next [OF q1(2,3)] by blast
  have "d = m - Suc i" "Suc i - Suc e = unat N - 1" "Suc e < Suc i" using Suc.hyps(2) Suc.prems(3,4) by simp_all
  from Suc.hyps(1) [OF this(1) q2(2,3) this(2,3) Suc.prems(5), of "Suc k"]
  obtain q' where "steady (Suc f) N [Suc i..<m] (Suc e) (Suc k) q2 = Inr (Suc k + (m - Suc i), q')" by blast
  then show ?case unfolding l using full q1(1) ne q2(1) Suc.hyps(2) by (simp del: cq_pop6.simps)
qed simp

lemma push_pop_n:
  assumes "cq_inv N q" "cq_list N q = []" "unat n < unat N" "unat n \<le> length xs"
  shows "\<exists>q1 q2. cq_push_n6 N q xs n = Inr (True, q1) \<and> cq_inv N q1 \<and> cq_list N q1 = take (unat n) xs
    \<and> cq_pop_n6 (Suc f) N q1 n = Inr (take (unat n) xs, q2) \<and> cq_inv N q2 \<and> cq_list N q2 = []"
proof -
  have l: "length (cq_list N q) + length (take (unat n) xs) < unat N" using assms by simp
  obtain q1 where q1: "cq_push_loop N q (take (unat n) xs) = Inr q1" "cq_inv N q1" "cq_list N q1 = take (unat n) xs"
    using cq_push_loop_ok [OF assms(1) l] assms(2) by auto
  have len: "length (cq_list N q1) = unat n" using q1(3) assms(4) by simp
  have "\<not> cq_nspace N q < n" using assms(2,3) by (simp add: word_less_nat_alt unat_cq_nspace [OF assms(1)])
  moreover have "n = 0 \<or> \<not> cq_empty q1"
    using cq_empty_iff [OF q1(2)] len by (auto simp: unat_eq_0 [symmetric])
  ultimately have "cq_push_n6 N q xs n = Inr (True, q1)" using q1(1) assms(4) by (simp add: cq_push_n6_def cq_push_n_def)
  moreover obtain t where "cq_pop_loop N q1 (unat n) = Inr (take (unat n) (cq_list N q1), q1\<lparr>tail := t\<rparr>)"
    "cq_inv N (q1\<lparr>tail := t\<rparr>)" "cq_list N (q1\<lparr>tail := t\<rparr>) = drop (unat n) (cq_list N q1)"
    using cq_pop_loop_ok [OF q1(2), of "unat n"] len by auto
  ultimately show ?thesis
    using q1(2,3) len assms(4) cq_pop_n6_eq [OF q1(2), of n f] by (auto simp: cq_pop_n_def)
qed

lemma cq_selftest_small:
  assumes "cq_size_ok N" "unat N \<le> 11"
  shows "cq_selftest f N buf = Inl (AssertFail ''cq_nelem(&q) == 11'')"
proof -
  obtain q where q: "cq_init6 N 1 = Inr q" "cq_inv N q" "cq_list N q = []"
    using cq_init_ok [OF assms(1), of 1] by (auto simp: cq_init6_def)
  have "unat N \<noteq> 11" using assms(1) by (auto simp: cq_size_ok_def)
  then have "cq_nspace N q < 11" using assms(2) q(3) by (simp add: word_less_nat_alt unat_cq_nspace [OF q(2)])
  moreover have "cq_nelem N q \<noteq> 11" using q(3) by (simp add: unat_cq_nelem_eq [OF q(2)])
  ultimately show ?thesis using q(1) by (simp add: cq_selftest_def cq_push_n6_def cq_push_n_def)
qed

lemma cq_selftest_large:
  assumes "cq_size_ok N" "11 < unat N" "11 \<le> length buf"
  shows "cq_selftest (Suc f) N buf = Inr (999 * unat N)"
proof -
  let ?n = "unat N" and ?f = "Suc f"
  obtain q0 where q0: "cq_init6 N 1 = Inr q0" "cq_inv N q0" "cq_list N q0 = []"
    using cq_init_ok [OF assms(1), of 1] by (auto simp: cq_init6_def)
  obtain q1 q2 where q1: "cq_push_n6 N q0 buf 11 = Inr (True, q1)" "cq_inv N q1" "cq_list N q1 = take 11 buf"
    "cq_pop_n6 ?f N q1 11 = Inr (take 11 buf, q2)" "cq_inv N q2" "cq_list N q2 = []"
    using push_pop_n [OF q0(2,3), of 11 buf f] assms(2,3) by auto
  obtain q3 where q3: "fill_checked N [1..<?n] q2 = Inr q3" "cq_inv N q3" "cq_list N q3 = map of_nat [1..<?n]"
    using fill_checked_ok [OF q1(5), of 1] q1(6) assms(2) by auto
  obtain q4 where q4: "drain_checked ?f N [1..<?n] q3 = Inr q4" "cq_inv N q4" "cq_list N q4 = []"
    using drain_checked_ok [OF q3(2,3)] by blast
  let ?b = "map of_nat [0..<?n] :: bytes"
  have n1: "unat (N - 1) = ?n - 1" using assms(2) by (simp add: unat_sub_u32 word_le_nat_alt)
  obtain q5 q6 where q5: "cq_push_n6 N q4 ?b (N - 1) = Inr (True, q5)" "cq_inv N q5" "cq_list N q5 = take (?n - 1) ?b"
    "cq_pop_n6 ?f N q5 (N - 1) = Inr (take (?n - 1) ?b, q6)" "cq_inv N q6" "cq_list N q6 = []"
    using push_pop_n [OF q4(2,3), of "N - 1" ?b f] n1 assms(2) by auto
  obtain q7 where q7: "fill N [1..<?n] q6 = Inr q7" "cq_inv N q7" "cq_list N q7 = map of_nat [1..<?n]"
    using fill_checked_ok [OF q5(5), of 1] fill_of_checked q5(6) assms(2) by auto
  obtain q8 where q8: "steady ?f N [?n..<?n * 1000] 1 0 q7 = Inr (999 * ?n, q8)"
    using steady_ok [OF q7(2,3), of f "?n * 1000" 0] assms(2) by auto
  have e: "cq_nelem N q1 = 11" "\<not> cq_empty q1" "cq_nelem N q2 = 0" "cq_empty q2" "cq_full N q3" "cq_empty q4"
    using q1(2,3,5,6) q3(2,3) q4(2,3) assms(2,3)
    by (auto simp: unat_cq_nelem_eq cq_empty_iff cq_full_iff)
  have e2: "\<not> cq_empty q5" "cq_nelem N q5 = N - 1" "cq_empty q6"
    using q5(2,3,5,6) n1 assms(2) by (auto simp: unat_cq_nelem_eq cq_empty_iff)
  show ?thesis
    unfolding cq_selftest_def using q0(1) q1(1,4) q3(1) q4(1) q5(1,4) q7(1) q8 e e2
    by (simp add: Let_def del: upt_Suc)
qed

section \<open>Properties\<close>

text \<open>
  The self-test of the ring: for every admissible size it runs to its end and counts
  \<open>999 * CQ_N\<close> checked rounds when the ring has more than 11 slots, whatever its array starts with
  and wherever the ring wraps around; with a smaller ring it stops at its first check.
\<close>

theorem cq_selftest_passes:
  assumes "cq_size_ok N" "11 \<le> length buf" "0 < f"
  shows "cq_selftest f N buf =
    (if 11 < unat N then Inr (999 * unat N) else Inl (AssertFail ''cq_nelem(&q) == 11''))"
  using cq_selftest_small [OF assms(1)] cq_selftest_large [OF assms(1) _ assms(2)] assms(3)
  by (cases f) auto

theorem cq_selftest_passes_witness:
  "cq_selftest 1 CQ_N (replicate 8192 0) = Inr 8183808
    \<and> cq_selftest 1 8 (replicate 11 0) = Inl (AssertFail ''cq_nelem(&q) == 11'')"
proof
  show "cq_selftest 1 CQ_N (replicate 8192 0) = Inr 8183808"
    using cq_selftest_passes [OF cq_size_ok_CQ_N, of "replicate 8192 0" 1] by (simp add: CQ_N_def)
  show "cq_selftest 1 8 (replicate 11 0) = Inl (AssertFail ''cq_nelem(&q) == 11'')"
    using cq_selftest_passes [of 8 "replicate 11 0" 1] by (simp add: cq_size_ok_def)
qed

end
