(* ===== verification/Unix_Files.thy ===== *)
theory Unix_Files
  imports Unix_Io Printk "HOL-Library.List_Lexorder"
begin

text \<open>
  The log files and the child processes of the laptop side, \<^verbatim>\<open>libunix/log-fns.c\<close> and
  \<^verbatim>\<open>libunix/get-exitcode.c\<close>. A trace is written to the file with the next free number; the tests read
  all of them back. Strings are their bytes without the terminator.
\<close>

section \<open>Files and directories\<close>

text \<open>
  The file system as the paths of its directories and of its files, as the program writes them.
\<close>

record fs_t =
  dir_paths :: "bytes list"
  file_paths :: "bytes list"

text \<open>The entry a path is in a directory, if it lies directly in it.\<close>

definition entry_of :: "bytes \<Rightarrow> bytes \<Rightarrow> bytes option" where
  "entry_of d p =
     (let e = drop (Suc (length d)) p in
      if take (Suc (length d)) p = d @ [47] \<and> e \<noteq> [] \<and> 47 \<notin> set e then Some e else None)"

definition dir_entries :: "fs_t \<Rightarrow> bytes \<Rightarrow> bytes list" where
  "dir_entries fs d =
     [[46], [46, 46]] @ List.map_filter (entry_of d) (dir_paths fs @ file_paths fs)"

definition parent_of :: "bytes \<Rightarrow> bytes" where
  "parent_of p = rev (tl (dropWhile (\<lambda>c. c \<noteq> 47) (rev p)))"

text \<open>\<open>open(name, O_RDWR | O_CREAT)\<close>: a file that is there is opened as it is.\<close>

definition os_open_creat :: "bytes \<Rightarrow> fs_t \<Rightarrow> fs_t option" where
  "os_open_creat p fs =
     (if p \<in> set (dir_paths fs) \<or> parent_of p \<notin> set (dir_paths fs) then None
      else if p \<in> set (file_paths fs) then Some fs
      else Some (fs\<lparr>file_paths := p # file_paths fs\<rparr>))"

text \<open>\<open>atoi\<close>: \<open>strtol\<close> stops at the limits of \<open>long\<close>, and its result is cut to an \<open>int\<close>.\<close>

definition isdigit_c :: "u8 \<Rightarrow> bool" where
  "isdigit_c c \<longleftrightarrow> 48 \<le> c \<and> c \<le> 57"

definition atoi :: "bytes \<Rightarrow> u32" where
  "atoi s =
     (let s1 = dropWhile isspace_c s;
          neg = (s1 \<noteq> [] \<and> hd s1 = 45);
          s2 = (if s1 \<noteq> [] \<and> (hd s1 = 45 \<or> hd s1 = 43) then tl s1 else s1);
          v = int (num_val 10 (takeWhile isdigit_c s2))
      in word_of_int (if neg then max (- (2 ^ 63)) (- v) else min (2 ^ 63 - 1) v))"

section \<open>The log files\<close>

text \<open>The filter that keeps the entries with the prefix and their largest number in \<open>max_test_n\<close>.\<close>

definition has_prefix :: "bytes \<Rightarrow> bytes \<Rightarrow> bool" where
  "has_prefix log_prefix d_name \<longleftrightarrow> take (length log_prefix) d_name = log_prefix"

definition log_filter :: "bytes \<Rightarrow> bytes \<Rightarrow> u32 \<Rightarrow> bool \<times> u32" where
  "log_filter log_prefix d_name max_test_n =
     (if \<not> has_prefix log_prefix d_name then (False, max_test_n)
      else (let test_n = atoi (drop (length log_prefix) d_name) in
            (True, if sint max_test_n < sint test_n then test_n else max_test_n)))"

text \<open>\<open>scandir\<close> calls the filter on the entries in turn and returns the ones it accepts.\<close>

fun scan_entries :: "bytes \<Rightarrow> bytes list \<Rightarrow> u32 \<Rightarrow> bytes list \<times> u32" where
  "scan_entries log_prefix [] m = ([], m)"
| "scan_entries log_prefix (e # es) m =
     (let (keep, m1) = log_filter log_prefix e m; (sel, m2) = scan_entries log_prefix es m1 in
      (if keep then e # sel else sel, m2))"

definition scandir :: "bytes \<Rightarrow> bytes \<Rightarrow> fs_t \<Rightarrow> (bytes list \<times> u32) option" where
  "scandir log_dir log_prefix fs =
     (if log_dir \<in> set (dir_paths fs) then Some (scan_entries log_prefix (dir_entries fs log_dir) 0) else None)"

definition log_name :: "bytes \<Rightarrow> bytes \<Rightarrow> u32 \<Rightarrow> bytes" where
  "log_name log_dir prefix n = log_dir @ [47] @ prefix @ num_text 10 n True @ bstr ''.txt''"

definition log_open :: "bytes \<Rightarrow> bytes \<Rightarrow> u32 \<Rightarrow> fs_t \<Rightarrow> (bytes \<times> fs_t) result" where
  "log_open log_dir prefix n fs =
     (case os_open_creat (log_name log_dir prefix n) fs of
        None \<Rightarrow> sys_die ''failed could not open''
      | Some fs1 \<Rightarrow> Inr (log_name log_dir prefix n, fs1))"

text \<open>\<open>mkdir_ok\<close> says whether the system lets the program make the directory.\<close>

definition log_create_next :: "bool \<Rightarrow> bytes \<Rightarrow> bytes \<Rightarrow> fs_t \<Rightarrow> (bytes \<times> fs_t) result" where
  "log_create_next mkdir_ok log_dir prefix fs =
     (case scandir log_dir prefix fs of
        None \<Rightarrow>
          if \<not> mkdir_ok then sys_die ''mkdir failed: weird''
          else (let fs1 = fs\<lparr>dir_paths := log_dir # dir_paths fs\<rparr> in
                case scandir log_dir prefix fs1 of
                  None \<Rightarrow> Inl (Panic ''failed to create directory'')
                | Some (namelist, m) \<Rightarrow>
                    rbind (c_demand (namelist = []) ''directory cannot have entries!'') (\<lambda>_.
                      log_open log_dir prefix m fs1))
      | Some (namelist, m) \<Rightarrow> log_open log_dir prefix (if namelist = [] then m else m + 1) fs)"

definition log_list_all :: "bytes \<Rightarrow> bytes \<Rightarrow> fs_t \<Rightarrow> bytes list result" where
  "log_list_all dirname prefix fs =
     (if dirname \<notin> set (dir_paths fs) then Inl (Panic ''scandir: can't find the test directory'')
      else (let namelist = sort (filter (has_prefix prefix) (dir_entries fs dirname)) in
            if namelist = [] then Inl (Panic ''scandir: directory has no entries?'')
            else if \<exists>e \<in> set namelist. 1024 \<le> length (dirname @ [47] @ e) then Inl Bounds
            else Inr (map (\<lambda>e. dirname @ [47] @ e) namelist)))"

text \<open>A program that is run several times makes one log each time.\<close>

fun log_create_run :: "nat \<Rightarrow> bool \<Rightarrow> bytes \<Rightarrow> bytes \<Rightarrow> fs_t \<Rightarrow> (bytes list \<times> fs_t) result" where
  "log_create_run 0 ok log_dir prefix fs = Inr ([], fs)"
| "log_create_run (Suc k) ok log_dir prefix fs =
     rbind (log_create_next ok log_dir prefix fs) (\<lambda>(name, fs1).
     rbind (log_create_run k ok log_dir prefix fs1) (\<lambda>(names, fs2). Inr (name # names, fs2)))"

section \<open>Children\<close>

text \<open>
  How a child ends, and the status word \<open>waitpid\<close> reports for it. A child is still running for a
  number of polls; once it has been waited for, there is nothing to wait for.
\<close>

datatype ending = Exited u32 | Killed u32 bool

fun wait_status :: "ending \<Rightarrow> u32" where
  "wait_status (Exited code) = push_bit 8 (code AND 0xFF)"
| "wait_status (Killed sig core) = (sig AND 0x7F) OR (if core then 0x80 else 0)"

datatype child = Alive nat ending | Reaped

fun waitpid_nohang :: "child \<Rightarrow> (bool \<times> u32 \<times> child) option" where
  "waitpid_nohang (Alive (Suc k) e) = Some (False, 0, Alive k e)"
| "waitpid_nohang (Alive 0 e) = Some (True, wait_status e, Reaped)"
| "waitpid_nohang Reaped = None"

fun waitpid_block :: "child \<Rightarrow> (u32 \<times> child) option" where
  "waitpid_block (Alive k e) = Some (wait_status e, Reaped)"
| "waitpid_block Reaped = None"

definition WIFEXITED :: "u32 \<Rightarrow> bool" where
  "WIFEXITED st \<longleftrightarrow> st AND 0x7F = 0"

definition WEXITSTATUS :: "u32 \<Rightarrow> u32" where
  "WEXITSTATUS st = drop_bit 8 (st AND 0xFF00)"

definition child_exit_noblk :: "child \<Rightarrow> ((bool \<times> u32) \<times> child) result" where
  "child_exit_noblk c =
     (case waitpid_nohang c of None \<Rightarrow> sys_die ''failed'' | Some (r, st, c1) \<Rightarrow> Inr ((r, st), c1))"

definition child_clean_exit_noblk :: "child \<Rightarrow> ((int \<times> u32) \<times> child) result" where
  "child_clean_exit_noblk c =
     rbind (child_exit_noblk c) (\<lambda>((r, st), c1).
       if \<not> r then Inr ((0, st), c1)
       else if \<not> WIFEXITED st then Inr ((- 1, st), c1)
       else Inr ((1, WEXITSTATUS st), c1))"

definition child_clean_exit :: "child \<Rightarrow> ((int \<times> u32) \<times> child) result" where
  "child_clean_exit c =
     (case waitpid_block c of
        None \<Rightarrow> sys_die ''fatal''
      | Some (st, c1) \<Rightarrow> if \<not> WIFEXITED st then Inr ((0, st), c1) else Inr ((1, WEXITSTATUS st), c1))"

section \<open>Numbers in names\<close>

lemma dec_chars: "k < 10 \<Longrightarrow> isdigit_c (digit_chars ! k)"
proof -
  have "\<forall>k < 16. k < 10 \<longrightarrow> isdigit_c (digit_chars ! k)"
    unfolding all_less_16 by (simp add: isdigit_c_def digit_chars_def bstr_def)
  then show "k < 10 \<Longrightarrow> isdigit_c (digit_chars ! k)" by simp
qed

lemma emit_digits_isdigit: "\<forall>c \<in> set (emit_digits 10 u). isdigit_c c"
proof (induction "10 :: u32" u rule: emit_digits.induct)
  case (1 u)
  have "unat (u mod 10) < 10" by (simp add: unat_mod_distrib)
  then show ?case using 1 dec_chars by (subst emit_digits.simps) auto
qed

lemma isdigit_c_cases: "isdigit_c c \<Longrightarrow> \<not> isspace_c c \<and> c \<noteq> 45 \<and> c \<noteq> 43 \<and> c \<noteq> 47"
  using order_trans [of 48 c 13] by (auto simp: isdigit_c_def isspace_c_def)

lemma uint_small: "unat (n :: u32) < 2 ^ 31 \<Longrightarrow> uint n < 2 ^ 31"
proof -
  assume "unat n < 2 ^ 31"
  then have "unat n < 2147483648" by simp
  then have "uint n < 2147483648" using uint_nat [of n] by linarith
  then show ?thesis by simp
qed

lemma sint_small: "unat (n :: u32) < 2 ^ 31 \<Longrightarrow> sint n = int (unat n)"
  using signed_take_bit_int_eq_self [of 31 "uint n", OF order_trans [OF _ unsigned_greater_eq]] uint_small [of n]
  by (simp add: sint_uint)

lemma atoi_number:
  assumes "unat n < 2 ^ 31"
  shows "atoi (num_text 10 n True @ bstr ''.txt'') = n"
proof -
  let ?d = "rev (emit_digits 10 n)"
  have s: "0 \<le> sint n" using sint_small [OF assms] by simp
  then have t: "num_text 10 n True = ?d" by (simp add: num_text_def)
  have d: "\<forall>c \<in> set ?d. isdigit_c c" "?d \<noteq> []" using emit_digits_isdigit by simp_all
  then have h: "isdigit_c (hd ?d)" by (metis hd_in_set)
  have w: "dropWhile isspace_c (?d @ bstr ''.txt'') = ?d @ bstr ''.txt''"
    using d(2) isdigit_c_cases [OF h] by (cases ?d) simp_all
  have "takeWhile isdigit_c (bstr ''.txt'') = []" by (simp add: bstr_def isdigit_c_def)
  then have p: "takeWhile isdigit_c (?d @ bstr ''.txt'') = ?d" using d(1) takeWhile_append2 [of ?d isdigit_c "bstr ''.txt''"] by auto
  have v: "num_val 10 ?d = unat n" using emit_digits_val [of 10 n] by simp
  have "hd (?d @ bstr ''.txt'') \<noteq> 45" "hd (?d @ bstr ''.txt'') \<noteq> 43"
    using d(2) isdigit_c_cases [OF h] by simp_all
  then show ?thesis unfolding atoi_def t w using p v uint_small [OF assms] by simp
qed


section \<open>The next log file is a new one\<close>

lemma scan_entries_sel: "fst (scan_entries pre es m) = filter (has_prefix pre) es"
  by (induction es arbitrary: m) (simp_all add: log_filter_def Let_def split_beta)

lemma scan_entries_max:
  "scan_entries pre es m = (sel, m') \<Longrightarrow> sint m \<le> sint m'
    \<and> (\<forall>e \<in> set es. has_prefix pre e \<longrightarrow> sint (atoi (drop (length pre) e)) \<le> sint m')
    \<and> (m' = m \<or> (\<exists>e \<in> set es. has_prefix pre e \<and> m' = atoi (drop (length pre) e)))"
proof (induction es arbitrary: m sel)
  case (Cons e es)
  obtain k m1 sel1 m2 where s: "log_filter pre e m = (k, m1)" "scan_entries pre es m1 = (sel1, m2)"
    by (metis surj_pair)
  have m: "m2 = m'" using Cons.prems s by (auto split: if_splits)
  moreover have "sint m \<le> sint m1" "has_prefix pre e \<Longrightarrow> sint (atoi (drop (length pre) e)) \<le> sint m1"
    "m1 = m \<or> has_prefix pre e \<and> m1 = atoi (drop (length pre) e)"
    using s(1) by (auto simp: log_filter_def Let_def split: if_splits)
  ultimately show ?case using Cons.IH [OF s(2)[unfolded m]] by fastforce
qed simp

lemma entry_of_append: "e \<noteq> [] \<Longrightarrow> 47 \<notin> set e \<Longrightarrow> entry_of d (d @ [47] @ e) = Some e"
  by (simp add: entry_of_def Let_def)

lemma entry_of_Some: "entry_of d p = Some e \<Longrightarrow> p = d @ [47] @ e \<and> e \<noteq> [] \<and> 47 \<notin> set e"
  by (auto simp: entry_of_def Let_def split: if_splits) (metis append_Cons append_Nil append_assoc append_take_drop_id)

lemma set_dir_entries:
  "set (dir_entries fs d) = {[46], [46, 46]} \<union> {e. e \<noteq> [] \<and> 47 \<notin> set e \<and> d @ [47] @ e \<in> set (dir_paths fs @ file_paths fs)}"
proof -
  have "e \<in> set (List.map_filter (entry_of d) ps) \<longleftrightarrow> e \<noteq> [] \<and> 47 \<notin> set e \<and> d @ [47] @ e \<in> set ps" for e ps
    using entry_of_append entry_of_Some by (auto simp: List.map_filter_def image_iff)
  then show ?thesis by (auto simp: dir_entries_def)
qed

lemma num_text_chars: "unat n < 2 ^ 31 \<Longrightarrow> num_text 10 n True = rev (emit_digits 10 n)"
  using sint_small [of n] by (simp add: num_text_def)

lemma log_entry:
  assumes "unat n < 2 ^ 31" "47 \<notin> set pre"
  shows "47 \<notin> set (pre @ num_text 10 n True @ bstr ''.txt'')"
  using assms emit_digits_isdigit [of n] isdigit_c_cases by (auto simp: num_text_chars bstr_def)

lemma parent_of_entry: "47 \<notin> set e \<Longrightarrow> parent_of (d @ [47] @ e) = d"
  by (simp add: parent_of_def dropWhile_append dropWhile_eq_Nil_conv [THEN iffD2])

text \<open>The number of the next log, as the scan leaves it in \<open>max_test_n\<close>.\<close>

definition next_number :: "bytes \<Rightarrow> bytes \<Rightarrow> fs_t \<Rightarrow> nat" where
  "next_number log_dir prefix fs =
     (let (sel, m) = scan_entries prefix (dir_entries fs log_dir) 0 in if sel = [] then 0 else Suc (unat m))"

definition numbers_below :: "nat \<Rightarrow> bytes \<Rightarrow> bytes \<Rightarrow> fs_t \<Rightarrow> bool" where
  "numbers_below k log_dir prefix fs \<longleftrightarrow>
     (\<forall>e \<in> set (dir_entries fs log_dir). has_prefix prefix e \<longrightarrow> sint (atoi (drop (length prefix) e)) < int k)"

lemma scan_number:
  assumes "scan_entries pre (dir_entries fs d) 0 = (sel, m)" "numbers_below k d pre fs" "0 < k" "k \<le> 2 ^ 31"
  shows "0 \<le> sint m" "unat m < k" "sel = [] \<Longrightarrow> m = 0"
proof -
  note b = scan_entries_max [OF assms(1)]
  show "0 \<le> sint m" using b by simp
  then have i: "int (unat m) = sint m" by (rule unat_sint_nonneg)
  moreover have "sint m < int k" using b assms(2,3) by (auto simp: numbers_below_def)
  ultimately show "unat m < k" by linarith
  show "m = 0" if "sel = []"
  proof -
    have "filter (has_prefix pre) (dir_entries fs d) = []" using scan_entries_sel [of pre _ 0] assms(1) that by (metis fst_conv)
    then show ?thesis using b by (auto simp: filter_empty_conv)
  qed
qed


lemma dir_entries_created:
  assumes "os_open_creat (d @ [47] @ e) fs = Some fs'" "e \<noteq> []" "47 \<notin> set e"
  shows "set (dir_entries fs' d) = insert e (set (dir_entries fs d))" "d \<in> set (dir_paths fs')"
  using assms parent_of_entry [of e d]
  by (auto simp: set_dir_entries os_open_creat_def split: if_splits)

lemma has_prefix_append [simp]: "has_prefix pre (pre @ e)"
  by (simp add: has_prefix_def)

lemma next_number_le: "numbers_below j d pre fs \<Longrightarrow> 0 < j \<Longrightarrow> j \<le> 2 ^ 31 \<Longrightarrow> next_number d pre fs \<le> j"
  by (cases "scan_entries pre (dir_entries fs d) 0") (auto simp: next_number_def Suc_le_eq dest: scan_number(2))

text \<open>One call: the number is above all numbers in use, so the name is new.\<close>

lemma log_create_next_ok:
  assumes d: "d \<in> set (dir_paths fs)" and pre: "47 \<notin> set pre"
    and below: "numbers_below k d pre fs" "0 < k" "Suc k < 2 ^ 31"
  shows "\<exists>fs'. log_create_next ok d pre fs = Inr (log_name d pre (of_nat (next_number d pre fs)), fs')
    \<and> log_name d pre (of_nat (next_number d pre fs)) \<notin> set (file_paths fs)
    \<and> fs' = fs\<lparr>file_paths := log_name d pre (of_nat (next_number d pre fs)) # file_paths fs\<rparr>
    \<and> numbers_below (Suc k) d pre fs' \<and> next_number d pre fs' = Suc (next_number d pre fs)"
proof -
  obtain sel m where sc: "scan_entries pre (dir_entries fs d) 0 = (sel, m)" by (metis surj_pair)
  have k: "k \<le> 2 ^ 31" using below(3) by simp
  note n = scan_number [OF sc below(1,2) k]
  let ?w = "if sel = [] then m else m + 1" and ?n = "next_number d pre fs"
  have sel: "sel = filter (has_prefix pre) (dir_entries fs d)" using scan_entries_sel [of pre _ 0] sc by (metis fst_conv)
  have le: "?n \<le> k" by (rule next_number_le [OF below(1,2) k])
  have w: "?w = of_nat ?n" using n(3) by (simp add: next_number_def sc)
  have u: "unat (of_nat ?n :: u32) = ?n" using le below(3) by (simp add: unat_of_nat_u32)
  then have small: "unat (of_nat ?n :: u32) < 2 ^ 31" using le below(3) by simp
  define e where "e = pre @ num_text 10 (of_nat ?n) True @ bstr ''.txt''"
  have e: "e \<noteq> []" "47 \<notin> set e" using log_entry [OF small pre] by (simp_all add: e_def bstr_def)
  have name: "log_name d pre (of_nat ?n) = d @ [47] @ e" by (simp add: log_name_def e_def)
  have a: "atoi (drop (length pre) e) = of_nat ?n" using atoi_number [OF small] by (simp add: e_def)
  have fresh: "e \<notin> set (dir_entries fs d)"
  proof
    assume in_d: "e \<in> set (dir_entries fs d)"
    have p: "has_prefix pre e" by (simp add: e_def)
    then have "sel \<noteq> []" using in_d sel by (auto simp: filter_empty_conv)
    then have "?n = Suc (unat m)" by (simp add: next_number_def sc)
    moreover have "sint (of_nat ?n :: u32) \<le> sint m" using scan_entries_max [OF sc] in_d p a by fastforce
    then have "int ?n \<le> int (unat m)" using sint_small [OF small] u unat_sint_nonneg [OF n(1)] by simp
    ultimately show False by simp
  qed
  then have new: "d @ [47] @ e \<notin> set (dir_paths fs)" "d @ [47] @ e \<notin> set (file_paths fs)"
    using e by (auto simp: set_dir_entries)
  let ?fs = "fs\<lparr>file_paths := (d @ [47] @ e) # file_paths fs\<rparr>"
  have o: "os_open_creat (d @ [47] @ e) fs = Some ?fs"
    using new parent_of_entry [OF e(2), of d] d by (simp add: os_open_creat_def)
  have "log_create_next ok d pre fs = Inr (log_name d pre (of_nat ?n), ?fs)"
    using d o w name by (simp add: log_create_next_def scandir_def sc log_open_def)
  moreover note ent = dir_entries_created [OF o e]
  have "numbers_below (Suc k) d pre ?fs"
    using below(1) a le sint_small [OF small] u ent(1) unfolding numbers_below_def by auto
  moreover have "next_number d pre ?fs = Suc ?n"
  proof -
    obtain sel' m' where sc': "scan_entries pre (dir_entries ?fs d) 0 = (sel', m')" by (metis surj_pair)
    have "sel' = filter (has_prefix pre) (dir_entries ?fs d)" using scan_entries_sel [of pre _ 0] sc' by (metis fst_conv)
    then have "sel' \<noteq> []" using ent(1) by (auto simp: filter_empty_conv e_def)
    moreover have "m' = of_nat ?n"
    proof -
      have 1: "int ?n \<le> sint m'"
        using scan_entries_max [OF sc'] ent(1) a sint_small [OF small] u by (auto simp: e_def)
      have "sint m' \<le> int ?n"
      proof -
        consider "m' = 0" | "m' = of_nat ?n"
          | x where "x \<in> set (dir_entries fs d)" "has_prefix pre x" "m' = atoi (drop (length pre) x)"
          using scan_entries_max [OF sc'] ent(1) a by auto
        then show ?thesis
        proof cases
          case 3
          then have "sel \<noteq> []" "sint m' \<le> sint m" using sel scan_entries_max [OF sc] by (auto simp: filter_empty_conv)
          then show ?thesis using unat_sint_nonneg [OF n(1)] by (simp add: next_number_def sc)
        qed (use sint_small [OF small] u in simp_all)
      qed
      with 1 have "sint m' = sint (of_nat ?n :: u32)" using sint_small [OF small] u by simp
      then show ?thesis by (rule signed_word_eqI)
    qed
    moreover have "next_number d pre ?fs = (if sel' = [] then 0 else Suc (unat m'))"
      unfolding next_number_def sc' by simp
    ultimately show ?thesis using u by simp
  qed
  ultimately show ?thesis using new name by auto
qed


lemma log_create_run_ok:
  assumes "d \<in> set (dir_paths fs)" "47 \<notin> set pre" "numbers_below j d pre fs" "0 < j" "j + k < 2 ^ 31"
    and "names = map (\<lambda>i. log_name d pre (of_nat i)) [next_number d pre fs..<next_number d pre fs + k]"
  shows "\<exists>fs'. log_create_run k ok d pre fs = Inr (names, fs') \<and> distinct names
    \<and> set names \<inter> set (file_paths fs) = {} \<and> dir_paths fs' = dir_paths fs
    \<and> file_paths fs' = rev names @ file_paths fs"
  using assms
proof (induction k arbitrary: j fs names)
  case (Suc k)
  let ?n = "next_number d pre fs"
  have b: "Suc j < 2 ^ 31" using Suc.prems(5) by simp
  obtain fs1 where f: "log_create_next ok d pre fs = Inr (log_name d pre (of_nat ?n), fs1)"
    "log_name d pre (of_nat ?n) \<notin> set (file_paths fs)"
    "fs1 = fs\<lparr>file_paths := log_name d pre (of_nat ?n) # file_paths fs\<rparr>"
    "numbers_below (Suc j) d pre fs1" "next_number d pre fs1 = Suc ?n"
    using log_create_next_ok [OF Suc.prems(1-4) b, of ok] by metis
  have d1: "d \<in> set (dir_paths fs1)" "0 < Suc j" "Suc j + k < 2 ^ 31" using Suc.prems(1,5) f(3) by simp_all
  obtain ns where ns: "ns = map (\<lambda>i. log_name d pre (of_nat i)) [Suc ?n..<Suc ?n + k]" by blast
  have "[?n..<?n + Suc k] = ?n # [Suc ?n..<Suc ?n + k]" by (simp add: upt_conv_Cons del: upt_Suc)
  then have names: "names = log_name d pre (of_nat ?n) # ns"
    using Suc.prems(6) ns by (simp del: upt_Suc)
  from Suc.IH [OF d1(1) Suc.prems(2) f(4) d1(2,3), unfolded f(5), OF ns]
  obtain fs2 where "log_create_run k ok d pre fs1 = Inr (ns, fs2)" "distinct ns"
    "set ns \<inter> set (file_paths fs1) = {}" "dir_paths fs2 = dir_paths fs1" "file_paths fs2 = rev ns @ file_paths fs1"
    by blast
  then show ?case using f(1,2,3) names by auto
qed simp

text \<open>The files with the prefix in a directory.\<close>

definition log_listing :: "bytes \<Rightarrow> bytes \<Rightarrow> fs_t \<Rightarrow> bytes list" where
  "log_listing d pre fs = map (\<lambda>e. d @ [47] @ e) (filter (has_prefix pre) (dir_entries fs d))"

lemma sort_eq_Nil [simp]: "sort xs = [] \<longleftrightarrow> xs = []"
  by (metis length_0_conv length_sort)

lemma log_list_all_ok:
  assumes "d \<in> set (dir_paths fs)" "log_listing d pre fs \<noteq> []" "\<forall>p \<in> set (log_listing d pre fs). length p < 1024"
  shows "\<exists>l. log_list_all d pre fs = Inr l \<and> set l = set (log_listing d pre fs)"
  using assms by (auto simp: log_list_all_def log_listing_def Let_def filter_empty_conv)

lemma length_log_name: "length (log_name d pre n) \<le> length d + length pre + 38"
  using num_text_props(2) [of 10 n True] by (simp add: log_name_def bstr_def)

lemma set_log_listing_files:
  assumes "dir_paths fs' = dir_paths fs" "set (file_paths fs') = set names \<union> set (file_paths fs)"
    and "\<forall>p \<in> set names. \<exists>e. p = d @ [47] @ pre @ e \<and> 47 \<notin> set (pre @ e) \<and> pre @ e \<noteq> []"
  shows "set (log_listing d pre fs') = set names \<union> set (log_listing d pre fs)"
proof -
  have "p \<in> set (log_listing d pre f) \<longleftrightarrow> (\<exists>e. p = d @ [47] @ e \<and> has_prefix pre e
      \<and> (e = [46] \<or> e = [46, 46] \<or> e \<noteq> [] \<and> 47 \<notin> set e \<and> p \<in> set (dir_paths f @ file_paths f)))" for p f
    by (auto simp: log_listing_def set_dir_entries)
  then show ?thesis using assms has_prefix_append by (auto; metis append_Cons append_Nil)
qed

section \<open>How a child ended\<close>

lemma status_masks: "(0x7F :: u32) = mask 7" "(0x80 :: u32) = push_bit 7 1" "(0xFF :: u32) = mask 8"
  "(0xFF00 :: u32) = push_bit 8 (mask 8)"
  by (simp_all add: mask_eq_exp_minus_1 push_bit_eq_mult)

lemma wait_status_exited: "WIFEXITED (wait_status (Exited code))" "WEXITSTATUS (wait_status (Exited code)) = code AND 0xFF"
  unfolding WIFEXITED_def WEXITSTATUS_def wait_status.simps status_masks
  by (rule bit_word_eqI, auto simp: bit_simps)+

lemma wait_status_killed: "sig AND 0x7F \<noteq> 0 \<Longrightarrow> \<not> WIFEXITED (wait_status (Killed sig core))"
  by (simp add: WIFEXITED_def bit.conj_disj_distrib2 and.assoc)

text \<open>What the polling routine reports, poll by poll.\<close>

fun child_polls :: "nat \<Rightarrow> child \<Rightarrow> ((int \<times> u32) list \<times> child) result" where
  "child_polls 0 c = Inr ([], c)"
| "child_polls (Suc k) c =
     rbind (child_clean_exit_noblk c) (\<lambda>(r, c1). rbind (child_polls k c1) (\<lambda>(rs, c2). Inr (r # rs, c2)))"

definition end_report :: "ending \<Rightarrow> bool \<times> u32" where
  "end_report e = (case e of Exited code \<Rightarrow> (True, code AND 0xFF) | Killed sig core \<Rightarrow> (False, wait_status e))"

definition ending_ok :: "ending \<Rightarrow> bool" where
  "ending_ok e = (case e of Exited code \<Rightarrow> True | Killed sig core \<Rightarrow> sig AND 0x7F \<noteq> 0)"

lemma child_polls_ok:
  "ending_ok e \<Longrightarrow> child_polls (Suc k) (Alive k e)
    = Inr (replicate k (0, 0) @ [(if fst (end_report e) then 1 else - 1, snd (end_report e))], Reaped)"
proof (induction k)
  case 0
  then show ?case using wait_status_exited wait_status_killed
    by (cases e) (simp_all add: child_clean_exit_noblk_def child_exit_noblk_def end_report_def ending_ok_def
        del: wait_status.simps)
next
  case (Suc k)
  have "child_clean_exit_noblk (Alive (Suc k) e) = Inr ((0, 0), Alive k e)"
    by (simp add: child_clean_exit_noblk_def child_exit_noblk_def)
  then show ?case using Suc by (subst child_polls.simps) simp
qed

lemma child_clean_exit_ok:
  "ending_ok e \<Longrightarrow> child_clean_exit (Alive k e)
    = Inr ((if fst (end_report e) then 1 else 0, snd (end_report e)), Reaped)"
  using wait_status_exited wait_status_killed
  by (cases e) (simp_all add: child_clean_exit_def end_report_def ending_ok_def del: wait_status.simps)

section \<open>Properties\<close>

text \<open>
  The logs of \<open>k\<close> runs go to \<open>k\<close> different files, none of which was there before, so no log is
  overwritten; and \<open>log_list_all\<close> then lists exactly these files and the ones it listed before.
\<close>

theorem log_files_fresh:
  assumes "d \<in> set (dir_paths fs)" "47 \<notin> set pre" "numbers_below j d pre fs" "0 < j" "0 < k" "j + k < 2 ^ 31"
    and "length d + length pre < 900" "\<forall>p \<in> set (log_listing d pre fs). length p < 1024"
  shows "\<exists>names fs' l. log_create_run k ok d pre fs = Inr (names, fs') \<and> length names = k \<and> distinct names
    \<and> set names \<inter> set (file_paths fs) = {} \<and> file_paths fs' = rev names @ file_paths fs
    \<and> log_list_all d pre fs' = Inr l \<and> set l = set names \<union> set (log_listing d pre fs)"
proof -
  let ?n = "next_number d pre fs"
  define names where "names = map (\<lambda>i. log_name d pre (of_nat i)) [?n..<?n + k]"
  obtain fs' where r: "log_create_run k ok d pre fs = Inr (names, fs')" "distinct names"
    "set names \<inter> set (file_paths fs) = {}" "dir_paths fs' = dir_paths fs" "file_paths fs' = rev names @ file_paths fs"
    using log_create_run_ok [OF assms(1-4,6) names_def, of ok] by blast
  have n: "?n + k < 2 ^ 31 + 1" using next_number_le [OF assms(3,4)] assms(6) by simp
  have "\<exists>e. p = d @ [47] @ pre @ e \<and> 47 \<notin> set (pre @ e) \<and> pre @ e \<noteq> []" if p: "p \<in> set names" for p
  proof -
    obtain i where i: "i \<in> set [?n..<?n + k]" "p = log_name d pre (of_nat i)" using p by (auto simp: names_def)
    then have "i < 2 ^ 31" using n by simp
    then have "unat (of_nat i :: u32) < 2 ^ 31" by (simp add: unat_of_nat_u32)
    from log_entry [OF this assms(2)] show ?thesis
      by (intro exI [where x = "num_text 10 (of_nat i) True @ bstr ''.txt''"]) (simp_all add: i(2) log_name_def bstr_def)
  qed
  then have l: "set (log_listing d pre fs') = set names \<union> set (log_listing d pre fs)"
    using set_log_listing_files [of fs' fs names d pre] r(4,5) by simp
  have len: "length names = k" by (simp add: names_def)
  have "\<forall>p \<in> set (log_listing d pre fs'). length p < 1024"
  proof
    fix p assume "p \<in> set (log_listing d pre fs')"
    then consider "p \<in> set (log_listing d pre fs)" | n where "p = log_name d pre n" using l by (auto simp: names_def)
    then show "length p < 1024"
    proof cases
      case 2
      then show ?thesis using length_log_name [of d pre n] assms(7) by simp
    qed (use assms(8) in simp)
  qed
  moreover have "names \<noteq> []" using len assms(5) by auto
  then have "log_listing d pre fs' \<noteq> []" using l by auto
  moreover have "d \<in> set (dir_paths fs')" using r(4) assms(1) by simp
  ultimately obtain ls where "log_list_all d pre fs' = Inr ls" "set ls = set (log_listing d pre fs')"
    using log_list_all_ok by blast
  then show ?thesis using r l len by blast
qed

text \<open>
  Polling a child reports 0 as long as it runs, then once 1 and its exit code modulo 256, or -1
  and the status when it was killed; the blocking routine reports the same end, with 0 for killed.
\<close>

theorem child_exit_reported:
  assumes "ending_ok e"
  shows "child_polls (Suc k) (Alive k e)
      = Inr (replicate k (0, 0) @ [(if fst (end_report e) then 1 else - 1, snd (end_report e))], Reaped)
    \<and> child_clean_exit (Alive k e) = Inr ((if fst (end_report e) then 1 else 0, snd (end_report e)), Reaped)"
  using child_polls_ok [OF assms] child_clean_exit_ok [OF assms] by simp

definition demo_logs :: fs_t where
  "demo_logs = \<lparr>dir_paths = [bstr ''logs''], file_paths = [bstr ''logs/t7.txt'', bstr ''logs/README'', bstr ''logs/t10.txt'']\<rparr>"

lemma demo_logs_ok:
  "numbers_below 11 (bstr ''logs'') (bstr ''t'') demo_logs"
  "log_listing (bstr ''logs'') (bstr ''t'') demo_logs = [bstr ''logs/t7.txt'', bstr ''logs/t10.txt'']"
  by code_simp+

theorem log_files_fresh_witness:
  "\<exists>names fs' l. log_create_run 2 True (bstr ''logs'') (bstr ''t'') demo_logs = Inr (names, fs') \<and> distinct names
    \<and> log_list_all (bstr ''logs'') (bstr ''t'') fs' = Inr l \<and> set l = set names \<union> {bstr ''logs/t7.txt'', bstr ''logs/t10.txt''}"
proof -
  have s: "bstr ''logs'' \<in> set (dir_paths demo_logs)" "47 \<notin> set (bstr ''t'')" "(0 :: nat) < 11" "(0 :: nat) < 2"
    "11 + 2 < (2 ^ 31 :: nat)" "length (bstr ''logs'') + length (bstr ''t'') < 900"
    "\<forall>p \<in> set (log_listing (bstr ''logs'') (bstr ''t'') demo_logs). length p < 1024"
    unfolding demo_logs_ok(2) by (simp_all add: demo_logs_def bstr_def)
  from log_files_fresh [OF s(1,2) demo_logs_ok(1) s(3-7), of True] show ?thesis
    unfolding demo_logs_ok(2) by auto
qed

theorem child_exit_reported_witness:
  "child_polls 3 (Alive 2 (Exited 0x107)) = Inr ([(0, 0), (0, 0), (1, 7)], Reaped)
    \<and> child_clean_exit (Alive 0 (Killed 11 True)) = Inr ((0, 0x8B), Reaped)"
proof
  have "ending_ok (Exited 0x107)" "ending_ok (Killed 11 True)" by (simp_all add: ending_ok_def)
  note r = this [THEN child_exit_reported]
  show "child_polls 3 (Alive 2 (Exited 0x107)) = Inr ([(0, 0), (0, 0), (1, 7)], Reaped)"
    using r(1)[of 2] by (simp add: end_report_def numeral_2_eq_2 numeral_3_eq_3)
  show "child_clean_exit (Alive 0 (Killed 11 True)) = Inr ((0, 0x8B), Reaped)"
    using r(2)[of 0] by (simp add: end_report_def)
qed

end
