(* ===== verification/Vm14.thy ===== *)
theory Vm14
  imports Mmu
begin

text \<open>
  The first virtual-memory lab, \<^verbatim>\<open>labs/14-vm/code\<close>: \<^verbatim>\<open>vm.c\<close>, \<^verbatim>\<open>vm.h\<close> and \<^verbatim>\<open>vm-helpers.c\<close>. The control
  register and the TLB configuration have the layouts of \<^verbatim>\<open>labs/15-vm-ops\<close>; the first-level
  descriptor is handed out without the widths of its fields. The routines of \<^verbatim>\<open>our-vm.o\<close> and the
  assembly are parameters.
\<close>

section \<open>The descriptor and its checks\<close>

text \<open>The struct of the starter code: fourteen members of type \<open>unsigned\<close>.\<close>

record fld14_t =
  fld_tag :: u32
  fld_B :: u32
  fld_C :: u32
  fld_XN :: u32
  fld_domain :: u32
  fld_IMP :: u32
  fld_AP :: u32
  fld_TEX :: u32
  fld_APX :: u32
  fld_S :: u32
  fld_nG :: u32
  fld_super :: u32
  fld_sbz1 :: u32
  fld_sec_base_addr :: u32

definition fld14_layout :: bf_layout where
  "fld14_layout =
     [(''tag'', 32), (''B'', 32), (''C'', 32), (''XN'', 32), (''domain'', 32), (''IMP'', 32), (''AP'', 32),
      (''TEX'', 32), (''APX'', 32), (''S'', 32), (''nG'', 32), (''super'', 32), (''_sbz1'', 32),
      (''sec_base_addr'', 32)]"

definition fld_mk14 :: fld14_t where
  "fld_mk14 =
     \<lparr>fld_tag = 2, fld_B = 0, fld_C = 0, fld_XN = 0, fld_domain = 0, fld_IMP = 0, fld_AP = 0, fld_TEX = 0,
      fld_APX = 0, fld_S = 0, fld_nG = 0, fld_super = 0, fld_sbz1 = 0, fld_sec_base_addr = 0\<rparr>"

definition fld_check_valid14 :: "fld14_t \<Rightarrow> unit result" where
  "fld_check_valid14 f =
     rbind (c_assert (fld_sbz1 f = 0) ''f->_sbz1 == 0'') (\<lambda>_.
     rbind (c_assert (fld_tag f = 2) ''f->tag == 0b10'') (\<lambda>_.
     rbind (c_assert (fld_S f = 0) ''f->S == 0'') (\<lambda>_.
     rbind (c_assert (fld_IMP f = 0) ''f->IMP == 0'') (\<lambda>_.
     rbind (c_assert (fld_TEX f = 0) ''f->TEX == 0'') (\<lambda>_.
     rbind (c_assert (fld_C f = 0) ''f->C == 0'') (\<lambda>_.
     rbind (c_assert (fld_B f = 0) ''f->B == 0'') (\<lambda>_.
       c_assert (fld_super f = 0) ''f->super == 0'')))))))"

text \<open>What \<open>fld_check_offsets\<close> demands: the position and the width of each field.\<close>

definition fld_bits14 :: "(string \<times> nat \<times> nat) list" where
  "fld_bits14 =
     [(''tag'', 0, 2), (''B'', 2, 1), (''C'', 3, 1), (''XN'', 4, 1), (''domain'', 5, 4), (''IMP'', 9, 1),
      (''AP'', 10, 2), (''TEX'', 12, 3), (''APX'', 15, 1), (''S'', 16, 1), (''nG'', 17, 1), (''super'', 18, 1),
      (''sec_base_addr'', 20, 12)]"

definition fld_check_offsets14 :: "unit result" where
  "fld_check_offsets14 =
     rbind (fld_check_valid14 fld_mk14) (\<lambda>_.
     rbind (c_assert (sizeof_layout fld14_layout = 4) ''sizeof f == 4'') (\<lambda>_.
       check_fields fld14_layout fld_bits14))"

text \<open>The control register and the TLB configuration are laid out and checked as in the later lab.\<close>

definition control_reg1_check_offsets14 :: "unit result" where
  "control_reg1_check_offsets14 = control_reg1_check_offsets"

definition control_reg1_sanity_check14 :: "u32 \<Rightarrow> unit result" where
  "control_reg1_sanity_check14 = control_reg1_sanity_check"

definition tlb_config_check_offsets14 :: "unit result" where
  "tlb_config_check_offsets14 = tlb_config_check_offsets"

definition check_vm_structs14 :: "unit result" where
  "check_vm_structs14 =
     rbind control_reg1_check_offsets14 (\<lambda>_. rbind tlb_config_check_offsets14 (\<lambda>_. fld_check_offsets14))"

section \<open>Registers and page tables\<close>

definition sec_bits_only :: "u32 \<Rightarrow> u32" where
  "sec_bits_only u = u AND NOT (push_bit 21 1 - 1)"

text \<open>\<open>ttbr0_get\<close> and \<open>ttbr1_get\<close>, on the value of their register: the base and the region bits.\<close>

definition ttbr_get :: "u32 \<Rightarrow> u32 \<Rightarrow> (u32 \<times> u32) result" where
  "ttbr_get r n =
     rbind (c_assert (n = 0) ''n == 0'') (\<lambda>_.
       Inr (push_bit 14 (drop_bit 14 r), drop_bit 3 r AND 3))"

definition mmu_lookup_section14 :: "u32 \<Rightarrow> u32 \<Rightarrow> u32 result" where
  "mmu_lookup_section14 pt va = Inl Unimplemented"

definition mmu_map_section14 :: "u32 \<Rightarrow> u32 \<Rightarrow> u32 result" where
  "mmu_map_section14 va pa =
     rbind (c_assert (is_aligned va 20) ''is_aligned(va, 20)'') (\<lambda>_.
     rbind (c_assert (is_aligned pa 20) ''is_aligned(pa, 20)'') (\<lambda>_. Inl Unimplemented))"

fun mmu_map_sections_loop14 :: "nat \<Rightarrow> u32 \<Rightarrow> u32 \<Rightarrow> unit result" where
  "mmu_map_sections_loop14 0 va pa = Inr ()"
| "mmu_map_sections_loop14 (Suc k) va pa =
     rbind (mmu_map_section14 va pa) (\<lambda>_. mmu_map_sections_loop14 k (va + OneMB) (pa + OneMB))"

definition mmu_map_sections14 :: "u32 \<Rightarrow> u32 \<Rightarrow> u32 \<Rightarrow> unit result" where
  "mmu_map_sections14 va pa nsec =
     rbind (c_assert (is_aligned va 20) ''is_aligned(va, 20)'') (\<lambda>_.
     rbind (c_assert (is_aligned pa 20) ''is_aligned(pa, 20)'') (\<lambda>_.
       mmu_map_sections_loop14 (unat nsec) va pa))"

definition mmu_init14 :: "u32 \<Rightarrow> u32 result" where
  "mmu_init14 base = rbind (c_demand (is_aligned base 14) ''must be 14 bit aligned!'') (\<lambda>_. Inl Unimplemented)"

section \<open>The test run\<close>

text \<open>
  The machine: the coprocessor registers and the memory. \<open>vm_asm\<close> are the routines the test calls
  that the repository has as object files. \<open>our_mmu_mark_sec_ap_perm\<close> is among them.
\<close>

record vm_state =
  cp15 :: cp15_t
  vmem :: ram

record vm_asm =
  our_mmu_init :: "u32 \<Rightarrow> vm_state \<Rightarrow> u32 \<times> vm_state"
  our_mmu_map_section :: "u32 \<Rightarrow> u32 \<Rightarrow> u32 \<Rightarrow> vm_state \<Rightarrow> vm_state"
  our_mmu_mark_sec_ap_perm :: "u32 \<Rightarrow> u32 \<Rightarrow> u32 \<Rightarrow> u32 \<Rightarrow> vm_state \<Rightarrow> vm_state"
  ctrl_reg1_wr14 :: "u32 \<Rightarrow> vm_state \<Rightarrow> vm_state"
  our_write_domain_access_ctrl :: "u32 \<Rightarrow> vm_state \<Rightarrow> vm_state"
  our_set_procid_ttbr0 :: "u32 \<Rightarrow> u32 \<Rightarrow> vm_state \<Rightarrow> vm_state"
  our_mmu_enable :: "u32 \<Rightarrow> vm_state \<Rightarrow> vm_state"
  our_mmu_disable :: "u32 \<Rightarrow> vm_state \<Rightarrow> vm_state"

definition mmu_mark_sec_readonly14 :: "vm_asm \<Rightarrow> u32 \<Rightarrow> u32 \<Rightarrow> u32 \<Rightarrow> vm_state \<Rightarrow> vm_state" where
  "mmu_mark_sec_readonly14 A pt va nsec = our_mmu_mark_sec_ap_perm A pt va nsec AP_rd_only"

definition mmu_mark_sec_rw14 :: "vm_asm \<Rightarrow> u32 \<Rightarrow> u32 \<Rightarrow> u32 \<Rightarrow> vm_state \<Rightarrow> vm_state" where
  "mmu_mark_sec_rw14 A pt va nsec = our_mmu_mark_sec_ap_perm A pt va nsec AP_rw"

definition mmu_mark_sec_no_access14 :: "vm_asm \<Rightarrow> u32 \<Rightarrow> u32 \<Rightarrow> u32 \<Rightarrow> vm_state \<Rightarrow> vm_state" where
  "mmu_mark_sec_no_access14 A pt va nsec = our_mmu_mark_sec_ap_perm A pt va nsec AP_no_access"

definition STACK_ADDR :: u32 where
  "STACK_ADDR = 0x8000000"

text \<open>
  A load or store with the MMU on goes through the section descriptor of its address (the comment at
  the top of \<^verbatim>\<open>vm.h\<close>): the tag must say section and the domain must not check permissions (manager)
  or the permissions must allow access. Otherwise it is a data abort.
\<close>

definition vm_on :: "vm_state \<Rightarrow> bool" where
  "vm_on s \<longleftrightarrow> get_field control_reg1 ''MMU_enabled'' (ctrl (cp15 s)) \<noteq> 0"

definition translate :: "vm_state \<Rightarrow> u32 \<Rightarrow> u32 option" where
  "translate s va =
     (if \<not> vm_on s then Some va
      else (let d = ld32 (vmem s) (ttbr0 (cp15 s) + 4 * drop_bit 20 va);
                acl = drop_bit (2 * unat (get_field fld_t ''domain'' d)) (dacr (cp15 s)) AND 3 in
            if get_field fld_t ''tag'' d = 2 \<and> (acl = 3 \<or> acl = 1 \<and> get_field fld_t ''AP'' d = AP_rw)
            then Some (push_bit 20 (get_field fld_t ''sec_base_addr'' d) OR (va AND mask 20)) else None))"

definition vm_get32 :: "u32 \<Rightarrow> vm_state \<Rightarrow> u32 result" where
  "vm_get32 a s = (case translate s a of None \<Rightarrow> Inl (Panic ''in data abort'') | Some p \<Rightarrow> Inr (ld32 (vmem s) p))"

definition vm_put32 :: "u32 \<Rightarrow> u32 \<Rightarrow> vm_state \<Rightarrow> vm_state result" where
  "vm_put32 a v s =
     (case translate s a of None \<Rightarrow> Inl (Panic ''in data abort'') | Some p \<Rightarrow> Inr (s\<lparr>vmem := st32 (vmem s) p v\<rparr>))"

text \<open>The part of \<open>vm_test\<close> that sets up the sections and turns the MMU on.\<close>

definition vm_setup :: "vm_asm \<Rightarrow> vm_state \<Rightarrow> (u32 \<times> vm_state) result" where
  "vm_setup A s =
     (let (pt, s0) = our_mmu_init A 0x100000 s in
      rbind (c_assert (pt = 0x100000) ''pt == (void*)0x100000'') (\<lambda>_.
      let s1 = our_mmu_map_section A pt 0 0 s0;
          s2 = our_mmu_map_section A pt 0x100000 0x100000 s1;
          s3 = our_mmu_map_section A pt (STACK_ADDR - OneMB) (STACK_ADDR - OneMB) s2;
          s4 = our_mmu_map_section A pt 0x20000000 0x20000000 s3;
          s5 = our_mmu_map_section A pt 0x20100000 0x20100000 s4;
          s6 = our_mmu_map_section A pt 0x20200000 0x20200000 s5;
          s7 = ctrl_reg1_wr14 A (set_field control_reg1 ''XP_pt'' 1 (ctrl (cp15 s6))) s6;
          c1 = ctrl (cp15 s7) in
      rbind (c_assert (get_field control_reg1 ''XP_pt'' c1 \<noteq> 0) ''c1.XP_pt'') (\<lambda>_.
      rbind (c_assert (get_field control_reg1 ''MMU_enabled'' c1 = 0) ''!c1.MMU_enabled'') (\<lambda>_.
      let s8 = our_write_domain_access_ctrl A (- 1) s7;
          s9 = our_set_procid_ttbr0 A 1 pt s8;
          s10 = our_mmu_enable A (set_field control_reg1 ''MMU_enabled'' 1 c1) s9;
          c1 = ctrl (cp15 s10) in
      rbind (c_assert (get_field control_reg1 ''MMU_enabled'' c1 \<noteq> 0) ''c1.MMU_enabled'') (\<lambda>_.
        Inr (c1, s10))))))"

text \<open>The rest; \<open>x\<close> is the address of the local variable of that name. The messages are left out.\<close>

definition vm_test :: "vm_asm \<Rightarrow> u32 \<Rightarrow> vm_state \<Rightarrow> vm_state result" where
  "vm_test A x s =
     rbind (vm_setup A s) (\<lambda>(c1, s1).
     rbind (vm_put32 x 5 s1) (\<lambda>s2.
     rbind (vm_get32 x s2) (\<lambda>v.
     rbind (c_assert (v = 5) ''get32(&x) == 5'') (\<lambda>_.
     rbind (vm_get32 x s2) (\<lambda>v0.
     rbind (vm_get32 x s2) (\<lambda>y.
     rbind (vm_put32 x (y + 1) s2) (\<lambda>s3.
     rbind (vm_get32 x s3) (\<lambda>v1.
     let s4 = our_mmu_disable A (set_field control_reg1 ''MMU_enabled'' 0 c1) s3 in
     rbind (c_assert (get_field control_reg1 ''MMU_enabled'' (ctrl (cp15 s4)) = 0) ''!c1.MMU_enabled'') (\<lambda>_.
     rbind (c_assert (v0 = 5) ''v0 == 5'') (\<lambda>_.
     rbind (c_assert (v1 = 6) ''v1 == 6'') (\<lambda>_. Inr s4)))))))))))"

definition notmain14 :: "vm_asm \<Rightarrow> u32 \<Rightarrow> vm_state \<Rightarrow> vm_state result" where
  "notmain14 A x s = rbind check_vm_structs14 (\<lambda>_. vm_test A x s)"

section \<open>The bit-field check is exact\<close>

lemma field_bits: "x = push_bit p (take_bit m y) \<Longrightarrow> bit (x :: u32) n \<longleftrightarrow> n < 32 \<and> p \<le> n \<and> n - p < m \<and> bit y (n - p)"
  by (auto simp: bit_simps dest: bit_imp_le_length)

lemma set_all_mask: "n \<le> 32 \<Longrightarrow> drop_bit (32 - n) (NOT (mask (32 - n)) :: u32) = mask n"
  by (rule bit_word_eqI) (auto simp: bit_simps)

lemma check_bitfield_exact:
  assumes "0 < n" "off + n \<le> 32" "fst (field_pos T 0 f) < 32 \<longrightarrow> field_in T f"
  shows "check_bitfield T f off n = Inr () \<longleftrightarrow> field_pos T 0 f = (off, n)"
proof -
  obtain p m where pm: "field_pos T 0 f = (p, m)" by (metis surj_pair)
  have u: "bit (set_field T f 1 0) k \<longleftrightarrow> k < 32 \<and> k = p \<and> 0 < m" for k
    by (auto simp: bit_set_field pm bit_1_iff dest: bit_imp_le_length)
  have e: "bit (push_bit off 1 :: u32) k \<longleftrightarrow> k = off" for k
    using assms(1,2) by (auto simp: bit_simps)
  have 1: "set_field T f 1 0 = push_bit off 1 \<longleftrightarrow> p = off \<and> 0 < m"
  proof
    assume "set_field T f 1 0 = push_bit off 1"
    then have "bit (set_field T f 1 0) off" using e by simp
    then show "p = off \<and> 0 < m" using u by simp
  qed (use u e assms(1,2) in \<open>auto intro!: bit_word_eqI\<close>)
  have 2: "set_field T f (- 1) (push_bit off 1) = push_bit off (mask n) \<longleftrightarrow> m = n" if "p = off" "0 < m"
  proof -
    have w: "bit (set_field T f (- 1) (push_bit off 1)) k \<longleftrightarrow> off \<le> k \<and> k < off + m" for k
      using assms(1-3) that e pm by (auto simp: bit_set_field field_in_def)
    have x: "bit (push_bit off (mask n) :: u32) k \<longleftrightarrow> off \<le> k \<and> k < off + n" for k
      using assms(2) by (auto simp: bit_simps)
    show ?thesis
    proof
      assume eq: "set_field T f (- 1) (push_bit off 1) = push_bit off (mask n)"
      have "off + (m - 1) < off + n" "off + (n - 1) < off + m"
        using w [of "off + (m - 1)"] x [of "off + (n - 1)"] w [of "off + (n - 1)"] x [of "off + (m - 1)"]
          eq that(2) assms(1) by auto
      then show "m = n" by simp
    qed (use w x in \<open>auto intro!: bit_word_eqI\<close>)
  qed
  show ?thesis
    using 1 2 assms(1,2) pm by (auto simp: check_bitfield_def Let_def set_all_mask)
qed

lemma check_fields_exact:
  assumes "\<forall>(f, off, n) \<in> set cs. 0 < n \<and> off + n \<le> 32 \<and> (fst (field_pos T 0 f) < 32 \<longrightarrow> field_in T f)"
  shows "check_fields T cs = Inr () \<longleftrightarrow> (\<forall>(f, off, n) \<in> set cs. field_pos T 0 f = (off, n))"
  using assms
proof (induction T cs rule: check_fields.induct)
  case (2 T f off n cs)
  have "rbind r (\<lambda>_. q) = Inr () \<longleftrightarrow> r = Inr () \<and> q = Inr ()" for r q :: "unit result"
    by (cases r) simp_all
  then show ?case using 2 check_bitfield_exact by auto
qed simp

section \<open>What the routines of \<open>our-vm.o\<close> are documented to do\<close>

text \<open>The descriptor of a section as \<open>mmu_map_section\<close> describes it: domain 0, global, read and write.\<close>

definition section_desc :: "u32 \<Rightarrow> u32" where
  "section_desc pa = set_field fld_t ''sec_base_addr'' (drop_bit 20 pa) (set_field fld_t ''AP'' AP_rw (set_field fld_t ''tag'' 2 0))"

definition vm_asm_ok :: "vm_asm \<Rightarrow> bool" where
  "vm_asm_ok A \<longleftrightarrow>
     (\<forall>base s. our_mmu_init A base s = (base, s\<lparr>vmem := mem_fill (vmem s) base 0 16384\<rparr>))
   \<and> (\<forall>pt va pa s. our_mmu_map_section A pt va pa s
        = s\<lparr>vmem := st32 (vmem s) (pt + 4 * drop_bit 20 va) (section_desc pa)\<rparr>)
   \<and> (\<forall>c s. ctrl_reg1_wr14 A c s = s\<lparr>cp15 := (cp15 s)\<lparr>ctrl := c\<rparr>\<rparr>)
   \<and> (\<forall>d s. our_write_domain_access_ctrl A d s = s\<lparr>cp15 := (cp15 s)\<lparr>dacr := d\<rparr>\<rparr>)
   \<and> (\<forall>p pt s. our_set_procid_ttbr0 A p pt s = s\<lparr>cp15 := (cp15 s)\<lparr>procid := p, ttbr0 := pt\<rparr>\<rparr>)
   \<and> (\<forall>c s. our_mmu_enable A c s = s\<lparr>cp15 := (cp15 s)\<lparr>ctrl := c\<rparr>\<rparr>)
   \<and> (\<forall>c s. our_mmu_disable A c s = s\<lparr>cp15 := (cp15 s)\<lparr>ctrl := c\<rparr>\<rparr>)"

section \<open>Tables in memory\<close>

definition tbl :: "ram \<Rightarrow> u32 \<Rightarrow> nat \<Rightarrow> u32" where
  "tbl m pt i = ld32 m (pt + 4 * of_nat i)"

lemma ld32_cong: "(\<And>k. k < 4 \<Longrightarrow> m (a + of_nat k) = m' (a + of_nat k)) \<Longrightarrow> ld32 m a = ld32 m' a"
proof -
  assume h: "\<And>k. k < 4 \<Longrightarrow> m (a + of_nat k) = m' (a + of_nat k)"
  show "ld32 m a = ld32 m' a" using h [of 0] h [of 1] h [of 2] h [of 3] by (simp add: ld32_def)
qed

lemma st32_other: "(\<And>k. k < 4 \<Longrightarrow> b \<noteq> a + of_nat k) \<Longrightarrow> st32 m a w b = m b"
proof -
  assume h: "\<And>k. k < 4 \<Longrightarrow> b \<noteq> a + of_nat k"
  show "st32 m a w b = m b" using h [of 0] h [of 1] h [of 2] h [of 3] by (simp add: st32_def)
qed

lemma unat_slot: "i < 4096 \<Longrightarrow> k < 4 \<Longrightarrow> unat (of_nat (4 * i + k) :: u32) = 4 * i + k"
  by (rule unat_of_nat_u32) simp

lemma slot_inj:
  assumes "i < 4096" "j < 4096" "k < 4" "l < 4" "pt + 4 * of_nat i + of_nat k = (pt + 4 * of_nat j + of_nat l :: u32)"
  shows "i = j"
proof -
  have "(of_nat (4 * i + k) :: u32) = of_nat (4 * j + l)" using assms(5) by (simp add: add.assoc)
  then have "unat (of_nat (4 * i + k) :: u32) = unat (of_nat (4 * j + l) :: u32)" by simp
  then have "4 * i + k = 4 * j + l" using assms(1-4) by (simp only: unat_slot)
  then show ?thesis using assms(3,4) by linarith
qed

lemma tbl_st32:
  assumes "i < 4096" "j < 4096"
  shows "tbl (st32 m (pt + 4 * of_nat j) w) pt i = (if i = j then w else tbl m pt i)"
proof (cases "i = j")
  case False
  then show ?thesis unfolding tbl_def using slot_inj [OF assms, of _ _ pt] by (auto intro!: ld32_cong st32_other)
qed (simp add: tbl_def)

lemma tbl_fill: "i < 4096 \<Longrightarrow> tbl (mem_fill m pt 0 16384) pt i = 0"
proof -
  assume i: "i < 4096"
  have "mem_fill m pt 0 16384 (pt + 4 * of_nat i + of_nat k) = 0" if "k < 4" for k
  proof -
    have "unat (of_nat (4 * i + k) :: u32) < 16384" using i that by (simp only: unat_slot)
    then show ?thesis by (simp add: mem_fill_def add.assoc)
  qed
  then have "tbl (mem_fill m pt 0 16384) pt i = ld32 (\<lambda>_. 0) (pt + 4 * of_nat i)"
    unfolding tbl_def by (auto intro!: ld32_cong)
  then show ?thesis by (simp add: ld32_def le32_def)
qed

text \<open>A word outside the table.\<close>

lemma tbl_outside:
  assumes "i < 4096" "16384 \<le> unat (x - pt)" "unat (x - pt) + 4 \<le> 2 ^ 32"
  shows "tbl (st32 m x w) pt i = tbl m pt i"
proof -
  have "pt + 4 * of_nat i + of_nat k \<noteq> x + of_nat l" if "k < 4" "l < 4" for k l
  proof
    assume "pt + 4 * of_nat i + of_nat k = x + of_nat l"
    then have "of_nat (4 * i + k) = x - pt + of_nat l" by (simp add: algebra_simps)
    then have "unat (of_nat (4 * i + k) :: u32) = unat (x - pt + of_nat l)" by simp
    moreover have "unat (of_nat l :: u32) = l" using that by (simp add: unat_of_nat_u32)
    then have "unat (x - pt + of_nat l) = unat (x - pt) + l" using assms(3) that by (subst unat_add_u32) auto
    moreover have "unat (of_nat (4 * i + k) :: u32) = 4 * i + k" using assms(1) that by (simp only: unat_slot)
    ultimately show False using assms(1,2) that by linarith
  qed
  then show ?thesis unfolding tbl_def by (auto intro!: ld32_cong st32_other)
qed

section \<open>Sections translate to themselves\<close>

lemma fld_pos [simp]:
  "field_pos fld_t 0 ''tag'' = (0, 2)" "field_pos fld_t 0 ''domain'' = (5, 4)" "field_pos fld_t 0 ''AP'' = (10, 2)"
  "field_pos fld_t 0 ''sec_base_addr'' = (20, 12)"
  by (simp_all add: fld_t_def)

lemma fld_field_in: "field_in fld_t f"
  by (rule field_in_layout) (simp add: fld_t_def)

lemma get_field_other:
  assumes "fst (field_pos T 0 f) + snd (field_pos T 0 f) \<le> fst (field_pos T 0 g)
    \<or> fst (field_pos T 0 g) + snd (field_pos T 0 g) \<le> fst (field_pos T 0 f)"
  shows "get_field T f (set_field T g v u) = get_field T f u"
  using assms by (auto intro!: bit_word_eqI simp: bit_get_field bit_set_field)

lemma get_field_0 [simp]: "get_field T f 0 = 0"
  by (simp add: get_field_def split: prod.split)

lemma section_desc_fields:
  "get_field fld_t ''tag'' (section_desc pa) = 2" "get_field fld_t ''domain'' (section_desc pa) = 0"
  "get_field fld_t ''AP'' (section_desc pa) = AP_rw" "get_field fld_t ''sec_base_addr'' (section_desc pa) = drop_bit 20 pa"
proof -
  have "take_bit 12 (drop_bit 20 pa) = drop_bit 20 pa"
    by (rule bit_word_eqI) (auto simp: bit_simps dest: bit_imp_le_length)
  then show "get_field fld_t ''sec_base_addr'' (section_desc pa) = drop_bit 20 pa"
    by (simp add: section_desc_def get_set_field fld_field_in)
qed (simp_all add: section_desc_def get_set_field fld_field_in get_field_other AP_rw_def take_bit_eq_mod)

lemma entry_tbl: "ld32 m (pt + 4 * drop_bit 20 va) = tbl m pt (unat (drop_bit 20 va :: u32))"
  by (simp add: tbl_def)

lemma translate_section:
  assumes "vm_on s" "dacr (cp15 s) = - 1" "tbl (vmem s) (ttbr0 (cp15 s)) (unat (drop_bit 20 va)) = section_desc pa"
    "drop_bit 20 pa = drop_bit 20 va"
  shows "translate s va = Some va"
proof -
  have "push_bit 20 (drop_bit 20 va) OR (va AND mask 20) = va"
    by (rule bit_word_eqI) (auto simp: bit_simps)
  moreover have "mask 32 AND 3 = (3 :: u32)" by (simp add: mask_eq_exp_minus_1)
  ultimately show ?thesis
    using assms by (simp add: translate_def Let_def entry_tbl section_desc_fields AP_rw_def)
qed

lemma translate_unmapped:
  "vm_on s \<Longrightarrow> tbl (vmem s) (ttbr0 (cp15 s)) (unat (drop_bit 20 va)) = 0 \<Longrightarrow> translate s va = None"
  by (simp add: translate_def Let_def entry_tbl)

lemma sec_num_less: "unat (drop_bit 20 (va :: u32)) < 4096"
  using unat_lt_2p32 [of va] by (simp add: unat_drop_bit)

lemma tbl_map:
  "i < 4096 \<Longrightarrow> tbl (st32 m (pt + 4 * drop_bit 20 va) w) pt i = (if i = unat (drop_bit 20 va :: u32) then w else tbl m pt i)"
  using tbl_st32 [OF _ sec_num_less, of i m pt va w] by simp

text \<open>The sections \<open>vm_test\<close> maps.\<close>

definition test_sections :: "u32 list" where
  "test_sections = [0, 0x100000, STACK_ADDR - OneMB, 0x20000000, 0x20100000, 0x20200000]"

definition map_all :: "ram \<Rightarrow> u32 list \<Rightarrow> ram" where
  "map_all m vas = foldl (\<lambda>m va. st32 m (0x100000 + 4 * drop_bit 20 va) (section_desc va)) (mem_fill m 0x100000 0 16384) vas"

lemma map_all_snoc: "map_all m (vas @ [va]) = st32 (map_all m vas) (0x100000 + 4 * drop_bit 20 va) (section_desc va)"
  by (simp add: map_all_def)

lemma map_all_entry:
  assumes "i < 4096"
  shows "(\<forall>va \<in> set vas. unat (drop_bit 20 va) \<noteq> i) \<Longrightarrow> tbl (map_all m vas) 0x100000 i = 0"
    and "va \<in> set vas \<Longrightarrow> i = unat (drop_bit 20 va) \<Longrightarrow>
      \<exists>pa. tbl (map_all m vas) 0x100000 i = section_desc pa \<and> drop_bit 20 pa = drop_bit 20 va"
proof (induction vas rule: rev_induct)
  case Nil
  { case 1 show ?case using tbl_fill [OF assms] by (simp add: map_all_def) }
  { case 2 then show ?case by simp }
next
  case (snoc v vas)
  { case 1 then show ?case using snoc by (simp add: map_all_snoc tbl_map [OF assms]) }
  { case 2
    show ?case
    proof (cases "i = unat (drop_bit 20 v)")
      case True
      then have "drop_bit 20 v = drop_bit 20 va" using 2 by (simp add: word_unat_eq_iff)
      moreover have "tbl (map_all m (vas @ [v])) 0x100000 i = section_desc v"
        unfolding map_all_snoc tbl_map [OF assms] using True by simp
      ultimately show ?thesis by blast
    next
      case False
      then have "tbl (map_all m (vas @ [v])) 0x100000 i = tbl (map_all m vas) 0x100000 i"
        unfolding map_all_snoc tbl_map [OF assms] by simp
      then show ?thesis using snoc(2) 2 False by auto
    qed }
qed

lemma vm_setup_ok:
  assumes "vm_asm_ok A" "\<not> vm_on s"
  shows "\<exists>c s1. vm_setup A s = Inr (c, s1) \<and> vm_on s1 \<and> ctrl (cp15 s1) = c \<and> dacr (cp15 s1) = - 1
    \<and> ttbr0 (cp15 s1) = 0x100000 \<and> vmem s1 = map_all (vmem s) test_sections"
proof -
  let ?c = "set_field control_reg1 ''XP_pt'' 1 (ctrl (cp15 s))"
  have "get_field control_reg1 ''MMU_enabled'' ?c = 0" using assms(2) by (simp add: vm_on_def)
  then show ?thesis
    using assms(1) by (simp add: vm_setup_def vm_asm_ok_def Let_def vm_on_def map_all_def test_sections_def)
qed

text \<open>The whole run, for a local variable in the mapped part of the stack.\<close>

lemma vm_test_ok:
  assumes "vm_asm_ok A" "\<not> vm_on s" "drop_bit 20 x = drop_bit 20 (STACK_ADDR - OneMB)" "x AND 3 = 0"
  shows "\<exists>s'. vm_test A x s = Inr s' \<and> \<not> vm_on s' \<and> ld32 (vmem s') x = 6"
proof -
  obtain c s1 where s1: "vm_setup A s = Inr (c, s1)" "vm_on s1" "ctrl (cp15 s1) = c" "dacr (cp15 s1) = - 1"
    "ttbr0 (cp15 s1) = 0x100000" "vmem s1 = map_all (vmem s) test_sections"
    using vm_setup_ok [OF assms(1,2)] by blast
  have n: "unat (drop_bit 20 x) = 127" using assms(3) by (simp add: STACK_ADDR_def OneMB_def)
  have sec: "STACK_ADDR - OneMB \<in> set test_sections" by (simp add: test_sections_def)
  obtain pa where pa: "tbl (vmem s1) 0x100000 127 = section_desc pa" "drop_bit 20 pa = drop_bit 20 x"
    using map_all_entry(2) [OF _ sec, of 127 "vmem s"] assms(3) n s1(6) by auto
  have far: "16384 \<le> unat (x - 0x100000)" "unat (x - 0x100000) + 4 \<le> 2 ^ 32"
  proof -
    have q: "unat x div 1048576 = 127" using n by (simp add: unat_drop_bit)
    have "unat x div 1048576 * 1048576 + unat x mod 1048576 = unat x" "unat x mod 1048576 < 1048576" by simp_all
    then have b: "127 * 1048576 \<le> unat x" "unat x < 128 * 1048576" unfolding q by linarith+
    then have u: "unat (x - 0x100000) = unat x - 0x100000" by (subst unat_sub_u32) (simp_all add: word_le_nat_alt)
    show "16384 \<le> unat (x - 0x100000)" "unat (x - 0x100000) + 4 \<le> 2 ^ 32"
      unfolding u using b by simp_all
  qed
  have tr: "translate (s1\<lparr>vmem := m\<rparr>) x = Some x" if "tbl m 0x100000 127 = section_desc pa" for m
    using translate_section [of "s1\<lparr>vmem := m\<rparr>" x pa] s1(2,4,5) that n pa(2) by (simp add: vm_on_def)
  let ?m1 = "st32 (vmem s1) x 5" and ?m2 = "st32 (st32 (vmem s1) x 5) x 6"
  have t: "tbl ?m1 0x100000 127 = section_desc pa" "tbl ?m2 0x100000 127 = section_desc pa"
    using pa(1) tbl_outside [OF _ far, of 127] by simp_all
  have "translate s1 x = Some x" using tr [OF pa(1)] by simp
  moreover note tr [OF t(1)] tr [OF t(2)]
  moreover have "our_mmu_disable A c' s' = s'\<lparr>cp15 := (cp15 s')\<lparr>ctrl := c'\<rparr>\<rparr>" for c' s'
    using assms(1) by (simp add: vm_asm_ok_def)
  ultimately show ?thesis
    using s1(1) by (simp add: vm_test_def vm_put32_def vm_get32_def Let_def vm_on_def)
qed

section \<open>Properties\<close>

text \<open>
  (C40) The start-up check of the lab accepts a layout exactly when every field it names is at its
  documented position with its documented width; the struct of the starter code, which leaves the
  widths out, never passes: the check stops at its size, so \<open>notmain\<close> never gets to the test.
\<close>

theorem fld_check_exact:
  assumes "sum_list (map snd T) \<le> 32"
  shows "(check_fields T fld_bits14 = Inr () \<longleftrightarrow> (\<forall>(f, off, n) \<in> set fld_bits14. field_pos T 0 f = (off, n)))
    \<and> notmain14 A x s = Inl (AssertFail ''sizeof f == 4'')"
proof
  show "check_fields T fld_bits14 = Inr () \<longleftrightarrow> (\<forall>(f, off, n) \<in> set fld_bits14. field_pos T 0 f = (off, n))"
    by (rule check_fields_exact) (auto simp: fld_bits14_def intro: field_in_layout [OF assms])
  show "notmain14 A x s = Inl (AssertFail ''sizeof f == 4'')"
    by (simp add: notmain14_def check_vm_structs14_def control_reg1_check_offsets14_def tlb_config_check_offsets14_def
        control_reg1_offsets_ok tlb_config_offsets_ok fld_check_offsets14_def fld_check_valid14_def fld_mk14_def
        fld14_layout_def sizeof_layout_def)
qed

text \<open>The layout the comments of the struct describe, which the later lab writes out, passes.\<close>

theorem fld_check_exact_witness: "check_fields fld_t fld_bits14 = Inr ()"
proof -
  have "sum_list (map snd fld_t) \<le> 32" by (simp add: fld_t_def)
  from conjunct1 [OF fld_check_exact [OF this]] show ?thesis by (simp add: fld_bits14_def fld_t_def)
qed

text \<open>
  The test of the lab, with the routines it gets as object files doing what they are documented
  to do: it sets the MMU up so that exactly the six sections it maps translate, each to itself, and
  any other address is a data abort; and with its variable on the mapped part of the stack it runs
  to the end, the variable is 6 and the MMU is off again.
\<close>

theorem vm_test_identity_map:
  assumes "vm_asm_ok A" "\<not> vm_on s"
  shows "\<exists>c s1. vm_setup A s = Inr (c, s1)
    \<and> (\<forall>va. translate s1 va
        = (if \<exists>sec \<in> set test_sections. drop_bit 20 sec = drop_bit 20 va then Some va else None))
    \<and> (\<forall>x. drop_bit 20 x = drop_bit 20 (STACK_ADDR - OneMB) \<and> x AND 3 = 0
        \<longrightarrow> (\<exists>s'. vm_test A x s = Inr s' \<and> \<not> vm_on s' \<and> ld32 (vmem s') x = 6))"
proof -
  obtain c s1 where s1: "vm_setup A s = Inr (c, s1)" "vm_on s1" "dacr (cp15 s1) = - 1"
    "ttbr0 (cp15 s1) = 0x100000" "vmem s1 = map_all (vmem s) test_sections"
    using vm_setup_ok [OF assms] by blast
  have "translate s1 va = (if \<exists>sec \<in> set test_sections. drop_bit 20 sec = drop_bit 20 va then Some va else None)" for va
  proof (cases "\<exists>sec \<in> set test_sections. drop_bit 20 sec = drop_bit 20 va")
    case True
    then obtain sec where sec: "sec \<in> set test_sections" "drop_bit 20 sec = drop_bit 20 va" by blast
    then obtain pa where "tbl (vmem s1) 0x100000 (unat (drop_bit 20 va)) = section_desc pa" "drop_bit 20 pa = drop_bit 20 va"
      using map_all_entry(2) [OF sec_num_less [of va] sec(1)] s1(5) by auto
    then show ?thesis using True translate_section [OF s1(2,3)] s1(4) by simp
  next
    case False
    then have "\<forall>sec \<in> set test_sections. unat (drop_bit 20 sec) \<noteq> unat (drop_bit 20 va)"
      by (auto simp: word_unat_eq_iff)
    then have "tbl (vmem s1) 0x100000 (unat (drop_bit 20 va)) = 0"
      using map_all_entry(1) [OF sec_num_less [of va]] s1(5) by simp
    then show ?thesis using False translate_unmapped [OF s1(2)] s1(4) by simp
  qed
  then show ?thesis using s1(1) vm_test_ok [OF assms] by blast
qed

definition our_vm :: vm_asm where
  "our_vm =
     \<lparr>our_mmu_init = \<lambda>base s. (base, s\<lparr>vmem := mem_fill (vmem s) base 0 16384\<rparr>),
      our_mmu_map_section = \<lambda>pt va pa s. s\<lparr>vmem := st32 (vmem s) (pt + 4 * drop_bit 20 va) (section_desc pa)\<rparr>,
      our_mmu_mark_sec_ap_perm = \<lambda>pt va nsec perm s. s,
      ctrl_reg1_wr14 = \<lambda>c s. s\<lparr>cp15 := (cp15 s)\<lparr>ctrl := c\<rparr>\<rparr>,
      our_write_domain_access_ctrl = \<lambda>d s. s\<lparr>cp15 := (cp15 s)\<lparr>dacr := d\<rparr>\<rparr>,
      our_set_procid_ttbr0 = \<lambda>p pt s. s\<lparr>cp15 := (cp15 s)\<lparr>procid := p, ttbr0 := pt\<rparr>\<rparr>,
      our_mmu_enable = \<lambda>c s. s\<lparr>cp15 := (cp15 s)\<lparr>ctrl := c\<rparr>\<rparr>,
      our_mmu_disable = \<lambda>c s. s\<lparr>cp15 := (cp15 s)\<lparr>ctrl := c\<rparr>\<rparr>\<rparr>"

theorem vm_test_identity_map_witness:
  "\<exists>c s1. vm_setup our_vm \<lparr>cp15 = boot_cp15, vmem = \<lambda>_. 0xFF\<rparr> = Inr (c, s1)
    \<and> translate s1 0x20215040 = Some 0x20215040 \<and> translate s1 (STACK_ADDR - OneMB - 16) = None
    \<and> (\<exists>s'. vm_test our_vm 0x7FFFFF8 \<lparr>cp15 = boot_cp15, vmem = \<lambda>_. 0xFF\<rparr> = Inr s' \<and> \<not> vm_on s'
        \<and> ld32 (vmem s') 0x7FFFFF8 = 6)"
proof -
  have "vm_asm_ok our_vm" by (simp add: vm_asm_ok_def our_vm_def)
  moreover have "\<not> vm_on \<lparr>cp15 = boot_cp15, vmem = \<lambda>_. 0xFF\<rparr>"
    by (simp add: vm_on_def boot_cp15_def get_field_def take_bit_eq_mod)
  moreover have "drop_bit 20 (0x7FFFFF8 :: u32) = drop_bit 20 (STACK_ADDR - OneMB) \<and> (0x7FFFFF8 :: u32) AND 3 = 0"
    by (simp add: STACK_ADDR_def OneMB_def)
  moreover have "\<exists>sec \<in> set test_sections. drop_bit 20 sec = drop_bit 20 (0x20215040 :: u32)"
    "\<not> (\<exists>sec \<in> set test_sections. drop_bit 20 sec = drop_bit 20 (STACK_ADDR - OneMB - 16 :: u32))"
    by (simp_all add: test_sections_def STACK_ADDR_def OneMB_def)
  ultimately show ?thesis
    using vm_test_identity_map [of our_vm "\<lparr>cp15 = boot_cp15, vmem = \<lambda>_. 0xFF\<rparr>"] by auto
qed

end
