(* ===== verification/Hello_Fs.thy ===== *)
theory Hello_Fs
  imports Prelude
begin

text \<open>
  The file system of \<^verbatim>\<open>labs/11-fuse/0-hello/hello.c\<close>: one read-only file. FUSE calls its four routines;
  the kernel, which decides on offsets and sizes, is any sequence of such calls. Paths are their
  bytes without the terminator, \<open>size_t\<close> is a 64-bit word and a negative \<open>off_t\<close> its two's complement.
\<close>

section \<open>The operations\<close>

type_synonym u64 = "64 word"

definition ENOENT :: int where "ENOENT = 2"
definition EACCES :: int where "EACCES = 13"
definition O_RDONLY :: u32 where "O_RDONLY = 0"
definition S_IFDIR :: u32 where "S_IFDIR = 0x4000"
definition S_IFREG :: u32 where "S_IFREG = 0x8000"

definition hello_str :: bytes where
  "hello_str = bstr ''Hello World!'' @ [10]"

definition hello_path :: bytes where
  "hello_path = bstr ''/hello''"

record stat_t =
  st_mode :: u32
  st_nlink :: u32
  st_size :: nat

definition hello_open :: "bytes \<Rightarrow> u32 \<Rightarrow> int" where
  "hello_open path flags =
     (if path \<noteq> hello_path then - ENOENT
      else if flags AND 3 \<noteq> O_RDONLY then - EACCES
      else 0)"

text \<open>The entries \<open>filler\<close> is called with, in order.\<close>

definition hello_readdir :: "bytes \<Rightarrow> int \<times> bytes list" where
  "hello_readdir path =
     (if path \<noteq> bstr ''/'' then (- ENOENT, [])
      else (0, [bstr ''.'', bstr ''..'', drop 1 hello_path]))"

definition hello_getattr :: "bytes \<Rightarrow> int \<times> stat_t" where
  "hello_getattr path =
     (let stbuf = \<lparr>st_mode = 0, st_nlink = 0, st_size = 0\<rparr> in
      if path = bstr ''/'' then (0, stbuf\<lparr>st_mode := S_IFDIR OR 0x1ED, st_nlink := 2\<rparr>)
      else if path = hello_path
      then (0, stbuf\<lparr>st_mode := S_IFREG OR 0x124, st_nlink := 1, st_size := length hello_str\<rparr>)
      else (- ENOENT, stbuf))"

text \<open>
  The comparison of the offset with \<open>len\<close> is unsigned. The copy faults outside \<open>buf\<close>; the result
  is the return value and the buffer.
\<close>

definition hello_read :: "bytes \<Rightarrow> bytes \<Rightarrow> u64 \<Rightarrow> u64 \<Rightarrow> (int \<times> bytes) result" where
  "hello_read path buf sz offset =
     (let len = word_of_nat (length hello_str) :: u64 in
      if path \<noteq> hello_path then Inr (- ENOENT, buf)
      else if len < offset then Inr (0, buf)
      else (let n = (if sz < len - offset then sz else len - offset) in
            if length buf < unat n then Inl Bounds
            else Inr (int (unat n), take (unat n) (drop (unat offset) hello_str) @ drop (unat n) buf)))"

section \<open>Reading the file\<close>

lemma length_hello_str [simp]: "length hello_str = 13"
  by (simp add: hello_str_def bstr_def)

lemma unat_of_nat_u64: "n < 2 ^ 64 \<Longrightarrow> unat (of_nat n :: u64) = n"
  by (simp add: unat_of_nat)

text \<open>The bytes a read at an offset delivers: the part of the file that is there.\<close>

definition read_slice :: "nat \<Rightarrow> nat \<Rightarrow> bytes" where
  "read_slice n off = take n (drop off hello_str)"

lemma hello_read_slice:
  assumes "length buf = unat sz"
  shows "hello_read hello_path buf sz offset
    = Inr (int (length (read_slice (unat sz) (unat offset))),
        read_slice (unat sz) (unat offset) @ drop (length (read_slice (unat sz) (unat offset))) buf)"
proof (cases "(13 :: u64) < offset")
  case True
  then have "13 < unat offset" by (simp add: word_less_nat_alt)
  then show ?thesis using True by (simp add: hello_read_def read_slice_def)
next
  case False
  then have o: "unat offset \<le> 13" by (simp add: word_less_nat_alt not_less)
  then have "unat (13 - offset) = 13 - unat offset" by (subst unat_sub) (simp_all add: word_le_nat_alt)
  then have n: "unat (if sz < 13 - offset then sz else 13 - offset) = min (unat sz) (13 - unat offset)"
    by (auto simp: word_less_nat_alt)
  have "take (min (unat sz) (13 - unat offset)) (drop (unat offset) hello_str) = take (unat sz) (drop (unat offset) hello_str)"
    by (simp add: min_def)
  then show ?thesis using False assms n o
    by (simp add: hello_read_def read_slice_def Let_def min.commute [of "13 - unat offset"])
qed

text \<open>
  A reader that keeps asking for the next bytes: each call is made at the offset reached so far,
  with a buffer of the size it asks for, and the reader keeps the bytes it is told it got.
\<close>

fun read_chunks :: "nat \<Rightarrow> nat list \<Rightarrow> bytes result" where
  "read_chunks off [] = Inr []"
| "read_chunks off (n # ns) =
     rbind (hello_read hello_path (replicate n 0) (of_nat n) (of_nat off)) (\<lambda>(got, buf).
     rbind (read_chunks (off + nat got) ns) (\<lambda>rest. Inr (take (nat got) buf @ rest)))"

lemma read_chunks_ok:
  "off \<le> 13 \<Longrightarrow> \<forall>n \<in> set ns. n < 2 ^ 63 \<Longrightarrow> read_chunks off ns = Inr (take (sum_list ns) (drop off hello_str))"
proof (induction ns arbitrary: off)
  case (Cons n ns)
  let ?got = "read_slice n off"
  have u: "unat (of_nat n :: u64) = n" "unat (of_nat off :: u64) = off"
    using Cons.prems by (simp_all add: unat_of_nat_u64)
  have l: "length ?got = min n (13 - off)" by (simp add: read_slice_def)
  have "read_chunks (off + length ?got) ns = Inr (take (sum_list ns) (drop (off + length ?got) hello_str))"
    using Cons.prems l by (intro Cons.IH) simp_all
  moreover have "?got @ take (sum_list ns) (drop (off + length ?got) hello_str) = take (n + sum_list ns) (drop off hello_str)"
    by (cases "n \<le> 13 - off") (simp_all add: read_slice_def l take_add add.commute)
  ultimately show ?case using hello_read_slice [of "replicate n 0" "of_nat n" "of_nat off"] u by simp
qed simp

section \<open>Properties\<close>

text \<open>
  The file system is consistent: the one name it lists besides the dots is a regular file that
  opens for reading only, and reading it on from the start, whatever sizes are asked for, delivers
  its contents in order and never more than the size \<open>getattr\<close> reports, nor writes outside the
  buffer; a read at a negative or too large offset delivers nothing.
\<close>

theorem hello_fs_reads_whole:
  assumes "\<forall>n \<in> set ns. n < 2 ^ 63"
  shows "read_chunks 0 ns = Inr (take (sum_list ns) hello_str)
    \<and> length hello_str = st_size (snd (hello_getattr (bstr ''/'' @ last (snd (hello_readdir (bstr ''/''))))))
    \<and> (\<forall>flags. hello_open (bstr ''/'' @ last (snd (hello_readdir (bstr ''/'')))) flags = 0 \<longleftrightarrow> flags AND 3 = O_RDONLY)
    \<and> (\<forall>buf sz offset. length buf = unat sz \<and> length hello_str < unat offset
        \<longrightarrow> hello_read hello_path buf sz offset = Inr (0, buf))"
proof -
  have p: "bstr ''/'' @ last (snd (hello_readdir (bstr ''/''))) = hello_path" "hello_path \<noteq> bstr ''/''"
    by (simp_all add: hello_readdir_def hello_path_def bstr_def)
  have "hello_read hello_path buf sz offset = Inr (0, buf)" if "length buf = unat sz" "length hello_str < unat offset"
    for buf sz offset using hello_read_slice [OF that(1), of offset] that(2) by (simp add: read_slice_def)
  then show ?thesis
    using read_chunks_ok [of 0 ns] assms
    by (simp add: p hello_getattr_def hello_open_def Let_def ENOENT_def EACCES_def)
qed

theorem hello_fs_reads_whole_witness:
  "read_chunks 0 [5, 1, 100, 3] = Inr hello_str \<and> hello_read hello_path [7, 7] 2 (- 1) = Inr (0, [7, 7])"
proof -
  have "\<forall>n \<in> set [5, 1, 100, 3]. n < (2 :: nat) ^ 63" by simp
  note r = hello_fs_reads_whole [OF this]
  have "length hello_str < unat (- 1 :: u64)" by (simp add: unsigned_minus_1_eq_mask mask_eq_exp_minus_1)
  moreover have "length [7 :: u8, 7] = unat (2 :: u64)" by simp
  ultimately have "hello_read hello_path [7, 7] 2 (- 1) = Inr (0, [7, 7])" using r by blast
  then show ?thesis using conjunct1 [OF r] by (simp del: read_chunks.simps)
qed

end
