(* ===== verification/Esp_Cat.thy ===== *)
theory Esp_Cat
  imports Unix_Io
begin

text \<open>
  The program of \<^verbatim>\<open>labs/9-esp8266/esp-cat\<close>: it sends a file or what the user types to the esp, a line
  at a time, and shows what the esp answers. Its two descriptors are those of \<open>Unix_Io\<close>; a limit of
  time is a spell of silence of the descriptor.
\<close>

section \<open>The routines\<close>

text \<open>The copy of \<open>read_timeout\<close>: \<open>n\<close> is unsigned, so the error -1 comes back as the result \<open>None\<close>.\<close>

definition cat_read_timeout :: "nat \<Rightarrow> fd_t \<Rightarrow> bytes option \<times> fd_t" where
  "cat_read_timeout n f =
     (case can_read_timeout f of (ok, f1) \<Rightarrow> if \<not> ok then (Some [], f1) else os_read n f1)"

type_synonym cat_t = "fd_t \<times> bytes"

text \<open>
  The esp and what has been shown so far. The text of the buffer ends at its first 0. The store
  \<open>buf[n] = 0\<close> is outside \<open>buf\<close> when the read fills it (\<open>n = sizeof buf\<close>) or fails (\<open>n = -1\<close>).
\<close>

definition read_esp :: "cat_t \<Rightarrow> (bool \<times> cat_t) result" where
  "read_esp s =
     (let (f, out) = s in
      case cat_read_timeout 8192 f of
        (None, f1) \<Rightarrow> Inl Bounds
      | (Some b, f1) \<Rightarrow>
          if b = [] then Inr (False, f1, out)
          else if length b = 8192 then Inl Bounds
          else Inr (True, f1, out @ takeWhile (\<lambda>c. c \<noteq> 0) b))"

text \<open>\<open>while(read_esp(...));\<close>, with the arrivals of the descriptor as fuel.\<close>

definition drain_esp :: "cat_t \<Rightarrow> cat_t result" where
  "drain_esp s = c_while (Suc (length (rd (fst s)))) read_esp Inr s"

definition read_user :: "fd_t \<Rightarrow> cat_t \<Rightarrow> (bool \<times> fd_t \<times> cat_t) result" where
  "read_user input s =
     (let (f, out) = s in
      case cat_read_timeout 8192 input of
        (None, input1) \<Rightarrow> Inl Bounds
      | (Some b, input1) \<Rightarrow>
          if b = [] then Inr (False, input1, s)
          else rbind (c_assert (last b = 10) ''buf[n-1] == newline'') (\<lambda>_.
            if 8192 \<le> length b + 1 then Inl Bounds
            else (let line = butlast b @ [13, 10] in
              case os_write line f of
                (w, f1) \<Rightarrow>
                  if w \<noteq> Some (length line) then sys_die ''failed?''
                  else rbind (drain_esp (f1, out)) (\<lambda>s1. Inr (True, input1, s1)))))"

definition cat_put_byte :: "u8 \<Rightarrow> fd_t \<Rightarrow> fd_t result" where
  "cat_put_byte b f =
     (case os_write [b] f of (w, f1) \<Rightarrow> if w \<noteq> Some 1 then Inl (Panic ''what is going on?'') else Inr f1)"

fun run_file :: "bytes \<Rightarrow> cat_t \<Rightarrow> cat_t result" where
  "run_file [] s = Inl Bounds"
| "run_file (c # p) s =
     (let (f, out) = s in
      if c = 0 then Inr s
      else if c \<noteq> 10 then rbind (cat_put_byte c f) (\<lambda>f1. run_file p (f1, out))
      else rbind (cat_put_byte 13 f) (\<lambda>f1. rbind (cat_put_byte 10 f1) (\<lambda>f2.
        rbind (drain_esp (f2, out)) (run_file p))))"

text \<open>The endless loop of \<open>main\<close>, for a number of rounds.\<close>

fun cat_rounds :: "nat \<Rightarrow> fd_t \<Rightarrow> cat_t \<Rightarrow> (fd_t \<times> cat_t) result" where
  "cat_rounds 0 input s = Inr (input, s)"
| "cat_rounds (Suc k) input s =
     rbind (read_esp s) (\<lambda>(_, s1).
     rbind (read_user input s1) (\<lambda>(_, input1, s2). cat_rounds k input1 s2))"

definition cat_main :: "bytes option \<Rightarrow> nat \<Rightarrow> fd_t \<Rightarrow> fd_t \<Rightarrow> (fd_t \<times> cat_t) result" where
  "cat_main script k input esp =
     (case script of
        None \<Rightarrow> cat_rounds k input (esp, [])
      | Some p \<Rightarrow> rbind (run_file (p @ [0]) (esp, [])) (cat_rounds k input))"

section \<open>What is sent and shown\<close>

text \<open>Arrivals the program copes with: data that does not fill its buffer, and silence.\<close>

definition esp_ev_ok :: "rd_ev \<Rightarrow> bool" where
  "esp_ev_ok e = (case e of Data b \<Rightarrow> b \<noteq> [] \<and> length b < 8192 | Idle \<Rightarrow> True | Fail \<Rightarrow> False)"

definition answered :: "rd_ev list \<Rightarrow> bytes" where
  "answered es = concat (map (\<lambda>e. case e of Data b \<Rightarrow> takeWhile (\<lambda>c. c \<noteq> 0) b | _ \<Rightarrow> []) es)"

lemma shown_simps [simp]:
  "answered [] = []" "answered (Data b # es) = takeWhile (\<lambda>c. c \<noteq> 0) b @ answered es" "answered (Idle # es) = answered es"
  "answered (es @ es') = answered es @ answered es'"
  by (simp_all add: answered_def)

lemma read_esp_ev:
  "read_esp (f\<lparr>rd := []\<rparr>, out) = Inr (False, f\<lparr>rd := []\<rparr>, out)"
  "read_esp (f\<lparr>rd := Idle # r\<rparr>, out) = Inr (False, f\<lparr>rd := r\<rparr>, out)"
  "esp_ev_ok (Data b) \<Longrightarrow> read_esp (f\<lparr>rd := Data b # r\<rparr>, out)
    = Inr (True, f\<lparr>rd := r\<rparr>, out @ takeWhile (\<lambda>c. c \<noteq> 0) b)"
  by (auto simp: read_esp_def cat_read_timeout_def can_read_timeout_def os_read_def esp_ev_ok_def)

lemma c_while_read_esp:
  "\<forall>e \<in> set evs. esp_ev_ok e \<Longrightarrow> length evs < k \<Longrightarrow>
    \<exists>es r. c_while k read_esp Inr (f\<lparr>rd := evs\<rparr>, out) = Inr (f\<lparr>rd := r\<rparr>, out @ answered es) \<and> evs = es @ r
      \<and> count_list es Idle \<le> 1"
proof (induction evs arbitrary: k out)
  case Nil
  then obtain j where "k = Suc j" by (cases k) auto
  then show ?case by (simp add: read_esp_ev)
next
  case (Cons e evs)
  then obtain j where k: "k = Suc j" "length evs < j" by (cases k) auto
  show ?case
  proof (cases e)
    case (Data b)
    then have b: "esp_ev_ok (Data b)" using Cons.prems(1) by simp
    obtain es r where "c_while j read_esp Inr (f\<lparr>rd := evs\<rparr>, out @ takeWhile (\<lambda>c. c \<noteq> 0) b)
        = Inr (f\<lparr>rd := r\<rparr>, (out @ takeWhile (\<lambda>c. c \<noteq> 0) b) @ answered es)" "evs = es @ r" "count_list es Idle \<le> 1"
      using Cons.IH [OF _ k(2)] Cons.prems(1) by (metis list.set_intros(2))
    then show ?thesis using k(1) read_esp_ev(3) [OF b] Data
      by (intro exI [where x = "Data b # es"] exI [where x = r]) simp
  next
    case Idle
    then show ?thesis using k(1)
      by (intro exI [where x = "[Idle]"] exI [where x = evs]) (simp add: read_esp_ev)
  next
    case Fail
    then show ?thesis using Cons.prems(1) by (simp add: esp_ev_ok_def)
  qed
qed

lemma drain_esp_ok:
  assumes "\<forall>e \<in> set (rd f). esp_ev_ok e"
  shows "\<exists>es r. drain_esp (f, out) = Inr (f\<lparr>rd := r\<rparr>, out @ answered es) \<and> rd f = es @ r \<and> count_list es Idle \<le> 1"
  using c_while_read_esp [OF assms, of "Suc (length (rd f))" f out] by (simp add: drain_esp_def del: c_while.simps)

text \<open>What goes to the esp for a text: every newline becomes a carriage return and a newline.\<close>

definition crlf :: "bytes \<Rightarrow> bytes" where
  "crlf t = concat (map (\<lambda>c. if c = 10 then [13, 10] else [c]) t)"

lemma crlf_simps [simp]: "crlf [] = []" "crlf (c # t) = (if c = 10 then [13, 10] else [c]) @ crlf t"
  by (simp_all add: crlf_def)

lemma cat_put_byte_ok: "wr_lim f = [] \<Longrightarrow> cat_put_byte b f = Inr (f\<lparr>wr := wr f @ [b]\<rparr>)"
  by (simp add: cat_put_byte_def os_write_def)

lemma run_file_ok:
  "0 \<notin> set t \<Longrightarrow> wr_lim f = [] \<Longrightarrow> \<forall>e \<in> set (rd f). esp_ev_ok e \<Longrightarrow>
    \<exists>es r. run_file (t @ 0 # g) (f, out) = Inr (f\<lparr>rd := r, wr := wr f @ crlf t\<rparr>, out @ answered es) \<and> rd f = es @ r
      \<and> count_list es Idle \<le> count_list t 10"
proof (induction t arbitrary: f out)
  case Nil
  have "f = f\<lparr>rd := rd f, wr := wr f\<rparr>" by simp
  then show ?case by (intro exI [where x = "[]"] exI [where x = "rd f"]) simp
next
  case (Cons c t)
  show ?case
  proof (cases "c = 10")
    case False
    let ?f = "f\<lparr>wr := wr f @ [c]\<rparr>"
    obtain es r where "run_file (t @ 0 # g) (?f, out) = Inr (?f\<lparr>rd := r, wr := wr ?f @ crlf t\<rparr>, out @ answered es)"
      "rd ?f = es @ r" "count_list es Idle \<le> count_list t 10"
      using Cons.IH [of ?f out] Cons.prems by auto
    then show ?thesis using False Cons.prems(1,2)
      by (intro exI [where x = es] exI [where x = r]) (simp add: cat_put_byte_ok)
  next
    case True
    let ?f = "f\<lparr>wr := wr f @ [13, 10]\<rparr>"
    obtain es1 r1 where d: "drain_esp (?f, out) = Inr (?f\<lparr>rd := r1\<rparr>, out @ answered es1)" "rd f = es1 @ r1"
      "count_list es1 Idle \<le> 1" using drain_esp_ok [of ?f out] Cons.prems(3) by auto
    let ?f1 = "?f\<lparr>rd := r1\<rparr>"
    obtain es r where "run_file (t @ 0 # g) (?f1, out @ answered es1) = Inr (?f1\<lparr>rd := r, wr := wr ?f1 @ crlf t\<rparr>, (out @ answered es1) @ answered es)"
      "rd ?f1 = es @ r" "count_list es Idle \<le> count_list t 10"
      using Cons.IH [of ?f1 "out @ answered es1"] Cons.prems d(2) by auto
    then show ?thesis using True Cons.prems(2) d
      by (intro exI [where x = "es1 @ es"] exI [where x = r]) (simp add: cat_put_byte_ok)
  qed
qed

text \<open>Two arrivals it does not cope with: a full buffer and an error of the read.\<close>

lemma read_esp_overruns:
  "length b = 8192 \<Longrightarrow> read_esp (f\<lparr>rd := Data b # r\<rparr>, out) = Inl Bounds"
  "read_esp (f\<lparr>rd := Fail # r\<rparr>, out) = Inl Bounds"
  by (auto simp: read_esp_def cat_read_timeout_def can_read_timeout_def os_read_def)

lemma read_user_overruns:
  "length b = 8191 \<Longrightarrow> last b = 10 \<Longrightarrow> rd input = [Data b] \<Longrightarrow> read_user input s = Inl Bounds"
  by (cases s) (auto simp: read_user_def cat_read_timeout_def can_read_timeout_def os_read_def)

section \<open>Properties\<close>

text \<open>
  \<open>run_file\<close> sends the file to the esp with every newline as carriage return and newline and
  nothing else, and shows what arrived meanwhile, in order and without a gap, under any split of
  the arrivals; it waits for silence at most once per line. A read that fills the buffer or fails
  makes the next store go outside the buffer.
\<close>

theorem esp_cat_run_file:
  assumes "0 \<notin> set t" "wr_lim f = []" "\<forall>e \<in> set (rd f). esp_ev_ok e"
  shows "(\<exists>es r. run_file (t @ [0]) (f, out) = Inr (f\<lparr>rd := r, wr := wr f @ crlf t\<rparr>, out @ answered es) \<and> rd f = es @ r
      \<and> count_list es Idle \<le> count_list t 10)
    \<and> (\<forall>b r. length b = 8192 \<longrightarrow> read_esp (f\<lparr>rd := Data b # r\<rparr>, out) = Inl Bounds)
    \<and> (\<forall>r. read_esp (f\<lparr>rd := Fail # r\<rparr>, out) = Inl Bounds)"
  using run_file_ok [OF assms, of "[]" out] read_esp_overruns by blast

theorem esp_cat_run_file_witness:
  "\<exists>es r. run_file (bstr ''AT'' @ [10, 0]) (\<lparr>rd = [Data (bstr ''A''), Data (bstr ''T OK''), Idle, Data [88]], wr = [], wr_lim = []\<rparr>, [])
      = Inr (\<lparr>rd = r, wr = bstr ''AT'' @ [13, 10], wr_lim = []\<rparr>, answered es)
    \<and> [Data (bstr ''A''), Data (bstr ''T OK''), Idle, Data [88]] = es @ r \<and> count_list es Idle \<le> 1"
proof -
  let ?f = "\<lparr>rd = [Data (bstr ''A''), Data (bstr ''T OK''), Idle, Data [88]], wr = [], wr_lim = []\<rparr> :: fd_t"
  have "0 \<notin> set (bstr ''AT'' @ [10])" "wr_lim ?f = []" "\<forall>e \<in> set (rd ?f). esp_ev_ok e"
    by (simp_all add: esp_ev_ok_def bstr_def)
  from conjunct1 [OF esp_cat_run_file [OF this, of "[]"]] show ?thesis by (simp add: bstr_def del: run_file.simps)
qed

end
