(* ===== verification/Trace_Files.thy ===== *)
theory Trace_Files
  imports Crc Printk Unix_Io
begin

text \<open>
  The driver of the tracer, \<^verbatim>\<open>labs/5-replay/code/trace.c\<close>, which keeps each new trace in a file named by
  its checksum.
\<close>

section \<open>Keeping the traces that are new\<close>


datatype mkdir_res = Made | Exists | MkdirFail



text \<open>\<open>main\<close>: its arguments select the device, or leave it to be found; the rest starts the two sides.\<close>

definition trace_args :: "bytes list \<Rightarrow> bytes \<Rightarrow> (bytes \<times> bytes \<times> bytes) result" where
  "trace_args argv found =
     (if length argv = 3 then Inr (argv ! 1, found, last argv)
      else if length argv = 4 then
        (let dev_name = argv ! 2 in
         if take 5 dev_name \<noteq> bstr ''/dev/'' then Inl (Panic ''ERROR: unexpected device'')
         else Inr (argv ! 1, dev_name, last argv))
      else Inl (Panic ''ERROR: wrong number of arguments''))"

section \<open>Names are checksums\<close>









section \<open>Properties\<close>




end
