(* ===== verification/Fake_Driver.thy ===== *)
theory Fake_Driver
  imports Pi_Random Printk
begin

text \<open>
  Running a Pi program on the fake Pi: the routines of \<^verbatim>\<open>libpi-fake\<close> that report each call as a line
  of a trace, its driver \<^verbatim>\<open>driver.c\<close>, and the programs of \<^verbatim>\<open>labs/3-cross-check/fake-put-get.current\<close> whose
  traces the students compare. A run is a function of the state of the fake Pi: it ends by returning
  or by \<open>exit\<close>, and has written some output, which is never read back.
\<close>

section \<open>Runs that write and may exit\<close>

datatype 'a outcome = Ret 'a | Exits u32

type_synonym 'a sim = "fake_state \<Rightarrow> ('a outcome \<times> bytes \<times> fake_state) result"

definition sret :: "'a \<Rightarrow> 'a sim" where
  "sret x s = Inr (Ret x, [], s)"

definition sbind :: "'a sim \<Rightarrow> ('a \<Rightarrow> 'b sim) \<Rightarrow> 'b sim" where
  "sbind m f s =
     rbind (m s) (\<lambda>(r, o1, s1). case r of
         Exits c \<Rightarrow> Inr (Exits c, o1, s1)
       | Ret x \<Rightarrow> rbind (f x s1) (\<lambda>(r2, o2, s2). Inr (r2, o1 @ o2, s2)))"

definition sthen :: "unit sim \<Rightarrow> 'b sim \<Rightarrow> 'b sim" where
  "sthen m k = sbind m (\<lambda>_. k)"

definition put_txt :: "bytes \<Rightarrow> unit sim" where
  "put_txt t s = Inr (Ret (), t, s)"

definition sexit :: "u32 \<Rightarrow> unit sim" where
  "sexit c s = Inr (Exits c, [], s)"

text \<open>\<open>for(int i = a; i < a + k; i++)\<close>\<close>

fun sfor :: "nat \<Rightarrow> u32 \<Rightarrow> (u32 \<Rightarrow> unit sim) \<Rightarrow> unit sim" where
  "sfor 0 a body = sret ()"
| "sfor (Suc k) a body = sthen (body a) (sfor k (a + 1) body)"

section \<open>The tracing routines\<close>

definition d_txt :: "u32 \<Rightarrow> bytes" where "d_txt v = num_text 10 v True"
definition nl :: bytes where "nl = [10]"

definition f_trace :: "string \<Rightarrow> bytes \<Rightarrow> unit sim" where
  "f_trace fn msg = put_txt (bstr ''TRACE:'' @ bstr fn @ [58] @ msg)"

definition f_dev_barrier :: "unit sim" where
  "f_dev_barrier = f_trace ''dev_barrier'' (bstr ''dev barrier'' @ nl)"

definition f_uart_init :: "unit sim" where
  "f_uart_init = f_trace ''uart_init'' (bstr ''uart'' @ nl)"

text \<open>The text is what \<open>vfprintf\<close> makes of the format and its arguments.\<close>

definition f_printk :: "bytes \<Rightarrow> unit sim" where
  "f_printk txt = put_txt (bstr ''PI:'' @ txt)"

definition f_rpi_reboot :: "unit sim" where
  "f_rpi_reboot = sthen (f_trace ''rpi_reboot'' (bstr ''raw reboot'' @ nl)) (sexit 0)"

definition f_clean_reboot :: "unit sim" where
  "f_clean_reboot = sthen (f_trace ''clean_reboot'' (bstr ''clean reboot'' @ nl)) (sexit 0)"

definition f_gpio_write :: "u32 \<Rightarrow> u32 \<Rightarrow> unit sim" where
  "f_gpio_write pin v = f_trace ''gpio_write'' (bstr ''pin='' @ d_txt pin @ bstr '', val='' @ d_txt v @ nl)"

definition f_gpio_read :: "u32 \<Rightarrow> u32 sim" where
  "f_gpio_read pin s =
     rbind (fake_gpio_read pin s) (\<lambda>(v, s1).
       Inr (Ret v, bstr ''TRACE:gpio_read:pin='' @ d_txt pin @ bstr '', returning='' @ d_txt v @ nl, s1))"

definition trace_pin :: "string \<Rightarrow> u32 \<Rightarrow> unit sim" where
  "trace_pin fn pin = f_trace fn (bstr ''pin='' @ d_txt pin @ nl)"

definition f_gpio_set_input :: "u32 \<Rightarrow> unit sim" where "f_gpio_set_input = trace_pin ''gpio_set_input''"
definition f_gpio_set_output :: "u32 \<Rightarrow> unit sim" where "f_gpio_set_output = trace_pin ''gpio_set_output''"
definition f_gpio_set_pullup :: "u32 \<Rightarrow> unit sim" where "f_gpio_set_pullup = trace_pin ''gpio_set_pullup''"
definition f_gpio_set_pulldown :: "u32 \<Rightarrow> unit sim" where "f_gpio_set_pulldown = trace_pin ''gpio_set_pulldown''"
definition f_gpio_set_on :: "u32 \<Rightarrow> unit sim" where "f_gpio_set_on pin = f_gpio_write pin 1"
definition f_gpio_set_off :: "u32 \<Rightarrow> unit sim" where "f_gpio_set_off pin = f_gpio_write pin 0"

definition f_gpio_set_function :: "u32 \<Rightarrow> u32 \<Rightarrow> unit sim" where
  "f_gpio_set_function pin func =
     f_trace ''gpio_set_function'' (bstr ''pin='' @ d_txt pin @ bstr '', func='' @ d_txt func @ nl)"

definition f_gpio_set_bias :: "u32 \<Rightarrow> unit sim" where
  "f_gpio_set_bias n s =
     (let s1 = fake_gpio_set_bias n s in
      Inr (Ret (), bstr ''TRACE:fake_gpio_set_bias:bias=='' @ num_text 10 (bias s1) False @ nl, s1))"

definition f_timer_get_usec :: "u32 sim" where
  "f_timer_get_usec s =
     (case timer_get_usec s of (t, s1) \<Rightarrow>
        Inr (Ret t, bstr ''TRACE:timer_get_usec:getting usec = '' @ d_txt t @ bstr ''usec'' @ nl, s1))"

definition f_delay_us :: "u32 \<Rightarrow> unit sim" where
  "f_delay_us us s =
     Inr (Ret (), bstr ''TRACE:delay_us:delay_us = '' @ d_txt us @ bstr ''usec'' @ nl, delay_us us s)"

definition f_delay_ms :: "u32 \<Rightarrow> unit sim" where
  "f_delay_ms ms s =
     Inr (Ret (), bstr ''TRACE:delay_ms:delay_ms = '' @ d_txt ms @ bstr ''ms'' @ nl, delay_ms ms s)"

definition f_random :: "u32 sim" where
  "f_random s = rbind (fake_random s) (\<lambda>(v, s1). Inr (Ret v, [], s1))"

definition f_pi_init :: "unit sim" where
  "f_pi_init s = rbind (fake_pi_init s) (\<lambda>s1. Inr (Ret (), [], s1))"

section \<open>The driver\<close>

text \<open>
  What \<open>waitpid\<close> reports of a child that runs the program and then \<open>exit(0)\<close>: a failed \<open>assert\<close> is a
  signal, a \<open>panic\<close> or \<open>demand\<close> exits with 1. The undefined and the endless stay what they are.
\<close>

datatype wstatus = WExited u32 | WSignaled

definition child_status :: "(unit outcome \<times> bytes \<times> fake_state) result \<Rightarrow> (wstatus \<times> bytes) result" where
  "child_status r =
     (case r of
        Inr (Ret _, t, _) \<Rightarrow> Inr (WExited 0, t)
      | Inr (Exits c, t, _) \<Rightarrow> Inr (WExited (c AND 0xff), t)
      | Inl (AssertFail _) \<Rightarrow> Inr (WSignaled, [])
      | Inl (Panic _) \<Rightarrow> Inr (WExited 1, [])
      | Inl (DemandFail _) \<Rightarrow> Inr (WExited 1, [])
      | Inl Unimplemented \<Rightarrow> Inr (WExited 1, [])
      | Inl e \<Rightarrow> Inl e)"

definition exit_code :: "wstatus \<Rightarrow> u32 result" where
  "exit_code st = (case st of WExited c \<Rightarrow> Inr c | WSignaled \<Rightarrow> Inl (Panic ''unexpected crash''))"

text \<open>\<open>fork\<close>: the child has a copy of the state, so the parent goes on with its own.\<close>

definition run_trial :: "unit sim \<Rightarrow> unit sim" where
  "run_trial notmain s =
     rbind (child_status (notmain s)) (\<lambda>(st, t).
     rbind (exit_code st) (\<lambda>ret.
       if ret \<noteq> 0 then Inl (Panic ''unexpected exit value'') else Inr (Ret (), t, s)))"

definition f_random_seed :: "u32 \<Rightarrow> unit sim" where
  "f_random_seed x s = rbind (fake_random_seed x s) (\<lambda>s1. Inr (Ret (), [], s1))"

definition trial_txt :: "u32 \<Rightarrow> bytes" where
  "trial_txt i = bstr ''running iteration '' @ d_txt i"

definition runs_txt :: "u32 \<Rightarrow> bytes" where
  "runs_txt n = bstr ''running '' @ d_txt n @ bstr '' trials''"

definition fancy_check :: "unit sim \<Rightarrow> u32 \<Rightarrow> unit sim" where
  "fancy_check notmain n =
     sthen (f_trace ''fancy_check'' (runs_txt n @ nl))
    (sthen (sfor (nat (sint n)) 0 (\<lambda>i.
       sthen (f_trace ''fancy_check'' (trial_txt i @ nl))
      (sthen (f_random_seed i) (run_trial notmain))))
       (f_trace ''fancy_check'' (bstr ''DONE!'' @ nl)))"

definition c_atoi :: "bytes \<Rightarrow> u32" where
  "c_atoi s =
     (let t = dropWhile (\<lambda>c. c = 32 \<or> 9 \<le> c \<and> c \<le> 13) s;
          u = (if t \<noteq> [] \<and> (hd t = 43 \<or> hd t = 45) then tl t else t);
          v = of_nat (num_val 10 (takeWhile (\<lambda>c. 48 \<le> c \<and> c \<le> 57) u))
      in if t \<noteq> [] \<and> hd t = 45 then - v else v)"

definition driver_main :: "unit sim \<Rightarrow> bytes list \<Rightarrow> unit sim" where
  "driver_main notmain argv =
     (if 2 < length argv then sexit 1
      else sthen f_pi_init
       (if length argv < 2 then notmain
        else (let n = c_atoi (argv ! 1) in
          if n = 0 then (\<lambda>s. Inl (AssertFail ''n'')) else fancy_check notmain n)))"

section \<open>Programs that are cross-checked\<close>

text \<open>\<^verbatim>\<open>hello.c\<close> and \<^verbatim>\<open>blink.c\<close>; \<open>nop\<close> of \<^verbatim>\<open>fake-pi.c\<close> does nothing.\<close>

definition hello_prog :: "unit sim" where
  "hello_prog = sthen f_uart_init (sthen (f_printk (bstr ''hello world'' @ nl)) f_clean_reboot)"

definition f_nop :: "unit sim" where
  "f_nop = sret ()"

fun nop_loop :: "nat \<Rightarrow> unit sim" where
  "nop_loop 0 = sret ()"
| "nop_loop (Suc k) = sthen f_nop (nop_loop k)"

definition nop_delay :: "u32 \<Rightarrow> unit sim" where
  "nop_delay ticks = nop_loop (unat ticks)"

definition blink_round :: "unit sim" where
  "blink_round =
     sthen (f_gpio_set_on 20) (sthen (f_gpio_set_off 21) (sthen (nop_delay 1000000)
    (sthen (f_gpio_set_off 20) (sthen (f_gpio_set_off 21) (nop_delay 1000000)))))"

definition blink_notmain :: "unit sim" where
  "blink_notmain =
     sthen f_uart_init (sthen (f_printk (bstr ''about to start blink!'' @ nl))
    (sthen (f_gpio_set_output 20) (sthen (f_gpio_set_output 21)
    (sthen (sfor 10 0 (\<lambda>i. blink_round)) f_clean_reboot))))"

text \<open>
  \<^verbatim>\<open>test-gpio.c\<close>. It is linked with the student's \<^verbatim>\<open>gpio.c\<close>, whose routines are parameters. C does not
  say which of the two arguments of the last call is drawn first: \<open>lf\<close> says that it is the left one.
\<close>

record gpio_ops =
  op_set_output :: "u32 \<Rightarrow> unit sim"
  op_set_input :: "u32 \<Rightarrow> unit sim"
  op_set_on :: "u32 \<Rightarrow> unit sim"
  op_set_off :: "u32 \<Rightarrow> unit sim"
  op_set_function :: "u32 \<Rightarrow> u32 \<Rightarrow> unit sim"

definition testing_txt :: "string \<Rightarrow> bytes" where
  "testing_txt name = bstr ''testing: <'' @ bstr name @ bstr ''>'' @ nl"

definition run_test :: "string \<Rightarrow> (u32 \<Rightarrow> unit sim) \<Rightarrow> nat \<Rightarrow> unit sim" where
  "run_test name fp ntrials =
     sthen (put_txt (testing_txt name))
    (sthen (sfor 32 0 fp) (sfor ntrials 0 (\<lambda>_. sbind f_random fp)))"

definition test_gpio_set_output :: "gpio_ops \<Rightarrow> nat \<Rightarrow> unit sim" where
  "test_gpio_set_output G = run_test ''test_gpio_set_output'' (op_set_output G)"
definition test_gpio_set_input :: "gpio_ops \<Rightarrow> nat \<Rightarrow> unit sim" where
  "test_gpio_set_input G = run_test ''test_gpio_set_input'' (op_set_input G)"
definition test_gpio_set_on :: "gpio_ops \<Rightarrow> nat \<Rightarrow> unit sim" where
  "test_gpio_set_on G = run_test ''test_gpio_set_on'' (op_set_on G)"
definition test_gpio_set_off :: "gpio_ops \<Rightarrow> nat \<Rightarrow> unit sim" where
  "test_gpio_set_off G = run_test ''test_gpio_set_off'' (op_set_off G)"

definition draw_pin_func :: "bool \<Rightarrow> (u32 \<times> u32) sim" where
  "draw_pin_func lf =
     sbind f_random (\<lambda>a. sbind f_random (\<lambda>b. sret (if lf then (a, b mod 6) else (b, a mod 6))))"

definition test_gpio_set_function :: "bool \<Rightarrow> gpio_ops \<Rightarrow> nat \<Rightarrow> unit sim" where
  "test_gpio_set_function lf G ntrials =
     sthen (put_txt (testing_txt ''test_gpio_set_function''))
    (sthen (sfor 32 0 (\<lambda>pin. sfor 16 0 (\<lambda>func.
       sthen (op_set_function G pin func) (sbind f_random (\<lambda>r. op_set_function G r func)))))
       (sfor ntrials 0 (\<lambda>_. sbind (draw_pin_func lf) (\<lambda>(p, f). op_set_function G p f))))"

text \<open>Part 4 has no \<open>break\<close> and goes on with part 3.\<close>

definition test_gpio_part3 :: "gpio_ops \<Rightarrow> unit sim" where
  "test_gpio_part3 G =
     sthen (test_gpio_set_input G 128) (sthen (test_gpio_set_output G 128)
    (sthen (test_gpio_set_on G 128) (test_gpio_set_off G 128)))"

definition test_gpio_main :: "bool \<Rightarrow> gpio_ops \<Rightarrow> bytes list \<Rightarrow> unit sim" where
  "test_gpio_main lf G argv =
     sthen f_pi_init
       (if 2 < length argv then sexit 1
        else (let part = (if length argv < 2 then 0 else c_atoi (argv ! 1)) in
          if part = 0 then test_gpio_set_output G 128
          else if part = 1 then test_gpio_set_on G 128
          else if part = 2 then test_gpio_set_off G 128
          else if part = 4 then sthen (test_gpio_set_function lf G 128) (test_gpio_part3 G)
          else if part = 3 then test_gpio_part3 G
          else sexit 1))"

definition test_line :: "string \<Rightarrow> unit sim \<Rightarrow> unit sim" where
  "test_line fn m = sthen (put_txt (bstr ''testing <'' @ bstr fn @ bstr ''>'' @ nl)) m"

text \<open>\<^verbatim>\<open>simple-gpio-test.c\<close>; the value \<open>gpio_read\<close> returns is dropped.\<close>

definition simple_gpio_test :: "gpio_ops \<Rightarrow> (u32 \<Rightarrow> u32 sim) \<Rightarrow> unit sim" where
  "simple_gpio_test G rd =
     sthen f_pi_init
    (sthen (test_line ''gpio_set_off(20)'' (op_set_off G 20))
    (sthen (test_line ''gpio_set_on(20)'' (op_set_on G 20))
    (sthen (test_line ''gpio_read(20)'' (sbind (rd 20) (\<lambda>_. sret ())))
    (sthen (test_line ''gpio_set_input(20)'' (op_set_input G 20))
           (test_line ''gpio_set_output(20)'' (op_set_output G 20))))))"

section \<open>What seeding leaves\<close>

lemma random_r_pos:
  assumes "rand_ok buf h" "pi_random_r (Some buf) h = Inr (Some (x, b, h1))"
  shows "rptr b = (rptr buf + 1) mod rand_deg buf" "hd (h1 (state buf)) = hd (h (state buf))"
proof -
  note ok = assms(1) [unfolded rand_ok_def]
  have ty: "rand_type buf \<noteq> TYPE_0" using rand_ok_sep [OF assms(1)] by simp
  have ne: "h (state buf) \<noteq> []" using ok by auto
  from assms(2) ty show "hd (h1 (state buf)) = hd (h (state buf))"
    by (cases "h (state buf)")
      (auto simp: pi_random_r_def rbind_eq_Inr st_set_def arr_set_def Let_def split: if_splits)
  have e: "end_ptr buf = rand_deg buf" "rptr buf < rand_deg buf" "fptr buf = (rptr buf + rand_sep buf) mod rand_deg buf"
    using ok by auto
  have w: "rptr buf + 1 < rand_deg buf" if "rand_deg buf \<le> fptr buf + 1"
  proof (rule ccontr)
    assume "\<not> ?thesis"
    then have r: "rptr buf = rand_deg buf - 1" using e by simp
    have "(rptr buf + rand_sep buf) mod rand_deg buf = rand_sep buf - 1"
      using r rand_ok_sep [OF assms(1)] by (simp add: mod_if)
    then show False using that e rand_ok_sep [OF assms(1)] by simp
  qed
  have m: "Suc (rptr buf) mod rand_deg buf = (if rand_deg buf \<le> Suc (rptr buf) then 0 else Suc (rptr buf))"
    using e(2) by (auto simp: mod_Suc)
  from assms(2) ty e w m show "rptr b = (rptr buf + 1) mod rand_deg buf"
    by (auto simp: pi_random_r_def rbind_eq_Inr Let_def split: if_splits)
qed

lemma discard_loop_pos:
  "rand_ok buf h \<Longrightarrow> discard_loop k buf h = Inr (b, h1) \<Longrightarrow>
   rptr b = (rptr buf + k) mod rand_deg buf \<and> hd (h1 (state buf)) = hd (h (state buf))"
proof (induction k arbitrary: buf h)
  case 0
  then show ?case by (simp add: rand_ok_def)
next
  case (Suc k)
  from rand_step [OF Suc.prems(1)] obtain x b' h' where
    s: "pi_random_r (Some buf) h = Inr (Some (x, b', h'))" "rand_ok b' h'" "rand_sep b' = rand_sep buf"
       "state b' = state buf" "rand_type b' = rand_type buf" by blast
  then have d: "rand_deg b' = rand_deg buf" using Suc.prems(1) by (simp add: rand_ok_def)
  from Suc.IH [OF s(2)] Suc.prems(2) s random_r_pos [OF Suc.prems(1) s(1)] d show ?case
    by (simp add: mod_simps)
qed

lemma srandom_pos:
  assumes "rand_shape buf h" "pi_srandom_r seed (Some buf) h = Inr (Some (b, h1))"
  shows "rptr b = 0 \<and> hd (h1 (state buf)) = hd (h (state buf))"
proof -
  let ?a = "state buf" and ?deg = "rand_deg buf" and ?sd = "if seed = 0 then 1 else seed"
  have deg: "?deg < length (h ?a)" "1 < ?deg" "rand_sep buf < ?deg" "rand_type buf < 5" "rand_type buf \<noteq> 0"
    using assms(1) by (auto simp: rand_shape_def rand_consts)
  define g where "g = h(?a := (h ?a)[1 := ?sd])"
  from assms(2) deg obtain g2 where
    g2: "seed_loop (?deg - 1) 1 (uint ?sd) ?a g = Inr g2"
      "discard_loop (10 * ?deg) (buf\<lparr>fptr := rand_sep buf, rptr := 0\<rparr>) g2 = Inr (b, h1)"
    by (auto simp: pi_srandom_r_def st_set_def Let_def rand_consts rbind_eq_Inr g_def)
  have l: "1 + (?deg - 1) < length (g ?a)" using deg by (simp add: g_def)
  from seed_loop_eq [of 1 "?deg - 1" g ?a, OF l, of "uint ?sd"] g2(1) have s: "length (g2 ?a) = length (g ?a)" "\<forall>j < length (g ?a). j = 0 \<longrightarrow> g2 ?a ! j = g ?a ! j"
    by auto
  have ok: "rand_ok (buf\<lparr>fptr := rand_sep buf, rptr := 0\<rparr>) g2"
    using assms(1) deg s(1) by (simp add: rand_ok_def rand_shape_def g_def)
  have "hd (g2 ?a) = hd (h ?a)"
    using s deg l by (simp add: g_def hd_conv_nth [of "g2 ?a"] hd_conv_nth [of "h ?a"] flip: length_0_conv) 
  with discard_loop_pos [OF ok g2(2)] show ?thesis by simp
qed

text \<open>The buffer and the table that seeding leaves, whatever was there before.\<close>
definition seeded_buf :: pi_random_data where
  "seeded_buf = \<lparr>fptr = 3, rptr = 0, state = 0, rand_type = 3, rand_deg = 31, rand_sep = 3, end_ptr = 31\<rparr>"

definition seeded_words :: "u32 list" where
  "seeded_words = 3 # rotate 28 (seeded_tab 0 3 31)"

lemma rand_ok_front:
  "rand_ok b h \<Longrightarrow> rand_type b = 3 \<Longrightarrow> state b = 0 \<Longrightarrow> rptr b = 0 \<Longrightarrow> b = seeded_buf"
  using rand_ok_record [of b h] by (simp add: seeded_buf_def rand_consts)

lemma fake_random_seed_exact:
  assumes "length (fstore s 0) = 32"
  shows "fake_random_seed x s
    = Inr (s\<lparr>init_p := True, fr := seeded_buf, fstore := (fstore s)(0 := seeded_words)\<rparr>)"
proof -
  define b1 where "b1 = zero_data\<lparr>rand_type := 3, rand_sep := 3, rand_deg := 31, end_ptr := 31, state := 0\<rparr>"
  let ?h = "fstore s"
  have sh: "rand_shape b1 ?h" using assms by (simp add: b1_def rand_shape_def rand_consts)
  from srandom_eq [OF sh, of 0] obtain b2 h2 where
    2: "pi_srandom_r 0 (Some b1) ?h = Inr (Some (b2, h2))" "rand_ok b2 h2"
      "state b2 = 0" "rand_type b2 = 3" "\<forall>a. a \<noteq> 0 \<longrightarrow> h2 a = ?h a" "length (h2 0) = 32"
    using assms by (auto simp: b1_def)
  have p2: "rptr b2 = 0" using srandom_pos [OF sh 2(1)] by simp
  have b2: "b2 = seeded_buf" using rand_ok_front [OF 2(2,4,3) p2] .
  define h3 where "h3 = h2(0 := (h2 0)[0 := 3])"
  have i: "pi_initstate_r 0 0 128 (Some zero_data) ?h = Inr (Some (b2, h3))"
    using 2(1,4,6) p2
    by (simp add: pi_initstate_r_def rand_consts Let_def tag_set_def h3_def flip: b1_def)
  have sh3: "rand_shape b2 h3"
    using 2(6) by (simp add: b2 seeded_buf_def rand_shape_def rand_consts h3_def)
  from srandom_eq [OF sh3, of 0] obtain b4 h4 where
    4: "pi_srandom_r 0 (Some b2) h3 = Inr (Some (b4, h4))" "rand_ok b4 h4"
      "rand_abs b4 h4 = seeded_tab 0 3 31" "state b4 = 0" "rand_type b4 = 3"
      "\<forall>a. a \<noteq> 0 \<longrightarrow> h4 a = h3 a" "length (h4 0) = 32"
    using 2(6) by (auto simp: b2 seeded_buf_def h3_def)
  have p4: "rptr b4 = 0" "hd (h4 0) = 3"
    using srandom_pos [OF sh3 4(1)] 2(6) by (cases "h2 0"; simp add: b2 seeded_buf_def h3_def)+
  have b4: "b4 = seeded_buf" using rand_ok_front [OF 4(2,5,4) p4(1)] .
  have "rotate 3 (tl (h4 0)) = seeded_tab 0 3 31"
    using 4(3,7) by (simp add: b4 seeded_buf_def rand_abs_def rand_tab_def)
  then have "rotate 28 (seeded_tab 0 3 31) = rotate 31 (tl (h4 0))"
    by (metis rotate_rotate numeral_plus_numeral add_num_simps(1,2,3,4,5,6,7,8,9))
  then have "tl (h4 0) = rotate 28 (seeded_tab 0 3 31)"
    using 4(7) by (simp add: rotate_id)
  with p4(2) 4(7) have w: "h4 0 = seeded_words"
    by (cases "h4 0") (simp_all add: seeded_words_def)
  have "h4 = ?h(0 := seeded_words)"
    using w 4(6) 2(5) by (auto simp: fun_eq_iff h3_def)
  with i 4(1) b4 show ?thesis by (simp add: fake_random_seed_def STATESIZE_def)
qed
section \<open>Every trial starts from the same numbers\<close>

lemma sthen_put: "sthen (put_txt t) k s = rbind (k s) (\<lambda>(r, u, s1). Inr (r, t @ u, s1))"
  by (simp add: sthen_def sbind_def put_txt_def)

lemma sthen_done:
  "m s = Inr (Ret (), t, s1) \<Longrightarrow> sthen m k s = rbind (k s1) (\<lambda>(r, u, s2). Inr (r, t @ u, s2))"
  by (simp add: sthen_def sbind_def)

lemma sthen_fault: "m s = Inl e \<Longrightarrow> sthen m k s = Inl e"
  by (simp add: sthen_def sbind_def)

definition fc_line :: "bytes \<Rightarrow> bytes" where
  "fc_line msg = bstr ''TRACE:fancy_check:'' @ msg @ nl"

lemma trace_fc: "f_trace ''fancy_check'' (m @ nl) s = Inr (Ret (), fc_line m, s)"
  by (simp add: f_trace_def put_txt_def bstr_def fc_line_def)

lemma sthen_fc: "sthen (f_trace ''fancy_check'' (m @ nl)) k s = rbind (k s) (\<lambda>(r, u, s1). Inr (r, fc_line m @ u, s1))"
  by (rule sthen_done) (rule trace_fc)

text \<open>A loop whose body writes a text for each index and ends in the same state.\<close>

lemma sfor_same:
  assumes "\<And>i u. P u \<Longrightarrow> body i u = Inr (Ret (), line i, s1)" "P s1"
  shows "P s \<Longrightarrow> sfor (Suc k) a body s
    = Inr (Ret (), concat (map (\<lambda>i. line (a + of_nat i)) [0..<Suc k]), s1)"
proof (induction k arbitrary: a s)
  case 0
  then show ?case by (simp add: sthen_done [OF assms(1)] sret_def)
next
  case (Suc k)
  have "concat (map (\<lambda>i. line (a + of_nat i)) [0..<Suc (Suc k)])
      = line a @ concat (map (\<lambda>i. line (a + 1 + of_nat i)) [0..<Suc k])"
    by (simp add: map_upt_Suc add.assoc del: upt_Suc)
  moreover have "sfor (Suc (Suc k)) a body s = rbind (sfor (Suc k) (a + 1) body s1) (\<lambda>(r, u, s2). Inr (r, line a @ u, s2))"
    using sthen_done [where m = "body a" and s = s, OF assms(1) [OF Suc.prems]] by simp
  ultimately show ?case using Suc.IH [OF assms(2), of "a + 1"] by simp
qed

definition seeded_state :: "fake_state \<Rightarrow> fake_state" where
  "seeded_state s = s\<lparr>init_p := True, fr := seeded_buf, fstore := (fstore s)(0 := seeded_words)\<rparr>"

definition trial_out :: "unit sim \<Rightarrow> fake_state \<Rightarrow> bytes result" where
  "trial_out notmain s = rbind (run_trial notmain s) (\<lambda>(_, t, _). Inr t)"

lemma run_trial_eq: "run_trial p s = rbind (trial_out p s) (\<lambda>t. Inr (Ret (), t, s))"
  by (auto simp: trial_out_def run_trial_def rbind_def split: sum.splits)

lemma length_seeded_words: "length seeded_words = 32"
proof -
  have "length (lfg_next 3 xs) = length xs" if "xs \<noteq> []" for xs using that by (simp add: lfg_next_def)
  then have "length ((lfg_next 3 ^^ k) xs) = length xs" if "xs \<noteq> []" for k xs
    using that by (induction k) (simp_all, metis length_0_conv)
  then show ?thesis
    by (simp add: seeded_words_def seeded_tab_def seed_table_def upt_conv_Cons)
qed

text \<open>All states whose seeding gives the same state.\<close>

definition seeds_as :: "fake_state \<Rightarrow> fake_state \<Rightarrow> bool" where
  "seeds_as s u \<longleftrightarrow> length (fstore u 0) = 32 \<and> seeded_state u = seeded_state s"

lemma trial_body:
  assumes "seeds_as s u"
  shows "sthen (f_trace ''fancy_check'' (trial_txt i @ nl)) (sthen (f_random_seed i) (run_trial p)) u
    = rbind (trial_out p (seeded_state s)) (\<lambda>t.
        Inr (Ret (), fc_line (trial_txt i) @ t, seeded_state s))"
proof -
  have "fake_random_seed i u = Inr (seeded_state s)"
    using assms by (simp add: seeds_as_def seeded_state_def fake_random_seed_exact)
  then have "f_random_seed i u = Inr (Ret (), [], seeded_state s)" by (simp add: f_random_seed_def)
  from sthen_done [where m = "f_random_seed i" and s = u, OF this, of "run_trial p"] show ?thesis
    by (simp add: sthen_fc run_trial_eq rbind_def split: sum.splits)
qed

lemma fancy_check_eq:
  assumes "length (fstore s 0) = 32" "0 < sint n"
  shows "fancy_check p n s = rbind (trial_out p (seeded_state s)) (\<lambda>t.
     Inr (Ret (), fc_line (runs_txt n)
       @ concat (map (\<lambda>i. fc_line (trial_txt (of_nat i)) @ t) [0..<nat (sint n)])
       @ fc_line (bstr ''DONE!''), seeded_state s))"
proof -
  obtain k where k: "nat (sint n) = Suc k" using assms(2) by (cases "nat (sint n)") auto
  have P: "seeds_as s s" "seeds_as s (seeded_state s)"
    using assms(1) by (simp_all add: seeds_as_def seeded_state_def length_seeded_words)
  let ?body = "\<lambda>i. sthen (f_trace ''fancy_check'' (trial_txt i @ nl)) (sthen (f_random_seed i) (run_trial p))"
  show ?thesis
  proof (cases "trial_out p (seeded_state s)")
    case (Inl e)
    then have "sfor (nat (sint n)) 0 ?body s = Inl e"
      using trial_body [OF P(1), of 0 p] by (simp add: k sthen_fault)
    then show ?thesis using Inl by (simp add: fancy_check_def sthen_fc sthen_fault)
  next
    case (Inr t)
    have "sfor (nat (sint n)) 0 ?body s
        = Inr (Ret (), concat (map (\<lambda>i. fc_line (trial_txt (of_nat i)) @ t) [0..<nat (sint n)]), seeded_state s)"
      unfolding k using sfor_same [where P = "seeds_as s" and body = ?body and s = s and a = 0 and k = k
          and line = "\<lambda>i. fc_line (trial_txt i) @ t" and ?s1.0 = "seeded_state s"]
        trial_body Inr P by simp
    from sthen_done [where m = "sfor (nat (sint n)) 0 ?body" and s = s
        and k = "f_trace ''fancy_check'' (bstr ''DONE!'' @ nl)", OF this] show ?thesis using Inr
      by (simp add: fancy_check_def sthen_fc trace_fc)
  qed
qed

section \<open>The traces\<close>

lemma nop_delay [simp]: "nop_delay t s = Inr (Ret (), [], s)"
proof -
  have "nop_loop k s = Inr (Ret (), [], s)" for k
    by (induction k) (simp_all add: sret_def f_nop_def sthen_done [where m = "sret ()"])
  then show ?thesis by (simp add: nop_delay_def)
qed

definition pin_line :: "string \<Rightarrow> bytes" where
  "pin_line t = bstr ''TRACE:gpio_write:'' @ bstr t @ nl"

definition blink_txt :: bytes where
  "blink_txt = pin_line ''pin=20, val=1'' @ pin_line ''pin=21, val=0''
     @ pin_line ''pin=20, val=0'' @ pin_line ''pin=21, val=0''"

lemma d_txt_small: "d_txt 0 = [48]" "d_txt 1 = [49]" "d_txt 20 = [50, 48]" "d_txt 21 = [50, 49]"
  by (simp_all add: d_txt_def num_text_def emit_digits.simps digit_chars_def bstr_def)

lemma sfor_text:
  assumes "\<And>i u. body i u = Inr (Ret (), line i, u)"
  shows "sfor k a body s = Inr (Ret (), concat (map (\<lambda>i. line (a + of_nat i)) [0..<k]), s)"
  using sfor_same [where P = "\<lambda>u. u = s" and body = body and line = line and ?s1.0 = s and s = s] assms
  by (cases k) (auto simp: sret_def)

text \<open>Blinking takes ten rounds of the four writes and then ends the run with status 0.\<close>

lemma blink_trace:
  "blink_notmain s = Inr (Exits 0,
     bstr ''TRACE:uart_init:uart'' @ nl @ bstr ''PI:about to start blink!'' @ nl
     @ bstr ''TRACE:gpio_set_output:pin=20'' @ nl @ bstr ''TRACE:gpio_set_output:pin=21'' @ nl
     @ concat (replicate 10 blink_txt) @ bstr ''TRACE:clean_reboot:clean reboot'' @ nl, s)"
proof -
  have r: "blink_round u = Inr (Ret (), blink_txt, u)" for u
    by (simp add: blink_round_def f_gpio_set_on_def f_gpio_set_off_def f_gpio_write_def f_trace_def sthen_put
        d_txt_small blink_txt_def pin_line_def bstr_def sthen_done [where m = "nop_delay 1000000"])
  have c: "concat (map (\<lambda>i. blink_txt) [0..<10]) = concat (replicate 10 blink_txt)"
    by (simp add: map_replicate_const)
  have f: "sfor 10 0 (\<lambda>i. blink_round) s = Inr (Ret (), concat (replicate 10 blink_txt), s)"
    using sfor_text [where body = "\<lambda>i. blink_round" and line = "\<lambda>_. blink_txt" and k = 10 and a = 0, OF r] c
    by simp
  from sthen_done [where m = "sfor 10 0 (\<lambda>i. blink_round)" and k = f_clean_reboot, OF f] show ?thesis
    by (simp add: blink_notmain_def f_uart_init_def f_printk_def f_gpio_set_output_def trace_pin_def
        f_trace_def sthen_put f_clean_reboot_def sexit_def d_txt_small bstr_def)
qed

text \<open>A test calls its routine on the pins 0 to 31 and then on the next numbers of the generator.\<close>

lemma sfor_draws:
  assumes "\<And>pin u. fp pin u = Inr (Ret (), line pin, u)"
  shows "fake_randoms k s = Inr xs \<Longrightarrow>
    \<exists>s1. sfor k a (\<lambda>_. sbind f_random fp) s = Inr (Ret (), concat (map line xs), s1)"
proof (induction k arbitrary: a s xs)
  case (Suc k)
  then obtain x s1 ys where d: "fake_random s = Inr (x, s1)" "fake_randoms k s1 = Inr ys" "xs = x # ys"
    by (auto simp: rbind_eq_Inr)
  from Suc.IH [OF d(2), of "a + 1"] obtain s2 where
    "sfor k (a + 1) (\<lambda>_. sbind f_random fp) s1 = Inr (Ret (), concat (map line ys), s2)" by blast
  moreover have "sbind f_random fp s = Inr (Ret (), line x, s1)"
    by (simp add: sbind_def f_random_def d(1) assms)
  ultimately show ?case using d(3) by (simp add: sthen_done)
qed (simp add: sret_def)

lemma run_test_pins:
  assumes "\<And>pin u. fp pin u = Inr (Ret (), line pin, u)" "fake_randoms k s = Inr xs"
  shows "\<exists>s1. run_test name fp k s
    = Inr (Ret (), testing_txt name @ concat (map line (map of_nat [0..<32] @ xs)), s1)"
proof -
  have f: "sfor 32 0 fp s = Inr (Ret (), concat (map (\<lambda>i. line (of_nat i)) [0..<32]), s)"
    using sfor_text [where body = fp and line = line and k = 32 and a = 0 and s = s, OF assms(1)] by simp
  from sfor_draws [of fp line, OF assms, of 0] obtain s1 where
    "sfor k 0 (\<lambda>_. sbind f_random fp) s = Inr (Ret (), concat (map line xs), s1)" by blast
  then show ?thesis
    by (simp add: run_test_def sthen_put sthen_done [where m = "sfor 32 0 fp" and s = s, OF f] o_def del: upt_rec_numeral)
qed

section \<open>The driver from its start\<close>

text \<open>The state every trial starts from: freshly seeded, the clock at the first number drawn.\<close>

definition trial_start :: "fake_state \<Rightarrow> fake_state" where
  "trial_start s = (seeded_state s)\<lparr>time_usec := 0x6b8b4567\<rparr>"

lemma fake_pi_init_seeds:
  assumes "length (fstore s 0) = 32"
  shows "\<exists>s1. fake_pi_init s = Inr s1 \<and> length (fstore s1 0) = 32 \<and> seeded_state s1 = trial_start s"
proof -
  have sd: "fake_random_seed 0 s = Inr (seeded_state s)"
    using fake_random_seed_exact [OF assms] by (simp add: seeded_state_def)
  from fake_pi_init_passes [of s] assms obtain s' where
    c: "fake_random_check s = Inr (0x6b8b4567, s')" "fake_pi_init s = Inr (s'\<lparr>time_usec := 0x6b8b4567\<rparr>)"
    by auto
  then have r: "fake_random (seeded_state s) = Inr (0x6b8b4567, s')"
    by (auto simp: fake_random_check_def sd rbind_eq_Inr)
  have ok: "rand_ok seeded_buf (fstore (seeded_state s))"
    by (simp add: rand_ok_def seeded_buf_def seeded_state_def length_seeded_words rand_consts)
  from rand_step [OF ok] obtain x b h where
    p: "pi_random_r (Some seeded_buf) (fstore (seeded_state s)) = Inr (Some (x, b, h))"
      "\<forall>a. a \<noteq> 0 \<longrightarrow> h a = fstore (seeded_state s) a"
      "length (h 0) = length (fstore (seeded_state s) 0)"
    by (auto simp: seeded_buf_def)
  have s': "s' = (seeded_state s)\<lparr>fr := b, fstore := h\<rparr>"
    using r p(1) by (simp add: fake_random_def seeded_state_def)
  have "h(0 := seeded_words) = (fstore s)(0 := seeded_words)"
    using p(2) by (auto simp: fun_eq_iff seeded_state_def)
  then show ?thesis
    using c(2) p(3) by (simp add: s' trial_start_def seeded_state_def length_seeded_words)
qed

text \<open>
  (C10) The trials of the driver are one trial: whatever program is linked with the fake Pi, when
  the driver is asked for \<open>n > 0\<close> of them, each is run from the same state, because the seed is
  ignored. So the driver stops at the first trial if at all, and otherwise prints the trace of one
  run \<open>n\<close> times.
\<close>
theorem fancy_trials_identical:
  assumes "length (fstore s 0) = 32" "0 < sint (c_atoi arg)"
  shows "driver_main p [prog, arg] s = rbind (trial_out p (trial_start s)) (\<lambda>t.
     Inr (Ret (), fc_line (runs_txt (c_atoi arg))
       @ concat (map (\<lambda>i. fc_line (trial_txt (of_nat i)) @ t) [0..<nat (sint (c_atoi arg))])
       @ fc_line (bstr ''DONE!''), trial_start s))"
proof -
  from fake_pi_init_seeds [OF assms(1)] obtain s1 where
    i: "fake_pi_init s = Inr s1" "length (fstore s1 0) = 32" "seeded_state s1 = trial_start s" by blast
  have m: "f_pi_init s = Inr (Ret (), [], s1)" by (simp add: f_pi_init_def i(1))
  have "c_atoi arg \<noteq> 0" using assms(2) by auto
  then show ?thesis
    using fancy_check_eq [OF i(2) assms(2), of p] i(3)
    by (simp add: driver_main_def sthen_done [where m = f_pi_init and s = s, OF m] rbind_def split: sum.splits)
qed

theorem fancy_trials_identical_witness:
  "\<exists>t s1. driver_main blink_notmain [bstr ''blink'', bstr ''2'']
       \<lparr>init_p = False, fr = zero_data, fstore = \<lambda>_. replicate 32 0, time_usec = 0, bias = 2\<rparr>
     = Inr (Ret (), fc_line (runs_txt 2) @ fc_line (trial_txt 0) @ t @ fc_line (trial_txt 1) @ t
         @ fc_line (bstr ''DONE!''), s1)"
proof -
  let ?s = "\<lparr>init_p = False, fr = zero_data, fstore = \<lambda>_. replicate 32 0, time_usec = 0, bias = 2\<rparr>"
  have n: "c_atoi (bstr ''2'') = 2" by (simp add: c_atoi_def bstr_def num_val_def digit_val_def ch_def)
  have t: "\<exists>t. trial_out blink_notmain u = Inr t" for u
    by (simp add: trial_out_def run_trial_def blink_trace child_status_def exit_code_def)
  have l: "length (fstore ?s 0) = 32" "0 < sint (c_atoi (bstr ''2''))" by (simp_all add: n)
  from t obtain x where "trial_out blink_notmain (trial_start ?s) = Inr x" by blast
  then show ?thesis
    using fancy_trials_identical [OF l, of blink_notmain "bstr ''blink''"]
    by (simp add: n upt_conv_Cons) blast
qed

end
