(* ===== verification/Pi_Cat.thy ===== *)
theory Pi_Cat
  imports Unix_Io
begin

text \<open>
  Programs on the laptop that talk to the Pi: \<^verbatim>\<open>pi-cat\<close>, which passes what the user types to the Pi and
  shows what the Pi prints (\<^verbatim>\<open>labs/8-device-interrupts/pi-cat\<close>, and its first version in \<^verbatim>\<open>labs/4-uart\<close>),
  and the arguments of the two versions of \<^verbatim>\<open>my-install\<close> (\<^verbatim>\<open>labs/2-bootloader\<close>, \<^verbatim>\<open>labs/11-fuse\<close>).
\<close>

section \<open>One round of pi-cat\<close>

text \<open>
  What \<open>select\<close> answers in a round: an error, nothing before the time limit (with whether the port is
  gone), or what the read of each ready descriptor will give. A read gives at most 4096 bytes.
\<close>

datatype rd_res = RErr | RGot bytes

datatype cat_ev = SelErr | Quiet bool | Ready "rd_res option" "rd_res option"

datatype cat_end = PortGone | StdinClosed

record pcat_t =
  cat_line :: fd_t
  cat_shown :: bytes

text \<open>The text \<open>printf\<close> shows of a buffer: up to its first 0.\<close>

definition c_text :: "bytes \<Rightarrow> bytes" where
  "c_text b = takeWhile (\<lambda>c. c \<noteq> 0) b"

text \<open>
  The terminator goes behind the bytes read, outside the buffer when they fill it. The result of
  \<open>write\<close> is only compared with an error: what a short write left out is dropped.
\<close>

definition cat_stdin :: "rd_res \<Rightarrow> pcat_t \<Rightarrow> (cat_end option \<times> pcat_t) result" where
  "cat_stdin r s =
     (case r of
        RErr \<Rightarrow> sys_die ''failed''
      | RGot b \<Rightarrow>
          if b = [] then Inr (Some StdinClosed, s\<lparr>cat_shown := cat_shown s @ bstr ''stdin is closed: assuming we are done!'' @ [10]\<rparr>)
          else if 4096 \<le> length b then Inl Bounds
          else (case os_write b (cat_line s) of
                  (None, _) \<Rightarrow> sys_die ''failed?''
                | (Some _, f1) \<Rightarrow> Inr (None, s\<lparr>cat_line := f1\<rparr>)))"

definition cat_pi :: "rd_res \<Rightarrow> pcat_t \<Rightarrow> pcat_t result" where
  "cat_pi r s =
     (case r of
        RErr \<Rightarrow> sys_die ''failed''
      | RGot b \<Rightarrow>
          if b = [] then sys_die ''failed''
          else if 4096 \<le> length b then Inl Bounds
          else Inr (s\<lparr>cat_shown := cat_shown s @ c_text b\<rparr>))"

definition cat_round_of ::
  "(rd_res \<Rightarrow> pcat_t \<Rightarrow> (cat_end option \<times> pcat_t) result) \<Rightarrow> cat_ev \<Rightarrow> pcat_t \<Rightarrow> (cat_end option \<times> pcat_t) result" where
  "cat_round_of on_stdin ev s =
     (case ev of
        SelErr \<Rightarrow> sys_die ''pi connection closed, cleanling up.''
      | Quiet gone \<Rightarrow> Inr (if gone then Some PortGone else None, s)
      | Ready i p \<Rightarrow>
          rbind (c_assert (i \<noteq> None \<or> p \<noteq> None) ''FD_ISSET(0, &rfds) || FD_ISSET(fd, &rfds)'') (\<lambda>_.
          rbind (case i of None \<Rightarrow> Inr (None, s) | Some r \<Rightarrow> on_stdin r s) (\<lambda>(e, s1).
            case e of
              Some x \<Rightarrow> Inr (Some x, s1)
            | None \<Rightarrow> rbind (case p of None \<Rightarrow> Inr s1 | Some r \<Rightarrow> cat_pi r s1) (\<lambda>s2. Inr (None, s2)))))"

definition cat_round :: "cat_ev \<Rightarrow> pcat_t \<Rightarrow> (cat_end option \<times> pcat_t) result" where
  "cat_round = cat_round_of cat_stdin"

text \<open>The loop over the answers of \<open>select\<close>; without an end it is still running when they run out.\<close>

fun cat_loop :: "(cat_ev \<Rightarrow> pcat_t \<Rightarrow> (cat_end option \<times> pcat_t) result) \<Rightarrow> cat_ev list \<Rightarrow> pcat_t
    \<Rightarrow> (cat_end option \<times> pcat_t) result" where
  "cat_loop round [] s = Inr (None, s)"
| "cat_loop round (ev # evs) s =
     rbind (round ev s) (\<lambda>(e, s1). case e of Some x \<Rightarrow> Inr (Some x, s1) | None \<Rightarrow> cat_loop round evs s1)"

definition pi_cat :: "cat_ev list \<Rightarrow> fd_t \<Rightarrow> (cat_end option \<times> pcat_t) result" where
  "pi_cat evs f = cat_loop cat_round evs \<lparr>cat_line = f, cat_shown = []\<rparr>"

text \<open>The first version reports what it does and takes the end of its input for an error.\<close>

definition cat_stdin4 :: "rd_res \<Rightarrow> pcat_t \<Rightarrow> (cat_end option \<times> pcat_t) result" where
  "cat_stdin4 r s =
     (case r of
        RErr \<Rightarrow> sys_die ''failed''
      | RGot b \<Rightarrow>
          if b = [] then sys_die ''failed''
          else if 4096 \<le> length b then Inl Bounds
          else (case os_write b (cat_line s) of
                  (None, _) \<Rightarrow> sys_die ''failed?''
                | (Some _, f1) \<Rightarrow>
                    Inr (None, s\<lparr>cat_line := f1, cat_shown := cat_shown s @ bstr ''input data is available now.'' @ [10]
                      @ bstr ''UNIX wrote: <'' @ c_text b @ bstr ''> to pi'' @ [10]\<rparr>)))"

definition cat_round4 :: "cat_ev \<Rightarrow> pcat_t \<Rightarrow> (cat_end option \<times> pcat_t) result" where
  "cat_round4 = cat_round_of cat_stdin4"

definition pi_cat4 :: "cat_ev list \<Rightarrow> fd_t \<Rightarrow> (cat_end option \<times> pcat_t) result" where
  "pi_cat4 evs f = cat_loop cat_round4 evs \<lparr>cat_line = f, cat_shown = []\<rparr>"

text \<open>\<open>main\<close>: the device is the argument or the last one found.\<close>

definition cat_args :: "bytes \<Rightarrow> bytes list \<Rightarrow> bytes result" where
  "cat_args found argv =
     (if length argv = 1 then Inr found
      else if length argv = 2 then Inr (argv ! 1)
      else Inl (Panic ''too many arguments''))"

section \<open>The echo loop of the first my-install\<close>

text \<open>
  The copies of \<open>pi_done\<close> and \<open>remove_nonprint\<close> are the same text. The loop only reads from the Pi; a
  time-out of the terminal and the end of the line both look like a read of no bytes.
\<close>

definition boot_done :: "nat \<Rightarrow> bytes \<Rightarrow> (bool \<times> nat) result" where
  "boot_done = pi_done"

definition boot_remove_nonprint :: "bytes \<Rightarrow> bytes" where
  "boot_remove_nonprint = remove_nonprint"

definition boot_echo_round :: "bool \<Rightarrow> echo_t \<Rightarrow> (echo_end option \<times> echo_t) result" where
  "boot_echo_round gone s =
     (case os_read 4095 (pi_fd s) of
        (None, _) \<Rightarrow> sys_die ''pi connection closed.  cleaning up''
      | (Some t, p1) \<Rightarrow>
          if t = [] then Inr (if gone then Some TtyClosed else None, s\<lparr>pi_fd := p1\<rparr>)
          else
            (let t1 = boot_remove_nonprint t in
             rbind (boot_done (echo_pos s) t1) (\<lambda>(d, pos).
               Inr (if d then Some PiExited else None,
                    s\<lparr>pi_fd := p1, echo_pos := pos, echo_out := echo_out s @ t1\<rparr>))))"

fun boot_echo :: "nat \<Rightarrow> bool \<Rightarrow> echo_t \<Rightarrow> (echo_end \<times> echo_t) result" where
  "boot_echo 0 gone s = Inl Diverges"
| "boot_echo (Suc k) gone s =
     rbind (boot_echo_round gone s) (\<lambda>(e, s1). case e of None \<Rightarrow> boot_echo k gone s1 | Some x \<Rightarrow> Inr (x, s1))"

section \<open>The arguments of my-install\<close>

text \<open>The device, and the program, which is the last argument.\<close>

definition install_args :: "bytes \<Rightarrow> bytes list \<Rightarrow> (bytes \<times> bytes) result" where
  "install_args found argv =
     (if length argv = 2 then Inr (found, last argv)
      else if length argv = 3 then Inr (argv ! 1, last argv)
      else Inl (Panic ''wrong number of arguments: expected 1 or 2''))"

text \<open>
  In the later version \<open>-exec\<close> ends the arguments: what follows is the program that takes over the
  line once the Pi runs. The scan starts behind the program's own name.
\<close>

fun scan_exec :: "bytes list \<Rightarrow> bytes list \<Rightarrow> (bytes list \<times> bytes list option) result" where
  "scan_exec pre [] = Inr (pre, None)"
| "scan_exec pre (a # r) =
     (if a = bstr ''-exec'' then
        (if r = [] then Inl (Panic ''bad use of -exec: need a program name'') else Inr (pre, Some r))
      else scan_exec (pre @ [a]) r)"

definition install_args11 :: "bytes \<Rightarrow> bytes list \<Rightarrow> ((bytes \<times> bytes) \<times> bytes list option) result" where
  "install_args11 found argv =
     rbind (scan_exec (take 1 argv) (drop 1 argv)) (\<lambda>(args, exec).
     rbind (install_args found args) (\<lambda>dp. Inr (dp, exec)))"

text \<open>The device is opened unless descriptor 21 is open already, as it is under the tracer.\<close>

definition install_opens :: "bool \<Rightarrow> bytes \<Rightarrow> bytes option" where
  "install_opens trace_fd_open dev = (if trace_fd_open then None else Some dev)"

section \<open>pi-cat relays both ways\<close>

definition relay_ok :: "rd_res \<Rightarrow> bool" where
  "relay_ok r = (case r of RErr \<Rightarrow> False | RGot b \<Rightarrow> b \<noteq> [] \<and> length b < 4096)"

definition got :: "rd_res option \<Rightarrow> bytes" where
  "got r = (case r of Some (RGot b) \<Rightarrow> b | _ \<Rightarrow> [])"

text \<open>A round in which nothing goes wrong, what was typed in it and what the Pi printed.\<close>

fun ev_ok :: "cat_ev \<Rightarrow> bool" where
  "ev_ok SelErr = False"
| "ev_ok (Quiet gone) = (\<not> gone)"
| "ev_ok (Ready i p) = ((i \<noteq> None \<or> p \<noteq> None) \<and> pred_option relay_ok i \<and> pred_option relay_ok p)"

fun typed :: "cat_ev \<Rightarrow> bytes" where
  "typed (Ready i p) = got i"
| "typed _ = []"

fun printed :: "cat_ev \<Rightarrow> bytes" where
  "printed (Ready i p) = got p"
| "printed _ = []"

definition relayed :: "cat_ev list \<Rightarrow> pcat_t \<Rightarrow> pcat_t" where
  "relayed evs s = s\<lparr>cat_line := (cat_line s)\<lparr>wr := wr (cat_line s) @ concat (map typed evs)\<rparr>,
     cat_shown := cat_shown s @ concat (map (\<lambda>e. c_text (printed e)) evs)\<rparr>"

lemma cat_round_relays:
  assumes "ev_ok ev" "wr_lim (cat_line s) = []"
  shows "cat_round ev s = Inr (None, relayed [ev] s)"
  using assms
  by (cases ev)
    (auto simp: cat_round_def cat_round_of_def cat_stdin_def cat_pi_def relay_ok_def relayed_def got_def
      os_write_def c_text_def split: option.splits rd_res.splits)

lemma cat_loop_relays:
  "\<forall>e \<in> set evs. ev_ok e \<Longrightarrow> wr_lim (cat_line s) = [] \<Longrightarrow>
   cat_loop cat_round (evs @ rest) s = cat_loop cat_round rest (relayed evs s)"
proof (induction evs arbitrary: s)
  case (Cons e evs)
  have "relayed evs (relayed [e] s) = relayed (e # evs) s" by (simp add: relayed_def)
  with Cons show ?case by (simp add: cat_round_relays) (simp add: relayed_def)
qed (simp add: relayed_def)

text \<open>
  Whatever is typed and printed in reads of less than 4096 bytes, and in whatever order, until the
  input ends: the Pi is sent exactly what was typed, and exactly the text of what it printed is shown.
\<close>
theorem pi_cat_relays:
  assumes "\<forall>e \<in> set evs. ev_ok e" "wr_lim f = []"
  shows "\<exists>s. pi_cat (evs @ Ready (Some (RGot [])) p # rest) f = Inr (Some StdinClosed, s)
    \<and> wr (cat_line s) = wr f @ concat (map typed evs)
    \<and> cat_shown s = concat (map (\<lambda>e. c_text (printed e)) evs)
        @ bstr ''stdin is closed: assuming we are done!'' @ [10]"
  unfolding pi_cat_def
  using cat_loop_relays [OF assms(1), of "\<lparr>cat_line = f, cat_shown = []\<rparr>" "Ready (Some (RGot [])) p # rest"] assms(2)
  by (simp add: cat_round_def cat_round_of_def cat_stdin_def relayed_def)

theorem pi_cat_relays_witness:
  "\<exists>s. pi_cat [Ready (Some (RGot [104, 105, 10])) None, Quiet False, Ready (Some (RGot [33])) (Some (RGot [111, 107, 0, 7])),
       Ready (Some (RGot [])) None] quiet_fd = Inr (Some StdinClosed, s)
     \<and> wr (cat_line s) = [104, 105, 10, 33]
     \<and> cat_shown s = [111, 107] @ bstr ''stdin is closed: assuming we are done!'' @ [10]"
  using pi_cat_relays [of "[Ready (Some (RGot [104, 105, 10])) None, Quiet False, Ready (Some (RGot [33])) (Some (RGot [111, 107, 0, 7]))]"
      quiet_fd None "[]"]
  by (simp add: relay_ok_def got_def c_text_def quiet_fd_def)

text \<open>The first version ends the same input with an error.\<close>

lemma pi_cat4_dies_at_end: "pi_cat4 [Ready (Some (RGot [])) p] f = Inl (Panic ''failed'')"
  by (simp add: pi_cat4_def cat_round4_def cat_round_of_def cat_stdin4_def sys_die_def)

text \<open>A read that fills the buffer puts the terminator behind it.\<close>

lemma pi_cat_overruns:
  assumes "length b = 4096"
  shows "pi_cat [Ready None (Some (RGot b))] f = Inl Bounds" "pi_cat [Ready (Some (RGot b)) p] f = Inl Bounds"
  using assms by (auto simp: pi_cat_def cat_round_def cat_round_of_def cat_pi_def cat_stdin_def)

text \<open>What a short write leaves out is never sent.\<close>

lemma pi_cat_short_write:
  "\<exists>s. pi_cat [Ready (Some (RGot [1, 2, 3])) None] (quiet_fd\<lparr>wr_lim := [Some 1]\<rparr>) = Inr (None, s)
     \<and> wr (cat_line s) = [1]"
  by (simp add: pi_cat_def cat_round_def cat_round_of_def cat_stdin_def os_write_def quiet_fd_def)

section \<open>The program behind -exec\<close>

lemma scan_exec_none: "bstr ''-exec'' \<notin> set args \<Longrightarrow> scan_exec pre args = Inr (pre @ args, None)"
  by (induction args arbitrary: pre) auto

lemma scan_exec_found:
  "bstr ''-exec'' \<notin> set args \<Longrightarrow> cmd \<noteq> [] \<Longrightarrow>
   scan_exec pre (args @ bstr ''-exec'' # cmd) = Inr (pre @ args, Some cmd)"
  by (induction args arbitrary: pre) auto

text \<open>
  The program that is sent and the device do not depend on what stands behind \<open>-exec\<close>, even if that
  contains \<open>-exec\<close> again.
\<close>

lemma install_exec_split:
  assumes "bstr ''-exec'' \<notin> set args" "cmd \<noteq> []"
  shows "install_args11 found (prog # args @ bstr ''-exec'' # cmd)
    = rbind (install_args found (prog # args)) (\<lambda>dp. Inr (dp, Some cmd))"
    "install_args11 found (prog # args) = rbind (install_args found (prog # args)) (\<lambda>dp. Inr (dp, None))"
  using assms by (simp_all add: install_args11_def scan_exec_found scan_exec_none)

section \<open>The two echo loops\<close>

text \<open>As long as the Pi prints and nothing is typed, the two loops are the same.\<close>

lemma boot_echo_round_eq:
  assumes "b \<noteq> []" "length b \<le> 4095"
  shows "boot_echo_round gone (echo_at (b # bs) pos out) = echo_round gone (echo_at (b # bs) pos out)"
  using assms
  by (simp add: boot_echo_round_def boot_done_def boot_remove_nonprint_def echo_round_def echo_at_def
      quiet_fd_def arrivals_def read_timeout_def can_read_timeout_def os_read_def)

lemma boot_echo_eq:
  assumes "\<forall>b \<in> set bs. b \<noteq> [] \<and> length b \<le> 4095" "pos < 8"
  shows "boot_echo (length bs) gone (echo_at bs pos out) = pi_echo_loop (length bs) gone (echo_at bs pos out)"
  using assms
proof (induction bs arbitrary: pos out)
  case (Cons b bs)
  obtain d q where q: "pi_done pos (remove_nonprint b) = Inr (d, q)" "if d then q = 8 else q < 8"
    using pi_done_total [OF Cons.prems(2), of "remove_nonprint b"] by blast
  have b: "b \<noteq> []" "length b \<le> 4095" using Cons.prems(1) by simp_all
  have "echo_round gone (echo_at (b # bs) pos out) =
      Inr (if d then Some PiExited else None, echo_at bs q (out @ remove_nonprint b))"
    using echo_round_arrival [OF b q(1)] .
  with boot_echo_round_eq [OF b, of gone bs pos out] Cons.IH [of q "out @ remove_nonprint b"] Cons.prems(1) q(2)
  show ?case by simp
qed simp

text \<open>So the first version also leaves when the Pi announces its end, having echoed everything.\<close>

lemma boot_echo_ends:
  assumes "\<forall>b \<in> set bs. b \<noteq> [] \<and> length b \<le> 4095"
    and "remove_nonprint (concat bs) = pre @ exit_string" "ch CHR ''D'' \<notin> set pre"
  shows "\<exists>s. boot_echo (length bs) gone (echo_at bs 0 []) = Inr (PiExited, s) \<and> echo_out s = pre @ exit_string"
  using pi_echo_ends [OF assms, of gone] boot_echo_eq [OF assms(1), of 0 gone "[]"]
  by (simp add: pi_echo_def echo_at_def)

end
