(* ===== verification/Tty.thy ===== *)
theory Tty
  imports Prelude
begin

text \<open>
  The terminal and the processes of the laptop side, from \<^verbatim>\<open>libunix\<close>: \<^verbatim>\<open>set-tty-8n1.c\<close>, \<^verbatim>\<open>is-pid-dead.c\<close>,
  \<^verbatim>\<open>is-fd-open.c\<close>, \<^verbatim>\<open>tty-gone.c\<close>, and \<^verbatim>\<open>open-tty.c\<close> of \<^verbatim>\<open>labs/2-bootloader\<close>. The system calls answer what
  their arguments here say.
\<close>

section \<open>The settings of the serial line\<close>

text \<open>\<open>struct termios\<close> and its flags, with the values of Linux.\<close>

record termios =
  c_iflag :: u32
  c_oflag :: u32
  c_lflag :: u32
  c_cflag :: u32
  c_vmin :: u8
  c_vtime :: u8
  c_speed :: u32

definition IGNBRK :: u32 where "IGNBRK = 0x1"
definition IXON :: u32 where "IXON = 0x400"
definition IXANY :: u32 where "IXANY = 0x800"
definition IXOFF :: u32 where "IXOFF = 0x1000"
definition OPOST :: u32 where "OPOST = 0x1"
definition PARENB :: u32 where "PARENB = 0x100"
definition CSTOPB :: u32 where "CSTOPB = 0x40"
definition CSIZE :: u32 where "CSIZE = 0x30"
definition CS8 :: u32 where "CS8 = 0x30"
definition CREAD :: u32 where "CREAD = 0x80"
definition CLOCAL :: u32 where "CLOCAL = 0x800"
definition CRTSCTS :: u32 where "CRTSCTS = 0x80000000"
definition ISIG :: u32 where "ISIG = 0x1"
definition ICANON :: u32 where "ICANON = 0x2"
definition ECHO :: u32 where "ECHO = 0x8"
definition ECHOE :: u32 where "ECHOE = 0x10"

lemmas tty_flags = IGNBRK_def IXON_def IXANY_def IXOFF_def OPOST_def PARENB_def CSTOPB_def CSIZE_def CS8_def
  CREAD_def CLOCAL_def CRTSCTS_def ISIG_def ICANON_def ECHO_def ECHOE_def

definition zero_termios :: termios where
  "zero_termios = \<lparr>c_iflag = 0, c_oflag = 0, c_lflag = 0, c_cflag = 0, c_vmin = 0, c_vtime = 0, c_speed = 0\<rparr>"

text \<open>
  \<open>get\<close> and \<open>put\<close> say whether \<open>tcgetattr\<close> and \<open>tcsetattr\<close> succeed. The speed is kept apart from the
  flags. The time limit is given in tenths of a second; \<open>(int)timeout *40\<close> cuts it off to seconds
  before the product is stored in a byte. The local modes are cleared in \<open>c_iflag\<close>, as in the source.
\<close>

definition set_tty_to_8n1 :: "bool \<Rightarrow> bool \<Rightarrow> u32 \<Rightarrow> int \<Rightarrow> termios result" where
  "set_tty_to_8n1 get put speed tenths =
     (if \<not> get then Inl (Panic ''tcgetattr failed'')
      else
        (let tty = zero_termios\<lparr>c_speed := speed\<rparr>;
             tty = tty\<lparr>c_iflag := c_iflag tty AND NOT IGNBRK, c_lflag := 0, c_oflag := 0, c_vmin := 0\<rparr>
         in rbind (c_assert (tenths < 1000 \<and> 0 < tenths) ''timeout < 100 && timeout > 0'') (\<lambda>_.
         let tty = tty\<lparr>c_vtime := word_of_int (tenths div 10 * 40)\<rparr>;
             tty = tty\<lparr>c_cflag := c_cflag tty AND NOT PARENB\<rparr>;
             tty = tty\<lparr>c_cflag := c_cflag tty AND NOT CSTOPB\<rparr>;
             tty = tty\<lparr>c_cflag := c_cflag tty AND NOT CSIZE\<rparr>;
             tty = tty\<lparr>c_cflag := c_cflag tty OR CS8\<rparr>;
             tty = tty\<lparr>c_cflag := c_cflag tty AND NOT CRTSCTS\<rparr>;
             tty = tty\<lparr>c_cflag := c_cflag tty OR CREAD OR CLOCAL\<rparr>;
             tty = tty\<lparr>c_iflag := c_iflag tty AND NOT (IXON OR IXOFF OR IXANY)\<rparr>;
             tty = tty\<lparr>c_iflag := c_iflag tty AND NOT (ICANON OR ECHO OR ECHOE OR ISIG)\<rparr>;
             tty = tty\<lparr>c_oflag := c_oflag tty AND NOT OPOST\<rparr>
         in if \<not> put then Inl (Panic ''tcsetattr failed'') else Inr tty)))"

text \<open>
  The line is raw with eight data bits, no parity and one stop bit, whatever it was before; reads
  return at once when the time limit is below a second.
\<close>

lemma set_tty_8n1_raw:
  assumes "0 < tenths" "tenths < 1000"
  shows "set_tty_to_8n1 True True speed tenths =
    Inr \<lparr>c_iflag = 0, c_oflag = 0, c_lflag = 0, c_cflag = CS8 OR CREAD OR CLOCAL, c_vmin = 0,
        c_vtime = word_of_int (tenths div 10 * 40), c_speed = speed\<rparr>"
  using assms by (simp add: set_tty_to_8n1_def zero_termios_def tty_flags Let_def)

lemma set_tty_8n1_fraction:
  assumes "0 < tenths" "tenths < 10"
  shows "\<exists>t. set_tty_to_8n1 True True speed tenths = Inr t \<and> c_vtime t = 0"
  using assms by (simp add: set_tty_8n1_raw)

text \<open>The limit of one second that every program asks for is four seconds, and seven wrap to 2.4.\<close>

lemma set_tty_8n1_seconds:
  "\<exists>t. set_tty_to_8n1 True True speed 10 = Inr t \<and> c_vtime t = 40"
  "\<exists>t. set_tty_to_8n1 True True speed 70 = Inr t \<and> c_vtime t = 24"
  by (simp_all add: set_tty_8n1_raw)

section \<open>Opening the terminal\<close>

text \<open>
  \<open>open_tty\<close> tries five times, with a pause of a second after each failure; \<open>answers\<close> is what \<open>open\<close>
  returns, negative for an error. The result counts the pauses.
\<close>

fun open_tty_loop :: "nat \<Rightarrow> int list \<Rightarrow> (int \<times> nat) result" where
  "open_tty_loop 0 answers = Inl (Panic ''couldn't open tty port'')"
| "open_tty_loop (Suc k) [] = Inl OutOfInput"
| "open_tty_loop (Suc k) (fd # r) =
     (if 0 \<le> fd then Inr (fd, 0) else rbind (open_tty_loop k r) (\<lambda>(f, n). Inr (f, Suc n)))"

definition open_tty :: "int list \<Rightarrow> (int \<times> nat) result" where
  "open_tty answers = open_tty_loop 5 answers"

lemma open_tty_loop_retries:
  "k < m \<Longrightarrow> 0 \<le> fd \<Longrightarrow> open_tty_loop m (replicate k (-1) @ fd # r) = Inr (fd, k)"
proof (induction k arbitrary: m)
  case 0
  then show ?case by (cases m) simp_all
next
  case (Suc k)
  then show ?case by (cases m) simp_all
qed

lemma open_tty_retries: "k < 5 \<Longrightarrow> 0 \<le> fd \<Longrightarrow> open_tty (replicate k (-1) @ fd # r) = Inr (fd, k)"
  by (simp add: open_tty_def open_tty_loop_retries)

lemma open_tty_gives_up: "open_tty (replicate 5 (-1)) = Inl (Panic ''couldn't open tty port'')"
  by (simp add: open_tty_def numeral_eq_Suc)

section \<open>Descriptors, files and processes\<close>

text \<open>\<open>fcntl\<close> and \<open>stat\<close> return a negative number on error.\<close>

definition fd_is_open :: "int \<Rightarrow> bool" where
  "fd_is_open fcntl_res \<longleftrightarrow> 0 \<le> fcntl_res"

definition tty_gone :: "int \<Rightarrow> bool" where
  "tty_gone stat_res \<longleftrightarrow> stat_res < 0"

definition create_file :: "int \<Rightarrow> int result" where
  "create_file open_res = (if open_res < 0 then Inl (Panic ''could not open file'') else Inr open_res)"

datatype kill_res = KillOk | KillErr int

definition EPERM :: int where "EPERM = 1"
definition ESRCH :: int where "ESRCH = 3"

definition is_pid_dead :: "kill_res \<Rightarrow> bool result" where
  "is_pid_dead r =
     (case r of
        KillOk \<Rightarrow> Inr False
      | KillErr e \<Rightarrow>
          rbind (c_demand (e \<noteq> EPERM) ''permission error'') (\<lambda>_.
          rbind (c_demand (e = ESRCH) ''failed for wrong reason'') (\<lambda>_. Inr True)))"

definition run_system :: "int \<Rightarrow> unit result" where
  "run_system res = (if res \<noteq> 0 then Inl (Panic ''system failed'') else Inr ())"

lemma is_pid_dead_iff: "is_pid_dead r = Inr True \<longleftrightarrow> r = KillErr ESRCH"
  by (auto simp: is_pid_dead_def EPERM_def ESRCH_def rbind_eq_Inr c_demand_def split: kill_res.splits)

end
