(* ===== verification/Pi_Trace.thy ===== *)
theory Pi_Trace
  imports Printk
begin

text \<open>
  The tracer of \<^verbatim>\<open>labs/3-cross-check/pi-trace/trace.c\<close>. The linker sends every call of \<open>GET32\<close>, those of the
  printing routines included, to a wrapper that reports the read by printing, which reads again.
\<close>

section \<open>The tracer\<close>

text \<open>
  The device, what has been printed, and the two static flags.
\<close>

record 'd trace_t =
  dev :: 'd
  traced :: bytes
  tracing_p :: bool
  in_trace :: bool

text \<open>
  The device, its real \<open>GET32\<close> and \<open>PUT32\<close>: a read may change it. Printing ends in \<open>uart_putc\<close>, which the
  repository has as an object file only. It is a parameter: any program of reads and writes of the
  device, where what it does next depends on the values it has read, and which may go on for ever.
\<close>

record 'd dev_ops =
  real_GET32 :: "u32 \<Rightarrow> 'd \<Rightarrow> u32 \<times> 'd"
  real_PUT32 :: "u32 \<Rightarrow> u32 \<Rightarrow> 'd \<Rightarrow> 'd"

codatatype uart = Uart_done | Uart_get u32 "u32 \<Rightarrow> uart" | Uart_put u32 u32 uart

text \<open>
  The first \<open>n\<close> accesses of such a program, for a given way to read and to write; then one program for
  each character of a text, as \<open>internal_putk\<close>, which \<open>printk\<close> calls, does.
\<close>

fun run_uart :: "nat \<Rightarrow> (u32 \<Rightarrow> 's \<Rightarrow> (u32 \<times> 's) result) \<Rightarrow> (u32 \<Rightarrow> u32 \<Rightarrow> 's \<Rightarrow> 's) \<Rightarrow> uart \<Rightarrow> 's \<Rightarrow> 's result" where
  "run_uart n get put p s =
     (case p of
        Uart_done \<Rightarrow> Inr s
      | Uart_get a f \<Rightarrow>
          (case n of 0 \<Rightarrow> Inl Diverges
           | Suc m \<Rightarrow> rbind (get a s) (\<lambda>(v, s1). run_uart m get put (f v) s1))
      | Uart_put a v q \<Rightarrow>
          (case n of 0 \<Rightarrow> Inl Diverges | Suc m \<Rightarrow> run_uart m get put q (put a v s)))"

declare run_uart.simps [simp del]

fun uart_print :: "nat \<Rightarrow> (u32 \<Rightarrow> 's \<Rightarrow> (u32 \<times> 's) result) \<Rightarrow> (u32 \<Rightarrow> u32 \<Rightarrow> 's \<Rightarrow> 's) \<Rightarrow> (u8 \<Rightarrow> uart)
    \<Rightarrow> bytes \<Rightarrow> 's \<Rightarrow> 's result" where
  "uart_print n get put putc [] s = Inr s"
| "uart_print n get put putc (c # cs) s =
     rbind (run_uart n get put (putc c) s) (uart_print n get put putc cs)"

definition trace_start :: "bool \<Rightarrow> 'd trace_t \<Rightarrow> 'd trace_t result" where
  "trace_start capture_p s =
     (if capture_p then Inl Unimplemented
      else rbind (c_demand (\<not> tracing_p s) ''trace already running!'') (\<lambda>_.
           rbind (c_demand (\<not> in_trace s) ''invalid in_trace'') (\<lambda>_. Inr (s\<lparr>tracing_p := True\<rparr>))))"

definition trace_stop :: "'d trace_t \<Rightarrow> 'd trace_t result" where
  "trace_stop s = rbind (c_demand (tracing_p s) ''trace already stopped!'') (\<lambda>_. Inr (s\<lparr>tracing_p := False\<rparr>))"

definition trace_dump :: "bool \<Rightarrow> 'd trace_t \<Rightarrow> 'd trace_t result" where
  "trace_dump reset_p s = Inl Unimplemented"

definition get32_line :: "u32 \<Rightarrow> u32 \<Rightarrow> bytes" where
  "get32_line addr v =
     [9] @ bstr ''TRACE:GET32(0x'' @ num_text 16 addr False @ bstr '')=0x'' @ num_text 16 v False @ [10]"

text \<open>
  The wrapper; \<open>k\<close> bounds the depth of its calls and \<open>n\<close> the accesses for one character. The reads of
  the printing go through the wrapper in turn, whence the flag \<open>in_trace\<close>; its writes are not wrapped.
\<close>

fun wrap_GET32 :: "nat \<Rightarrow> nat \<Rightarrow> 'd dev_ops \<Rightarrow> (u8 \<Rightarrow> uart) \<Rightarrow> u32 \<Rightarrow> 'd trace_t \<Rightarrow> (u32 \<times> 'd trace_t) result" where
  "wrap_GET32 0 n D putc addr s = Inl Diverges"
| "wrap_GET32 (Suc k) n D putc addr s =
     (let (v, d) = real_GET32 D addr (dev s); s1 = s\<lparr>dev := d\<rparr> in
      if \<not> in_trace s1 \<and> tracing_p s1 then
        rbind (uart_print n (wrap_GET32 k n D putc) (\<lambda>a w t. t\<lparr>dev := real_PUT32 D a w (dev t)\<rparr>) putc
            (get32_line addr v) (s1\<lparr>in_trace := True, traced := traced s1 @ get32_line addr v\<rparr>))
          (\<lambda>t. Inr (v, t\<lparr>in_trace := False\<rparr>))
      else Inr (v, s1))"

text \<open>The reads a program makes, in order.\<close>

fun traced_reads :: "nat \<Rightarrow> 'd dev_ops \<Rightarrow> (u8 \<Rightarrow> uart) \<Rightarrow> u32 list \<Rightarrow> 'd trace_t
    \<Rightarrow> (u32 list \<times> 'd trace_t) result" where
  "traced_reads n D putc [] s = Inr ([], s)"
| "traced_reads n D putc (a # as) s =
     rbind (wrap_GET32 2 n D putc a s) (\<lambda>(v, s1).
     rbind (traced_reads n D putc as s1) (\<lambda>(vs, s2). Inr (v # vs, s2)))"

section \<open>Every read of the program is reported, and no other\<close>

text \<open>
  The same without a tracer: the program reads the device itself, and after each read the line is
  printed with the device's own \<open>GET32\<close> and \<open>PUT32\<close>.
\<close>

definition dev_print :: "nat \<Rightarrow> 'd dev_ops \<Rightarrow> (u8 \<Rightarrow> uart) \<Rightarrow> bytes \<Rightarrow> 'd \<Rightarrow> 'd result" where
  "dev_print n D = uart_print n (\<lambda>a d. Inr (real_GET32 D a d)) (real_PUT32 D)"

fun reported_reads :: "nat \<Rightarrow> 'd dev_ops \<Rightarrow> (u8 \<Rightarrow> uart) \<Rightarrow> u32 list \<Rightarrow> 'd \<Rightarrow> (u32 list \<times> 'd) result" where
  "reported_reads n D putc [] d = Inr ([], d)"
| "reported_reads n D putc (a # as) d =
     (case real_GET32 D a d of (v, d1) \<Rightarrow>
      rbind (dev_print n D putc (get32_line a v) d1) (\<lambda>d2.
      rbind (reported_reads n D putc as d2) (\<lambda>(vs, d3). Inr (v # vs, d3))))"

text \<open>While a line is printed the wrapper only reads, so printing does what it does without a tracer.\<close>

lemma nested_get: "in_trace s \<Longrightarrow> wrap_GET32 (Suc k) n D putc a s =
    (case real_GET32 D a (dev s) of (v, d) \<Rightarrow> Inr (v, s\<lparr>dev := d\<rparr>))"
  by (simp add: case_prod_beta)

lemma run_uart_wrapped:
  assumes "in_trace s"
  shows "run_uart m (wrap_GET32 (Suc k) n D putc) (\<lambda>a w t. t\<lparr>dev := real_PUT32 D a w (dev t)\<rparr>) p s
    = rbind (run_uart m (\<lambda>a d. Inr (real_GET32 D a d)) (real_PUT32 D) p (dev s)) (\<lambda>d. Inr (s\<lparr>dev := d\<rparr>))"
  using assms
proof (induction m arbitrary: p s)
  case 0
  then show ?case
    by (subst (1 2) run_uart.simps) (auto split: uart.splits)
next
  case (Suc m)
  show ?case
  proof (cases p)
    case (Uart_get a f)
    obtain v d where g: "real_GET32 D a (dev s) = (v, d)" by fastforce
    from Suc.IH [of "s\<lparr>dev := d\<rparr>" "f v"] Suc.prems g Uart_get show ?thesis
      by (subst (1 2) run_uart.simps) (simp add: nested_get del: wrap_GET32.simps)
  next
    case (Uart_put a v q)
    from Suc.IH [of "s\<lparr>dev := real_PUT32 D a v (dev s)\<rparr>" q] Suc.prems Uart_put show ?thesis
      by (subst (1 2) run_uart.simps) (simp del: wrap_GET32.simps)
  qed (subst (1 2) run_uart.simps, simp)
qed

lemma uart_print_wrapped:
  assumes "in_trace s"
  shows "uart_print m (wrap_GET32 (Suc k) n D putc) (\<lambda>a w t. t\<lparr>dev := real_PUT32 D a w (dev t)\<rparr>) putc cs s
    = rbind (dev_print m D putc cs (dev s)) (\<lambda>d. Inr (s\<lparr>dev := d\<rparr>))"
  using assms
proof (induction cs arbitrary: s)
  case (Cons c cs)
  show ?case
  proof (cases "run_uart m (\<lambda>a d. Inr (real_GET32 D a d)) (real_PUT32 D) (putc c) (dev s)")
    case (Inr d)
    then show ?thesis using Cons.IH [of "s\<lparr>dev := d\<rparr>"] Cons.prems
      by (simp add: run_uart_wrapped dev_print_def del: wrap_GET32.simps)
  qed (simp add: run_uart_wrapped Cons.prems dev_print_def del: wrap_GET32.simps)
qed (simp add: dev_print_def)

text \<open>
  A read while tracing: two levels are enough, and the wrapper returns the value the device gave, has
  added one line, and leaves the device as printing that line does; it fails only if printing does.
\<close>

lemma wrap_GET32_traced:
  assumes "tracing_p s" "\<not> in_trace s" "real_GET32 D addr (dev s) = (v, d)"
  shows "wrap_GET32 (Suc (Suc k)) n D putc addr s =
    rbind (dev_print n D putc (get32_line addr v) d) (\<lambda>d1.
      Inr (v, s\<lparr>dev := d1, traced := traced s @ get32_line addr v\<rparr>))"
proof (cases "dev_print n D putc (get32_line addr v) d")
  case (Inr d1)
  then show ?thesis
    using assms uart_print_wrapped [of "s\<lparr>dev := d, in_trace := True, traced := traced s @ get32_line addr v\<rparr>"
        n k n D putc "get32_line addr v"]
    by (subst wrap_GET32.simps) (simp del: wrap_GET32.simps)
next
  case (Inl e)
  then show ?thesis
    using assms uart_print_wrapped [of "s\<lparr>dev := d, in_trace := True, traced := traced s @ get32_line addr v\<rparr>"
        n k n D putc "get32_line addr v"]
    by (subst wrap_GET32.simps) (simp del: wrap_GET32.simps)
qed

lemma wrap_GET32_untraced:
  "\<not> tracing_p s \<Longrightarrow> wrap_GET32 (Suc k) n D putc addr s
    = (case real_GET32 D addr (dev s) of (v, d) \<Rightarrow> Inr (v, s\<lparr>dev := d\<rparr>))"
  by (simp add: case_prod_beta)

text \<open>
  A program that is traced behaves as the one that reports its reads itself: the same values, the
  same device, the same failures; and the trace gains exactly one line per read, in order.
\<close>

lemma traced_reads_reported:
  assumes "tracing_p s" "\<not> in_trace s"
  shows "traced_reads n D putc as s = rbind (reported_reads n D putc as (dev s)) (\<lambda>(vs, d).
    Inr (vs, s\<lparr>dev := d, traced := traced s @ concat (map (\<lambda>(a, v). get32_line a v) (zip as vs))\<rparr>))"
  using assms
proof (induction as arbitrary: s)
  case (Cons a as)
  obtain v d where d: "real_GET32 D a (dev s) = (v, d)" by fastforce
  have w: "wrap_GET32 2 n D putc a s = rbind (dev_print n D putc (get32_line a v) d) (\<lambda>d1.
      Inr (v, s\<lparr>dev := d1, traced := traced s @ get32_line a v\<rparr>))"
    using wrap_GET32_traced [where k = 0, OF Cons.prems d] by (simp add: numeral_2_eq_2)
  show ?case
  proof (cases "dev_print n D putc (get32_line a v) d")
    case (Inr d1)
    let ?t = "s\<lparr>dev := d1, traced := traced s @ get32_line a v\<rparr>"
    have "tracing_p ?t" "\<not> in_trace ?t" using Cons.prems by simp_all
    from Cons.IH [OF this] w d Inr show ?thesis
      by (cases "reported_reads n D putc as d1") (auto simp del: wrap_GET32.simps)
  qed (simp add: w d del: wrap_GET32.simps)
qed simp

lemma reported_reads_length: "reported_reads n D putc as d = Inr (vs, d') \<Longrightarrow> length vs = length as"
  by (induction as arbitrary: d vs) (auto simp: rbind_eq_Inr split: prod.splits)

text \<open>\<open>prints\<close>: for every character and every state of the device, \<open>uart_putc\<close> returns within \<open>n\<close> accesses.\<close>

definition prints :: "nat \<Rightarrow> 'd dev_ops \<Rightarrow> (u8 \<Rightarrow> uart) \<Rightarrow> bool" where
  "prints n D putc \<longleftrightarrow> (\<forall>c d. \<exists>d'. run_uart n (\<lambda>a d. Inr (real_GET32 D a d)) (real_PUT32 D) (putc c) d = Inr d')"

lemma dev_print_ends: "prints n D putc \<Longrightarrow> \<exists>d'. dev_print n D putc cs d = Inr d'"
proof (induction cs arbitrary: d)
  case (Cons c cs)
  from Cons.prems obtain d1 where
    d1: "run_uart n (\<lambda>a d. Inr (real_GET32 D a d)) (real_PUT32 D) (putc c) d = Inr d1"
    unfolding prints_def by blast
  from Cons.IH [OF Cons.prems, of d1] d1 show ?case by (simp add: dev_print_def)
qed (simp add: dev_print_def)

lemma reported_reads_ends: "prints n D putc \<Longrightarrow> \<exists>vs d'. reported_reads n D putc as d = Inr (vs, d')"
proof (induction as arbitrary: d)
  case (Cons a as)
  obtain v d1 where g: "real_GET32 D a d = (v, d1)" by fastforce
  from dev_print_ends [OF Cons.prems] obtain d2 where d2: "dev_print n D putc (get32_line a v) d1 = Inr d2" by blast
  from Cons.IH [OF Cons.prems, of d2] g d2 show ?case by auto
qed simp

lemma traced_reads_lines:
  assumes "tracing_p s" "\<not> in_trace s" "prints n D putc"
  shows "\<exists>vs s1. traced_reads n D putc as s = Inr (vs, s1)
    \<and> reported_reads n D putc as (dev s) = Inr (vs, dev s1) \<and> length vs = length as
    \<and> traced s1 = traced s @ concat (map (\<lambda>(a, v). get32_line a v) (zip as vs))"
  using reported_reads_ends [OF assms(3), of as "dev s"] traced_reads_reported [OF assms(1,2), of n D putc as]
    reported_reads_length by fastforce

section \<open>Equal traces mean equal reads\<close>

text \<open>A line is read back from the front of a trace.\<close>

lemma get32_line_front:
  assumes "get32_line a v @ x = get32_line b w @ y"
  shows "a = b \<and> v = w \<and> x = y"
proof -
  have n: "41 \<notin> set (num_text 16 u False)" "10 \<notin> set (num_text 16 u False)" for u
    by (simp_all add: num_text_not)
  from assms have "num_text 16 a False @ 41 # (bstr ''=0x'' @ num_text 16 v False @ 10 # x)
      = num_text 16 b False @ 41 # (bstr ''=0x'' @ num_text 16 w False @ 10 # y)"
    by (simp add: get32_line_def bstr_def)
  from first_sep [OF this n(1) n(1)] have
    1: "num_text 16 a False = num_text 16 b False"
       "num_text 16 v False @ 10 # x = num_text 16 w False @ 10 # y" by (simp_all add: bstr_def)
  from first_sep [OF 1(2) n(2) n(2)] 1(1) show ?thesis using num_text_inj [of 16] by auto
qed

lemma get32_line_nonempty: "get32_line a v \<noteq> []"
  by (simp add: get32_line_def)

lemma get32_lines_inj:
  "concat (map (\<lambda>(a, v). get32_line a v) ps) = concat (map (\<lambda>(a, v). get32_line a v) qs) \<Longrightarrow> ps = qs"
proof (induction ps arbitrary: qs)
  case Nil
  then show ?case by (cases qs) (auto simp: get32_line_nonempty)
next
  case (Cons p ps)
  then obtain q qs' where q: "qs = q # qs'" by (cases qs) (auto simp: get32_line_nonempty split: prod.splits)
  from Cons.prems have "get32_line (fst p) (snd p) @ concat (map (\<lambda>(a, v). get32_line a v) ps)
      = get32_line (fst q) (snd q) @ concat (map (\<lambda>(a, v). get32_line a v) qs')"
    by (cases p; cases q) (simp add: q)
  from get32_line_front [OF this] Cons.IH [of qs'] show ?case by (simp add: q prod_eq_iff)
qed

text \<open>
  (C8) The reason to compare traces. Take two programs traced from the start, on devices that may
  differ and with a \<open>uart_putc\<close> that may poll and write its device in any way that depends on what it
  reads, as long as it returns. Both runs end; each program gets the values, and leaves the device, of
  reading the device without a tracer and printing its lines itself; and the two print the same trace
  exactly when they read the same addresses in the same order and got the same values. None of the
  reads that printing makes shows.
\<close>
theorem cross_check_sound:
  assumes "trace_start False s = Inr s1" "trace_start False t = Inr t1" "traced s = traced t"
    and "prints n D putc" "prints n' D' putc'"
  shows "\<exists>vs s2 ws t2. traced_reads n D putc as s1 = Inr (vs, s2)
    \<and> traced_reads n' D' putc' bs t1 = Inr (ws, t2)
    \<and> reported_reads n D putc as (dev s) = Inr (vs, dev s2)
    \<and> reported_reads n' D' putc' bs (dev t) = Inr (ws, dev t2)
    \<and> (traced s2 = traced t2 \<longleftrightarrow> as = bs \<and> vs = ws)"
proof -
  have st: "tracing_p s1" "\<not> in_trace s1" "tracing_p t1" "\<not> in_trace t1" "traced s1 = traced t1"
    "dev s1 = dev s" "dev t1 = dev t"
    using assms(1-3) by (auto simp: trace_start_def rbind_eq_Inr c_demand_def)
  from traced_reads_lines [OF st(1,2) assms(4), of as] obtain vs s2 where
    1: "traced_reads n D putc as s1 = Inr (vs, s2)" "reported_reads n D putc as (dev s) = Inr (vs, dev s2)"
      "length vs = length as" "traced s2 = traced s1 @ concat (map (\<lambda>(a, v). get32_line a v) (zip as vs))"
    using st(6) by auto
  from traced_reads_lines [OF st(3,4) assms(5), of bs] obtain ws t2 where
    2: "traced_reads n' D' putc' bs t1 = Inr (ws, t2)" "reported_reads n' D' putc' bs (dev t) = Inr (ws, dev t2)"
      "length ws = length bs" "traced t2 = traced t1 @ concat (map (\<lambda>(a, v). get32_line a v) (zip bs ws))"
    using st(7) by auto
  have "traced s2 = traced t2 \<longleftrightarrow> zip as vs = zip bs ws"
    using 1(4) 2(4) st(5) get32_lines_inj [of "zip as vs" "zip bs ws"] by auto
  also have "\<dots> \<longleftrightarrow> as = bs \<and> vs = ws" using 1(3) 2(3) by (metis map_fst_zip map_snd_zip)
  finally show ?thesis using 1(1,2) 2(1,2) by blast
qed

text \<open>
  An instance: a transmitter that is busy after each character until its status has been read once, and
  a \<open>uart_putc\<close> that polls the status until it is ready. The other device is never busy.
\<close>

primcorec poll_putc :: "u8 \<Rightarrow> uart" where
  "poll_putc c = Uart_get 0x20215054 (\<lambda>v. if v = 0 then poll_putc c else Uart_put 0x20215040 (ucast c) Uart_done)"

definition busy_dev :: "bool dev_ops" where
  "busy_dev = \<lparr>real_GET32 = \<lambda>a busy. if a = 0x20215054 then (if busy then 0 else 32, False) else (a + 1, busy),
     real_PUT32 = \<lambda>a v busy. True\<rparr>"

definition ready_dev :: "unit dev_ops" where
  "ready_dev = \<lparr>real_GET32 = \<lambda>a d. (if a = 0x20215054 then 32 else a + 1, d), real_PUT32 = \<lambda>a v d. d\<rparr>"

lemma poll_prints: "prints 3 busy_dev poll_putc" "prints 2 ready_dev poll_putc"
proof -
  have "\<exists>d'. run_uart 3 (\<lambda>a d. Inr (real_GET32 busy_dev a d)) (real_PUT32 busy_dev) (poll_putc c) d = Inr d'" for c d
    unfolding numeral_3_eq_3
    by (cases d) (simp_all add: run_uart.simps poll_putc.code [of c] busy_dev_def exI [of _ True])
  then show "prints 3 busy_dev poll_putc" by (simp add: prints_def)
  have "\<exists>d'. run_uart 2 (\<lambda>a d. Inr (real_GET32 ready_dev a d)) (real_PUT32 ready_dev) (poll_putc c) d = Inr d'" for c d
    unfolding numeral_2_eq_2 by (simp add: run_uart.simps poll_putc.code [of c] ready_dev_def)
  then show "prints 2 ready_dev poll_putc" by (simp add: prints_def)
qed

theorem cross_check_sound_witness:
  "\<exists>s2 t2. traced_reads 3 busy_dev poll_putc [16, 32]
        \<lparr>dev = False, traced = [], tracing_p = True, in_trace = False\<rparr> = Inr ([17, 33], s2)
      \<and> traced_reads 2 ready_dev poll_putc [16, 32]
        \<lparr>dev = (), traced = [], tracing_p = True, in_trace = False\<rparr> = Inr ([17, 33], t2)
      \<and> traced s2 = traced t2"
proof -
  let ?s = "\<lparr>dev = False, traced = [], tracing_p = False, in_trace = False\<rparr>"
  let ?t = "\<lparr>dev = (), traced = [], tracing_p = False, in_trace = False\<rparr>"
  have st: "trace_start False ?s = Inr (?s\<lparr>tracing_p := True\<rparr>)" "trace_start False ?t = Inr (?t\<lparr>tracing_p := True\<rparr>)"
    by (simp_all add: trace_start_def c_demand_def)
  have r1: "vs = [17, 33]" if "reported_reads 3 busy_dev poll_putc [16, 32] d = Inr (vs, d')" for vs d d'
    using that by (auto simp: rbind_eq_Inr busy_dev_def)
  have r2: "ws = [17, 33]" if "reported_reads 2 ready_dev poll_putc [16, 32] d = Inr (ws, d')" for ws d d'
    using that by (auto simp: rbind_eq_Inr ready_dev_def)
  have "traced ?s = traced ?t" by simp
  from cross_check_sound [OF st this poll_prints, of "[16, 32]" "[16, 32]"] obtain vs s2 ws t2 where
    w: "traced_reads 3 busy_dev poll_putc [16, 32] (?s\<lparr>tracing_p := True\<rparr>) = Inr (vs, s2)"
    "traced_reads 2 ready_dev poll_putc [16, 32] (?t\<lparr>tracing_p := True\<rparr>) = Inr (ws, t2)"
    "reported_reads 3 busy_dev poll_putc [16, 32] (dev ?s) = Inr (vs, dev s2)"
    "reported_reads 2 ready_dev poll_putc [16, 32] (dev ?t) = Inr (ws, dev t2)"
    "traced s2 = traced t2 \<longleftrightarrow> [16, 32] = ([16, 32] :: u32 list) \<and> vs = ws" by blast
  have "vs = [17, 33]" "ws = [17, 33]" using r1 [OF w(3)] r2 [OF w(4)] by simp_all
  with w(1,2,5) show ?thesis by simp
qed

end
