(* ===== verification/Dump.thy ===== *)
theory Dump
  imports Printk Fat32 Mmu Libc
begin

text \<open>
  What the FAT32 driver and the memory management code print about their structures:
  \<^verbatim>\<open>fat32-helpers.c\<close>, \<^verbatim>\<open>mbr-helpers.c\<close> and the listing of \<^verbatim>\<open>driver.c\<close> in \<^verbatim>\<open>labs/13-fat32/1-code\<close>, and
  \<^verbatim>\<open>mmu-helpers.c\<close> in \<^verbatim>\<open>labs/15-vm-ops\<close>. The text goes through the model of \<open>printk\<close> to a console that
  keeps what it was sent.
\<close>

section \<open>Printing\<close>

definition line_console :: "bytes console" where
  "line_console = \<lparr>rpi_putchar = \<lambda>c sent. sent @ [c], putk_fp = None\<rparr>"

definition say :: "bytes \<Rightarrow> va list \<Rightarrow> bytes \<Rightarrow> bytes result" where
  "say fmt args sent = rbind (printk line_console (cstring fmt []) args sent) (\<lambda>(_, t). Inr t)"

text \<open>A sequence of calls.\<close>

fun says :: "(bytes \<times> va list) list \<Rightarrow> bytes \<Rightarrow> bytes result" where
  "says [] t = Inr t"
| "says ((fmt, args) # r) t = rbind (say fmt args t) (says r)"

definition ln :: "string \<Rightarrow> bytes" where "ln s = bstr s @ [10]"
definition tln :: "string \<Rightarrow> bytes" where "tln s = [9] @ bstr s @ [10]"

section \<open>General dumps\<close>

fun chars_loop :: "nat \<Rightarrow> bytes \<Rightarrow> bytes \<Rightarrow> bytes result" where
  "chars_loop 0 p t = Inr t"
| "chars_loop (Suc k) [] t = Inl Bounds"
| "chars_loop (Suc k) (c # p) t = rbind (say (bstr ''%c'') [VInt (ucast c)] t) (chars_loop k p)"

definition print_as_string :: "bytes \<Rightarrow> bytes \<Rightarrow> int \<Rightarrow> bytes \<Rightarrow> bytes result" where
  "print_as_string msg p n t =
     rbind (say (ln ''%s'') [VStr msg] t) (\<lambda>t1.
     rbind (chars_loop (nat n) p t1) (\<lambda>t2. say [10] [] t2))"

text \<open>The loop of \<open>print_bytes\<close> and \<open>print_words\<close>: sixteen to a row.\<close>

fun rows_loop :: "bytes \<Rightarrow> nat \<Rightarrow> nat \<Rightarrow> u32 list \<Rightarrow> bytes \<Rightarrow> bytes result" where
  "rows_loop fmt 0 i p t = Inr t"
| "rows_loop fmt (Suc k) i p t =
     rbind (if i mod 16 = 0 then say [10, 9] [] t else Inr t) (\<lambda>t1.
     rbind (arr_get p i) (\<lambda>v.
     rbind (say fmt [VInt v] t1) (rows_loop fmt k (i + 1) p)))"

definition print_bytes :: "bytes \<Rightarrow> bytes \<Rightarrow> int \<Rightarrow> bytes \<Rightarrow> bytes result" where
  "print_bytes msg p n t =
     rbind (say (ln ''%s'') [VStr msg] t) (\<lambda>t1.
     rbind (rows_loop (bstr ''%x, '') (nat n) 0 (map ucast p) t1) (\<lambda>t2. say [10] [] t2))"

definition print_words :: "bytes \<Rightarrow> u32 list \<Rightarrow> int \<Rightarrow> bytes \<Rightarrow> bytes result" where
  "print_words msg p n t =
     rbind (say (ln ''%s'') [VStr msg] t) (\<lambda>t1.
     rbind (rows_loop (bstr ''0x%x, '') (nat n) 0 p t1) (\<lambda>t2. say [10] [] t2))"

section \<open>FAT32 structures\<close>

definition fnum :: "layout \<Rightarrow> bytes \<Rightarrow> string \<Rightarrow> va list" where
  "fnum l b f = [VInt (of_nat (num_field l f b))]"

text \<open>The string a \<open>%s\<close> is given: the memory from the field on, to the end of the sector.\<close>

definition field_ptr :: "layout \<Rightarrow> string \<Rightarrow> bytes \<Rightarrow> bytes" where
  "field_ptr l f b = (case field_off l f of None \<Rightarrow> [] | Some (off, _) \<Rightarrow> drop off b)"

definition fat32_volume_id_print :: "bytes \<Rightarrow> bytes \<Rightarrow> bytes \<Rightarrow> bytes result" where
  "fat32_volume_id_print msg b t =
     (let n = fnum boot_sec_layout b in
      rbind (says
        [(ln ''%s:'', [VStr msg]),
         (tln ''oem               = <%s>'', [VStr (cstring (field boot_sec_layout ''oem'' b) [])]),
         (tln ''bytes_per_sec     = %d'', n ''bytes_per_sec''),
         (tln ''sec_per_cluster   = %d'', n ''sec_per_cluster''),
         (tln ''reserved size     = %d'', n ''reserved_area_nsec''),
         (tln ''nfats             = %d'', n ''nfats''),
         (tln ''max_files         = %d'', n ''max_files''),
         (tln ''fs n sectors      = %d'', n ''fs_nsec''),
         (tln ''media type        = %x'', n ''media_type''),
         (tln ''sec per track     = %d'', n ''sec_per_track''),
         (tln ''n heads           = %d'', n ''n_heads''),
         (tln ''n hidden secs     = %d'', n ''hidden_secs''),
         (tln ''n nsec in FS      = %d'', n ''nsec_in_fs''),
         (tln ''n nsec per fat    = %d'', n ''nsec_per_fat''),
         (tln ''n mirror flags    = %b'', n ''mirror_flags''),
         (tln ''n version         = %d'', n ''version''),
         (tln ''n first_cluster   = %d'', n ''first_cluster''),
         (tln ''n info_sec_num    = %d'', n ''info_sec_num''),
         (tln ''n back_boot_loc   = %d'', n ''backup_boot_loc''),
         (tln ''n logical_drive_num= %d'', n ''logical_drive_num''),
         (tln ''n extended sig    = %x'', n ''extended_sig''),
         (tln ''n serial_num      = %x'', n ''serial_num''),
         (tln ''n volume label    = <%s>'', [VStr (field_ptr boot_sec_layout ''volume_label'' b)]),
         (tln ''n fs_type         = <%s>'', [VStr (field_ptr boot_sec_layout ''fs_type'' b)]),
         (tln ''n sig             = %x'', n ''sig'')] t) (\<lambda>t1.
      rbind (fat32_volume_id_check b) (\<lambda>_. Inr t1)))"

definition fat32_fsinfo_print :: "bytes \<Rightarrow> bytes \<Rightarrow> bytes \<Rightarrow> bytes result" where
  "fat32_fsinfo_print msg f t =
     (let n = fnum fsinfo_layout f in
      says
        [(ln ''%s:'', [VStr msg]),
         (tln ''sig1              = %x'', n ''sig1''),
         (tln ''sig2              = %x'', n ''sig2''),
         (tln ''sig3              = %x'', n ''sig3''),
         (tln ''free cluster cnt  = %d'', n ''free_cluster_count''),
         (tln ''next free cluster = %x'', n ''next_free_cluster'')] t)"

definition mbr_partition_print :: "bytes \<Rightarrow> bytes \<Rightarrow> bytes \<Rightarrow> bytes result" where
  "mbr_partition_print msg p t =
     (let n = fnum partition_layout p; ty = num_field partition_layout ''part_type'' p;
          ns = num_field partition_layout ''nsec'' p in
      rbind (says
        [(ln ''%s:'', [VStr msg]),
         (tln ''bootable  = %s'', [VStr (cstring (bstr (if num_field partition_layout ''bootable_p'' p \<noteq> 0 then ''true'' else ''false'')) [])]),
         (tln ''chs_start = %x'', n ''chs_start'')] t) (\<lambda>t1.
      rbind (mbr_part_str ty) (\<lambda>s.
      rbind (says
        [(tln ''part type = %x (%s)'', n ''part_type'' @ [VStr (cstring (bstr s) [])]),
         (tln ''chs_end   = %x'', n ''chs_end''),
         (tln ''lba_start = %x'', n ''lba_start''),
         (tln ''nsector=   = %d (%dGB)'', [VInt (of_nat ns), VInt (of_nat (ns div (2 * 1024 * 1024)))])] t1) (\<lambda>t2.
      rbind (c_assert (ty = 0xb \<or> ty = 0xc) ''p->part_type == 0xb || p->part_type == 0xc'') (\<lambda>_. Inr t2)))))"

section \<open>Directory entries\<close>

definition add_nul :: "bytes \<Rightarrow> bytes" where
  "add_nul filename = take 11 filename @ [0]"

fun name_bytes_loop :: "nat \<Rightarrow> bytes \<Rightarrow> bytes \<Rightarrow> bytes result" where
  "name_bytes_loop i [] t = Inr t"
| "name_bytes_loop i (c # r) t =
     rbind (if i = 8 then says [([10], []), ([9, 9, 9, 9], [])] t else Inr t) (\<lambda>t1.
     rbind (say (bstr '''' @ [39] @ bstr ''%c'' @ [39] @ bstr ''/%x,'') [VInt (ucast c), VInt (ucast c)] t1)
       (name_bytes_loop (i + 1) r))"

definition attr_flag :: "nat \<Rightarrow> nat \<Rightarrow> bytes \<Rightarrow> bytes \<Rightarrow> bytes result" where
  "attr_flag attr m s t = (if attr AND m \<noteq> 0 then say (s @ [10]) [] t else Inr t)"

definition dirent_fields_print :: "bytes \<Rightarrow> bytes \<Rightarrow> bytes \<Rightarrow> bytes result" where
  "dirent_fields_print d name83 t =
     (let n = fnum dir_layout d; attr = dir_attr d in
      rbind (says
        [([10], []),
         (tln ''filename      = raw=<%s> 8.3=<%s>'', [VStr (add_nul (dir_filename d)), VStr name83]),
         ([9] @ bstr ''byte version  = {'', [])] t) (\<lambda>t1.
      rbind (name_bytes_loop 0 (dir_filename d) t1) (\<lambda>t2.
      rbind (says [(ln ''}'', []), ([9] @ bstr ''attr         = %x '', n ''attr'')] t2) (\<lambda>t3.
      rbind (if attr \<noteq> FAT32_LONG_FILE_NAME then
               rbind (attr_flag attr FAT32_RO (bstr '' [Read-only]'') t3) (\<lambda>t4.
               rbind (attr_flag attr FAT32_HIDDEN (bstr '' [HIDDEN]'') t4) (\<lambda>t5.
               rbind (attr_flag attr FAT32_SYSTEM_FILE (bstr '' [SYSTEM FILE: don'' @ [39] @ bstr ''t move]'') t5) (\<lambda>t6.
                 say [10] [] t6)))
             else Inr t3) (\<lambda>t7.
        says
          [(tln ''hi_start      = %x'', n ''hi_start''),
           (tln ''lo_start      = %d'', n ''lo_start''),
           (tln ''file_nbytes   = %d'', n ''file_nbytes'')] t7)))))"

text \<open>
  The helper with its text. An attribute it does not know is printed and does not stop it: the test
  behind the message asks again for the flag that was just found missing.
\<close>

definition fat32_dirent_dump :: "bytes \<Rightarrow> bytes \<Rightarrow> bytes result" where
  "fat32_dirent_dump d t =
     rbind (fat32_dirent_free d) (\<lambda>fr.
     if fr then say (tln ''dirent is not allocated'') [] t
     else if dir_attr d = FAT32_LONG_FILE_NAME then say (tln ''dirent is an LFN'') [] t
     else
       rbind (if fat32_is_attr (dir_attr d) FAT32_ARCHIVE then say (bstr ''[ARCHIVE]: asssuming short part of LFN:'') [] t
              else if \<not> fat32_is_attr (dir_attr d) FAT32_DIR then
                rbind (fat32_dir_attr_str (dir_attr d)) (\<lambda>s.
                  say (ln ''need to handle attr %x (%s)'') (fnum dir_layout d ''attr'' @ [VStr (cstring (bstr s) [])]) t)
              else Inr t) (\<lambda>t1.
       rbind (to_8dot3 (dir_filename d)) (\<lambda>nm. dirent_fields_print d nm t1)))"

definition fat32_dirent_print :: "bytes \<Rightarrow> bytes \<Rightarrow> bytes \<Rightarrow> bytes result" where
  "fat32_dirent_print msg d t = rbind (say (bstr ''%s: '') [VStr msg] t) (fat32_dirent_dump d)"

definition dirent_print :: "dirent_t \<Rightarrow> bytes \<Rightarrow> bytes result" where
  "dirent_print e t =
     says [(bstr ''%s'' @ [9, 9] @ bstr ''->'' @ tln ''cluster id=%d, type=%s, nbytes=%d'',
       [VStr (de_name e), VInt (cluster_id e),
        VStr (cstring (bstr (if is_dir_p e then ''dir'' else ''file'')) []), VInt (of_nat (de_nbytes e))])] t"

text \<open>The two listings of the driver: the entries as they are, and those in use as the driver keeps them.\<close>

fun list_entries :: "nat \<Rightarrow> bytes list \<Rightarrow> bytes \<Rightarrow> bytes result" where
  "list_entries i [] t = Inr t"
| "list_entries i (d # ds) t =
     rbind (fat32_dirent_free d) (\<lambda>fr.
     rbind (if fr then Inr t
            else if fat32_dirent_is_lfn d then say (ln ''dir[%d]: is an lfn'') [VInt (of_nat i)] t
            else rbind (say (bstr ''dir %d is not free!:'') [VInt (of_nat i)] t) (fat32_dirent_print [0] d))
       (list_entries (i + 1) ds))"

fun list_dirents :: "nat \<Rightarrow> bytes list \<Rightarrow> bytes \<Rightarrow> bytes result" where
  "list_dirents i [] t = Inr t"
| "list_dirents i (d # ds) t =
     rbind (fat32_dirent_free d) (\<lambda>fr.
     rbind (if fr \<or> fat32_dirent_is_lfn d then Inr t
            else rbind (fat32_dirent_convert d) (\<lambda>e.
              rbind (say ([9] @ bstr ''%d: '') [VInt (of_nat i)] t) (dirent_print e)))
       (list_dirents (i + 1) ds))"

section \<open>Memory management\<close>

definition hash_print :: "bytes \<Rightarrow> bytes \<Rightarrow> u32 \<Rightarrow> bytes \<Rightarrow> bytes result" where
  "hash_print msg p n t =
     rbind (fast_hash (Some p) n) (\<lambda>h. say (ln ''HASH:%s: hash=%x,nbytes=%d'') [VStr msg, VInt h, VInt n] t)"

definition domain_acl_print :: "cp15_t \<Rightarrow> bytes \<Rightarrow> bytes result" where
  "domain_acl_print s t = says [(ln ''domain access control:'', []), (tln ''%b'', [VInt (read_domain_access_ctrl s)])] t"

definition print_field :: "bf_layout \<Rightarrow> u32 \<Rightarrow> string \<Rightarrow> bytes \<Rightarrow> bytes result" where
  "print_field T x f t =
     (let v = get_field T f x in
      rbind (say ([9] @ bstr ''0b%b'' @ [9] @ bstr ''= %s'' @ [10]) [VInt v, VStr (cstring (bstr f) [])] t) (\<lambda>t1.
        if 8 < v then say (tln ''0x%x'') [VInt v] t1 else Inr t1))"

fun print_fields :: "bf_layout \<Rightarrow> u32 \<Rightarrow> string list \<Rightarrow> bytes \<Rightarrow> bytes result" where
  "print_fields T x [] t = Inr t"
| "print_fields T x (f # fs) t = rbind (print_field T x f t) (print_fields T x fs)"

definition control_reg1_shown :: "string list" where
  "control_reg1_shown =
     [''FA_force_ap'', ''TR_tex_remap'', ''L2_enabled'', ''EE'', ''VE_vect_int'', ''XP_pt'', ''U_unaligned'',
      ''F1'', ''RR_cache_rep'', ''I_icache_enable'', ''Z_branch_pred'', ''R_rom_prot'', ''S_prot'', ''B_endian'',
      ''W_write_buf'', ''C_unified_enable'', ''A_alignment'', ''MMU_enabled'']"

definition control_reg1_print :: "u32 \<Rightarrow> bytes \<Rightarrow> bytes result" where
  "control_reg1_print r t =
     rbind (control_reg1_sanity_check r) (\<lambda>_.
     rbind (say (ln ''system control reg='') [] t) (print_fields control_reg1 r control_reg1_shown))"

definition tlb_config_print :: "u32 \<Rightarrow> bytes \<Rightarrow> bytes result" where
  "tlb_config_print c t =
     (let g = \<lambda>f. [VInt (get_field tlb_config f c)] in
      says [(ln ''TLB config:'', []), (tln ''unified=%d'', g ''unified_p''),
            (tln ''lockable data ent=%d'', g ''n_d_lock''), (tln ''lockable inst ent=%d'', g ''n_i_lock'')] t)"

text \<open>\<open>at\<close> is the address of the descriptor.\<close>

definition fld_print :: "u32 \<Rightarrow> u32 \<Rightarrow> bytes \<Rightarrow> bytes result" where
  "fld_print at f t =
     rbind (says [(ln ''------------------------------'', []), (ln ''0x%x:'', [VInt at])] t) (\<lambda>t1.
     rbind (print_field fld_t f ''sec_base_addr'' t1) (\<lambda>t2.
     rbind (says [(tln ''  --> va=0x%8x'', [VInt (push_bit 20 (get_field fld_t ''sec_base_addr'' f))]),
                  (tln ''           76543210'', [])] t2) (\<lambda>t3.
     rbind (print_fields fld_t f
              [''nG'', ''S'', ''APX'', ''TEX'', ''AP'', ''IMP'', ''domain'', ''XN'', ''C'', ''B'', ''tag''] t3) (\<lambda>t4.
     rbind (fld_check_valid f) (\<lambda>_. Inr t4)))))"

section \<open>What a call prints\<close>

lemma internal_putk_line: "no_nul t \<Longrightarrow> internal_putk (\<lambda>c sent. sent @ [c]) (cstring t r) s = Inr (s @ t)"
  by (induction t arbitrary: s) (simp_all add: cstring_def no_nul_def)

lemma say_eq:
  assumes "va_printk_loop 1023 [] (cstring fmt []) args = Inr out" "no_nul out"
  shows "say fmt args t = Inr (t @ out)"
  using assms internal_putk_line [of out "[]" t]
  by (simp add: say_def printk_def va_printk_def putk_def line_console_def cstring_def)

lemma loop_end: "va_printk_loop lim out (0 # f) args = Inr out"
  by (simp add: va_printk_loop.simps)

lemma loop_lit:
  "length out + length s \<le> lim \<Longrightarrow> no_nul s \<Longrightarrow> 37 \<notin> set s \<Longrightarrow>
   va_printk_loop lim out (s @ f) args = va_printk_loop lim (out @ s) f args"
proof (induction s arbitrary: out)
  case (Cons c s)
  have "va_printk_loop lim out (c # s @ f) args = va_printk_loop lim (out @ [c]) (s @ f) args"
    using Cons.prems by (simp add: va_printk_loop.simps ch_def no_nul_def)
  then show ?case using Cons.IH [of "out @ [c]"] Cons.prems by (simp add: no_nul_def)
qed simp

lemma copy_all:
  "length out + length s \<le> lim \<Longrightarrow> no_nul s \<Longrightarrow> copy_str lim out (cstring s r) = Inr (out @ s)"
  by (induction s arbitrary: out) (auto simp: cstring_def no_nul_def)

text \<open>The conversions of a word without a width, by letter.\<close>

fun conv_text :: "char \<Rightarrow> u32 \<Rightarrow> bytes" where
  "conv_text c v = (if c = CHR ''x'' then num_text 16 v False else if c = CHR ''b'' then num_text 2 v False
     else num_text 10 v True)"

lemma loop_num:
  assumes "length out + 33 \<le> lim" "c = CHR ''x'' \<or> c = CHR ''b'' \<or> c = CHR ''d''"
  shows "va_printk_loop lim out (37 # ch c # f) (VInt v # args) = va_printk_loop lim (out @ conv_text c v) f args"
proof -
  have p: "parse_width (ch c # f) 0 = (0, ch c # f)" using assms(2) by (auto simp: isdigit_def ch_def)
  have ne: "ch c \<noteq> ch CHR ''%''" using assms(2) by (auto simp: ch_def)
  have cv: "convert (ch c) 0 (VInt v # args) = Inr (cstring (conv_text c v) [], args)"
    using assms(2) emit_num [of 16 0 v False] emit_num [of 2 0 v False] emit_num [of 10 0 v True]
    by (auto simp: convert_def ch_def blanks_def)
  have n: "no_nul (conv_text c v)" "length (conv_text c v) \<le> 33"
    using assms(2) num_text_props by auto
  have "va_printk_loop lim out (37 # ch c # f) (VInt v # args) =
      rbind (convert (ch c) 0 (VInt v # args)) (\<lambda>(s, args'). rbind (copy_str lim out s) (\<lambda>out'. va_printk_loop lim out' f args'))"
    using va_printk_loop_conv [OF p, of out lim "VInt v # args"] ne assms(1) by (simp add: ch_def)
  then show ?thesis using cv n assms(1) by (simp add: copy_all del: conv_text.simps)
qed

lemma conv_text_chars:
  assumes "c = CHR ''x'' \<or> c = CHR ''b'' \<or> c = CHR ''d''"
  shows "no_nul (conv_text c v)" "length (conv_text c v) \<le> 33"
  using assms num_text_props by auto

text \<open>A format with one number in it.\<close>

lemma say_num:
  assumes "c = CHR ''x'' \<or> c = CHR ''b'' \<or> c = CHR ''d''"
    and "no_nul a" "no_nul b" "37 \<notin> set a" "37 \<notin> set b" "length a + length b < 900"
  shows "say (a @ 37 # ch c # b) [VInt v] t = Inr (t @ a @ conv_text c v @ b)"
proof -
  note n = conv_text_chars [OF assms(1), of v]
  have "va_printk_loop 1023 [] (cstring (a @ 37 # ch c # b) []) [VInt v] = Inr (a @ conv_text c v @ b)"
    using assms n loop_lit [of "[]" a 1023 "37 # ch c # b @ [0]" "[VInt v]"]
      loop_num [of a 1023 c "b @ [0]" v "[]"] loop_lit [of "a @ conv_text c v" b 1023 "[0]" "[]"]
    by (simp add: cstring_def loop_end del: conv_text.simps)
  moreover have "no_nul (a @ conv_text c v @ b)" using assms n by (simp add: no_nul_def del: conv_text.simps)
  ultimately show ?thesis by (rule say_eq)
qed

lemma say_lit:
  assumes "no_nul a" "37 \<notin> set a" "length a < 1000"
  shows "say a [] t = Inr (t @ a)"
  using say_eq [of a "[]" a t] loop_lit [of "[]" a 1023 "[0]" "[]"] assms by (simp add: cstring_def loop_end)

lemma loop_str:
  assumes "length out + length s \<le> lim" "no_nul s" "length out < lim"
  shows "va_printk_loop lim out (37 # 115 # f) (VStr (cstring s r) # args) = va_printk_loop lim (out @ s) f args"
proof -
  have p: "parse_width (ch CHR ''s'' # f) 0 = (0, ch CHR ''s'' # f)" by (simp add: isdigit_def ch_def)
  have "convert (ch CHR ''s'') 0 (VStr (cstring s r) # args) = Inr (cstring s r, args)"
    by (simp add: convert_def ch_def)
  then show ?thesis
    using va_printk_loop_conv [OF p, of out lim "VStr (cstring s r) # args"] assms
    by (simp add: ch_def copy_all)
qed

text \<open>The heading of a dump.\<close>

lemma say_msg:
  assumes "no_nul m" "length m < 900"
  shows "say (ln ''%s'') [VStr (cstring m r)] t = Inr (t @ m @ [10])"
proof -
  have "va_printk_loop 1023 [] (cstring (ln ''%s'') []) [VStr (cstring m r)] = Inr (m @ [10])"
    using assms loop_str [of "[]" m 1023 "[10, 0]" r "[]"] loop_lit [of m "[10]" 1023 "[0]" "[]"]
    by (simp add: cstring_def ln_def bstr_def loop_end no_nul_def)
  then show ?thesis using assms(1) by (intro say_eq) (simp_all add: no_nul_def)
qed

section \<open>Dumps of memory show it all\<close>

fun rows_text :: "bytes \<Rightarrow> nat \<Rightarrow> u32 list \<Rightarrow> bytes" where
  "rows_text a i [] = []"
| "rows_text a i (w # ws) =
     (if i mod 16 = 0 then [10, 9] else []) @ a @ num_text 16 w False @ [44, 32] @ rows_text a (i + 1) ws"

lemma rows_loop_text:
  assumes "no_nul a" "37 \<notin> set a" "length a < 800"
  shows "k + i = length p \<Longrightarrow>
    rows_loop (a @ bstr ''%x, '') k i p t = Inr (t @ rows_text a i (drop i p))"
proof (induction k arbitrary: i t)
  case (Suc k)
  have f: "say (a @ bstr ''%x, '') [VInt v] t = Inr (t @ a @ num_text 16 v False @ [44, 32])" for v t
    using say_num [of "CHR ''x''" a "[44, 32]" v t] assms by (simp add: bstr_def ch_def no_nul_def)
  have r: "say [10, 9] [] t = Inr (t @ [10, 9])" for t by (rule say_lit) (simp_all add: no_nul_def)
  have d: "drop i p = p ! i # drop (Suc i) p" using Suc.prems by (simp add: Cons_nth_drop_Suc)
  show ?case using Suc.prems Suc.IH [of "Suc i"] by (simp add: f r d)
qed simp

lemma print_words_text:
  assumes "no_nul m" "length m < 900"
  shows "print_words (cstring m r) ws (int (length ws)) t = Inr (t @ m @ [10] @ rows_text (bstr ''0x'') 0 ws @ [10])"
proof -
  have "rows_loop (bstr ''0x%x, '') (length ws) 0 ws u = Inr (u @ rows_text (bstr ''0x'') 0 ws)" for u
    using rows_loop_text [of "bstr ''0x''" "length ws" 0 ws u] by (simp add: bstr_def no_nul_def)
  moreover have "say [10] [] u = Inr (u @ [10])" for u by (rule say_lit) (simp_all add: no_nul_def)
  ultimately show ?thesis using say_msg [OF assms] by (simp add: print_words_def)
qed

lemma rows_text_inj:
  assumes "rows_text a i ws @ [10] = rows_text a i vs @ [10]" "44 \<notin> set a"
  shows "ws = vs"
  using assms(1)
proof (induction ws arbitrary: i vs)
  case Nil
  then show ?case using assms(2) by (cases vs) (auto split: if_splits)
next
  case (Cons w ws)
  then obtain v vs' where vs: "vs = v # vs'"
    by (cases vs) (auto split: if_splits)
  let ?h = "if i mod 16 = 0 then [10, 9] else [] :: bytes"
  have "num_text 16 w False @ 44 # (32 # rows_text a (i + 1) ws @ [10])
      = num_text 16 v False @ 44 # (32 # rows_text a (i + 1) vs' @ [10])"
    using Cons.prems by (simp add: vs split: if_splits)
  from first_sep [OF this] have "num_text 16 w False = num_text 16 v False"
      "rows_text a (i + 1) ws @ [10] = rows_text a (i + 1) vs' @ [10]"
    by (simp_all add: num_text_not)
  then show ?case using Cons.IH [of "i + 1" vs'] num_text_inj [of 16 w v] by (simp add: vs)
qed

text \<open>
  Two dumps under the same heading are the same text exactly when the memory is the same.
\<close>
lemma print_words_faithful:
  assumes "no_nul m" "length m < 900"
  shows "print_words (cstring m r) ws (int (length ws)) t = print_words (cstring m r) vs (int (length vs)) t \<longleftrightarrow> ws = vs"
  using rows_text_inj [of "bstr ''0x''" 0 ws vs] by (auto simp: print_words_text [OF assms] bstr_def)

lemma print_bytes_faithful:
  assumes "no_nul m" "length m < 900"
  shows "print_bytes (cstring m r) p (int (length p)) t = print_bytes (cstring m r) q (int (length q)) t \<longleftrightarrow> p = q"
proof -
  have x: "rows_loop (bstr ''%x, '') (length (map ucast p)) 0 (map ucast p) u
      = Inr (u @ rows_text [] 0 (map ucast p))" for u and p :: bytes
    using rows_loop_text [of "[]" "length p" 0 "map ucast p" u] by (simp add: no_nul_def)
  have "say [10] [] u = Inr (u @ [10])" for u by (rule say_lit) (simp_all add: no_nul_def)
  then have e: "print_bytes (cstring m r) p (int (length p)) t = Inr (t @ m @ [10] @ rows_text [] 0 (map ucast p) @ [10])" for p
    using say_msg [OF assms] x [of p] by (simp add: print_bytes_def)
  have "inj (ucast :: u8 \<Rightarrow> u32)" 
  proof (rule injI)
    fix x y :: u8
    assume "(ucast x :: u32) = ucast y"
    moreover have "unat (ucast z :: u32) = unat z" for z :: u8
    proof -
      have "unat z < 256" using unsigned_less [of z] by simp
      then show ?thesis by (simp add: unsigned_ucast_eq take_bit_nat_eq_self)
    qed
    ultimately show "x = y" by (metis word_unat_eq_iff)
  qed
  then show ?thesis
    using rows_text_inj [of "[]" 0 "map ucast p" "map ucast q"] by (auto simp: e inj_map_eq_map)
qed

section \<open>The control register\<close>

definition field_line :: "string \<Rightarrow> u32 \<Rightarrow> bytes" where
  "field_line f v = [9, 48, 98] @ num_text 2 v False @ [9, 61, 32] @ bstr f @ [10]
     @ (if 8 < v then [9, 48, 120] @ num_text 16 v False @ [10] else [])"

definition name_ok :: "string \<Rightarrow> bool" where
  "name_ok f \<longleftrightarrow> no_nul (bstr f) \<and> length f < 100"

lemma print_field_text:
  assumes "name_ok f"
  shows "print_field T x f t = Inr (t @ field_line f (get_field T f x))"
proof -
  let ?v = "get_field T f x"
  have n: "no_nul (num_text 2 ?v False)" "length (num_text 2 ?v False) \<le> 33" using num_text_props by auto
  have f: "no_nul (bstr f)" "length (bstr f) < 100" using assms by (simp_all add: name_ok_def bstr_def)
  have "va_printk_loop 1023 [] (cstring ([9] @ bstr ''0b%b'' @ [9] @ bstr ''= %s'' @ [10]) []) [VInt ?v, VStr (cstring (bstr f) [])]
      = Inr ([9, 48, 98] @ num_text 2 ?v False @ [9, 61, 32] @ bstr f @ [10])"
    using n f loop_lit [of "[]" "[9, 48, 98]" 1023 "37 # ch CHR ''b'' # [9, 61, 32, 37, 115, 10, 0]" "[VInt ?v, VStr (cstring (bstr f) [])]"]
      loop_num [of "[9, 48, 98]" 1023 "CHR ''b''" "[9, 61, 32, 37, 115, 10, 0]" ?v "[VStr (cstring (bstr f) [])]"]
      loop_lit [of "[9, 48, 98] @ num_text 2 ?v False" "[9, 61, 32]" 1023 "37 # 115 # [10, 0]" "[VStr (cstring (bstr f) [])]"]
      loop_str [of "[9, 48, 98] @ num_text 2 ?v False @ [9, 61, 32]" "bstr f" 1023 "[10, 0]" "[]" "[]"]
      loop_lit [of "[9, 48, 98] @ num_text 2 ?v False @ [9, 61, 32] @ bstr f" "[10]" 1023 "[0]" "[]"]
    by (simp add: cstring_def bstr_def ch_def no_nul_def loop_end)
  moreover have "no_nul ([9, 48, 98] @ num_text 2 ?v False @ [9, 61, 32] @ bstr f @ [10])"
    using n f by (simp add: no_nul_def)
  ultimately have 1: "say ([9] @ bstr ''0b%b'' @ [9] @ bstr ''= %s'' @ [10]) [VInt ?v, VStr (cstring (bstr f) [])] t
      = Inr (t @ [9, 48, 98] @ num_text 2 ?v False @ [9, 61, 32] @ bstr f @ [10])" for t
    by (rule say_eq)
  have 2: "say (tln ''0x%x'') [VInt ?v] t = Inr (t @ [9, 48, 120] @ num_text 16 ?v False @ [10])" for t
    using say_num [of "CHR ''x''" "[9, 48, 120]" "[10]" ?v t] by (simp add: tln_def bstr_def ch_def no_nul_def)
  show ?thesis unfolding print_field_def Let_def 1 by (simp add: 2 field_line_def)
qed

lemma print_fields_text:
  "list_all name_ok fs \<Longrightarrow>
   print_fields T x fs t = Inr (t @ concat (map (\<lambda>f. field_line f (get_field T f x)) fs))"
  by (induction fs arbitrary: t) (simp_all add: print_field_text)

lemma field_line_front:
  assumes "field_line f v @ x = field_line f w @ y"
  shows "v = w \<and> x = y"
proof -
  have "num_text 2 v False @ 9 # ([61, 32] @ bstr f @ [10] @ (if 8 < v then [9, 48, 120] @ num_text 16 v False @ [10] else []) @ x)
      = num_text 2 w False @ 9 # ([61, 32] @ bstr f @ [10] @ (if 8 < w then [9, 48, 120] @ num_text 16 w False @ [10] else []) @ y)"
    using assms by (simp add: field_line_def)
  from first_sep [OF this] have "num_text 2 v False = num_text 2 w False" by (simp add: num_text_not)
  then have "v = w" by (rule num_text_inj [rotated]) simp
  then show ?thesis using assms by simp
qed

lemma field_lines_inj:
  "concat (map (\<lambda>f. field_line f (g f)) fs) = concat (map (\<lambda>f. field_line f (h f)) fs) \<longleftrightarrow> (\<forall>f \<in> set fs. g f = h f)"
proof (induction fs)
  case (Cons f fs)
  show ?case using field_line_front [of f "g f" _ "h f"] Cons.IH by auto
qed simp

text \<open>
  For control registers that pass the sanity check, the printouts are equal exactly when every field in
  the list is. The bits for high exception vectors and \<open>L4\<close> are not in it: a wrong one does not show.
\<close>
lemma control_reg1_print_shows:
  assumes "control_reg1_sanity_check r = Inr ()" "control_reg1_sanity_check q = Inr ()"
  shows "control_reg1_print r t = control_reg1_print q t
    \<longleftrightarrow> (\<forall>f \<in> set control_reg1_shown. get_field control_reg1 f r = get_field control_reg1 f q)"
proof -
  have ok: "list_all name_ok control_reg1_shown"
    by (simp add: control_reg1_shown_def name_ok_def bstr_def no_nul_def)
  have s: "say (ln ''system control reg='') [] t = Inr (t @ ln ''system control reg='')"
    by (rule say_lit) (simp_all add: ln_def bstr_def no_nul_def)
  show ?thesis
    using assms field_lines_inj [of "\<lambda>f. get_field control_reg1 f r" control_reg1_shown "\<lambda>f. get_field control_reg1 f q"]
    by (simp add: control_reg1_print_def s print_fields_text [OF ok])
qed

lemma control_reg1_print_hides:
  "\<exists>r q t. control_reg1_sanity_check r = Inr () \<and> control_reg1_sanity_check q = Inr () \<and> r \<noteq> q
     \<and> control_reg1_print r t = control_reg1_print q t"
proof -
  let ?r = "0x50070 :: u32" and ?q = "0x52070 :: u32"
  have "control_reg1_sanity_check ?r = Inr ()" "control_reg1_sanity_check ?q = Inr ()"
    by (simp_all add: control_reg1_sanity_check_def get_field_def control_reg1_def Let_def)
  moreover from this have "control_reg1_print ?r [] = control_reg1_print ?q []"
    by (simp add: control_reg1_print_shows) (simp add: control_reg1_shown_def get_field_def control_reg1_def)
  ultimately show ?thesis by (intro exI [of _ ?r] exI [of _ ?q] exI [of _ "[]"]) simp
qed

section \<open>The volume label\<close>

text \<open>
  The label is not terminated, so what is printed as the label is the label and everything behind it up
  to the first 0: with both names filled up with blanks, the type of the file system as well.
\<close>
lemma volume_label_runs_on:
  assumes "length b = 512" "no_nul (field boot_sec_layout ''volume_label'' b)"
    and "no_nul (field boot_sec_layout ''fs_type'' b)" "b ! 90 = 0"
  shows "say (tln ''n volume label    = <%s>'') [VStr (field_ptr boot_sec_layout ''volume_label'' b)] t
    = Inr (t @ [9] @ bstr ''n volume label    = <'' @ field boot_sec_layout ''volume_label'' b
           @ field boot_sec_layout ''fs_type'' b @ bstr ''>'' @ [10])"
proof -
  have o: "field_ptr boot_sec_layout ''volume_label'' b = drop 71 b"
    "field boot_sec_layout ''volume_label'' b = take 11 (drop 71 b)"
    "field boot_sec_layout ''fs_type'' b = take 8 (drop 82 b)"
    by (simp_all add: field_ptr_def field_def boot_sec_layout_def)
  define s where "s = take 11 (drop 71 b) @ take 8 (drop 82 b)"
  have "drop 90 b = b ! 90 # drop 91 b" using Cons_nth_drop_Suc [of 90 b] assms(1) by simp
  moreover have "drop 71 b = take 11 (drop 71 b) @ take 8 (drop 82 b) @ drop 90 b"
    using append_take_drop_id [of 11 "drop 71 b"] append_take_drop_id [of 8 "drop 82 b"] by simp
  ultimately have p: "drop 71 b = cstring s (drop 91 b)" using assms(4) by (simp add: cstring_def s_def)
  have n: "no_nul s" "length s = 19" using assms(1-3) by (simp_all add: o no_nul_def s_def)
  let ?a = "[9] @ bstr ''n volume label    = <''"
  have "va_printk_loop 1023 [] (cstring (tln ''n volume label    = <%s>'') []) [VStr (cstring s (drop 91 b))]
      = Inr (?a @ s @ bstr ''>'' @ [10])"
    using n loop_lit [of "[]" ?a 1023 "37 # 115 # 62 # 10 # [0]" "[VStr (cstring s (drop 91 b))]"]
      loop_str [of ?a s 1023 "62 # 10 # [0]" "drop 91 b" "[]"] loop_lit [of "?a @ s" "[62, 10]" 1023 "[0]" "[]"]
    by (simp add: cstring_def tln_def bstr_def loop_end no_nul_def)
  moreover have "no_nul (?a @ s @ bstr ''>'' @ [10])" using n(1) by (simp add: no_nul_def bstr_def)
  ultimately show ?thesis unfolding o(1) p using say_eq by (simp add: o(2,3) s_def)
qed

end
