(* ===== verification/Pipes.thy ===== *)
theory Pipes
  imports Printk Tty
begin

text \<open>
  The programs of \<^verbatim>\<open>labs/5-replay/useful-examples\<close> that join two processes by a pipe: \<^verbatim>\<open>pipe-ex.c\<close>,
  \<^verbatim>\<open>pipe-read-exit-ex.c\<close> and \<^verbatim>\<open>pipe-detect-parent-died.c\<close>. A step is one system call of one process (or
  part of one: a write may be taken in pieces, an exit first closes the descriptors), and any
  interleaving of steps may happen. The size of the pipe is a parameter.
\<close>

section \<open>The pipe\<close>

text \<open>What is in the pipe, and which process holds which end.\<close>

record pipe_t =
  pbuf :: bytes
  rd_par :: bool
  wr_par :: bool
  rd_kid :: bool
  wr_kid :: bool

definition has_writer :: "pipe_t \<Rightarrow> bool" where
  "has_writer s \<longleftrightarrow> wr_par s \<or> wr_kid s"

definition has_reader :: "pipe_t \<Rightarrow> bool" where
  "has_reader s \<longleftrightarrow> rd_par s \<or> rd_kid s"

text \<open>After \<open>pipe\<close> and \<open>fork\<close> both processes hold both ends.\<close>

definition forked_pipe :: pipe_t where
  "forked_pipe = \<lparr>pbuf = [], rd_par = True, wr_par = True, rd_kid = True, wr_kid = True\<rparr>"

section \<open>A child that writes and a parent that reads\<close>

text \<open>
  The child closes its read end, writes its message and exits with 10: it closes its descriptors and
  is a zombie until the parent waits for it. A write without a reader kills it (\<open>KZombie None\<close>).
\<close>

datatype kid_pc = KClose | KWrite bytes | KExit | KDying | KZombie "u32 option" | KReaped

inductive kid_step :: "nat \<Rightarrow> bytes \<Rightarrow> pipe_t \<times> kid_pc \<Rightarrow> pipe_t \<times> kid_pc \<Rightarrow> bool" for cap m where
  k_close: "kid_step cap m (s, KClose) (s\<lparr>rd_kid := False\<rparr>, KWrite m)"
| k_write: "0 < n \<Longrightarrow> n \<le> length r \<Longrightarrow> length (pbuf s) + n \<le> cap \<Longrightarrow> has_reader s \<Longrightarrow>
    kid_step cap m (s, KWrite r) (s\<lparr>pbuf := pbuf s @ take n r\<rparr>, KWrite (drop n r))"
| k_written: "kid_step cap m (s, KWrite []) (s, KExit)"
| k_sigpipe: "r \<noteq> [] \<Longrightarrow> \<not> has_reader s \<Longrightarrow>
    kid_step cap m (s, KWrite r) (s\<lparr>rd_kid := False, wr_kid := False\<rparr>, KZombie None)"
| k_exit: "kid_step cap m (s, KExit) (s\<lparr>rd_kid := False, wr_kid := False\<rparr>, KDying)"
| k_zombie: "kid_step cap m (s, KDying) (s, KZombie (Some 10))"

inductive_cases kid_stepE: "kid_step cap m (s, k) t"

text \<open>
  The parent closes its write end. In \<^verbatim>\<open>pipe-ex.c\<close> it echoes what it reads until the end of the pipe and
  then waits for the child; in \<^verbatim>\<open>pipe-read-exit-ex.c\<close> (\<open>wt\<close>) it waits first. Its state has what it echoed
  and the status it got, once it has one.
\<close>

datatype par_pc = PClose | PRead | PWait | PDone

type_synonym ex_state = "pipe_t \<times> kid_pc \<times> par_pc \<times> bytes \<times> u32 option option"

inductive ex_step :: "bool \<Rightarrow> nat \<Rightarrow> bytes \<Rightarrow> ex_state \<Rightarrow> ex_state \<Rightarrow> bool" for wt cap m where
  e_kid: "kid_step cap m (s, k) (s', k') \<Longrightarrow> ex_step wt cap m (s, k, p, e, st) (s', k', p, e, st)"
| e_close: "ex_step wt cap m (s, k, PClose, e, st) (s\<lparr>wr_par := False\<rparr>, k, if wt then PWait else PRead, e, st)"
| e_read: "pbuf s = c # r \<Longrightarrow> ex_step wt cap m (s, k, PRead, e, st) (s\<lparr>pbuf := r\<rparr>, k, PRead, e @ [c], st)"
| e_eof: "pbuf s = [] \<Longrightarrow> \<not> has_writer s \<Longrightarrow>
    ex_step wt cap m (s, k, PRead, e, st) (s, k, if wt then PDone else PWait, e, st)"
| e_wait: "ex_step wt cap m (s, KZombie x, PWait, e, st) (s, KReaped, if wt then PRead else PDone, e, Some x)"

inductive_cases ex_stepE: "ex_step wt cap m (s, k, p, e, st) t"

definition ex_init :: ex_state where
  "ex_init = (forked_pipe, KClose, PClose, [], None)"

text \<open>The message of the child, with its terminator.\<close>

definition kid_msg :: "u32 \<Rightarrow> bytes" where
  "kid_msg pid = bstr ''Hello, child.getpid=<'' @ num_text 10 pid True @ bstr ''>'' @ [0]"

definition pipe_ex :: "nat \<Rightarrow> u32 \<Rightarrow> ex_state \<Rightarrow> ex_state \<Rightarrow> bool" where
  "pipe_ex cap pid = ex_step False cap (kid_msg pid)"

definition pipe_read_exit :: "nat \<Rightarrow> u32 \<Rightarrow> ex_state \<Rightarrow> ex_state \<Rightarrow> bool" where
  "pipe_read_exit cap pid = ex_step True cap (kid_msg pid)"

section \<open>Invariant and measure\<close>

fun unwritten :: "bytes \<Rightarrow> kid_pc \<Rightarrow> bytes" where
  "unwritten m KClose = m"
| "unwritten m (KWrite r) = r"
| "unwritten m _ = []"

fun writing :: "kid_pc \<Rightarrow> bool" where
  "writing KClose = True"
| "writing (KWrite _) = True"
| "writing KExit = True"
| "writing _ = False"

fun before_read :: "bool \<Rightarrow> par_pc \<Rightarrow> bool" where
  "before_read wt PClose = True"
| "before_read wt PWait = wt"
| "before_read wt _ = False"

fun after_read :: "bool \<Rightarrow> par_pc \<Rightarrow> bool" where
  "after_read wt PWait = (\<not> wt)"
| "after_read wt PDone = True"
| "after_read wt _ = False"

fun after_wait :: "bool \<Rightarrow> par_pc \<Rightarrow> bool" where
  "after_wait wt PRead = wt"
| "after_wait wt PDone = True"
| "after_wait wt _ = False"

fun ex_inv :: "bool \<Rightarrow> nat \<Rightarrow> bytes \<Rightarrow> ex_state \<Rightarrow> bool" where
  "ex_inv wt cap m (s, k, p, e, st) \<longleftrightarrow>
     rd_par s \<and> (wr_par s \<longleftrightarrow> p = PClose) \<and> (wr_kid s \<longleftrightarrow> writing k) \<and> (rd_kid s \<longleftrightarrow> k = KClose)
     \<and> e @ pbuf s @ unwritten m k = m \<and> length (pbuf s) \<le> cap
     \<and> (before_read wt p \<longrightarrow> e = []) \<and> (after_read wt p \<longrightarrow> pbuf s = [] \<and> \<not> writing k)
     \<and> (wt \<and> \<not> before_read wt p \<longrightarrow> length m \<le> cap)
     \<and> (after_wait wt p \<longleftrightarrow> k = KReaped) \<and> st = (if k = KReaped then Some (Some 10) else None)
     \<and> (\<forall>x. k = KZombie x \<longrightarrow> x = Some 10)"

fun kid_left :: "kid_pc \<Rightarrow> nat" where
  "kid_left KClose = 5"
| "kid_left (KWrite _) = 4"
| "kid_left KExit = 3"
| "kid_left KDying = 2"
| "kid_left (KZombie _) = 1"
| "kid_left KReaped = 0"

fun par_left :: "bool \<Rightarrow> par_pc \<Rightarrow> nat" where
  "par_left wt PClose = 3"
| "par_left wt PRead = (if wt then 1 else 2)"
| "par_left wt PWait = (if wt then 2 else 1)"
| "par_left wt PDone = 0"

fun ex_left :: "bool \<Rightarrow> bytes \<Rightarrow> ex_state \<Rightarrow> nat" where
  "ex_left wt m (s, k, p, e, st) = 2 * length (unwritten m k) + length (pbuf s) + kid_left k + par_left wt p"

lemma ex_step_less: "ex_step wt cap m t u \<Longrightarrow> ex_left wt m u < ex_left wt m t"
  by (cases t; cases u) (auto elim!: ex_stepE kid_stepE)

lemma kid_step_inv:
  assumes "kid_step cap m (s, k) (s', k')" "ex_inv wt cap m (s, k, p, e, st)"
  shows "ex_inv wt cap m (s', k', p, e, st)"
  using assms(1)
proof cases
  case (k_write n r)
  then have "pbuf s' @ unwritten m k' = pbuf s @ unwritten m k" by simp
  then show ?thesis using assms(2) k_write by auto
qed (use assms(2) in \<open>auto simp: has_reader_def\<close>)

lemma ex_inv_step: "ex_step wt cap m t u \<Longrightarrow> ex_inv wt cap m t \<Longrightarrow> ex_inv wt cap m u"
proof (induction rule: ex_step.induct)
  case (e_kid s k s' k' p e st)
  then show ?case using kid_step_inv by blast
next
  case (e_close s k e st)
  then show ?case by (cases wt) auto
next
  case (e_eof s k e st)
  then show ?case by (cases wt) (auto simp: has_writer_def)
next
  case (e_wait s x e st)
  then show ?case by (cases wt) auto
qed auto

lemma ex_inv_init: "ex_inv wt cap m ex_init"
  by (simp add: ex_init_def forked_pipe_def)

lemma ex_inv_reach: "(ex_step wt cap m)\<^sup>*\<^sup>* ex_init t \<Longrightarrow> ex_inv wt cap m t"
  by (induction rule: rtranclp_induct) (use ex_inv_init ex_inv_step in blast)+

section \<open>Where runs end\<close>

text \<open>Every run is finite: each step lowers the measure.\<close>

lemma no_endless_run:
  fixes left :: "'s \<Rightarrow> nat"
  assumes "\<And>t u. step t u \<Longrightarrow> left u < left t"
  shows "\<not> (\<forall>i. step (f i) (f (Suc i)))"
proof
  assume a: "\<forall>i. step (f i) (f (Suc i))"
  have "left (f i) + i \<le> left (f 0)" for i
  proof (induction i)
    case (Suc i)
    have "left (f (Suc i)) < left (f i)" using assms a by blast
    with Suc show ?case by simp
  qed simp
  from this [of "Suc (left (f 0))"] show False by simp
qed

definition stuck :: "('s \<Rightarrow> 's \<Rightarrow> bool) \<Rightarrow> 's \<Rightarrow> bool" where
  "stuck step t \<longleftrightarrow> (\<forall>u. \<not> step t u)"

text \<open>A child that cannot step, with a reader at the other end, is done or faces a full pipe.\<close>

lemma kid_stuck:
  assumes "\<forall>u. \<not> kid_step cap m (s, k) u" "has_reader s"
  shows "(\<exists>x. k = KZombie x) \<or> k = KReaped \<or> (\<exists>r. k = KWrite r \<and> r \<noteq> [] \<and> cap \<le> length (pbuf s))"
proof (cases k)
  case (KWrite r)
  have "r \<noteq> []" using assms(1) k_written [of cap m s] KWrite by blast
  moreover have "cap \<le> length (pbuf s)"
  proof (rule ccontr)
    assume "\<not> ?thesis"
    then have "kid_step cap m (s, KWrite r) (s\<lparr>pbuf := pbuf s @ take 1 r\<rparr>, KWrite (drop 1 r))"
      using \<open>r \<noteq> []\<close> assms(2) by (intro k_write) (auto simp: Suc_le_eq)
    then show False using assms(1) KWrite by blast
  qed
  ultimately show ?thesis using KWrite by simp
qed (use assms(1) in \<open>auto intro: kid_step.intros\<close>)

lemma ex_stuck:
  assumes "stuck (ex_step wt cap m) (s, k, p, e, st)" "ex_inv wt cap m (s, k, p, e, st)" "0 < cap"
  shows "p = PDone \<or> wt \<and> p = PWait \<and> (\<exists>r. k = KWrite r \<and> r \<noteq> [] \<and> length (pbuf s) = cap)"
proof -
  have ns: "\<not> ex_step wt cap m (s, k, p, e, st) u" for u using assms(1) unfolding stuck_def by blast
  have rd: "has_reader s" using assms(2) by (simp add: has_reader_def)
  have "\<not> kid_step cap m (s, k) u" for u using e_kid [of cap m s k "fst u" "snd u"] ns by (metis prod.collapse)
  with kid_stuck [OF _ rd] have k: "(\<exists>x. k = KZombie x) \<or> k = KReaped
      \<or> (\<exists>r. k = KWrite r \<and> r \<noteq> [] \<and> cap \<le> length (pbuf s))" by blast
  show ?thesis
  proof (cases p)
    case PClose
    then show ?thesis using ns e_close by blast
  next
    case PRead
    then have "pbuf s = []" using ns e_read by (metis neq_Nil_conv)
    moreover from this have "has_writer s" using ns e_eof PRead by blast
    ultimately show ?thesis using k assms(2,3) PRead by (auto simp: has_writer_def)
  next
    case PWait
    then have "\<not> (\<exists>x. k = KZombie x)" using ns e_wait by blast
    then show ?thesis using k assms(2,3) PWait by (cases wt) auto
  qed simp
qed

lemma ex_end:
  assumes "(ex_step wt cap m)\<^sup>*\<^sup>* ex_init (s, k, p, e, st)" "stuck (ex_step wt cap m) (s, k, p, e, st)" "0 < cap"
  shows "p = PDone \<and> k = KReaped \<and> e = m \<and> st = Some (Some 10) \<and> (wt \<longrightarrow> length m \<le> cap)
    \<or> wt \<and> p = PWait \<and> k = KWrite (drop cap m) \<and> cap < length m \<and> e = [] \<and> pbuf s = take cap m"
proof -
  have i: "ex_inv wt cap m (s, k, p, e, st)" using ex_inv_reach [OF assms(1)] .
  from ex_stuck [OF assms(2) i assms(3)] show ?thesis
  proof
    assume "p = PDone"
    then show ?thesis using i by auto
  next
    assume d: "wt \<and> p = PWait \<and> (\<exists>r. k = KWrite r \<and> r \<noteq> [] \<and> length (pbuf s) = cap)"
    then obtain r where r: "k = KWrite r" "r \<noteq> []" "length (pbuf s) = cap" by blast
    then have "m = pbuf s @ r" "e = []" using i d by auto
    then show ?thesis using d r by auto
  qed
qed

text \<open>
  (C29) However the two processes are interleaved and however small the pipe is, \<^verbatim>\<open>pipe-ex.c\<close> comes to an
  end, and when neither process can step any more the parent has echoed the whole message of the child
  and has its exit status 10.
\<close>
theorem pipe_ex_delivers:
  assumes "0 < cap"
  shows "\<not> (\<exists>f. \<forall>i. pipe_ex cap pid (f i) (f (Suc i)))
    \<and> (\<forall>s k p e st. (pipe_ex cap pid)\<^sup>*\<^sup>* ex_init (s, k, p, e, st) \<and> stuck (pipe_ex cap pid) (s, k, p, e, st)
         \<longrightarrow> p = PDone \<and> k = KReaped \<and> e = kid_msg pid \<and> st = Some (Some 10))"
proof (intro conjI)
  show "\<not> (\<exists>f. \<forall>i. pipe_ex cap pid (f i) (f (Suc i)))"
    using no_endless_run [of "pipe_ex cap pid" "ex_left False (kid_msg pid)"] ex_step_less
    unfolding pipe_ex_def by blast
  show "\<forall>s k p e st. (pipe_ex cap pid)\<^sup>*\<^sup>* ex_init (s, k, p, e, st) \<and> stuck (pipe_ex cap pid) (s, k, p, e, st)
    \<longrightarrow> p = PDone \<and> k = KReaped \<and> e = kid_msg pid \<and> st = Some (Some 10)"
    using ex_end [of False cap "kid_msg pid", OF _ _ assms] unfolding pipe_ex_def by blast
qed

theorem pipe_ex_delivers_witness: "\<not> (\<exists>f. \<forall>i. pipe_ex 1 7 (f i) (f (Suc i)))"
  using pipe_ex_delivers [of 1 7] by simp

text \<open>
  (C30) \<^verbatim>\<open>pipe-read-exit-ex.c\<close>, which waits for the child before it reads, depends on the size of the pipe.
  Every run ends. A pipe that holds the message loses nothing: every run ends with the whole message
  echoed and the exit status reported. In a smaller one every run ends in a deadlock: the parent waits
  for a child that waits for room in the pipe.
\<close>
theorem pipe_read_exit_fits:
  assumes "0 < cap"
  shows "\<not> (\<exists>f. \<forall>i. pipe_read_exit cap pid (f i) (f (Suc i)))
    \<and> (\<forall>s k p e st. (pipe_read_exit cap pid)\<^sup>*\<^sup>* ex_init (s, k, p, e, st)
         \<and> stuck (pipe_read_exit cap pid) (s, k, p, e, st)
       \<longrightarrow> (if length (kid_msg pid) \<le> cap
         then p = PDone \<and> k = KReaped \<and> e = kid_msg pid \<and> st = Some (Some 10)
         else p = PWait \<and> k = KWrite (drop cap (kid_msg pid)) \<and> e = [] \<and> pbuf s = take cap (kid_msg pid)))"
proof (intro conjI allI impI)
  show "\<not> (\<exists>f. \<forall>i. pipe_read_exit cap pid (f i) (f (Suc i)))"
    using no_endless_run [of "pipe_read_exit cap pid" "ex_left True (kid_msg pid)"] ex_step_less
    unfolding pipe_read_exit_def by blast
next
  fix s k p e st
  assume a: "(pipe_read_exit cap pid)\<^sup>*\<^sup>* ex_init (s, k, p, e, st)
    \<and> stuck (pipe_read_exit cap pid) (s, k, p, e, st)"
  from ex_end [of True cap "kid_msg pid" s k p e st, OF _ _ assms] a
  show "if length (kid_msg pid) \<le> cap
    then p = PDone \<and> k = KReaped \<and> e = kid_msg pid \<and> st = Some (Some 10)
    else p = PWait \<and> k = KWrite (drop cap (kid_msg pid)) \<and> e = [] \<and> pbuf s = take cap (kid_msg pid)"
    unfolding pipe_read_exit_def by auto
qed

theorem pipe_read_exit_fits_witness: "\<not> (\<exists>f. \<forall>i. pipe_read_exit 1 7 (f i) (f (Suc i)))"
  using pipe_read_exit_fits [of 1 7] by simp

section \<open>A child that finds out that its parent died\<close>

text \<open>
  \<^verbatim>\<open>pipe-detect-parent-died.c\<close>. The parent sleeps and exits: the kernel closes its descriptors (\<open>ADying\<close>),
  it is a zombie until its own parent waits for it, and then its number is free and may be given to
  another process, which the child may signal or not. A number is given out again once at most.
\<close>

datatype dad_pc = AStart | ASleep | AExit | ADying | AZombie | AGone | AReused bool

datatype watch_pc = WClose | WRead | WKill | WGot | WAlive | WPerm | WOther | WOk

text \<open>What \<open>kill(parent_pid, 0)\<close> answers: nothing for a process there is, a zombie too, or an error.\<close>

definition kill0 :: "dad_pc \<Rightarrow> int option" where
  "kill0 a = (case a of AGone \<Rightarrow> Some ESRCH | AReused b \<Rightarrow> if b then None else Some EPERM | _ \<Rightarrow> None)"

text \<open>The last part of the child: the answer decides how it ends.\<close>

definition watch_verdict :: "int option \<Rightarrow> watch_pc" where
  "watch_verdict r = (case r of None \<Rightarrow> WAlive
     | Some e \<Rightarrow> if \<not> e \<noteq> EPERM then WPerm else if \<not> e = ESRCH then WOther else WOk)"

definition sleep_line :: "u32 \<Rightarrow> bytes" where
  "sleep_line parent_pid = bstr ''parent='' @ num_text 10 parent_pid True @ bstr '', going to sleep\<newline>''"

definition exit_line :: bytes where
  "exit_line = bstr ''parent: exiting\<newline>''"

definition verify_line :: "u32 \<Rightarrow> bytes" where
  "verify_line pid = bstr ''sending a kill to verify that parent '' @ num_text 10 pid True @ bstr '' died\<newline>''"

definition killed_line :: bytes where
  "killed_line = bstr ''kill succeeded!\<newline>''"

text \<open>
  A state has the pipe, both processes and what \<open>output\<close> sent to the terminal. The child prints its own
  \<open>pid\<close>, which \<open>fork\<close> made 0.
\<close>

type_synonym died_state = "pipe_t \<times> dad_pc \<times> watch_pc \<times> bytes"

inductive died_step :: "u32 \<Rightarrow> died_state \<Rightarrow> died_state \<Rightarrow> bool" for parent_pid where
  d_start: "died_step parent_pid (s, AStart, w, o1) (s, ASleep, w, o1 @ sleep_line parent_pid)"
| d_wake: "died_step parent_pid (s, ASleep, w, o1) (s, AExit, w, o1 @ exit_line)"
| d_exit: "died_step parent_pid (s, AExit, w, o1) (s\<lparr>rd_par := False, wr_par := False\<rparr>, ADying, w, o1)"
| d_zombie: "died_step parent_pid (s, ADying, w, o1) (s, AZombie, w, o1)"
| d_reap: "died_step parent_pid (s, AZombie, w, o1) (s, AGone, w, o1)"
| d_reuse: "died_step parent_pid (s, AGone, w, o1) (s, AReused b, w, o1)"
| w_close: "died_step parent_pid (s, a, WClose, o1) (s\<lparr>wr_kid := False\<rparr>, a, WRead, o1)"
| w_got: "pbuf s = c # r \<Longrightarrow> died_step parent_pid (s, a, WRead, o1) (s\<lparr>pbuf := r\<rparr>, a, WGot, o1)"
| w_eof: "pbuf s = [] \<Longrightarrow> \<not> has_writer s \<Longrightarrow>
    died_step parent_pid (s, a, WRead, o1) (s, a, WKill, o1 @ verify_line 0)"
| w_kill: "died_step parent_pid (s, a, WKill, o1)
    (s, a, watch_verdict (kill0 a), o1 @ (if watch_verdict (kill0 a) = WOk then killed_line else []))"

inductive_cases died_stepE: "died_step parent_pid (s, a, w, o1) t"

definition died_init :: died_state where
  "died_init = (forked_pipe, AStart, WClose, [])"

fun dad_left :: "dad_pc \<Rightarrow> nat" where
  "dad_left AStart = 6"
| "dad_left ASleep = 5"
| "dad_left AExit = 4"
| "dad_left ADying = 3"
| "dad_left AZombie = 2"
| "dad_left AGone = 1"
| "dad_left (AReused _) = 0"

fun watch_left :: "watch_pc \<Rightarrow> nat" where
  "watch_left WClose = 3"
| "watch_left WRead = 2"
| "watch_left WKill = 1"
| "watch_left _ = 0"

fun died_left :: "died_state \<Rightarrow> nat" where
  "died_left (s, a, w, o1) = dad_left a + watch_left w"

text \<open>The pipe stays empty, and past the read the parent has closed its descriptors.\<close>

fun died_inv :: "died_state \<Rightarrow> bool" where
  "died_inv (s, a, w, o1) \<longleftrightarrow> pbuf s = [] \<and> (wr_par s \<longleftrightarrow> 3 < dad_left a) \<and> (wr_kid s \<longleftrightarrow> w = WClose)
     \<and> (w \<notin> {WClose, WRead} \<longrightarrow> dad_left a \<le> 3) \<and> w \<noteq> WGot \<and> w \<noteq> WOther"

lemma watch_left_verdict [simp]: "watch_left (watch_verdict (kill0 a)) = 0"
  by (auto simp: watch_verdict_def kill0_def split: dad_pc.splits)

lemma verdict_cases: "watch_verdict (kill0 a) \<in> {WAlive, WPerm, WOk}"
  by (auto simp: watch_verdict_def kill0_def EPERM_def ESRCH_def split: dad_pc.splits)

lemma died_step_less: "died_step parent_pid t u \<Longrightarrow> died_left u < died_left t"
  by (induction rule: died_step.induct) auto

lemma died_inv_step: "died_step parent_pid t u \<Longrightarrow> died_inv t \<Longrightarrow> died_inv u"
proof (induction rule: died_step.induct)
  case (w_kill s a o1)
  then show ?case using verdict_cases [of a] by auto
qed (auto simp: has_writer_def)

lemma died_inv_reach: "(died_step parent_pid)\<^sup>*\<^sup>* died_init t \<Longrightarrow> died_inv t"
proof (induction rule: rtranclp_induct)
  case base
  show ?case by (simp add: died_init_def forked_pipe_def)
qed (use died_inv_step in blast)

lemma dad_step: "0 < dad_left a \<Longrightarrow> \<exists>u. died_step parent_pid (s, a, w, o1) u"
  by (induction a; (simp; fail)?; rule exI; rule died_step.intros)

lemma died_stuck:
  assumes "stuck (died_step parent_pid) (s, a, w, o1)" "died_inv (s, a, w, o1)"
  shows "(\<exists>b. a = AReused b) \<and> w \<in> {WAlive, WPerm, WOk}"
proof -
  have ns: "\<not> died_step parent_pid (s, a, w, o1) u" for u using assms(1) unfolding stuck_def by blast
  have "dad_left a = 0" using dad_step [of a parent_pid s w o1] ns by blast
  then have a: "\<exists>b. a = AReused b" by (cases a) simp_all
  have "w \<noteq> WClose" using ns w_close by blast
  moreover have "w \<noteq> WKill" using ns w_kill by blast
  moreover have "w \<noteq> WRead"
  proof
    assume w: "w = WRead"
    then have "\<not> has_writer s" using assms(2) \<open>dad_left a = 0\<close> by (simp add: has_writer_def)
    then show False using ns [unfolded w] w_eof assms(2) by (metis died_inv.simps)
  qed
  ultimately show ?thesis using a assms(2) by (cases w) auto
qed

text \<open>A run for every verdict: the child asks when the parent is \<open>a\<close>.\<close>

definition dead_pipe :: pipe_t where
  "dead_pipe = forked_pipe\<lparr>wr_kid := False, rd_par := False, wr_par := False\<rparr>"

lemma died_run_dying:
  "\<exists>o1. (died_step parent_pid)\<^sup>*\<^sup>* died_init (dead_pipe, ADying, WKill, o1)"
proof -
  let ?s = "forked_pipe\<lparr>wr_kid := False\<rparr>"
  let ?o = "([] @ sleep_line parent_pid) @ exit_line"
  have "(died_step parent_pid)\<^sup>*\<^sup>* died_init (?s, AStart, WRead, [])"
    unfolding died_init_def by (intro r_into_rtranclp w_close)
  note rtranclp.rtrancl_into_rtrancl [OF this d_start]
  note rtranclp.rtrancl_into_rtrancl [OF this d_wake]
  note rtranclp.rtrancl_into_rtrancl [OF this d_exit]
  then have "(died_step parent_pid)\<^sup>*\<^sup>* died_init (dead_pipe, ADying, WRead, ?o)"
    by (simp add: dead_pipe_def)
  moreover have "died_step parent_pid (dead_pipe, ADying, WRead, ?o) (dead_pipe, ADying, WKill, ?o @ verify_line 0)"
    by (rule w_eof) (simp_all add: dead_pipe_def forked_pipe_def has_writer_def)
  ultimately show ?thesis by (blast intro: rtranclp.rtrancl_into_rtrancl)
qed

lemma died_run_later:
  assumes "a \<in> {ADying, AGone, AReused b}"
  shows "\<exists>o1. (died_step parent_pid)\<^sup>*\<^sup>* died_init (dead_pipe, a, WKill, o1)"
proof -
  obtain o1 where r: "(died_step parent_pid)\<^sup>*\<^sup>* died_init (dead_pipe, ADying, WKill, o1)"
    using died_run_dying by blast
  note z = rtranclp.rtrancl_into_rtrancl [OF r d_zombie]
  note g = rtranclp.rtrancl_into_rtrancl [OF z d_reap]
  note u = rtranclp.rtrancl_into_rtrancl [OF g d_reuse]
  show ?thesis using assms r g u [of b] by blast
qed

lemma died_run_verdict:
  assumes "a \<in> {ADying, AGone, AReused b}"
  shows "\<exists>s o1. (died_step parent_pid)\<^sup>*\<^sup>* died_init (s, a, watch_verdict (kill0 a), o1)"
  using died_run_later [OF assms, of parent_pid] w_kill
  by (blast intro: rtranclp.rtrancl_into_rtrancl)

text \<open>
  (C33) Every run of \<^verbatim>\<open>pipe-detect-parent-died.c\<close> ends, the child is past its read only after the exit of the
  parent has closed its descriptors, and it reads no byte. But the end of the pipe does not say that the
  parent is gone: the panic that the source calls impossible is one of the ends of the child, and so is
  the failed demand about permissions. The three ends listed are all there are.
\<close>
theorem parent_died_ends:
  "\<not> (\<exists>f. \<forall>i. died_step parent_pid (f i) (f (Suc i)))
   \<and> (\<forall>s a w o1. (died_step parent_pid)\<^sup>*\<^sup>* died_init (s, a, w, o1) \<longrightarrow>
        w \<in> {WClose, WRead} \<or> a \<notin> {AStart, ASleep, AExit} \<and> w \<noteq> WGot)
   \<and> {w. \<exists>s a o1. (died_step parent_pid)\<^sup>*\<^sup>* died_init (s, a, w, o1) \<and> watch_left w = 0} = {WOk, WAlive, WPerm}
   \<and> (\<forall>s a w o1. (died_step parent_pid)\<^sup>*\<^sup>* died_init (s, a, w, o1) \<and> stuck (died_step parent_pid) (s, a, w, o1)
        \<longrightarrow> w \<in> {WOk, WAlive, WPerm})"
proof (intro conjI allI impI)
  show "\<not> (\<exists>f. \<forall>i. died_step parent_pid (f i) (f (Suc i)))"
    using no_endless_run [of "died_step parent_pid" died_left] died_step_less by blast
next
  fix s a w o1
  assume "(died_step parent_pid)\<^sup>*\<^sup>* died_init (s, a, w, o1)"
  from died_inv_reach [OF this] show "w \<in> {WClose, WRead} \<or> a \<notin> {AStart, ASleep, AExit} \<and> w \<noteq> WGot"
    by auto
next
  let ?W = "{w. \<exists>s a o1. (died_step parent_pid)\<^sup>*\<^sup>* died_init (s, a, w, o1) \<and> watch_left w = 0}"
  have v: "watch_verdict (kill0 ADying) = WAlive" "watch_verdict (kill0 AGone) = WOk"
    "watch_verdict (kill0 (AReused False)) = WPerm"
    by (simp_all add: watch_verdict_def kill0_def EPERM_def ESRCH_def)
  have "w \<in> {WOk, WAlive, WPerm}" if "died_inv (s, a, w, o1)" "watch_left w = 0" for s a w o1
    using that by (cases w) auto
  then have "?W \<subseteq> {WOk, WAlive, WPerm}" using died_inv_reach by blast
  moreover have "watch_verdict (kill0 a) \<in> ?W" if "a \<in> {ADying, AGone, AReused False}" for a
    using died_run_verdict [OF that, of parent_pid] by auto
  then have "{WOk, WAlive, WPerm} \<subseteq> ?W" using v by (metis (no_types, lifting) empty_subsetI insertCI insert_subset)
  ultimately show "?W = {WOk, WAlive, WPerm}" by (rule equalityI)
next
  fix s a w o1
  assume "(died_step parent_pid)\<^sup>*\<^sup>* died_init (s, a, w, o1) \<and> stuck (died_step parent_pid) (s, a, w, o1)"
  then show "w \<in> {WOk, WAlive, WPerm}" using died_stuck died_inv_reach by blast
qed

text \<open>The panic that the source calls impossible, reached by a parent with the number 7.\<close>

theorem parent_died_ends_witness: "\<exists>s a o1. (died_step 7)\<^sup>*\<^sup>* died_init (s, a, WAlive, o1)"
proof -
  have "WAlive \<in> {w. \<exists>s a o1. (died_step 7)\<^sup>*\<^sup>* died_init (s, a, w, o1) \<and> watch_left w = 0}"
    using parent_died_ends [of 7] by (metis insertCI)
  then show ?thesis by blast
qed

end
