(* ===== verification/Fd_Table.thy ===== *)
theory Fd_Table
  imports Prelude
begin

text \<open>
  The descriptor table of a process, and the programs of \<^verbatim>\<open>labs/5-replay/useful-examples\<close> about it:
  \<^verbatim>\<open>dup2-redirect.c\<close>, which runs a program with pipes for its standard descriptors, and \<^verbatim>\<open>is-fd-open.c\<close>.
  A slot of the table has the open file or nothing; \<open>lim\<close> is how many slots there may be, and a system
  call gives the lowest free one.
\<close>

datatype fd_end = Opened nat | PipeR nat | PipeW nat

type_synonym fd_table = "fd_end option list"

definition fd_at :: "fd_table \<Rightarrow> nat \<Rightarrow> fd_end option" where
  "fd_at t n = (if n < length t then t ! n else None)"

definition fd_put :: "fd_table \<Rightarrow> nat \<Rightarrow> fd_end option \<Rightarrow> fd_table" where
  "fd_put t n x = (if n < length t then t[n := x] else t @ replicate (n - length t) None @ [x])"

fun fd_lowest :: "fd_table \<Rightarrow> nat" where
  "fd_lowest [] = 0"
| "fd_lowest (None # t) = 0"
| "fd_lowest (Some _ # t) = Suc (fd_lowest t)"

lemma fd_at_put [simp]: "fd_at (fd_put t n x) m = (if m = n then x else fd_at t m)"
  by (auto simp: fd_at_def fd_put_def nth_append nth_Cons' nth_list_update)

lemma fd_lowest_free [simp]: "fd_at t (fd_lowest t) = None"
proof (induction t rule: fd_lowest.induct)
  case (3 x t)
  then show ?case by (auto simp: fd_at_def split: if_splits)
qed (simp_all add: fd_at_def)

lemma fd_lowest_used: "n < fd_lowest t \<Longrightarrow> fd_at t n \<noteq> None"
proof (induction t arbitrary: n rule: fd_lowest.induct)
  case (3 x t)
  show ?case
  proof (cases n)
    case (Suc m)
    then have "fd_at t m \<noteq> None" using 3 by simp
    then show ?thesis using Suc by (auto simp: fd_at_def split: if_splits)
  qed (simp add: fd_at_def)
qed simp_all

section \<open>The system calls\<close>

text \<open>\<open>pipe\<close> takes the two lowest free slots, \<open>dup2\<close> and \<open>close\<close> want an open descriptor; \<open>None\<close> is the answer -1.\<close>

definition sys_pipe :: "nat \<Rightarrow> nat \<Rightarrow> fd_table \<Rightarrow> (fd_table \<times> nat \<times> nat) option" where
  "sys_pipe lim p t = (let r = fd_lowest t; t1 = fd_put t r (Some (PipeR p));
       w = fd_lowest t1; t2 = fd_put t1 w (Some (PipeW p))
     in if r < lim \<and> w < lim then Some (t2, r, w) else None)"

definition sys_dup2 :: "nat \<Rightarrow> nat \<Rightarrow> nat \<Rightarrow> fd_table \<Rightarrow> fd_table option" where
  "sys_dup2 lim old new t = (if fd_at t old = None \<or> lim \<le> new then None
     else if old = new then Some t else Some (fd_put t new (fd_at t old)))"

definition sys_close :: "nat \<Rightarrow> fd_table \<Rightarrow> fd_table option" where
  "sys_close fd t = (if fd_at t fd = None then None else Some (fd_put t fd None))"

lemma sys_pipe_fresh:
  assumes "sys_pipe lim p t = Some (t', r, w)"
  shows "fd_at t r = None" "fd_at t w = None" "r \<noteq> w" "r < lim" "w < lim"
    "fd_at t' n = (if n = r then Some (PipeR p) else if n = w then Some (PipeW p) else fd_at t n)"
proof -
  have d: "r = fd_lowest t" "w = fd_lowest (fd_put t r (Some (PipeR p)))"
    "t' = fd_put (fd_put t r (Some (PipeR p))) w (Some (PipeW p))" "r < lim" "w < lim"
    using assms by (auto simp: sys_pipe_def Let_def split: if_splits)
  have "fd_at (fd_put t r (Some (PipeR p))) w = None" using d(2) by (metis fd_lowest_free)
  then show "r \<noteq> w" "fd_at t w = None" by (auto split: if_splits)
  then show "fd_at t' n = (if n = r then Some (PipeR p) else if n = w then Some (PipeW p) else fd_at t n)"
    using d(3) by auto
qed (use assms in \<open>auto simp: sys_pipe_def Let_def split: if_splits\<close>)

section \<open>dup2-redirect.c\<close>

fun close_all :: "nat list \<Rightarrow> fd_table \<Rightarrow> fd_table option" where
  "close_all [] t = Some t"
| "close_all (fd # fds) t = (case sys_close fd t of None \<Rightarrow> None | Some t1 \<Rightarrow> close_all fds t1)"

fun dup_all :: "nat \<Rightarrow> (nat \<times> nat) list \<Rightarrow> fd_table \<Rightarrow> fd_table option" where
  "dup_all lim [] t = Some t"
| "dup_all lim ((old, new) # ds) t = (case sys_dup2 lim old new t of None \<Rightarrow> None | Some t1 \<Rightarrow> dup_all lim ds t1)"

text \<open>The child up to its \<open>execvp\<close>, which keeps the table. \<open>sys_die\<close> prints the name of the call and the message.\<close>

definition redir_kid :: "nat \<Rightarrow> nat \<times> nat \<Rightarrow> nat \<times> nat \<Rightarrow> fd_table \<Rightarrow> (string \<times> string) + fd_table" where
  "redir_kid lim inp out t = (case dup_all lim [(fst inp, 0), (snd out, 1), (snd out, 2)] t of
       None \<Rightarrow> Inl (''dup'', ''bad dup'')
     | Some t1 \<Rightarrow> (case close_all [fst inp, snd inp, fst out, snd out] t1 of
           None \<Rightarrow> Inl (''close'', ''bad fd'')
         | Some t2 \<Rightarrow> Inr t2))"

definition redir_parent :: "nat \<times> nat \<Rightarrow> nat \<times> nat \<Rightarrow> fd_table \<Rightarrow> (string \<times> string) + fd_table \<times> nat \<times> nat" where
  "redir_parent inp out t = (case close_all [snd out, fst inp] t of
       None \<Rightarrow> Inl (''close'', ''bad fds'')
     | Some t1 \<Rightarrow> Inr (t1, fst out, snd inp))"

text \<open>
  \<open>redir\<close>: what the parent goes on with, its table and the two descriptors, and what the child does; the
  child is missing when there is no fork.
\<close>

definition redir :: "nat \<Rightarrow> bool \<Rightarrow> fd_table
    \<Rightarrow> ((string \<times> string) + fd_table \<times> nat \<times> nat) \<times> ((string \<times> string) + fd_table) option" where
  "redir lim fork_ok t = (case sys_pipe lim 0 t of
       None \<Rightarrow> (Inl (''pipe'', ''cannot create pipe fds''), None)
     | Some (t1, inp) \<Rightarrow> (case sys_pipe lim 1 t1 of
           None \<Rightarrow> (Inl (''pipe'', ''cannot create pipe fds''), None)
         | Some (t2, out) \<Rightarrow>
             if \<not> fork_ok then (Inl (''fork'', ''cannot fail''), None)
             else (redir_parent inp out t2, Some (redir_kid lim inp out t2))))"

text \<open>\<^verbatim>\<open>is-fd-open.c\<close>: the first of its assertions that fails, or none.\<close>

definition is_open :: "fd_table \<Rightarrow> nat \<Rightarrow> bool" where
  "is_open t fd \<longleftrightarrow> fd_at t fd \<noteq> None"

definition is_fd_open_main :: "fd_table \<Rightarrow> nat option" where
  "is_fd_open_main t = (if \<not> is_open t 0 then Some 0 else if \<not> is_open t 1 then Some 1
     else if \<not> is_open t 2 then Some 2 else if is_open t 3 then Some 3 else None)"

lemma close_all_some:
  assumes "distinct fds" "\<And>fd. fd \<in> set fds \<Longrightarrow> fd_at t fd \<noteq> None"
  shows "\<exists>t'. close_all fds t = Some t' \<and> (\<forall>n. fd_at t' n = (if n \<in> set fds then None else fd_at t n))"
  using assms
proof (induction fds arbitrary: t)
  case (Cons fd fds)
  then have o: "fd_at t fd \<noteq> None" by simp
  have "\<exists>t'. close_all fds (fd_put t fd None) = Some t'
      \<and> (\<forall>n. fd_at t' n = (if n \<in> set fds then None else fd_at (fd_put t fd None) n))"
    using Cons.prems by (intro Cons.IH) auto
  then show ?case using o by (auto simp: sys_close_def)
qed simp

lemma sys_pipe_room:
  assumes "\<exists>r w. r \<noteq> w \<and> r < lim \<and> w < lim \<and> fd_at t r = None \<and> fd_at t w = None"
  shows "\<exists>t' r w. sys_pipe lim p t = Some (t', r, w)"
proof -
  obtain r w where rw: "r < w" "w < lim" "fd_at t r = None" "fd_at t w = None"
    using assms by (metis linorder_neqE_nat)
  have a: "fd_lowest t \<le> r" using rw fd_lowest_used [of r t] by (meson not_le_imp_less)
  then have "fd_at (fd_put t (fd_lowest t) (Some (PipeR p))) w = None" using rw by auto
  then have "fd_lowest (fd_put t (fd_lowest t) (Some (PipeR p))) \<le> w"
    using fd_lowest_used by (meson not_le_imp_less)
  then show ?thesis using a rw by (simp add: sys_pipe_def Let_def)
qed

text \<open>
  (C34) When the standard descriptors are open, \<open>redir\<close> hands the pipes over as its comments say, whatever
  else is open: the program it runs has the read end of the first pipe as its input and the write end of the
  second as its output and its error output, no other descriptor of a pipe, and everything else as it
  was; the caller has the other two ends, under the numbers it is given, and nothing else new.
\<close>
theorem redir_hands_over:
  assumes "is_open t 0" "is_open t 1" "is_open t 2" and "length t + 4 \<le> lim"
  shows "\<exists>tp rd wr tk. redir lim True t = (Inr (tp, rd, wr), Some (Inr tk))
    \<and> fd_at tk = (fd_at t)(0 \<mapsto> PipeR 0, 1 \<mapsto> PipeW 1, 2 \<mapsto> PipeW 1)
    \<and> fd_at t rd = None \<and> fd_at t wr = None \<and> rd \<noteq> wr
    \<and> fd_at tp = (fd_at t)(rd \<mapsto> PipeR 1, wr \<mapsto> PipeW 0)"
proof -
  have free: "fd_at t n = None" if "length t \<le> n" for n using that by (simp add: fd_at_def)
  have "\<exists>r w. r \<noteq> w \<and> r < lim \<and> w < lim \<and> fd_at t r = None \<and> fd_at t w = None"
    by (rule exI [of _ "length t"], rule exI [of _ "length t + 1"]) (use free assms(4) in simp)
  then obtain t1 i0 i1 where p1: "sys_pipe lim 0 t = Some (t1, i0, i1)"
    using sys_pipe_room by blast
  note f1 = sys_pipe_fresh [OF p1]
  have room: "\<exists>r w. r \<noteq> w \<and> r < lim \<and> w < lim \<and> fd_at t1 r = None \<and> fd_at t1 w = None"
  proof -
    let ?S = "{length t ..< length t + 4} - {i0, i1}"
    have "card {length t ..< length t + 4} - card {i0, i1} \<le> card ?S" by (intro diff_card_le_card_Diff) simp
    moreover have "card {i0, i1} \<le> 2" by (simp add: card_insert_if)
    ultimately have "2 \<le> card ?S" by simp
    then obtain r w where "r \<in> ?S" "w \<in> ?S" "r \<noteq> w"
      by (metis card_le_Suc0_iff_eq finite_Diff finite_atLeastLessThan not_less_eq_eq numeral_2_eq_2)
    then have "r \<noteq> w \<and> r < lim \<and> w < lim \<and> fd_at t1 r = None \<and> fd_at t1 w = None"
      using f1(6) free assms(4) by simp
    then show ?thesis by blast
  qed
  obtain t2 o0 o1 where p2: "sys_pipe lim 1 t1 = Some (t2, o0, o1)" using sys_pipe_room [OF room] by blast
  note f2 = sys_pipe_fresh [OF p2]
  have at1: "o0 \<noteq> i0" "o0 \<noteq> i1" "o1 \<noteq> i0" "o1 \<noteq> i1" "fd_at t o0 = None" "fd_at t o1 = None"
    using f2(1,2) f1(6) [of o0] f1(6) [of o1] by (simp_all split: if_splits)
  have d: "distinct [i0, i1, o0, o1]" using at1 f1(3) f2(3) by auto
  have std: "n \<notin> {0, 1, 2}" if "fd_at t n = None" for n
    using that assms(1-3) unfolding is_open_def by (metis insertE empty_iff)
  have new: "\<forall>n \<in> {i0, i1, o0, o1}. n \<notin> {0, 1, 2} \<and> fd_at t n = None"
    using std f1(1,2) at1(5,6) by blast
  have at2: "fd_at t2 n = (if n = o0 then Some (PipeR 1) else if n = o1 then Some (PipeW 1)
      else if n = i0 then Some (PipeR 0) else if n = i1 then Some (PipeW 0) else fd_at t n)" for n
    using f2(6) f1(6) by simp
  let ?t3 = "fd_put (fd_put (fd_put t2 0 (Some (PipeR 0))) 1 (Some (PipeW 1))) 2 (Some (PipeW 1))"
  have "dup_all lim [(i0, 0), (o1, 1), (o1, 2)] t2 = Some ?t3"
    using at2 d new assms(4) by (auto simp: sys_dup2_def)
  moreover have "\<exists>t'. close_all [i0, i1, o0, o1] ?t3 = Some t'
      \<and> (\<forall>n. fd_at t' n = (if n \<in> set [i0, i1, o0, o1] then None else fd_at ?t3 n))"
    using d at2 by (intro close_all_some) auto
  ultimately obtain tk where k: "redir_kid lim (i0, i1) (o0, o1) t2 = Inr tk"
      "\<forall>n. fd_at tk n = (if n \<in> {i0, i1, o0, o1} then None else fd_at ?t3 n)"
    by (auto simp: redir_kid_def)
  have "\<exists>t'. close_all [o1, i0] t2 = Some t' \<and> (\<forall>n. fd_at t' n = (if n \<in> set [o1, i0] then None else fd_at t2 n))"
    using d at2 by (intro close_all_some) auto
  then obtain tp where p: "redir_parent (i0, i1) (o0, o1) t2 = Inr (tp, o0, i1)"
      "\<forall>n. fd_at tp n = (if n \<in> {o1, i0} then None else fd_at t2 n)"
    by (auto simp: redir_parent_def)
  have "fd_at tk = (fd_at t)(0 \<mapsto> PipeR 0, 1 \<mapsto> PipeW 1, 2 \<mapsto> PipeW 1)"
    using k(2) new at2 by (auto simp: fun_eq_iff)
  moreover have "fd_at tp = (fd_at t)(o0 \<mapsto> PipeR 1, i1 \<mapsto> PipeW 0)"
    using p(2) new at2 d by (auto simp: fun_eq_iff)
  moreover have "redir lim True t = (Inr (tp, o0, i1), Some (Inr tk))"
    using p1 p2 k(1) p(1) by (simp add: redir_def)
  moreover have "fd_at t o0 = None \<and> fd_at t i1 = None \<and> o0 \<noteq> i1" using new d by auto
  ultimately show ?thesis by blast
qed

theorem redir_hands_over_witness:
  "\<exists>tp rd wr tk. redir 64 True [Some (Opened 0), Some (Opened 1), Some (Opened 2), None, Some (Opened 9)]
     = (Inr (tp, rd, wr), Some (Inr tk))"
proof -
  let ?t = "[Some (Opened 0), Some (Opened 1), Some (Opened 2), None, Some (Opened 9)]"
  have "\<exists>tp rd wr tk. redir 64 True ?t = (Inr (tp, rd, wr), Some (Inr tk))
    \<and> fd_at tk = (fd_at ?t)(0 \<mapsto> PipeR 0, 1 \<mapsto> PipeW 1, 2 \<mapsto> PipeW 1)
    \<and> fd_at ?t rd = None \<and> fd_at ?t wr = None \<and> rd \<noteq> wr
    \<and> fd_at tp = (fd_at ?t)(rd \<mapsto> PipeR 1, wr \<mapsto> PipeW 0)"
    by (rule redir_hands_over) (simp_all add: is_open_def fd_at_def)
  then show ?thesis by blast
qed

text \<open>
  With a standard descriptor closed the new ends take its number, and the closes take them away again: the
  program that is run misses the very descriptor that was to be redirected.
\<close>

lemma redir_without_input:
  "\<exists>p tk. redir 64 True [None, Some (Opened 1), Some (Opened 2)] = (p, Some (Inr tk)) \<and> fd_at tk 0 = None"
  by (simp add: redir_def sys_pipe_def redir_kid_def sys_dup2_def sys_close_def fd_put_def fd_at_def Let_def)

lemma redir_without_output:
  "\<exists>p tk. redir 64 True [Some (Opened 0), None, Some (Opened 2)] = (p, Some (Inr tk)) \<and> fd_at tk 1 = None"
  by (simp add: redir_def sys_pipe_def redir_kid_def sys_dup2_def sys_close_def fd_put_def fd_at_def Let_def)

text \<open>The assertions of \<^verbatim>\<open>is-fd-open.c\<close> hold for a program started with the three standard descriptors only.\<close>

lemma is_fd_open_main_none:
  "is_fd_open_main t = None \<longleftrightarrow> fd_at t 0 \<noteq> None \<and> fd_at t 1 \<noteq> None \<and> fd_at t 2 \<noteq> None \<and> fd_at t 3 = None"
  by (simp add: is_fd_open_main_def is_open_def)

end
