(* ===== verification/Thread_Tests.thy ===== *)
theory Thread_Tests
  imports Ring_Test
begin

text \<open>
  The test programs of the threads package, \<^verbatim>\<open>labs/6-threads/2-threads.new/1-test-thread.c\<close>,
  \<^verbatim>\<open>3-test-cswitch.c\<close>, \<^verbatim>\<open>4-test-yield.c\<close> and \<^verbatim>\<open>5-test-ping-pong.c\<close>. Threads run until they yield or exit;
  the routines that switch between them are stubs in the source, so the threads are interleaved by a
  schedule, any list of thread numbers. A schedule may cut a thread finer than its yields do.
\<close>

section \<open>1-test-thread.c: counting threads\<close>

text \<open>
  The number of each thread's next part: 0 up to the first yield, 1 and 2 between yields, 3 the exit, and 4
  when it is over. Thread \<open>i\<close> was forked with a pointer to \<open>i\<close>.
\<close>

record sum_t =
  th_part :: "nat list"
  thread_count :: u32
  thread_sum :: u32

definition thread_code :: "(nat \<Rightarrow> u32) \<Rightarrow> nat \<Rightarrow> sum_t \<Rightarrow> sum_t result" where
  "thread_code tid_of i s = (let p = th_part s ! i; s1 = s\<lparr>th_part := (th_part s)[i := p + 1]\<rparr> in
     if p = 0 then rbind (c_demand (tid_of i = of_nat i + 1) ''expected %d, have %d'') (\<lambda>_. Inr s1)
     else if p = 1 then Inr (s1\<lparr>thread_count := thread_count s + 1\<rparr>)
     else if p = 2 then Inr (s1\<lparr>thread_sum := thread_sum s + of_nat i\<rparr>)
     else Inr s1)"

text \<open>The scheduler runs threads that are not over; the numbers of others have no effect.\<close>

fun sum_run :: "(nat \<Rightarrow> u32) \<Rightarrow> nat list \<Rightarrow> sum_t \<Rightarrow> sum_t result" where
  "sum_run tid_of [] s = Inr s"
| "sum_run tid_of (i # is) s =
     (if i < length (th_part s) \<and> th_part s ! i < 4 then rbind (thread_code tid_of i s) (sum_run tid_of is)
      else sum_run tid_of is s)"

text \<open>\<open>th_alloc\<close> numbers the threads from 1 in the order of the forks.\<close>

definition fork_tid :: "nat \<Rightarrow> u32" where
  "fork_tid i = 1 + of_nat i"

fun fork_sum :: "nat \<Rightarrow> u32" where
  "fork_sum 0 = 0"
| "fork_sum (Suc i) = fork_sum i + of_nat i"

definition sum_start :: "nat \<Rightarrow> sum_t" where
  "sum_start n = \<lparr>th_part = replicate n 0, thread_count = 0, thread_sum = 0\<rparr>"

text \<open>\<open>notmain\<close>, when \<open>rpi_thread_start\<close> comes back after every thread is over.\<close>

definition test_thread_main :: "nat \<Rightarrow> nat list \<Rightarrow> sum_t result" where
  "test_thread_main n sched = rbind (sum_run fork_tid sched (sum_start n)) (\<lambda>s.
     if \<exists>p \<in> set (th_part s). p < 4 then Inl Diverges
     else rbind (c_assert (thread_count s = of_nat n) ''thread_count == n'') (\<lambda>_.
       rbind (c_assert (thread_sum s = fork_sum n) ''thread_sum == sum'') (\<lambda>_. Inr s)))"

lemma sum_list_update:
  fixes f :: "nat \<Rightarrow> 'b \<Rightarrow> 'a :: ab_group_add"
  assumes "k < length xs"
  shows "(\<Sum>i < length xs. f i (xs[k := v] ! i)) = (\<Sum>i < length xs. f i (xs ! i)) + (f k v - f k (xs ! k))"
proof -
  have k: "k \<in> {..<length xs}" "finite {..<length xs}" using assms by simp_all
  have "(\<Sum>i \<in> {..<length xs} - {k}. f i (xs[k := v] ! i)) = (\<Sum>i \<in> {..<length xs} - {k}. f i (xs ! i))"
    by (rule sum.cong) auto
  then show ?thesis using sum.remove [OF k(2,1), of "\<lambda>i. f i (xs[k := v] ! i)"]
      sum.remove [OF k(2,1), of "\<lambda>i. f i (xs ! i)"] assms by simp
qed

definition sum_inv :: "nat \<Rightarrow> sum_t \<Rightarrow> bool" where
  "sum_inv n s \<longleftrightarrow> length (th_part s) = n
     \<and> thread_count s = (\<Sum>i < length (th_part s). if 1 < th_part s ! i then 1 else 0)
     \<and> thread_sum s = (\<Sum>i < length (th_part s). if 2 < th_part s ! i then of_nat i else 0)"

lemma thread_code_inv:
  assumes "sum_inv n s" "i < length (th_part s)"
  shows "\<exists>s'. thread_code fork_tid i s = Inr s' \<and> sum_inv n s'
    \<and> th_part s' = (th_part s)[i := th_part s ! i + 1]"
proof -
  let ?p = "th_part s ! i"
  note u = sum_list_update [OF assms(2), of "\<lambda>_ p. if 1 < p then 1 else (0 :: u32)" "?p + 1"]
    sum_list_update [OF assms(2), of "\<lambda>j p. if 2 < p then of_nat j else (0 :: u32)" "?p + 1"]
  consider "?p = 0" | "?p = 1" | "?p = 2" | "2 < ?p" by linarith
  then show ?thesis using assms(1) u
    by cases (simp_all add: thread_code_def fork_tid_def sum_inv_def Let_def)
qed

text \<open>A run never fails, and every thread has gone through as many of its parts as it was scheduled.\<close>

lemma sum_run_inv:
  "sum_inv n s \<Longrightarrow> \<forall>p \<in> set (th_part s). p \<le> 4 \<Longrightarrow> \<exists>s'. sum_run fork_tid sched s = Inr s' \<and> sum_inv n s'
     \<and> (\<forall>i < n. th_part s' ! i = min 4 (th_part s ! i + count_list sched i))"
proof (induction sched arbitrary: s)
  case Nil
  then show ?case by (auto simp: sum_inv_def min_def) (metis le_antisym nth_mem)
next
  case (Cons i sched)
  have len: "length (th_part s) = n" using Cons.prems(1) by (simp add: sum_inv_def)
  have le: "th_part s ! j \<le> 4" if "j < n" for j using Cons.prems(2) len that by auto
  show ?case
  proof (cases "i < length (th_part s) \<and> th_part s ! i < 4")
    case True
    then obtain s1 where s1: "thread_code fork_tid i s = Inr s1" "sum_inv n s1"
        "th_part s1 = (th_part s)[i := th_part s ! i + 1]"
      using thread_code_inv [OF Cons.prems(1)] by blast
    have "\<forall>p \<in> set (th_part s1). p \<le> 4"
      using s1(3) True Cons.prems(2) set_update_subset_insert [of "th_part s" i "th_part s ! i + 1"] by auto
    from Cons.IH [OF s1(2) this] show ?thesis using s1 True len by (auto simp: nth_list_update)
  next
    case False
    then have "min 4 (th_part s ! j + count_list (i # sched) j) = min 4 (th_part s ! j + count_list sched j)"
      if "j < n" for j using le [OF that] that len by (auto simp: min_def)
    then show ?thesis using Cons.IH [OF Cons.prems] False by auto
  qed
qed

lemma fork_sum_eq: "fork_sum n = (\<Sum>i < n. of_nat i)"
  by (induction n) (simp_all add: lessThan_Suc add.commute)

text \<open>
  (C19) Whatever the order in which the threads run, \<^verbatim>\<open>1-test-thread.c\<close> passes: no check of a thread number
  fails, the program is done exactly when each thread had its four turns, and then the count is the
  number of the threads and the sum that of their arguments.
\<close>
theorem test_thread_any_order:
  "if \<forall>i < n. 4 \<le> count_list sched i
   then \<exists>s. test_thread_main n sched = Inr s \<and> thread_count s = of_nat n \<and> thread_sum s = fork_sum n
   else test_thread_main n sched = Inl Diverges"
proof -
  have "sum_inv n (sum_start n)" by (simp add: sum_inv_def sum_start_def)
  moreover have "\<forall>p \<in> set (th_part (sum_start n)). p \<le> 4" by (simp add: sum_start_def)
  ultimately obtain s where s: "sum_run fork_tid sched (sum_start n) = Inr s" "sum_inv n s"
      "\<forall>i < n. th_part s ! i = min 4 (th_part (sum_start n) ! i + count_list sched i)"
    using sum_run_inv by blast
  have len: "length (th_part s) = n" using s(2) by (simp add: sum_inv_def)
  have part: "th_part s ! i = min 4 (count_list sched i)" if "i < n" for i
    using s(3) that by (simp add: sum_start_def)
  have fin: "(\<exists>p \<in> set (th_part s). p < 4) \<longleftrightarrow> \<not> (\<forall>i < n. 4 \<le> count_list sched i)"
  proof -
    have "(\<exists>p \<in> set (th_part s). p < 4) \<longleftrightarrow> (\<exists>i < n. th_part s ! i < 4)"
      using len by (metis in_set_conv_nth)
    then show ?thesis using part by (auto simp: not_le min_less_iff_disj)
  qed
  show ?thesis
  proof (cases "\<forall>i < n. 4 \<le> count_list sched i")
    case True
    then have "th_part s ! i = 4" if "i < n" for i using part that by simp
    then have "thread_count s = of_nat n" "thread_sum s = fork_sum n"
      using s(2) len by (simp_all add: sum_inv_def fork_sum_eq)
    then show ?thesis using s(1) True fin by (simp add: test_thread_main_def)
  qed (use s(1) fin in \<open>simp add: test_thread_main_def\<close>)
qed

theorem test_thread_any_order_witness:
  "\<exists>s. test_thread_main 2 [1, 0, 0, 1, 1, 0, 1, 0] = Inr s \<and> thread_count s = 2 \<and> thread_sum s = 1"
  using test_thread_any_order [of 2 "[1, 0, 0, 1, 1, 0, 1, 0]"] by (simp add: less_Suc_eq numeral_2_eq_2)

section \<open>4-test-yield.c: waiting while others run\<close>

text \<open>The readings of the timer are a script; how long a yield takes shows in the next one.\<close>

fun wait_usec_loop :: "u32 \<Rightarrow> u32 \<Rightarrow> u32 list \<Rightarrow> u32 list result" where
  "wait_usec_loop n start [] = Inl OutOfInput"
| "wait_usec_loop n start (t # ts) = (if t - start < n then Inr ts else wait_usec_loop n start ts)"

fun wait_usec :: "u32 \<Rightarrow> u32 list \<Rightarrow> u32 list result" where
  "wait_usec n ts = rbind (c_demand (n < 100000) ''unlikely large delay = %dusec!'') (\<lambda>_.
     case ts of [] \<Rightarrow> Inl OutOfInput | start # ts1 \<Rightarrow> wait_usec_loop n start ts1)"

datatype pin_ev = PinOutput u32 | PinOn u32 | PinOff u32

fun blink_loop :: "nat \<Rightarrow> u32 \<Rightarrow> u32 \<Rightarrow> u32 \<Rightarrow> u32 list \<Rightarrow> (pin_ev list \<times> u32 list) result" where
  "blink_loop 0 pin on_usec off_usec ts = Inr ([], ts)"
| "blink_loop (Suc k) pin on_usec off_usec ts =
     rbind (wait_usec on_usec ts) (\<lambda>ts1.
     rbind (wait_usec off_usec ts1) (\<lambda>ts2.
     rbind (blink_loop k pin on_usec off_usec ts2) (\<lambda>(es, ts3). Inr (PinOn pin # PinOff pin # es, ts3))))"

definition blink :: "u32 \<Rightarrow> u32 \<Rightarrow> u32 list \<Rightarrow> (pin_ev list \<times> u32 list) result" where
  "blink pin duty ts = rbind (c_demand (0 < duty \<and> duty \<le> 100) ''wierd duty cycle!'') (\<lambda>_.
     rbind (blink_loop 1000 pin duty (100 - duty) ts) (\<lambda>(es, ts1). Inr (PinOutput pin # es, ts1)))"

lemma wait_usec_loop_iff:
  "wait_usec_loop n start ts = Inr r \<longleftrightarrow>
     (\<exists>pre t. ts = pre @ t # r \<and> t - start < n \<and> (\<forall>p \<in> set pre. n \<le> p - start))"
proof (induction ts)
  case (Cons t ts)
  show ?case
  proof (cases "t - start < n")
    case True
    then show ?thesis by (auto simp: Cons_eq_append_conv not_less [symmetric])
  next
    case False
    have "wait_usec_loop n start (t # ts) = Inr r \<longleftrightarrow>
        (\<exists>pre u. ts = pre @ u # r \<and> u - start < n \<and> (\<forall>p \<in> set pre. n \<le> p - start))"
      using Cons.IH False by simp
    also have "\<dots> \<longleftrightarrow> (\<exists>pre u. t # ts = pre @ u # r \<and> u - start < n \<and> (\<forall>p \<in> set pre. n \<le> p - start))"
      using False by (auto simp: Cons_eq_append_conv not_less)
    finally show ?thesis .
  qed
qed simp

lemma wait_usec_loop_0: "wait_usec_loop 0 start ts = Inl OutOfInput"
  by (induction ts) simp_all

lemma wait_usec_error: "n < 100000 \<Longrightarrow> wait_usec n ts = Inl e \<Longrightarrow> e = OutOfInput"
proof -
  have "wait_usec_loop n start ts1 = Inl e \<Longrightarrow> e = OutOfInput" for start ts1
    by (induction ts1) (simp_all split: if_splits)
  then show "n < 100000 \<Longrightarrow> wait_usec n ts = Inl e \<Longrightarrow> e = OutOfInput"
    by (auto split: list.splits)
qed

text \<open>
  (C36) The test of \<open>wait_usec\<close> is the wrong way round. It comes back at the first reading that is less than
  \<open>n\<close> microseconds after the start, so at once when the others yield soon, and it goes on while the time
  asked for is over; and a light that should be on all the time waits for zero microseconds to pass,
  which no reading ever satisfies.
\<close>
theorem wait_usec_inverted:
  "(\<forall>n start ts r. n < 100000 \<longrightarrow> (wait_usec n (start # ts) = Inr r \<longleftrightarrow>
     (\<exists>pre t. ts = pre @ t # r \<and> t - start < n \<and> (\<forall>p \<in> set pre. n \<le> p - start))))
   \<and> (\<forall>pin ts. blink pin 100 ts = Inl OutOfInput)"
proof (intro conjI allI impI)
  show "wait_usec n (start # ts) = Inr r \<longleftrightarrow>
     (\<exists>pre t. ts = pre @ t # r \<and> t - start < n \<and> (\<forall>p \<in> set pre. n \<le> p - start))"
    if "n < 100000" for n start ts r using that by (simp add: wait_usec_loop_iff)
  have z: "wait_usec 0 ts = Inl OutOfInput" for ts by (simp add: wait_usec_loop_0 split: list.splits)
  have b: "blink_loop (Suc k) pin 100 0 ts = Inl OutOfInput" for k pin ts
  proof (cases "wait_usec 100 ts")
    case (Inl e)
    then have "e = OutOfInput" using wait_usec_error [of 100 ts e] by simp
    then show ?thesis using Inl by (simp del: wait_usec.simps)
  qed (simp add: z del: wait_usec.simps)
  show "blink pin 100 ts = Inl OutOfInput" for pin ts
    using b [of 999 pin ts] by (simp add: blink_def del: blink_loop.simps)
qed

theorem wait_usec_inverted_witness:
  "wait_usec 75 [1000, 1001, 1080] = Inr [1080] \<and> wait_usec 75 [1000, 1080, 1090] = Inl OutOfInput"
proof -
  have "wait_usec 75 (1000 # [1001, 1080]) = Inr [1080]"
    using wait_usec_inverted by (auto intro: exI [of _ "[]"])
  moreover have "wait_usec 75 [1000, 1080, 1090] = Inl OutOfInput" by simp
  ultimately show ?thesis by simp
qed

section \<open>5-test-ping-pong.c: two threads and two rings\<close>

text \<open>
  A thread is at the test of its loop, at the pop, at the push with the number it received, or over; its \<open>x\<close>
  is not initialised, so it starts with anything. \<open>f\<close> is the fuel of the pop, as in the ring. The
  numbers received are noted, latest first.
\<close>

datatype pp_pc = PTop | PPop | PPush | PExit

type_synonym pp_thread = "pp_pc \<times> u32"

definition pingpong :: "nat \<Rightarrow> u32 \<Rightarrow> cq_t \<Rightarrow> cq_t \<Rightarrow> pp_thread \<Rightarrow> (cq_t \<times> cq_t \<times> pp_thread \<times> u32 list) result" where
  "pingpong f N qin qout th = (case th of
     (PTop, x) \<Rightarrow> Inr (qin, qout, (if x < 100 then PPop else PExit, x), [])
   | (PPop, x) \<Rightarrow> rbind (cq_pop_n_noblk6 f N qin 4) (\<lambda>(r, q). case r of
         Some [b0, b1, b2, b3] \<Rightarrow> Inr (q, qout, (PPush, le32 b0 b1 b2 b3), [le32 b0 b1 b2 b3])
       | _ \<Rightarrow> Inr (q, qout, (PPop, x), []))
   | (PPush, x) \<Rightarrow> rbind (cq_push_n6 N qout (bytes_of_u32 x) 4) (\<lambda>(ok, q).
         if ok then Inr (qin, q, (PTop, x), []) else Inl (Panic ''impossible''))
   | (PExit, x) \<Rightarrow> Inr (qin, qout, (PExit, x), []))"

record pp_state =
  q0 :: cq_t
  q1 :: cq_t
  thr0 :: pp_thread
  thr1 :: pp_thread
  received :: "u32 list"

text \<open>Thread 0 takes from \<open>q1\<close> and sends to \<open>q0\<close>, thread 1 the other way round.\<close>

fun pp_run :: "nat \<Rightarrow> u32 \<Rightarrow> bool list \<Rightarrow> pp_state \<Rightarrow> pp_state result" where
  "pp_run f N [] s = Inr s"
| "pp_run f N (b # bs) s =
     (if b then rbind (pingpong f N (q0 s) (q1 s) (thr1 s)) (\<lambda>(qi, qo, th, r).
          pp_run f N bs (s\<lparr>q0 := qi, q1 := qo, thr1 := th, received := r @ received s\<rparr>))
      else rbind (pingpong f N (q1 s) (q0 s) (thr0 s)) (\<lambda>(qi, qo, th, r).
          pp_run f N bs (s\<lparr>q1 := qi, q0 := qo, thr0 := th, received := r @ received s\<rparr>)))"

definition pingpong_main :: "nat \<Rightarrow> u32 \<Rightarrow> u32 \<Rightarrow> u32 \<Rightarrow> bool list \<Rightarrow> pp_state result" where
  "pingpong_main f N a b sched =
     rbind (cq_init6 N 1) (\<lambda>c0. rbind (cq_init6 N 1) (\<lambda>c1.
     rbind (cq_push_n6 N c0 (bytes_of_u32 0) 4) (\<lambda>(_, c0).
       pp_run f N sched \<lparr>q0 = c0, q1 = c1, thr0 = (PTop, a), thr1 = (PTop, b), received = []\<rparr>)))"

text \<open>
  One message is on its way, always: in one of the rings, or with the thread that is about to push it. It is
  the 0 of \<open>notmain\<close>, since nobody counts it up.
\<close>

definition pp_thread_ok :: "u32 \<Rightarrow> pp_thread \<Rightarrow> bool" where
  "pp_thread_ok a th \<longleftrightarrow> snd th \<in> {a, 0} \<and> (fst th = PExit \<longrightarrow> 100 \<le> snd th) \<and> (fst th = PPush \<longrightarrow> snd th = 0)"

definition pp_inv :: "u32 \<Rightarrow> u32 \<Rightarrow> u32 \<Rightarrow> pp_state \<Rightarrow> bool" where
  "pp_inv N a b s \<longleftrightarrow> cq_inv N (q0 s) \<and> cq_inv N (q1 s) \<and> pp_thread_ok a (thr0 s) \<and> pp_thread_ok b (thr1 s)
     \<and> set (received s) \<subseteq> {0}
     \<and> (cq_list N (q0 s), cq_list N (q1 s), fst (thr0 s) = PPush, fst (thr1 s) = PPush)
         \<in> {(bytes_of_u32 0, [], False, False), ([], bytes_of_u32 0, False, False), ([], [], True, False),
            ([], [], False, True)}"

lemma push_token:
  assumes "cq_inv N q" "cq_list N q = []" "4 < unat N"
  shows "\<exists>q'. cq_push_n6 N q (bytes_of_u32 x) 4 = Inr (True, q') \<and> cq_inv N q' \<and> cq_list N q' = bytes_of_u32 x"
  using push_pop_n [OF assms(1,2), of 4 "bytes_of_u32 x"] assms(3) by (auto simp: bytes_of_u32_def)

lemma pop_token:
  assumes "cq_inv N q" "cq_list N q = bytes_of_u32 x"
  shows "\<exists>q'. cq_pop_n_noblk6 (Suc f) N q 4 = Inr (Some (bytes_of_u32 x), q') \<and> cq_inv N q' \<and> cq_list N q' = []"
  using cq_pop_n_noblk_ok [OF assms(1), of 4] assms cq_pop_n_noblk6_eq [OF assms(1), of f 4]
  by (auto simp: bytes_of_u32_def)

lemma pop_no_token:
  assumes "cq_inv N q" "cq_list N q = []"
  shows "cq_pop_n_noblk6 (Suc f) N q 4 = Inr (None, q)"
proof -
  have "cq_nelem N q < 4" using unat_cq_nelem [OF assms(1)] assms(2) by (simp add: word_less_nat_alt)
  then show ?thesis using cq_pop_n_noblk6_eq [OF assms(1), of f 4] by (simp add: cq_pop_n_noblk_def)
qed

text \<open>A step of either thread, seen from its own side.\<close>

lemma pingpong_step:
  assumes "cq_inv N qi" "cq_inv N qo" "4 < unat N" "pp_thread_ok a th"
    and "(cq_list N qi, cq_list N qo, fst th = PPush) \<in> {(bytes_of_u32 0, [], False), ([], bytes_of_u32 0, False),
      ([], [], True), ([], [], False)}"
  shows "\<exists>qi' qo' th' r. pingpong (Suc f) N qi qo th = Inr (qi', qo', th', r) \<and> cq_inv N qi' \<and> cq_inv N qo'
    \<and> pp_thread_ok a th' \<and> set r \<subseteq> {0}
    \<and> (if fst th = PPush then cq_list N qi' = [] \<and> cq_list N qo' = bytes_of_u32 0 \<and> fst th' \<noteq> PPush
       else if fst th = PPop \<and> cq_list N qi = bytes_of_u32 0
       then cq_list N qi' = [] \<and> cq_list N qo' = [] \<and> fst th' = PPush
       else cq_list N qi' = cq_list N qi \<and> cq_list N qo' = cq_list N qo \<and> fst th' \<noteq> PPush)"
proof -
  obtain p x where th: "th = (p, x)" by (cases th)
  have ne: "bytes_of_u32 0 \<noteq> []" by (simp add: bytes_of_u32_def)
  show ?thesis
  proof (cases p)
    case PTop
    then show ?thesis using assms th by (auto simp: pingpong_def pp_thread_ok_def not_less)
  next
    case PPop
    show ?thesis
    proof (cases "cq_list N qi = []")
      case True
      then show ?thesis using pop_no_token [OF assms(1), of f] assms th PPop ne
        by (auto simp: pingpong_def pp_thread_ok_def)
    next
      case False
      then have t: "cq_list N qi = bytes_of_u32 0" "cq_list N qo = []" using assms(5) by auto
      obtain q where q: "cq_pop_n_noblk6 (Suc f) N qi 4 = Inr (Some (bytes_of_u32 0), q)" "cq_inv N q"
          "cq_list N q = []"
        using pop_token [OF assms(1) t(1)] by blast
      have "le32 (byte_of 0 0) (byte_of (Suc 0) 0) (byte_of 2 0) (byte_of 3 0) = (0 :: u32)" by (rule le32_byte_of)
      then show ?thesis using q t assms(2,4) th PPop
        by (auto simp: pingpong_def pp_thread_ok_def bytes_of_u32_def numeral_2_eq_2 numeral_3_eq_3)
    qed
  next
    case PPush
    then have "cq_list N qi = []" "cq_list N qo = []" "x = 0" using assms(4,5) th by (auto simp: pp_thread_ok_def)
    then show ?thesis using push_token [OF assms(2) _ assms(3), of 0] assms th PPush
      by (auto simp: pingpong_def pp_thread_ok_def)
  next
    case PExit
    then show ?thesis using assms th by (auto simp: pingpong_def)
  qed
qed

lemma pp_run_inv:
  "pp_inv N a b s \<Longrightarrow> 4 < unat N \<Longrightarrow> \<exists>s'. pp_run (Suc f) N sched s = Inr s' \<and> pp_inv N a b s'"
proof (induction sched arbitrary: s)
  case (Cons w sched)
  note i = Cons.prems(1) [unfolded pp_inv_def]
  have ne: "bytes_of_u32 0 \<noteq> []" by (simp add: bytes_of_u32_def)
  show ?case
  proof (cases w)
    case True
    have "\<exists>qi qo th r. pingpong (Suc f) N (q0 s) (q1 s) (thr1 s) = Inr (qi, qo, th, r)
        \<and> pp_inv N a b (s\<lparr>q0 := qi, q1 := qo, thr1 := th, received := r @ received s\<rparr>)"
      using pingpong_step [of N "q0 s" "q1 s" b "thr1 s" f] i Cons.prems(2) ne unfolding pp_inv_def
      by (fastforce split: if_splits)
    then show ?thesis using Cons.IH Cons.prems(2) True by fastforce
  next
    case False
    have "\<exists>qi qo th r. pingpong (Suc f) N (q1 s) (q0 s) (thr0 s) = Inr (qi, qo, th, r)
        \<and> pp_inv N a b (s\<lparr>q1 := qi, q0 := qo, thr0 := th, received := r @ received s\<rparr>)"
      using pingpong_step [of N "q1 s" "q0 s" a "thr0 s" f] i Cons.prems(2) ne unfolding pp_inv_def
      by (fastforce split: if_splits)
    then show ?thesis using Cons.IH Cons.prems(2) False by fastforce
  qed
qed simp

text \<open>
  (C18) \<^verbatim>\<open>5-test-ping-pong.c\<close> plays, but stands still. Under every schedule neither thread panics and there is
  never more than one message in the rings; every number received is 0, and a thread ends only if its
  uninitialised \<open>x\<close> happened to be 100 or more, before it received anything: the count to 100 that
  the loop waits for does not happen.
\<close>
theorem pingpong_stands_still:
  assumes "cq_size_ok N" "4 < unat N"
  shows "\<exists>s. pingpong_main (Suc f) N a b sched = Inr s \<and> set (received s) \<subseteq> {0}
    \<and> length (cq_list N (q0 s)) + length (cq_list N (q1 s)) \<le> 4
    \<and> (fst (thr0 s) = PExit \<longrightarrow> 100 \<le> a) \<and> (fst (thr1 s) = PExit \<longrightarrow> 100 \<le> b)"
proof -
  obtain c where c: "cq_init6 N 1 = Inr c" "cq_inv N c" "cq_list N c = []"
    using cq_init_ok [OF assms(1), of 1] by (auto simp: cq_init6_def)
  obtain c0 where c0: "cq_push_n6 N c (bytes_of_u32 0) 4 = Inr (True, c0)" "cq_inv N c0"
      "cq_list N c0 = bytes_of_u32 0"
    using push_token [OF c(2,3) assms(2)] by blast
  let ?s = "\<lparr>q0 = c0, q1 = c, thr0 = (PTop, a), thr1 = (PTop, b), received = []\<rparr>"
  have "pp_inv N a b ?s" using c c0 by (simp add: pp_inv_def pp_thread_ok_def)
  from pp_run_inv [OF this assms(2)] obtain s where s: "pp_run (Suc f) N sched ?s = Inr s" "pp_inv N a b s"
    by blast
  then have "pingpong_main (Suc f) N a b sched = Inr s" using c c0 by (simp add: pingpong_main_def)
  moreover have "length (cq_list N (q0 s)) + length (cq_list N (q1 s)) \<le> 4"
    using s(2) by (auto simp: pp_inv_def bytes_of_u32_def)
  ultimately show ?thesis using s(2) by (auto simp: pp_inv_def pp_thread_ok_def)
qed

theorem pingpong_stands_still_witness:
  "\<exists>s. pingpong_main 1 8 7 7 [True, True, True, False, False] = Inr s \<and> fst (thr0 s) \<noteq> PExit \<and> fst (thr1 s) \<noteq> PExit"
proof -
  have "cq_size_ok 8" by (simp add: cq_size_ok_def)
  from pingpong_stands_still [OF this, of 0 7 7 "[True, True, True, False, False]"] show ?thesis by auto
qed

text \<open>The ball does move: here each thread receives it once.\<close>

lemma pingpong_moves:
  "case pingpong_main 1 8 7 7 [True, True, True, False, False] of Inr s \<Rightarrow> received s = [0, 0] | Inl _ \<Rightarrow> False"
  by code_simp

section \<open>3-test-cswitch.c: a checkpoint of the registers\<close>

text \<open>
  \<open>cswitch(old, new)\<close>, which is assembly, saves in \<open>old\<close> where it was called and goes on where \<open>new\<close> was
  saved. The save areas hold the number of the place, the count is in memory and keeps its value. The places
  are 0 before and 1 after the first \<open>cswitch(ckpt, ckpt)\<close>, 2 the last \<open>cswitch\<close> and 3 the panic behind it.
\<close>

record cswitch_t =
  ckpt_area :: "nat option"
  save_area :: "nat option"
  ck_count :: u32

definition time_travel_step :: "nat \<Rightarrow> cswitch_t \<Rightarrow> (cswitch_t + nat \<times> cswitch_t) result" where
  "time_travel_step pc s =
     (if pc = 0 then (let s1 = s\<lparr>ckpt_area := Some 1\<rparr> in
        case ckpt_area s1 of None \<Rightarrow> Inl Bounds | Some p \<Rightarrow> Inr (Inr (p, s1)))
      else if pc = 1 then (let s1 = s\<lparr>ck_count := ck_count s + 1\<rparr> in
        if 4 \<le> sint (ck_count s1) then rbind (c_assert (ck_count s1 = 4) ''*count == 4'') (\<lambda>_. Inr (Inl s1))
        else Inr (Inr (2, s1)))
      else if pc = 2 then (let s1 = s\<lparr>save_area := Some 3\<rparr> in
        case ckpt_area s1 of None \<Rightarrow> Inl Bounds | Some p \<Rightarrow> Inr (Inr (p, s1)))
      else Inl (Panic ''IMPOSSIBLE: should not reach this''))"

fun time_travel :: "nat \<Rightarrow> nat \<Rightarrow> cswitch_t \<Rightarrow> cswitch_t result" where
  "time_travel 0 pc s = Inl Diverges"
| "time_travel (Suc k) pc s =
     rbind (time_travel_step pc s) (\<lambda>r. case r of Inl s1 \<Rightarrow> Inr s1 | Inr (pc1, s1) \<Rightarrow> time_travel k pc1 s1)"

text \<open>The test goes back three times and ends with the count 4, whatever the areas held before.\<close>

lemma time_travel_ends: "\<exists>s'. time_travel (8 + k) 0 (s\<lparr>ck_count := 0\<rparr>) = Inr s' \<and> ck_count s' = 4"
proof -
  have "8 + k = Suc (Suc (Suc (Suc (Suc (Suc (Suc (Suc k)))))))" by simp
  then show ?thesis by (simp only:) (simp add: time_travel_step_def Let_def)
qed

end
