(* ===== verification/Device_Tests.thy ===== *)
theory Device_Tests
  imports Pi_Runtime
begin

text \<open>
  Programs and routines around the devices: the test of the edge interrupts
  (\<^verbatim>\<open>labs/8-device-interrupts/part1-gpio-int/1-gpio-int-ex.c\<close>), the receiving side of the software uart as far
  as it is written (\<^verbatim>\<open>00-test-sw-uart/sw-uart.c\<close> of the same lab), and the reboot of \<^verbatim>\<open>libpi\<close>
  (\<^verbatim>\<open>cs140e-src/reboot.c\<close>).
\<close>

section \<open>1-gpio-int-ex.c\<close>

text \<open>
  The handler that counts is a stub, so what it counts is a script: for every write of the pin with the delay
  behind it, how many rising and how many falling edges were added to the counters. An edge that the handler counts
  outside these windows, between a check and the reset of the counter behind it, is not in the script.
\<close>

record edges_t =
  n_rising_edge :: u32
  n_falling_edge :: u32
  edge_script :: "(u32 \<times> u32) list"

definition edge_write :: "edges_t \<Rightarrow> edges_t result" where
  "edge_write s = (case edge_script s of [] \<Rightarrow> Inl OutOfInput
     | (r, f) # es \<Rightarrow> Inr (s\<lparr>n_rising_edge := n_rising_edge s + r, n_falling_edge := n_falling_edge s + f,
         edge_script := es\<rparr>))"

definition test1_simple_rise :: "edges_t \<Rightarrow> edges_t result" where
  "test1_simple_rise s =
     rbind (c_assert (n_rising_edge s = 0) ''!n_rising_edge'') (\<lambda>_.
     rbind (edge_write s) (\<lambda>s1.
     rbind (c_assert (n_rising_edge s1 = 1) ''n_rising_edge == 1'') (\<lambda>_.
       Inr (s1\<lparr>n_rising_edge := 0\<rparr>))))"

definition test2_simple_fall :: "edges_t \<Rightarrow> edges_t result" where
  "test2_simple_fall s =
     rbind (c_assert (n_falling_edge s = 0) ''!n_falling_edge'') (\<lambda>_.
     rbind (edge_write s) (\<lambda>s1.
     rbind (c_assert (n_falling_edge s1 = 1) ''n_falling_edge == 1'') (\<lambda>_.
       Inr (s1\<lparr>n_falling_edge := 0\<rparr>))))"

fun test3_loop :: "nat \<Rightarrow> edges_t \<Rightarrow> edges_t result" where
  "test3_loop 0 s = Inr s"
| "test3_loop (Suc k) s =
     rbind (edge_write s) (\<lambda>s1.
     rbind (c_assert (n_rising_edge s + 1 = n_rising_edge s1) ''b+1 == n_rising_edge'') (\<lambda>_.
     rbind (edge_write s1) (\<lambda>s2.
     rbind (c_assert (n_falling_edge s1 + 1 = n_falling_edge s2) ''b+1 == n_falling_edge'') (\<lambda>_.
       test3_loop k s2))))"

definition test3_full_test :: "edges_t \<Rightarrow> edges_t result" where
  "test3_full_test s =
     rbind (c_assert (n_falling_edge s = 0) ''!n_falling_edge'') (\<lambda>_.
     rbind (c_assert (n_rising_edge s = 0) ''!n_rising_edge'') (\<lambda>_.
     rbind (test3_loop 10 s) (\<lambda>s1.
     rbind (c_assert (n_rising_edge s1 = 10) ''n_rising_edge == n'') (\<lambda>_.
     rbind (c_assert (n_falling_edge s1 = 10) ''n_falling_edge == n'') (\<lambda>_. Inr s1)))))"

text \<open>\<open>notmain\<close> after the set-up: the counters are statics, so they start at 0.\<close>

definition gpio_int_tests :: "(u32 \<times> u32) list \<Rightarrow> edges_t result" where
  "gpio_int_tests es =
     rbind (test1_simple_rise \<lparr>n_rising_edge = 0, n_falling_edge = 0, edge_script = es\<rparr>) (\<lambda>s1.
     rbind (test2_simple_fall s1) test3_full_test)"

text \<open>The script of a pair of writes per round, up and down.\<close>

fun pair_script :: "((u32 \<times> u32) \<times> (u32 \<times> u32)) list \<Rightarrow> (u32 \<times> u32) list" where
  "pair_script [] = []"
| "pair_script ((u, d) # ps) = u # d # pair_script ps"

text \<open>A round of the loop asks for one edge of the right kind; what is added to the other counter goes by.\<close>

lemma test3_loop_iff:
  "(\<exists>s'. test3_loop (length ps) (s\<lparr>edge_script := pair_script ps\<rparr>) = Inr s' \<and> P s') \<longleftrightarrow>
     (\<forall>(u, d) \<in> set ps. fst u = 1 \<and> snd d = 1)
     \<and> P (s\<lparr>n_rising_edge := n_rising_edge s + (\<Sum>(u, d) \<leftarrow> ps. 1 + fst d),
          n_falling_edge := n_falling_edge s + (\<Sum>(u, d) \<leftarrow> ps. snd u + 1), edge_script := []\<rparr>)"
proof (induction ps arbitrary: s)
  case (Cons p ps)
  obtain ur uf dr df where p: "p = ((ur, uf), (dr, df))" by (cases p) auto
  let ?s = "s\<lparr>n_rising_edge := n_rising_edge s + ur + dr, n_falling_edge := n_falling_edge s + uf + df\<rparr>"
  have "(\<exists>s'. test3_loop (length (p # ps)) (s\<lparr>edge_script := pair_script (p # ps)\<rparr>) = Inr s' \<and> P s') \<longleftrightarrow>
      ur = 1 \<and> df = 1 \<and> (\<exists>s'. test3_loop (length ps) (?s\<lparr>edge_script := pair_script ps\<rparr>) = Inr s' \<and> P s')"
    by (auto simp: p edge_write_def c_assert_def)
  then show ?case using Cons.IH [of ?s] by (auto simp: p algebra_simps)
qed simp

lemma test3_loop_result:
  "(\<exists>s'. test3_loop (length ps) (s\<lparr>edge_script := pair_script ps\<rparr>) = Inr s')
   \<or> (\<exists>msg. test3_loop (length ps) (s\<lparr>edge_script := pair_script ps\<rparr>) = Inl (AssertFail msg))"
proof (induction ps arbitrary: s)
  case (Cons p ps)
  obtain ur uf dr df where p: "p = ((ur, uf), (dr, df))" by (cases p) auto
  show ?case
    using Cons.IH [of "s\<lparr>n_rising_edge := n_rising_edge s + ur + dr, n_falling_edge := n_falling_edge s + uf + df\<rparr>"]
    by (auto simp: p edge_write_def c_assert_def)
qed simp

lemma sum_list_Suc: "(\<Sum>x \<leftarrow> xs. f x + 1) = (\<Sum>x \<leftarrow> xs. f x) + (of_nat (length xs) :: u32)"
  by (induction xs) simp_all

lemma test3_iff:
  assumes "length ps = 10" "n_rising_edge s = 0" "n_falling_edge s = 0"
  shows "(\<exists>s'. test3_full_test (s\<lparr>edge_script := pair_script ps\<rparr>) = Inr s') \<longleftrightarrow>
    (\<forall>(u, d) \<in> set ps. fst u = 1 \<and> snd d = 1)
    \<and> (\<Sum>(u, d) \<leftarrow> ps. fst d) = 0 \<and> (\<Sum>(u, d) \<leftarrow> ps. snd u) = 0"
proof -
  have "(\<exists>s'. test3_full_test (s\<lparr>edge_script := pair_script ps\<rparr>) = Inr s') \<longleftrightarrow>
    (\<exists>s'. test3_loop (length ps) (s\<lparr>edge_script := pair_script ps\<rparr>) = Inr s'
       \<and> n_rising_edge s' = 10 \<and> n_falling_edge s' = 10)"
    using assms by (auto simp: test3_full_test_def rbind_eq_Inr c_assert_def)
  also have "\<dots> \<longleftrightarrow> (\<forall>(u, d) \<in> set ps. fst u = 1 \<and> snd d = 1)
      \<and> (\<Sum>(u, d) \<leftarrow> ps. 1 + fst d) = 10 \<and> (\<Sum>(u, d) \<leftarrow> ps. snd u + 1) = 10"
    using assms(2,3) by (simp only: test3_loop_iff) simp
  also have "(\<Sum>(u, d) \<leftarrow> ps. 1 + fst d) = (\<Sum>(u, d) \<leftarrow> ps. fst d) + 10"
    using sum_list_Suc [of "\<lambda>(u, d). fst d" ps] assms(1) by (simp add: case_prod_beta' add.commute)
  also have "(\<Sum>(u, d) \<leftarrow> ps. snd u + 1) = (\<Sum>(u, d) \<leftarrow> ps. snd u) + 10"
    using sum_list_Suc [of "\<lambda>(u, d). snd u" ps] assms(1) by (simp add: case_prod_beta')
  finally show ?thesis by simp
qed

lemma test3_result:
  assumes "length ps = 10"
  shows "(\<exists>s'. test3_full_test (s\<lparr>edge_script := pair_script ps\<rparr>) = Inr s')
    \<or> (\<exists>msg. test3_full_test (s\<lparr>edge_script := pair_script ps\<rparr>) = Inl (AssertFail msg))"
proof -
  have "(\<exists>s'. rbind (c_assert b m1) (\<lambda>_. rbind (c_assert c m2) (\<lambda>_. Inr s1)) = Inr s')
    \<or> (\<exists>msg. rbind (c_assert b m1) (\<lambda>_. rbind (c_assert c m2) (\<lambda>_. Inr s1)) = Inl (AssertFail msg))"
    for b m1 c m2 and s1 :: edges_t by (cases b; cases c) simp_all
  then show ?thesis using test3_loop_result [of ps s] assms
    by (cases "n_falling_edge s = 0"; cases "n_rising_edge s = 0") (auto simp: test3_full_test_def, blast)
qed

text \<open>
  (C35) What the test of the edge interrupts checks, exactly. It passes when the first write adds one rising and
  no falling edge and the second the reverse, and in the ten rounds that follow every write up adds one rising
  and every write down one falling edge, and what they add to the other counter sums up to nothing.
  Every other count fails an assertion.
\<close>
theorem gpio_int_tests_exact:
  assumes "length ps = 10"
  shows "if u = (1, 0) \<and> d = (0, 1) \<and> (\<forall>(u, d) \<in> set ps. fst u = 1 \<and> snd d = 1)
      \<and> (\<Sum>(u, d) \<leftarrow> ps. fst d) = 0 \<and> (\<Sum>(u, d) \<leftarrow> ps. snd u) = 0
    then \<exists>s. gpio_int_tests (u # d # pair_script ps) = Inr s
    else \<exists>msg. gpio_int_tests (u # d # pair_script ps) = Inl (AssertFail msg)"
proof -
  obtain ur uf dr df where ud: "u = (ur, uf)" "d = (dr, df)" by (cases u; cases d)
  show ?thesis
  proof (cases "u = (1, 0) \<and> d = (0, 1)")
    case True
    let ?s = "\<lparr>n_rising_edge = 0, n_falling_edge = 0, edge_script = pair_script ps\<rparr>"
    have "gpio_int_tests (u # d # pair_script ps) = test3_full_test (?s\<lparr>edge_script := pair_script ps\<rparr>)"
      using True by (simp add: gpio_int_tests_def test1_simple_rise_def test2_simple_fall_def edge_write_def)
    then show ?thesis using test3_iff [OF assms, of ?s] test3_result [OF assms, of ?s] True by auto
  next
    case False
    let ?s = "\<lparr>n_rising_edge = dr, n_falling_edge = 0, edge_script = pair_script ps\<rparr>"
    have "\<exists>msg. gpio_int_tests (u # d # pair_script ps) = Inl (AssertFail msg)"
      using False ud by (auto simp: gpio_int_tests_def test1_simple_rise_def test2_simple_fall_def
          test3_full_test_def edge_write_def c_assert_def)
    then show ?thesis using False by auto
  qed
qed

text \<open>The edges of a wire that connects the two pins pass; a rising edge counted on the way down fails.\<close>

theorem gpio_int_tests_exact_witness:
  "(\<exists>s. gpio_int_tests ((1, 0) # (0, 1) # pair_script (replicate 10 ((1, 0), (0, 1)))) = Inr s)
   \<and> (\<exists>msg. gpio_int_tests ((1, 0) # (0, 1) # pair_script (replicate 10 ((1, 0), (1, 1)))) = Inl (AssertFail msg))"
proof -
  show ?thesis
    using gpio_int_tests_exact [of "replicate 10 ((1, 0), (0, 1))" "(1, 0)" "(0, 1)"]
      gpio_int_tests_exact [of "replicate 10 ((1, 0), (1, 1))" "(1, 0)" "(0, 1)"]
    by (simp add: sum_list_replicate)
qed

section \<open>The software uart\<close>

text \<open>
  \<open>sw_uart_getc_timeout\<close> waits for the start bit, then for the middle of the first data bit, and then is a
  stub; \<open>cyc\<close> are the readings of the cycle counter.
\<close>

fun sw_wait_loop :: "u32 \<Rightarrow> u32 \<Rightarrow> u32 \<Rightarrow> (u32 \<times> u32) list \<Rightarrow> bool result" where
  "sw_wait_loop v start timeout_usec [] = Inl OutOfInput"
| "sw_wait_loop v start timeout_usec ((level, t) # obs) =
     (if level = v then Inr True else if timeout_usec < t - start then Inr False
      else sw_wait_loop v start timeout_usec obs)"

definition sw_wait_until_usec :: "u32 \<Rightarrow> u32 \<Rightarrow> u32 \<Rightarrow> (u32 \<times> u32) list \<Rightarrow> bool result" where
  "sw_wait_until_usec v timeout_usec start obs = sw_wait_loop v start timeout_usec obs"

definition sw_uart_getc_timeout :: "sw_uart_t \<Rightarrow> u32 \<Rightarrow> u32 \<Rightarrow> (u32 \<times> u32) list \<Rightarrow> u32 list \<Rightarrow> u32 result" where
  "sw_uart_getc_timeout u timeout_usec start obs cyc =
     rbind (sw_wait_until_usec 0 timeout_usec start obs) (\<lambda>ok.
       if \<not> ok then Inr (- 1)
       else (case cyc of [] \<Rightarrow> Inl OutOfInput
         | s # cyc1 \<Rightarrow> rbind (delay_ncycles s (cycle_per_bit u div 2 + 1 * cycle_per_bit u) cyc1)
             (\<lambda>_. Inl Unimplemented)))"

definition sw_uart_getc :: "sw_uart_t \<Rightarrow> u32 \<Rightarrow> (u32 \<times> u32) list \<Rightarrow> u32 list \<Rightarrow> u32 result" where
  "sw_uart_getc u start obs cyc = rbind (sw_uart_getc_timeout u (NOT 0) start obs cyc) (\<lambda>res.
     if res <s 0 then Inl (Panic ''impossible: have an infinite timeout!'') else Inr res)"

text \<open>The two routines that read a line store the terminator and stop at the stub in their loop.\<close>

definition sw_uart_gets_until :: "bytes \<Rightarrow> u32 \<Rightarrow> (u32 \<times> bytes) result" where
  "sw_uart_gets_until buf nbytes =
     rbind (c_assert (0 < nbytes) ''nbytes>0'') (\<lambda>_.
     rbind (arr_set buf 0 0) (\<lambda>buf1.
       if 0 < nbytes - 1 then Inl Unimplemented
       else rbind (arr_set buf1 0 0) (\<lambda>buf2. Inr (0, buf2))))"

definition sw_uart_gets_timeout :: "bytes \<Rightarrow> u32 \<Rightarrow> (u32 \<times> bytes) result" where
  "sw_uart_gets_timeout = sw_uart_gets_until"

definition sw_uart_gets_until_blk :: "bytes \<Rightarrow> u32 \<Rightarrow> (u32 \<times> bytes) result" where
  "sw_uart_gets_until_blk buf nbytes = rbind (sw_uart_gets_until buf nbytes) (\<lambda>(res, buf1).
     if res <s 0 then Inl (Panic ''impossible: have an infinite timeout!'') else Inr (res, buf1))"

text \<open>\<open>sw_uart_putk\<close> sends by \<open>sw_uart_putc\<close>, a stub: only the empty message comes back.\<close>

fun sw_uart_putk :: "bytes \<Rightarrow> unit result" where
  "sw_uart_putk [] = Inl Bounds"
| "sw_uart_putk (c # msg) = (if c = 0 then Inr () else Inl Unimplemented)"

definition sw_uart_printk :: "bytes \<Rightarrow> va list \<Rightarrow> nat result" where
  "sw_uart_printk fmt args = rbind (va_printk 460 fmt args) (\<lambda>(buf, sz).
     rbind (c_assert (sz < 459) ''sz < sizeof buf-1'') (\<lambda>_.
     rbind (sw_uart_putk buf) (\<lambda>_. Inr sz)))"

text \<open>The timeout \<open>~0\<close> is never over, so the panics that the blocking routines call impossible are.\<close>

lemma sw_wait_no_timeout: "sw_wait_loop v start (NOT 0) obs \<noteq> Inr False"
  by (induction obs) (auto split: if_splits)

lemma sw_uart_getc_no_panic: "sw_uart_getc u start obs cyc \<noteq> Inl (Panic msg)"
proof -
  have d: "delay_ncycles s n cyc1 \<noteq> Inl (Panic msg)" for s n cyc1
    by (induction s n cyc1 rule: delay_ncycles.induct) auto
  have w: "sw_wait_loop v s t obs \<noteq> Inl (Panic msg)" for v s t
    by (induction obs) (auto split: if_splits)
  show ?thesis using sw_wait_no_timeout [of 0 start obs] w d
    by (auto simp: sw_uart_getc_def sw_uart_getc_timeout_def sw_wait_until_usec_def rbind_def
        split: sum.splits if_splits list.splits)
qed

section \<open>Reboot\<close>

text \<open>
  The status register and the stores of \<open>rpi_reboot\<close>, which then spins; \<open>clk\<close> are the readings of the timer
  for its delay.
\<close>

definition user_level :: u32 where "user_level = 0b10000"

definition at_user_level :: "u32 \<Rightarrow> bool" where
  "at_user_level cpsr \<longleftrightarrow> cpsr AND 0b11111 = user_level"

definition set_user_level :: "u32 \<Rightarrow> u32" where
  "set_user_level cpsr = (cpsr AND NOT 0b11111) OR user_level"

definition rpi_reboot :: "u32 \<Rightarrow> u32 list \<Rightarrow> (u32 \<times> (u32 \<times> u32) list) result" where
  "rpi_reboot cpsr clk = (let cpsr1 = if at_user_level cpsr then set_user_level cpsr else cpsr in
     rbind (timer_delay_ms 30 clk) (\<lambda>_.
       Inr (cpsr1, [(0x20100024, 0x5a000000 OR 1), (0x2010001c, 0x5a000000 OR 0x20)])))"

text \<open>
  The test of the level is the wrong way round: the routine drops its privileges when it has none, so the
  register never changes, and a reboot from an exception stays in the exception.
\<close>

lemma rpi_reboot_keeps_level: "rpi_reboot cpsr clk = Inr (cpsr1, ps) \<Longrightarrow> cpsr1 = cpsr"
proof -
  have "set_user_level cpsr = cpsr" if "at_user_level cpsr"
  proof -
    have "(cpsr AND NOT 0b11111) OR (cpsr AND 0b11111) = cpsr"
      by (rule bit_word_eqI) (auto simp: bit_simps)
    then show ?thesis using that by (simp add: at_user_level_def set_user_level_def)
  qed
  then show "rpi_reboot cpsr clk = Inr (cpsr1, ps) \<Longrightarrow> cpsr1 = cpsr"
    by (auto simp: rpi_reboot_def rbind_eq_Inr Let_def split: if_splits)
qed

end
