(* ===== verification/Sd_Driver.thy ===== *)
theory Sd_Driver
  imports Dump Crc
begin

text \<open>
  Reading the SD card and the two drivers of \<^verbatim>\<open>labs/13-fat32\<close>: \<^verbatim>\<open>0-sd-driver\<close>, which checks the master boot
  record itself, and \<^verbatim>\<open>1-code\<close>, as far as it is written, which has the check in \<^verbatim>\<open>mbr-helpers.c\<close>. The card
  is a parameter: whether it can be set up, and for a sector number and a count what \<open>sd_readblock\<close>
  answers and the bytes it puts into the buffer. The buffer comes from the allocator.
\<close>

section \<open>The card\<close>

record sd_card =
  sd_init_ok :: bool
  sd_readblock :: "u32 \<Rightarrow> u32 \<Rightarrow> u32 \<times> bytes"

definition pi_sd_init :: "sd_card \<Rightarrow> unit result" where
  "pi_sd_init D = (if sd_init_ok D then Inr () else Inl (Panic ''sd_init failed''))"

text \<open>The version of \<^verbatim>\<open>0-sd-driver\<close>, and the one of \<^verbatim>\<open>1-code\<close>, which traces with a checksum.\<close>

definition pi_sd_read0 :: "sd_card \<Rightarrow> u32 \<Rightarrow> u32 \<Rightarrow> bytes result" where
  "pi_sd_read0 D lba nsec = (case sd_readblock D lba nsec of (res, data) \<Rightarrow>
     if res \<noteq> 512 * nsec then Inl (Panic ''could not read from sd card: result = %d'') else Inr data)"

definition sec_read :: "sd_card \<Rightarrow> u32 \<Rightarrow> u32 \<Rightarrow> bytes result" where
  "sec_read D lba nsec = pi_sd_read0 D lba nsec"

definition pi_sd_read :: "sd_card \<Rightarrow> u32 \<Rightarrow> u32 \<Rightarrow> bytes \<Rightarrow> (bytes \<times> bytes) result" where
  "pi_sd_read D lba nsec t = (case sd_readblock D lba nsec of (res, data) \<Rightarrow>
     if res \<noteq> 512 * nsec then Inl (Panic ''could not read from sd card: result = %d'')
     else rbind (our_crc32 data (nsec * 512)) (\<lambda>crc.
       rbind (says [(bstr ''TRACE:'', []), (ln ''sd_read: lba=<%x>, cksum=%x'', [VInt lba, VInt crc])] t)
         (\<lambda>t1. Inr (data, t1))))"

definition pi_sec_read :: "sd_card \<Rightarrow> u32 \<Rightarrow> u32 \<Rightarrow> bytes \<Rightarrow> (bytes \<times> bytes) result" where
  "pi_sec_read D lba nsec t = pi_sd_read D lba nsec t"

section \<open>0-sd-driver\<close>

definition mbr_check0 :: "bytes \<Rightarrow> unit result" where
  "mbr_check0 mbr = c_assert (num_field mbr_layout ''sigval'' mbr = 0xAA55) ''mbr->sigval == 0xAA55''"

fun part_empty_loop :: "nat \<Rightarrow> bytes \<Rightarrow> bool result" where
  "part_empty_loop 0 part = Inr True"
| "part_empty_loop (Suc k) [] = Inl Bounds"
| "part_empty_loop (Suc k) (x # part) = (if x \<noteq> 0 then Inr False else part_empty_loop k part)"

definition mbr_partition_empty0 :: "bytes \<Rightarrow> bool result" where
  "mbr_partition_empty0 part = part_empty_loop 16 part"

definition sd_notmain0 :: "sd_card \<Rightarrow> bytes \<Rightarrow> bytes result" where
  "sd_notmain0 D t =
     rbind (say (ln ''about to init'') [] t) (\<lambda>t.
     rbind (pi_sd_init D) (\<lambda>_.
     rbind (says [(ln ''done init'', []), (ln ''about to read block 0'', [])] t) (\<lambda>t.
     rbind (sec_read D 0 1) (\<lambda>mbr.
     rbind (say (ln ''read block 0'') [] t) (\<lambda>t.
     rbind (mbr_check0 mbr) (\<lambda>_.
     let part = (\<lambda>f. field mbr_layout f mbr) in
     rbind (mbr_partition_print (cstring (bstr ''partition 1'') []) (part ''part_tab1'') t) (\<lambda>t.
     rbind (c_assert (mbr_part_is_fat32 (num_field partition_layout ''part_type'' (part ''part_tab1'')))
              ''mbr_part_is_fat32(p.part_type)'') (\<lambda>_.
     rbind (mbr_partition_empty0 (part ''part_tab1'')) (\<lambda>e1.
     rbind (c_assert (\<not> e1) ''!mbr_partition_empty(part_tab1)'') (\<lambda>_.
     rbind (mbr_partition_empty0 (part ''part_tab2'')) (\<lambda>e2.
     rbind (c_assert e2 ''mbr_partition_empty(part_tab2)'') (\<lambda>_.
     rbind (mbr_partition_empty0 (part ''part_tab3'')) (\<lambda>e3.
     rbind (c_assert e3 ''mbr_partition_empty(part_tab3)'') (\<lambda>_.
     rbind (mbr_partition_empty0 (part ''part_tab4'')) (\<lambda>e4.
     rbind (c_assert e4 ''mbr_partition_empty(part_tab4)'') (\<lambda>_. Inr t))))))))))))))))"

section \<open>1-code, as far as it goes\<close>

text \<open>
  The first part of \<open>notmain\<close>, up to the first stub: the text so far and the partition it goes on with, and
  what the routines of the later parts do before they reach theirs.
\<close>

definition driver_part1 :: "sd_card \<Rightarrow> bytes \<Rightarrow> (bytes \<times> bytes) result" where
  "driver_part1 D t =
     rbind (pi_sd_init D) (\<lambda>_.
     rbind (pi_sec_read D 0 1 t) (\<lambda>(mbr, t).
     rbind (mbr_check mbr) (\<lambda>_.
     rbind (mbr_get_partition mbr 0) (\<lambda>p.
     rbind (mbr_partition_print (cstring (bstr ''partition 0'') []) p t) (\<lambda>t. Inr (p, t))))))"

definition driver_notmain :: "sd_card \<Rightarrow> bytes \<Rightarrow> unit result" where
  "driver_notmain D t = rbind (driver_part1 D t) (\<lambda>(p, t).
     rbind (say (ln ''reading from %d'') (fnum partition_layout p ''lba_start'') t) (\<lambda>_. Inl Unimplemented))"

definition fat32_mk :: "u32 \<Rightarrow> bytes \<Rightarrow> bytes \<Rightarrow> unit result" where
  "fat32_mk lba_start b t =
     (let r = field boot_sec_layout ''reserved_area_nsec'' b; n = num_field boot_sec_layout ''reserved_area_nsec'' b in
      rbind (arr_get r 1) (\<lambda>r1. rbind (arr_get r 0) (\<lambda>r0.
      rbind (c_assert ((push_bit 8 (ucast r1) OR ucast r0 :: u32) = of_nat n) ''reserved == b->reserved_area_nsec'') (\<lambda>_.
      rbind (say (ln ''begin lba = %d'') [VInt (lba_start + of_nat n)] t) (\<lambda>_. Inl Unimplemented)))))"

definition cluster_to_lba :: "u32 \<Rightarrow> u32 result" where
  "cluster_to_lba cluster_num = rbind (c_assert (2 \<le> cluster_num) ''cluster_num >= 2'') (\<lambda>_. Inl Unimplemented)"

definition fat32_readin_root_dir :: "u32 \<Rightarrow> u32 list \<Rightarrow> bytes \<Rightarrow> unit result" where
  "fat32_readin_root_dir lba_start fat t =
     rbind (arr_get fat 2) (\<lambda>e.
     rbind (fat32_fat_entry_type e) (\<lambda>type.
     rbind (fat32_fat_entry_type_str type) (\<lambda>s.
     rbind (says [(ln ''fat[2] = %x, type=%s'', [VInt e, VStr (cstring (bstr s) [])]),
                  (ln ''lba.start=%d'', [VInt lba_start])] t) (\<lambda>_.
     rbind (cluster_to_lba 2) (\<lambda>_. Inl Unimplemented)))))"

section \<open>The print of a partition\<close>

lemma part_empty_eq: "mbr_partition_empty0 p = mbr_partition_empty p"
proof -
  have "part_empty_loop k p = memiszero_loop k p" for k
    by (induction k p rule: part_empty_loop.induct) simp_all
  then show ?thesis by (simp add: mbr_partition_empty0_def mbr_partition_empty_def memiszero_def)
qed

lemma say_str:
  assumes "no_nul a" "no_nul b" "no_nul s" "37 \<notin> set a" "37 \<notin> set b" "length a + length s + length b < 900"
  shows "say (a @ 37 # 115 # b) [VStr (cstring s r)] t = Inr (t @ a @ s @ b)"
proof -
  have "va_printk_loop 1023 [] (cstring (a @ 37 # 115 # b) []) [VStr (cstring s r)] = Inr (a @ s @ b)"
    using assms loop_lit [of "[]" a 1023 "37 # 115 # b @ [0]" "[VStr (cstring s r)]"]
      loop_str [of a s 1023 "b @ [0]" r "[]"] loop_lit [of "a @ s" b 1023 "[0]" "[]"]
    by (simp add: cstring_def loop_end)
  moreover have "no_nul (a @ s @ b)" using assms by (simp add: no_nul_def)
  ultimately show ?thesis by (rule say_eq)
qed

lemma say_num_str:
  assumes "c = CHR ''x'' \<or> c = CHR ''b'' \<or> c = CHR ''d''" "no_nul a" "no_nul m" "no_nul b" "no_nul s"
    and "37 \<notin> set a" "37 \<notin> set m" "37 \<notin> set b" "length a + length m + length s + length b < 900"
  shows "say (a @ 37 # ch c # m @ 37 # 115 # b) [VInt v, VStr (cstring s r)] t
    = Inr (t @ a @ conv_text c v @ m @ s @ b)"
proof -
  note n = conv_text_chars [OF assms(1), of v]
  have "va_printk_loop 1023 [] (cstring (a @ 37 # ch c # m @ 37 # 115 # b) []) [VInt v, VStr (cstring s r)]
      = Inr (a @ conv_text c v @ m @ s @ b)"
    using assms n loop_lit [of "[]" a 1023 "37 # ch c # m @ 37 # 115 # b @ [0]" "[VInt v, VStr (cstring s r)]"]
      loop_num [of a 1023 c "m @ 37 # 115 # b @ [0]" v "[VStr (cstring s r)]"]
      loop_lit [of "a @ conv_text c v" m 1023 "37 # 115 # b @ [0]" "[VStr (cstring s r)]"]
      loop_str [of "a @ conv_text c v @ m" s 1023 "b @ [0]" r "[]"]
      loop_lit [of "a @ conv_text c v @ m @ s" b 1023 "[0]" "[]"]
    by (simp add: cstring_def loop_end del: conv_text.simps)
  moreover have "no_nul (a @ conv_text c v @ m @ s @ b)" using assms n by (simp add: no_nul_def del: conv_text.simps)
  ultimately show ?thesis by (rule say_eq)
qed

lemma say_num_num:
  assumes "c = CHR ''x'' \<or> c = CHR ''b'' \<or> c = CHR ''d''" "no_nul a" "no_nul m" "no_nul b"
    and "37 \<notin> set a" "37 \<notin> set m" "37 \<notin> set b" "length a + length m + length b < 900"
  shows "say (a @ 37 # ch c # m @ 37 # ch c # b) [VInt v, VInt w] t
    = Inr (t @ a @ conv_text c v @ m @ conv_text c w @ b)"
proof -
  note n = conv_text_chars [OF assms(1), of v] conv_text_chars [OF assms(1), of w]
  have "va_printk_loop 1023 [] (cstring (a @ 37 # ch c # m @ 37 # ch c # b) []) [VInt v, VInt w]
      = Inr (a @ conv_text c v @ m @ conv_text c w @ b)"
    using assms n loop_lit [of "[]" a 1023 "37 # ch c # m @ 37 # ch c # b @ [0]" "[VInt v, VInt w]"]
      loop_num [of a 1023 c "m @ 37 # ch c # b @ [0]" v "[VInt w]"]
      loop_lit [of "a @ conv_text c v" m 1023 "37 # ch c # b @ [0]" "[VInt w]"]
      loop_num [of "a @ conv_text c v @ m" 1023 c "b @ [0]" w "[]"]
      loop_lit [of "a @ conv_text c v @ m @ conv_text c w" b 1023 "[0]" "[]"]
    by (simp add: cstring_def loop_end del: conv_text.simps)
  moreover have "no_nul (a @ conv_text c v @ m @ conv_text c w @ b)"
    using assms n by (simp add: no_nul_def del: conv_text.simps)
  ultimately show ?thesis by (rule say_eq)
qed

text \<open>The text of a partition of one of the two FAT32 types, and that no other type gets through.\<close>

definition partition_text :: "bytes \<Rightarrow> bytes \<Rightarrow> bytes" where
  "partition_text msg p = (let n = (\<lambda>f. of_nat (num_field partition_layout f p) :: u32); x = conv_text CHR ''x'';
       ns = num_field partition_layout ''nsec'' p in
     msg @ ln '':'' @ [9] @ bstr ''bootable  = ''
     @ bstr (if num_field partition_layout ''bootable_p'' p \<noteq> 0 then ''true'' else ''false'') @ [10]
     @ [9] @ bstr ''chs_start = '' @ x (n ''chs_start'') @ [10]
     @ [9] @ bstr ''part type = '' @ x (n ''part_type'') @ bstr '' (FAT32 - ''
     @ bstr (if num_field partition_layout ''part_type'' p = 0xb then ''CHS)'' else ''LBA)'') @ [10]
     @ [9] @ bstr ''chs_end   = '' @ x (n ''chs_end'') @ [10]
     @ [9] @ bstr ''lba_start = '' @ x (n ''lba_start'') @ [10]
     @ [9] @ bstr ''nsector=   = '' @ conv_text CHR ''d'' (of_nat ns) @ bstr '' (''
     @ conv_text CHR ''d'' (of_nat (ns div 2097152)) @ bstr ''GB)'' @ [10])"

lemma partition_lines:
  "no_nul m \<Longrightarrow> length m < 800 \<Longrightarrow> say (ln ''%s:'') [VStr (cstring m r)] t = Inr (t @ m @ ln '':'')"
  "no_nul s \<Longrightarrow> length s < 800 \<Longrightarrow> say (tln ''bootable  = %s'') [VStr (cstring s r)] t
     = Inr (t @ [9] @ bstr ''bootable  = '' @ s @ [10])"
  "say (tln ''chs_start = %x'') [VInt v] t = Inr (t @ [9] @ bstr ''chs_start = '' @ conv_text CHR ''x'' v @ [10])"
  "no_nul s \<Longrightarrow> length s < 800 \<Longrightarrow> say (tln ''part type = %x (%s)'') [VInt v, VStr (cstring s r)] t
     = Inr (t @ [9] @ bstr ''part type = '' @ conv_text CHR ''x'' v @ bstr '' ('' @ s @ ln '')'')"
  "say (tln ''chs_end   = %x'') [VInt v] t = Inr (t @ [9] @ bstr ''chs_end   = '' @ conv_text CHR ''x'' v @ [10])"
  "say (tln ''lba_start = %x'') [VInt v] t = Inr (t @ [9] @ bstr ''lba_start = '' @ conv_text CHR ''x'' v @ [10])"
  "say (tln ''nsector=   = %d (%dGB)'') [VInt v, VInt w] t
     = Inr (t @ [9] @ bstr ''nsector=   = '' @ conv_text CHR ''d'' v @ bstr '' ('' @ conv_text CHR ''d'' w @ ln ''GB)'')"
proof -
  show "no_nul m \<Longrightarrow> length m < 800 \<Longrightarrow> say (ln ''%s:'') [VStr (cstring m r)] t = Inr (t @ m @ ln '':'')"
    using say_str [of "[]" "[58, 10]" m r t] by (simp add: ln_def bstr_def no_nul_def)
  show "no_nul s \<Longrightarrow> length s < 800 \<Longrightarrow> say (tln ''bootable  = %s'') [VStr (cstring s r)] t
     = Inr (t @ [9] @ bstr ''bootable  = '' @ s @ [10])"
    using say_str [of "[9] @ bstr ''bootable  = ''" "[10]" s r t] by (simp add: tln_def bstr_def no_nul_def)
  show "say (tln ''chs_start = %x'') [VInt v] t = Inr (t @ [9] @ bstr ''chs_start = '' @ conv_text CHR ''x'' v @ [10])"
    using say_num [of "CHR ''x''" "[9] @ bstr ''chs_start = ''" "[10]" v t]
    by (simp add: tln_def bstr_def no_nul_def ch_def)
  show "no_nul s \<Longrightarrow> length s < 800 \<Longrightarrow> say (tln ''part type = %x (%s)'') [VInt v, VStr (cstring s r)] t
     = Inr (t @ [9] @ bstr ''part type = '' @ conv_text CHR ''x'' v @ bstr '' ('' @ s @ ln '')'')"
    using say_num_str [of "CHR ''x''" "[9] @ bstr ''part type = ''" "[32, 40]" "[41, 10]" s v r t]
    by (simp add: tln_def ln_def bstr_def no_nul_def ch_def)
  show "say (tln ''chs_end   = %x'') [VInt v] t = Inr (t @ [9] @ bstr ''chs_end   = '' @ conv_text CHR ''x'' v @ [10])"
    using say_num [of "CHR ''x''" "[9] @ bstr ''chs_end   = ''" "[10]" v t]
    by (simp add: tln_def bstr_def no_nul_def ch_def)
  show "say (tln ''lba_start = %x'') [VInt v] t = Inr (t @ [9] @ bstr ''lba_start = '' @ conv_text CHR ''x'' v @ [10])"
    using say_num [of "CHR ''x''" "[9] @ bstr ''lba_start = ''" "[10]" v t]
    by (simp add: tln_def bstr_def no_nul_def ch_def)
  show "say (tln ''nsector=   = %d (%dGB)'') [VInt v, VInt w] t
     = Inr (t @ [9] @ bstr ''nsector=   = '' @ conv_text CHR ''d'' v @ bstr '' ('' @ conv_text CHR ''d'' w @ ln ''GB)'')"
    using say_num_num [of "CHR ''d''" "[9] @ bstr ''nsector=   = ''" "[32, 40]" "[71, 66, 41, 10]" v w t]
    by (simp add: tln_def ln_def bstr_def no_nul_def ch_def)
qed

lemma mbr_partition_print_text:
  assumes "no_nul m" "length m < 800" "mbr_part_is_fat32 (num_field partition_layout ''part_type'' p)"
  shows "mbr_partition_print (cstring m r) p t = Inr (t @ partition_text m p)"
proof -
  let ?ty = "num_field partition_layout ''part_type'' p"
  define nm where "nm = (if ?ty = 0xb then ''FAT32 - CHS'' else ''FAT32 - LBA'')"
  define tf where "tf = (if num_field partition_layout ''bootable_p'' p \<noteq> 0 then ''true'' else ''false'')"
  have nm: "mbr_part_str ?ty = Inr nm" "no_nul (bstr nm)" "length (bstr nm) < 800"
    using assms(3) by (auto simp: mbr_part_is_fat32_def mbr_part_str_def part_names_def nm_def bstr_def no_nul_def)
  have tf: "no_nul (bstr tf)" "length (bstr tf) < 800" by (simp_all add: tf_def bstr_def no_nul_def)
  have ty: "?ty = 0xb \<or> ?ty = 0xc" using assms(3) by (simp add: mbr_part_is_fat32_def)
  have x: "bstr '' (FAT32 - '' @ bstr (if ?ty = 0xb then ''CHS)'' else ''LBA)'') @ u = bstr '' ('' @ bstr nm @ ln '')'' @ tl u"
    if "u = 10 # v" for u v using that by (simp add: nm_def bstr_def ln_def)
  show ?thesis
    unfolding mbr_partition_print_def Let_def tf_def [symmetric] partition_text_def
    by (simp add: partition_lines [unfolded ln_def] nm tf ty assms fnum_def x ln_def del: conv_text.simps)
qed

section \<open>The drivers accept the same cards\<close>

lemma say_ln:
  assumes "no_nul (bstr x)" "37 \<notin> set (bstr x)" "length x < 900"
  shows "say (ln x) [] t = Inr (t @ ln x)"
  using say_lit [of "ln x" t] assms by (simp add: ln_def bstr_def no_nul_def)

lemma sd_says:
  "say (ln ''about to init'') [] t = Inr (t @ ln ''about to init'')"
  "say (ln ''done init'') [] t = Inr (t @ ln ''done init'')"
  "say (ln ''about to read block 0'') [] t = Inr (t @ ln ''about to read block 0'')"
  "say (ln ''read block 0'') [] t = Inr (t @ ln ''read block 0'')"
  by (rule say_ln; simp add: bstr_def no_nul_def)+

lemma sd_trace:
  "says [(bstr ''TRACE:'', []), (ln ''sd_read: lba=<%x>, cksum=%x'', [VInt a, VInt b])] t
   = Inr (t @ bstr ''TRACE:'' @ bstr ''sd_read: lba=<'' @ conv_text CHR ''x'' a @ bstr ''>, cksum='' @ conv_text CHR ''x'' b @ [10])"
proof -
  have "say (bstr ''TRACE:'') [] t = Inr (t @ bstr ''TRACE:'')"
    by (rule say_lit) (simp_all add: bstr_def no_nul_def)
  moreover have "say (ln ''sd_read: lba=<%x>, cksum=%x'') [VInt a, VInt b] u
    = Inr (u @ bstr ''sd_read: lba=<'' @ conv_text CHR ''x'' a @ bstr ''>, cksum='' @ conv_text CHR ''x'' b @ [10])" for u
    using say_num_num [of "CHR ''x''" "bstr ''sd_read: lba=<''" "bstr ''>, cksum=''" "[10]" a b u]
    by (simp add: ln_def bstr_def no_nul_def ch_def)
  ultimately show ?thesis by simp
qed

lemma part_fields:
  assumes "length b = 512"
  shows "length (field mbr_layout ''part_tab1'' b) = 16" "length (field mbr_layout ''part_tab2'' b) = 16"
    "length (field mbr_layout ''part_tab3'' b) = 16" "length (field mbr_layout ''part_tab4'' b) = 16"
    "mbr_get_partition b 0 = Inr (field mbr_layout ''part_tab1'' b)"
  using assms by (simp_all add: field_def mbr_layout_def mbr_get_partition_def)

lemma part_empty_ok: "length p = 16 \<Longrightarrow> mbr_partition_empty p = Inr (\<forall>x \<in> set p. x = 0)"
  by (simp add: mbr_partition_empty_def memiszero_def memiszero_loop_eq)

text \<open>What both ask of the record: its signature, the type of the first partition, and that the rest is empty.\<close>

definition mbr_good :: "bytes \<Rightarrow> bool" where
  "mbr_good b \<longleftrightarrow> num_field mbr_layout ''sigval'' b = 0xAA55
     \<and> mbr_part_is_fat32 (num_field partition_layout ''part_type'' (field mbr_layout ''part_tab1'' b))
     \<and> \<not> (\<forall>x \<in> set (field mbr_layout ''part_tab1'' b). x = 0)
     \<and> (\<forall>f \<in> {''part_tab2'', ''part_tab3'', ''part_tab4''}. \<forall>x \<in> set (field mbr_layout f b). x = 0)"

lemma mbr_check_iff:
  assumes "length b = 512"
  shows "mbr_check b = Inr () \<longleftrightarrow> mbr_good b"
  using part_fields [OF assms]
  by (auto simp: mbr_check_def Let_def mbr_good_def part_empty_ok rbind_eq_Inr c_assert_eq_Inr)

lemma our_crc32_total: "length d = 512 \<Longrightarrow> \<exists>c. our_crc32 d 512 = Inr c"
  by (simp add: our_crc32_def our_crc32_inc_def crc32_loop_eq)

text \<open>
  (C26) The two drivers accept the same cards. For every card that answers a read of its first sector with 512
  bytes, the driver of \<^verbatim>\<open>0-sd-driver\<close>, whose checks are in its \<open>notmain\<close> and come after the print, gets to
  its end exactly when the record passes the \<open>mbr_check\<close> of \<^verbatim>\<open>1-code\<close>, and that is exactly when the first
  part of the driver there gets through; and then both have printed the same partition.
\<close>
theorem sd_drivers_agree:
  assumes "sd_init_ok D" "sd_readblock D 0 1 = (512, b)" "length b = 512"
  shows "((\<exists>t. sd_notmain0 D [] = Inr t) \<longleftrightarrow> mbr_check b = Inr ())
    \<and> ((\<exists>p t. driver_part1 D [] = Inr (p, t)) \<longleftrightarrow> mbr_check b = Inr ())
    \<and> (mbr_check b = Inr () \<longrightarrow>
        (\<exists>pre pre'. let p = field mbr_layout ''part_tab1'' b in
           sd_notmain0 D [] = Inr (pre @ partition_text (bstr ''partition 1'') p)
           \<and> driver_part1 D [] = Inr (p, pre' @ partition_text (bstr ''partition 0'') p)))"
proof -
  let ?p = "field mbr_layout ''part_tab1'' b"
  note e = part_fields [OF assms(3)]
  have pr: "mbr_partition_print (cstring (bstr m) []) ?p t = Inr (t @ partition_text (bstr m) ?p)"
    if "mbr_good b" "m = ''partition 1'' \<or> m = ''partition 0''" for m t
    using that by (intro mbr_partition_print_text) (auto simp: mbr_good_def bstr_def no_nul_def)
  obtain c where c: "our_crc32 b 512 = Inr c" using our_crc32_total [OF assms(3)] by blast
  let ?pre = "ln ''about to init'' @ ln ''done init'' @ ln ''about to read block 0'' @ ln ''read block 0''"
  let ?pre' = "bstr ''TRACE:'' @ bstr ''sd_read: lba=<'' @ conv_text CHR ''x'' 0 @ bstr ''>, cksum=''
    @ conv_text CHR ''x'' c @ [10]"
  have n0: "sd_notmain0 D [] = Inr (?pre @ partition_text (bstr ''partition 1'') ?p)" if "mbr_good b"
    using that assms e pr [OF that] by (simp add: sd_notmain0_def sd_says pi_sd_init_def sec_read_def pi_sd_read0_def
        mbr_check0_def part_empty_eq part_empty_ok mbr_good_def)
  have g0: "mbr_good b" if "sd_notmain0 D [] = Inr t" for t
    using that assms e by (auto simp: sd_notmain0_def sd_says pi_sd_init_def sec_read_def pi_sd_read0_def
        mbr_check0_def part_empty_eq part_empty_ok mbr_good_def rbind_eq_Inr c_assert_eq_Inr Let_def)
  have r: "pi_sec_read D 0 1 [] = Inr (b, ?pre')"
    using assms c sd_trace [of 0 c "[]"] by (simp add: pi_sec_read_def pi_sd_read_def)
  have n1: "driver_part1 D [] = Inr (?p, ?pre' @ partition_text (bstr ''partition 0'') ?p)" if "mbr_good b"
    using that assms e pr [OF that] r mbr_check_iff [OF assms(3)]
    by (simp add: driver_part1_def pi_sd_init_def del: conv_text.simps)
  have g1: "mbr_good b" if "driver_part1 D [] = Inr x" for x
    using that assms r mbr_check_iff [OF assms(3)]
    by (auto simp: driver_part1_def pi_sd_init_def rbind_eq_Inr simp del: conv_text.simps)
  show ?thesis unfolding mbr_check_iff [OF assms(3)] Let_def
    using n0 g0 n1 g1 by blast
qed

text \<open>A record with one FAT32 partition, and a card that has it.\<close>

definition sample_mbr :: bytes where
  "sample_mbr = replicate 450 0 @ [0x0c] @ replicate 59 0 @ [0x55, 0xAA]"

definition sample_card :: sd_card where
  "sample_card = \<lparr>sd_init_ok = True, sd_readblock = \<lambda>lba n. (512 * n, sample_mbr)\<rparr>"

theorem sd_drivers_agree_witness:
  "(\<exists>t. sd_notmain0 sample_card [] = Inr t) \<longleftrightarrow> mbr_check sample_mbr = Inr ()"
proof -
  have "sd_init_ok sample_card" "sd_readblock sample_card 0 1 = (512, sample_mbr)" "length sample_mbr = 512"
    by (simp_all add: sample_card_def sample_mbr_def)
  from sd_drivers_agree [OF this] show ?thesis by blast
qed

lemma sample_mbr_good: "mbr_check sample_mbr = Inr ()"
proof -
  have "length sample_mbr = 512" by (simp add: sample_mbr_def)
  moreover have "mbr_good sample_mbr"
    by (simp add: mbr_good_def sample_mbr_def num_field_def field_def mbr_layout_def partition_layout_def
        mbr_part_is_fat32_def)
  ultimately show ?thesis by (simp add: mbr_check_iff)
qed

end
