(* ===== verification/Lab_Copies.thy ===== *)
theory Lab_Copies
  imports Sd_Driver Vm14 Interpose Tty Pi_Runtime Bootloader
begin

text \<open>
  Routines that a lab has a copy of. A copy that is the same code is defined by the model of the original; one
  that differs is written out, with a lemma that says where the two agree and where they do not.
\<close>

section \<open>labs/13-fat32/0-sd-driver: the structs\<close>

definition sd_mbr_layout :: layout where "sd_mbr_layout = mbr_layout"
definition sd_partition_layout :: layout where "sd_partition_layout = partition_layout"
definition sd_fsinfo_layout :: layout where "sd_fsinfo_layout = fsinfo_layout"
definition sd_boot_sec_layout :: layout where "sd_boot_sec_layout = boot_sec_layout"
definition sd_dir_layout :: layout where "sd_dir_layout = dir_layout"
definition sd_lfn_layout :: layout where "sd_lfn_layout = lfn_layout"
definition sd_mbr_offsets :: "(string \<times> nat \<times> nat) list" where "sd_mbr_offsets = mbr_offsets"
definition sd_fsinfo_offsets :: "(string \<times> nat \<times> nat) list" where "sd_fsinfo_offsets = fsinfo_offsets"
definition sd_boot_sec_offsets :: "(string \<times> nat \<times> nat) list" where "sd_boot_sec_offsets = boot_sec_offsets"
definition sd_dir_offsets :: "(string \<times> nat \<times> nat) list" where "sd_dir_offsets = dir_offsets"
definition sd_lfn_offsets :: "(string \<times> nat \<times> nat) list" where "sd_lfn_offsets = lfn_offsets"
definition sd_mbr_part_str :: "nat \<Rightarrow> string result" where "sd_mbr_part_str = mbr_part_str"
definition sd_mbr_partition_print :: "bytes \<Rightarrow> bytes \<Rightarrow> bytes \<Rightarrow> bytes result" where
  "sd_mbr_partition_print = mbr_partition_print"

section \<open>labs/14-vm: structs and prints\<close>

definition tlb_config14 :: bf_layout where
  "tlb_config14 = [(''unified_p'', 1), (''_sbz0'', 7), (''n_d_lock'', 8), (''n_i_lock'', 8), (''_sbz1'', 8)]"

definition control_reg1_14 :: bf_layout where
  "control_reg1_14 =
     [(''MMU_enabled'', 1), (''A_alignment'', 1), (''C_unified_enable'', 1), (''W_write_buf'', 1),
      (''_unused1'', 3), (''B_endian'', 1), (''S_prot'', 1), (''R_rom_prot'', 1), (''F'', 1),
      (''Z_branch_pred'', 1), (''I_icache_enable'', 1), (''V_high_except_v'', 1), (''RR_cache_rep'', 1),
      (''L4'', 1), (''_dt'', 1), (''_sbz0'', 1), (''_it'', 1), (''_sbz1'', 1), (''_st'', 1), (''F1'', 1),
      (''U_unaligned'', 1), (''XP_pt'', 1), (''VE_vect_int'', 1), (''EE'', 1), (''L2_enabled'', 1),
      (''_reserved0'', 1), (''TR_tex_remap'', 1), (''FA_force_ap'', 1), (''_reserved1'', 2)]"

definition hash_print14 :: "bytes \<Rightarrow> bytes \<Rightarrow> u32 \<Rightarrow> bytes \<Rightarrow> bytes result" where
  "hash_print14 = hash_print"

definition control_reg1_print14 :: "u32 \<Rightarrow> bytes \<Rightarrow> bytes result" where
  "control_reg1_print14 r t =
     rbind (control_reg1_sanity_check14 r) (\<lambda>_.
     rbind (say (ln ''system control reg='') [] t) (print_fields control_reg1_14 r control_reg1_shown))"

definition tlb_config_print14 :: "u32 \<Rightarrow> bytes \<Rightarrow> bytes result" where
  "tlb_config_print14 c t =
     (let g = \<lambda>f. [VInt (get_field tlb_config14 f c)] in
      says [(ln ''TLB config:'', []), (tln ''unified=%d'', g ''unified_p''),
            (tln ''lockable data ent=%d'', g ''n_d_lock''), (tln ''lockable inst ent=%d'', g ''n_i_lock'')] t)"

definition fld_print14 :: "u32 \<Rightarrow> u32 \<Rightarrow> bytes \<Rightarrow> bytes result" where
  "fld_print14 = fld_print"

text \<open>The values of the registers are arguments.\<close>

definition tlbr_print :: "u32 \<Rightarrow> u32 \<Rightarrow> u32 \<Rightarrow> bytes \<Rightarrow> bytes result" where
  "tlbr_print r0 r1 n t =
     rbind (ttbr_get r0 0) (\<lambda>(base0, rgn0). rbind (ttbr_get r1 0) (\<lambda>(base1, rgn1).
       says [(ln ''TLBR registers:'', []), (tln ''tlb base control: N=%b'', [VInt n]),
             (tln ''TTBR0: base=%x, rgn=%b'', [VInt base0, VInt rgn0]),
             (tln ''TTBR1: base=%x, rgn=%b'', [VInt base1, VInt rgn1])] t))"

definition domain_acl_print14 :: "u32 \<Rightarrow> bytes \<Rightarrow> bytes result" where
  "domain_acl_print14 d t = says [(ln ''domain access control:'', []), (tln ''%b'', [VInt d])] t"

lemma lab14_prints:
  "control_reg1_print14 = control_reg1_print" "tlb_config_print14 = tlb_config_print"
  "domain_acl_print14 (read_domain_access_ctrl s) = domain_acl_print s"
  by (simp_all add: fun_eq_iff control_reg1_print14_def control_reg1_print_def control_reg1_sanity_check14_def
      control_reg1_14_def control_reg1_def tlb_config_print14_def tlb_config_print_def tlb_config14_def
      tlb_config_def domain_acl_print14_def domain_acl_print_def)

section \<open>labs/5-replay: the pretty printer of log-util.c, the terminal of pty-ex.c\<close>

definition lu_pretty_print_op :: "msg \<Rightarrow> bytes result" where
  "lu_pretty_print_op = pretty_print_op"

definition lu_pretty_print :: "msg list \<Rightarrow> bytes result" where
  "lu_pretty_print = pretty_print"

text \<open>In this version of \<open>set_tty_to_8n1\<close> a second is ten tenths, and a failure exits instead of panicking.\<close>

definition set_tty_pty :: "bool \<Rightarrow> bool \<Rightarrow> u32 \<Rightarrow> int \<Rightarrow> termios result" where
  "set_tty_pty get put speed tenths =
     (if \<not> get then sys_die ''tcgetattr failed''
      else
        (let tty = zero_termios\<lparr>c_speed := speed\<rparr>;
             tty = tty\<lparr>c_iflag := c_iflag tty AND NOT IGNBRK, c_lflag := 0, c_oflag := 0, c_vmin := 0\<rparr>
         in rbind (c_assert (tenths < 1000 \<and> 0 < tenths) ''timeout < 100 && timeout > 0'') (\<lambda>_.
         let tty = tty\<lparr>c_vtime := word_of_int (tenths div 10 * 10)\<rparr>;
             tty = tty\<lparr>c_cflag := c_cflag tty AND NOT PARENB\<rparr>;
             tty = tty\<lparr>c_cflag := c_cflag tty AND NOT CSTOPB\<rparr>;
             tty = tty\<lparr>c_cflag := c_cflag tty AND NOT CSIZE\<rparr>;
             tty = tty\<lparr>c_cflag := c_cflag tty OR CS8\<rparr>;
             tty = tty\<lparr>c_cflag := c_cflag tty AND NOT CRTSCTS\<rparr>;
             tty = tty\<lparr>c_cflag := c_cflag tty OR CREAD OR CLOCAL\<rparr>;
             tty = tty\<lparr>c_iflag := c_iflag tty AND NOT (IXON OR IXOFF OR IXANY)\<rparr>;
             tty = tty\<lparr>c_iflag := c_iflag tty AND NOT (ICANON OR ECHO OR ECHOE OR ISIG)\<rparr>;
             tty = tty\<lparr>c_oflag := c_oflag tty AND NOT OPOST\<rparr>
         in if \<not> put then sys_die ''tcsetattr failed'' else Inr tty)))"

text \<open>The two versions set the same line and differ in the time limit.\<close>

lemma set_tty_pty_agrees:
  "set_tty_pty True True speed tenths =
     rbind (set_tty_to_8n1 True True speed tenths) (\<lambda>t. Inr (t\<lparr>c_vtime := word_of_int (tenths div 10 * 10)\<rparr>))"
  by (simp add: set_tty_pty_def set_tty_to_8n1_def zero_termios_def Let_def rbind_def c_assert_def)

section \<open>labs/2-bootloader, labs/11-fuse: the laptop side of the bootloader\<close>

definition boot_set_tty :: "bool \<Rightarrow> bool \<Rightarrow> u32 \<Rightarrow> int \<Rightarrow> termios result" where
  "boot_set_tty = set_tty_to_8n1"

definition shared_crc32_tab :: "u32 list" where "shared_crc32_tab = boot_crc32_tab"

definition shared_crc32_inc :: "bytes \<Rightarrow> u32 \<Rightarrow> u32 \<Rightarrow> u32 result" where
  "shared_crc32_inc buf n crc =
     rbind (tab_crc32_loop shared_crc32_tab buf (unat n) (crc XOR NOT 0)) (\<lambda>c. Inr (c XOR NOT 0))"

definition shared_crc32 :: "bytes \<Rightarrow> u32 \<Rightarrow> u32 result" where
  "shared_crc32 buf n = shared_crc32_inc buf n 0"

lemma shared_crc32_eq: "shared_crc32 = our_crc32"
  by (simp add: fun_eq_iff shared_crc32_def shared_crc32_inc_def shared_crc32_tab_def crc_tabs_eq
      tab_crc32_loop_eq our_crc32_def our_crc32_inc_def)

definition put_byte11 :: "u8 \<Rightarrow> fd_t \<Rightarrow> fd_t result" where "put_byte11 = put_byte"
definition get_byte11 :: "fd_t \<Rightarrow> (u8 \<times> fd_t) result" where "get_byte11 = get_byte"
definition get_uint32_11 :: "fd_t \<Rightarrow> (u32 \<times> fd_t) result" where "get_uint32_11 = Bootloader.get_uint32"
definition put_uint32_11 :: "u32 \<Rightarrow> fd_t \<Rightarrow> fd_t result" where "put_uint32_11 = Bootloader.put_uint32"

definition ck_eq32_11 :: "u32 \<Rightarrow> u32 \<Rightarrow> unit result" where
  "ck_eq32_11 expect got = (if expect = got then Inr () else Inl (Panic ''pi-boot failed''))"

definition simple_boot11 :: "unit result" where "simple_boot11 = Inl Unimplemented"

section \<open>labs/7-interrupts: the timer and the vectors\<close>

definition rpi_arm_timer_ctrl7 :: bf_layout where "rpi_arm_timer_ctrl7 = rpi_arm_timer_ctrl_t"
definition timer_check_offsets7 :: "unit result" where "timer_check_offsets7 = timer_check_offsets"

definition timer_interrupt_init7 :: "u32 \<Rightarrow> (u32 \<times> u32) list result" where
  "timer_interrupt_init7 ncycles =
     rbind timer_check_offsets7 (\<lambda>_.
       Inr [(Enable_Basic_IRQs, RPI_BASIC_ARM_TIMER_IRQ), (arm_timer_Load, ncycles),
            (arm_timer_Control, push_bit 1 1 OR push_bit 7 1 OR push_bit 5 1 OR push_bit 2 2)])"

text \<open>The lab's timer is divided by 256, as both comments say, the library's by 16.\<close>

lemma timer_prescalers:
  "timer_interrupt_init7 n = Inr ps \<Longrightarrow> get_field rpi_arm_timer_ctrl7 ''prescaler'' (snd (ps ! 2)) = 2"
  "timer_interrupt_init n = Inr qs \<Longrightarrow> get_field rpi_arm_timer_ctrl_t ''prescaler'' (snd (qs ! 2)) = 1"
  by (auto simp: timer_interrupt_init7_def timer_interrupt_init_def rbind_eq_Inr rpi_arm_timer_ctrl7_def
      get_field_def rpi_arm_timer_ctrl_t_def)

definition int_init7 :: "ram \<Rightarrow> u32 \<Rightarrow> nat \<Rightarrow> (u32 \<times> u32) list \<times> ram" where "int_init7 = int_init"
definition int_init_syscall :: "ram \<Rightarrow> u32 \<Rightarrow> nat \<Rightarrow> (u32 \<times> u32) list \<times> ram" where "int_init_syscall = int_init"

text \<open>The vectors nobody overrides: each panics with its name.\<close>

definition int_unhandled :: "string \<Rightarrow> u32 \<Rightarrow> unit result" where
  "int_unhandled msg pc = Inl (Panic (''ERROR: unhandled exception <'' @ msg @ ''> at PC=%x''))"

definition unhandled_vectors :: "(string \<times> (u32 \<Rightarrow> unit result)) list" where
  "unhandled_vectors =
     map (\<lambda>(v, msg). (v, int_unhandled msg))
       [(''fast_interrupt_vector'', ''fast''), (''software_interrupt_vector'', ''soft interrupt''),
        (''reset_vector'', ''reset vector''), (''undefined_instruction_vector'', ''undefined instruction''),
        (''prefetch_abort_vector'', ''prefetch abort''), (''data_abort_vector'', ''data abort'')]"

text \<open>\<^verbatim>\<open>syscall.c\<close>: the number of the call is never found, a stub; what is done with each number.\<close>

definition syscall_do :: "u32 \<Rightarrow> bytes \<Rightarrow> bytes \<Rightarrow> (int \<times> bytes) result" where
  "syscall_do sys_num arg t =
     (if sys_num = 1 then rbind (say (ln ''syscall: <%s>'') [VStr arg] t) (\<lambda>t1. Inr (0, t1))
      else rbind (say (ln ''illegal system call = %d!'') [VInt sys_num] t) (\<lambda>t1. Inr (- 1, t1)))"

definition syscall_vector :: "u32 \<Rightarrow> u32 \<Rightarrow> (int \<times> bytes) result" where
  "syscall_vector pc r0 = Inl Unimplemented"

end
