(* ===== verification/Spec2Isabelle.thy ===== *)
theory Spec2Isabelle
  imports Circular_Conc Crc Libc Printk Pi_Random Interpose Fat32 Threads Esp_Run Mmu Bootloader Fake_Pi
    Pi_Runtime Ping_Pong Esp9 Ring_Test Unix_Files Vm14 Hello_Fs Esp_Cat Trace_Files
    Fake_Driver Pi_Cat Tty Pi_Trace Dump Pipes Fd_Table
    Thread_Tests Device_Tests Sd_Driver Lab_Copies
begin

text \<open>
  A verification development for the code of the cs140e labs: a small operating system kit for the
  Raspberry Pi (\<^verbatim>\<open>libpi\<close>), its laptop side (\<^verbatim>\<open>libunix\<close>), the fake Pi on which programs are tested
  (\<^verbatim>\<open>libpi-fake\<close>) and the labs that build on them (\<^verbatim>\<open>labs/\<close>).

  \<^bold>\<open>The program.\<close> A Pi program is linked with \<^verbatim>\<open>libpi\<close>: start-up code, a small C library, formatted
  output, interrupts, and a lock-free ring buffer that carries bytes between an interrupt handler and
  the program. The laptop sends the program over a serial line with the bootloader of
  \<^verbatim>\<open>labs/2-bootloader\<close>, which checks a CRC32, and then echoes what the Pi prints until it announces
  the end. \<^verbatim>\<open>labs/5-replay\<close> records such a session as a log and parses it; \<^verbatim>\<open>labs/6-threads\<close> adds a
  threads package over intrusive queues; \<^verbatim>\<open>labs/10-esp8266\<close> drives a wifi chip by its AT commands
  through a lexer with checkpoints, a parser of format strings and a command runner;
  \<^verbatim>\<open>labs/11-fuse\<close> runs Pi programs on the laptop and ships their device accesses to the Pi;
  \<^verbatim>\<open>labs/13-fat32\<close> reads a FAT32 file system; \<^verbatim>\<open>labs/15-vm-ops\<close> sets up the memory management unit.

  \<^bold>\<open>How it is modelled.\<close> C integers are words of their width; a struct is a record, an enum or union a
  datatype; memory is either the object a pointer points to (a list, out-of-range accesses are the
  fault \<open>Bounds\<close>) or, where addresses matter, a map from 32-bit addresses to bytes. A routine that can
  stop (\<open>panic\<close>, \<open>assert\<close>, \<open>demand\<close>, \<open>unimplemented\<close>, a blocking read that never returns) has the
  result type \<open>fault + 'a\<close>, and its sequence of statements is a chain of \<open>rbind\<close>. Loops are recursion,
  with a termination proof where it is not structural; loops that may run forever have fuel, and
  using it up is the fault \<open>Diverges\<close>, so every statement that such a loop returns also shows that the
  fuel is enough. Input devices are scripts of what their next reads return. Code that is not in
  the repository in source form (assembly, object files, the allocator) is a parameter; what is
  assumed of it is a named hypothesis with a concrete instance as witness.

  \<^bold>\<open>The theories.\<close>

  \<^item> \<open>Prelude\<close>: C types, faults and results, words in little-endian bytes, flat memory, the shared
    lemmas and the collections \<open>opcodes\<close>, \<open>layouts\<close> and \<open>inversions\<close>.
  \<^item> \<open>Circular\<close>: \<^verbatim>\<open>libpi/libc/circular.h\<close>. The ring refines a bounded FIFO (locale \<open>bounded_fifo\<close>,
    interpreted on the ring operations); bulk operations; the off-by-one of \<open>cq_nspace\<close>.
  \<^item> \<open>Ring_Ckpt\<close>: when writing an old value back into the tail of a ring makes the bytes consumed since
    then unread again, which the lexers of both esp libraries rely on. \<open>Ring_Test\<close>: the copy of the ring
    in \<^verbatim>\<open>labs/6-threads\<close> and its self-test.
  \<^item> \<open>Circular_Conc\<close>: the same operations split at every access to a volatile field, under an arbitrary
    schedule of one producer and one consumer: every interleaving is linearizable, and a consumer
    left alone ends its call.
  \<^item> \<open>Crc\<close>: \<^verbatim>\<open>crc.c\<close> and its copies; the table-driven checksum equals the bit-serial one and detects
    every burst of up to four bytes.
  \<^item> \<open>Libc\<close>: \<^verbatim>\<open>libpi/libc\<close> memory, string, hash and random routines. \<open>Printk\<close>: its formatted output.
  \<^item> \<open>Pi_Random\<close>: \<^verbatim>\<open>libpi-fake\<close>, the random number generator (it refines an additive feedback
    recurrence), the fake clock and pins.
    \<open>Fake_Driver\<close>: its tracing routines and driver, and the programs of \<^verbatim>\<open>labs/3-cross-check\<close> that run on it.
    \<open>Pi_Trace\<close>: \<^verbatim>\<open>pi-trace\<close> of the same lab, which reports each read of a device.
  \<^item> \<open>Replay_Log\<close>: \<^verbatim>\<open>labs/5-replay/code\<close>, the log reader in both versions (locale \<open>log_reader\<close>) and
    the trace parser. \<open>Interpose\<close>: the pretty printer, which prints every trace of the boot protocol
    without strings to print, and the replay of a log with one corrupted byte.
    \<open>Pipes\<close>, \<open>Fd_Table\<close>: the programs of \<^verbatim>\<open>useful-examples\<close> in the same lab. Two processes that share a pipe,
    under every interleaving: they end, and whether the message arrives, whether there is a deadlock,
    and what the end of the pipe says about the other process. What a program started with redirected
    descriptors finds in its table.
  \<^item> \<open>Utf8\<close>, \<open>Fat32\<close>: \<^verbatim>\<open>labs/13-fat32/1-code\<close>, layouts, FAT entries, long and short names, directory
    lookup.
    \<open>Dump\<close>: what these programs and those of \<^verbatim>\<open>labs/15-vm-ops\<close> print about their structures.
    \<open>Sd_Driver\<close>: reading the card, and the drivers of \<^verbatim>\<open>0-sd-driver\<close> and \<^verbatim>\<open>1-code\<close>, which accept the same
    cards. \<open>Lab_Copies\<close>: routines that a lab has a copy of, and where a copy differs.
  \<^item> \<open>Threads\<close>: \<^verbatim>\<open>labs/6-threads/2-threads.new\<close>, \<^verbatim>\<open>Q.h\<close> as a linked list in a heap (locale
    \<open>heap_queue\<close>) that refines a list, and the allocation of thread blocks.
    \<open>Thread_Tests\<close>: its test programs under every schedule. \<open>Device_Tests\<close>: the test of the edge
    interrupts of \<^verbatim>\<open>labs/8-device-interrupts\<close>, the receiving side of the software uart, and the reboot.
  \<^item> \<open>Esp_Lex\<close>, \<open>Esp_Parse\<close>, \<open>Esp_Run\<close>: \<^verbatim>\<open>labs/10-esp8266/libesp\<close>. The lexers meet one contract (locales
    \<open>lex_buffer\<close> and \<open>lexer\<close>, each interpreted on the ring and on the flat buffer); tokens and formats
    are matched as a reference scan of the bytes to come does, whatever the chunking; commands are
    sent and their answers recognised.
    \<open>Ping_Pong\<close>: the two programs of \<^verbatim>\<open>1-ping-pong\<close> over the library, each fed with what the other sends.
  \<^item> \<open>Esp9\<close>: \<^verbatim>\<open>labs/9-esp8266/libesp\<close>, the first version of the esp library. Its lexer is a third instance
    of the same locales, and its command runner is compared with the later one. \<open>Esp_Cat\<close>: \<^verbatim>\<open>esp-cat\<close> of
    the same lab.
  \<^item> \<open>Mmu\<close>: \<^verbatim>\<open>labs/15-vm-ops/code\<close>, bit-field layouts and their start-up check, enabling and
    disabling, page-table allocation. \<open>Vm14\<close>: \<^verbatim>\<open>labs/14-vm/code\<close>, the descriptors and the test of the first
    virtual-memory lab.
  \<^item> \<open>Unix_Io\<close>: \<^verbatim>\<open>libunix\<close>, exact reads and writes and the echo loop. \<open>Bootloader\<close>:
    \<^verbatim>\<open>labs/2-bootloader\<close>, both ends of the line and the printing protocol. \<open>Fake_Pi\<close>:
    \<^verbatim>\<open>labs/11-fuse/2-fake-pi\<close>, where device accesses through the runtime, the line and the server
    refine direct accesses.
  \<^item> \<open>Unix_Files\<close>: \<^verbatim>\<open>libunix/log-fns.c\<close> and \<^verbatim>\<open>get-exitcode.c\<close>, the log files of test runs and the exit codes
    of children. \<open>Trace_Files\<close>: \<^verbatim>\<open>labs/5-replay/code/trace.c\<close>, the files that keep new traces. \<open>Hello_Fs\<close>:
    \<^verbatim>\<open>labs/11-fuse/0-hello\<close>, the four operations FUSE calls. \<open>Pi_Cat\<close>, \<open>Tty\<close>: the relay between the user
    and the Pi, the arguments of \<^verbatim>\<open>my-install\<close>, and the settings of the serial line.
  \<^item> \<open>Pi_Runtime\<close>: \<^verbatim>\<open>libpi/cs140e-src\<close> and \<^verbatim>\<open>libpi/cs140e-interrupt\<close>, start-up, delays, timer
    interrupts, and the example that passes characters from an interrupt handler to the program.

  \<^bold>\<open>Bounds and fuel.\<close> The ring size is a parameter that divides \<open>2 ^ 32\<close> (all sizes in use do); the
  wrap-around of \<open>(head - tail) % N\<close> is only right then. The tracer of \<open>Pi_Trace\<close> needs two levels of calls, and for
  each character printed as many accesses as \<open>uart_putc\<close> makes. The loops of the esp code have the number of
  events on the line as fuel, the server loop of \<open>Fake_Pi\<close> the number of bytes it is given, the echo
  loop one round per arrival: each round consumes at least one of them. The theorems state that the
  loops return with that fuel.

  \<^bold>\<open>Not modelled.\<close> Routines that are \<open>unimplemented()\<close> stubs are modelled up to the stub; where the programs
  above one are the subject (the threads of \<open>Thread_Tests\<close>, the counting handler of \<open>Device_Tests\<close>, the
  mapping of \<open>Vm14\<close>) the stub is a parameter instead: an arbitrary schedule, a script of counts, routines with
  documented behaviour. Assembly,
  object files, vendored code (\<^verbatim>\<open>platform.h\<close>, the fuse examples of \<^verbatim>\<open>labs/12-fuse\<close>), thin wrappers of
  system calls, test drivers and the first version of \<^verbatim>\<open>libpi-fake\<close> in \<^verbatim>\<open>labs/3-cross-check\<close> are left
  out. Debugging output is left out where nothing depends on it. The memory model of the concurrent queue is sequentially consistent, as on the
  single core of the Pi.
\<close>

section \<open>From the reboot of the Pi to the exit on the laptop\<close>

text \<open>The console of a Pi program is the line: the state is what has been sent.\<close>

lemma clean_reboot_sends: "pi_clean_reboot line_console s = Inr (s @ exit_string)"
proof -
  have "no_nul exit_string" by (simp add: no_nul_def exit_string_def bstr_def)
  from internal_putk_line [OF this, of "[]" s] show ?thesis
    by (simp add: pi_clean_reboot_def putk_def line_console_def exit_string_def)
qed

lemma remove_nonprint_exit: "remove_nonprint exit_string = exit_string"
  by (simp add: remove_nonprint_def exit_string_def bstr_def isprint_def isspace_c_def)

text \<open>
  (C32) When a Pi program that has printed \<open>pre\<close> calls \<open>clean_reboot\<close>, what the echo loop of the laptop
  does is decided by the state \<open>p\<close> in which \<open>pre\<close> leaves the search for the announcement. From the start
  state the loop leaves with a clean exit: however the line cuts the output into arrivals (of at most
  the 4095 bytes one read takes), it takes one round per arrival, and everything the Pi sent has been
  echoed, unprintable characters as blanks. In the middle of a match, as after a \<open>D\<close>, the announcement is
  not seen and the loop goes on polling the silent line for ever. Nothing is typed on the laptop meanwhile, there is no pause between two
  arrivals (it would cost a round), and \<open>pre\<close> does not
  hold the announcement itself.
\<close>
theorem reboot_ends_echo:
  assumes "pi_clean_reboot line_console pre = Inr sent" "concat bs = sent"
    and "\<forall>b \<in> set bs. b \<noteq> [] \<and> length b \<le> 4095" "pi_done 0 (remove_nonprint pre) = Inr (False, p)"
  shows "if p = 0
    then \<exists>s. pi_echo (length bs) gone quiet_fd (arrivals bs) = Inr (PiExited, s)
      \<and> echo_out s = remove_nonprint sent
    else \<forall>k. pi_echo k gone quiet_fd (arrivals bs) = Inl Diverges"
proof -
  have sent: "remove_nonprint (concat bs) = remove_nonprint pre @ exit_string"
    using assms(1,2) by (auto simp: clean_reboot_sends remove_nonprint_exit)
  show ?thesis
  proof (cases "p = 0")
    case True
    with pi_echo_ends_from [OF assms(3) sent, of gone] assms(2,4) sent show ?thesis by simp
  next
    case False
    have "p < 8" using pi_done_total [of 0 "remove_nonprint pre"] assms(4) by auto
    then have "pi_done 0 (remove_nonprint (concat bs)) = Inr (False, 0)"
      using pi_done_exit_from [of p] False assms(4) sent by (simp add: pi_done_append)
    with pi_echo_loop_waits [OF assms(3), of 0 0] False show ?thesis
      by (simp add: pi_echo_def echo_at_def)
  qed
qed

text \<open>The same program with a \<open>D\<close> as its last character, and without.\<close>

theorem reboot_ends_echo_witness:
  "(\<exists>s. pi_echo 2 False quiet_fd (arrivals [[68, 105, 0, 68, 79], [78, 69, 33, 33, 33, 10]]) = Inr (PiExited, s)
    \<and> echo_out s = bstr ''Di DONE!!!'' @ [10])
   \<and> (\<forall>k. pi_echo k False quiet_fd (arrivals [[105, 68, 68, 79], [78, 69, 33, 33, 33, 10]]) = Inl Diverges)"
proof
  let ?bs = "[[68, 105, 0, 68, 79], [78, 69, 33, 33, 33, 10]] :: bytes list"
  have r: "pi_clean_reboot line_console [68, 105, 0] = Inr (concat ?bs)"
    by (simp add: clean_reboot_sends exit_string_def bstr_def)
  have l: "\<forall>b \<in> set ?bs. b \<noteq> [] \<and> length b \<le> 4095" by simp
  have p: "pi_done 0 (remove_nonprint [68, 105, 0]) = Inr (False, 0)"
    by (simp add: remove_nonprint_def isprint_def isspace_c_def exit_string_def bstr_def)
  have t: "remove_nonprint (concat ?bs) = bstr ''Di DONE!!!'' @ [10]"
    by (simp add: remove_nonprint_def isprint_def isspace_c_def bstr_def)
  have "length ?bs = 2" by simp
  with reboot_ends_echo [OF r refl l p, of False] t
  show "\<exists>s. pi_echo 2 False quiet_fd (arrivals ?bs) = Inr (PiExited, s) \<and> echo_out s = bstr ''Di DONE!!!'' @ [10]"
    by (metis (no_types))
next
  let ?bs = "[[105, 68, 68, 79], [78, 69, 33, 33, 33, 10]] :: bytes list"
  have r: "pi_clean_reboot line_console [105, 68] = Inr (concat ?bs)"
    by (simp add: clean_reboot_sends exit_string_def bstr_def)
  have l: "\<forall>b \<in> set ?bs. b \<noteq> [] \<and> length b \<le> 4095" by simp
  have p: "pi_done 0 (remove_nonprint [105, 68]) = Inr (False, 1)"
    by (simp add: remove_nonprint_def isprint_def isspace_c_def exit_string_def bstr_def)
  from reboot_ends_echo [OF r refl l p, of False]
  show "\<forall>k. pi_echo k False quiet_fd (arrivals ?bs) = Inl Diverges" by simp
qed

end
